(* ===== verification/LS_Prelude.thy ===== *)
theory LS_Prelude
  imports
    Main
    "HOL-Library.Sublist"
begin

text \<open>
  The prelude of the development: the exceptions the C++ code throws as values of a result
  type, the fixed-width conversions the code performs, decimal formatting (what
  \<^verbatim>\<open>fmt::format("{}")\<close> prints for an unsigned integer), and the list lemmas that
  the component theories share.
\<close>

section \<open>Results and exceptions\<close>

text \<open>
  A C++ function that may throw returns a value of \<open>exn + 'a\<close>. The constructors name the
  standard exception types that the sources throw, plus the ways in which the code can stop
  without an exception object: a failed \<^verbatim>\<open>assert\<close>, a null dereference, and
  an access outside an array that no check guards (undefined behaviour of the language).
\<close>

datatype exn =
    OutOfRange
  | InvalidArgument
  | RuntimeError
  | LogicError
  | BadCast
  | BadVariantAccess
  | BadOptionalAccess
  | AssertFailed
  | NullDeref
  | UndefinedBehavior

type_synonym 'a res = "exn + 'a"

definition rbind :: "'a res \<Rightarrow> ('a \<Rightarrow> 'b res) \<Rightarrow> 'b res" where
  "rbind m f = (case m of Inl e \<Rightarrow> Inl e | Inr x \<Rightarrow> f x)"

lemma rbind_simps [simp]:
  "rbind (Inl e) f = Inl e"
  "rbind (Inr x) f = f x"
  by (simp_all add: rbind_def)

lemma rbind_eq_Inr [simp]:
  "rbind m f = Inr y \<longleftrightarrow> (\<exists>x. m = Inr x \<and> f x = Inr y)"
  by (cases m) auto

text \<open>A loop \<^verbatim>\<open>for (x : xs)\<close> whose body updates a state and may throw.\<close>

fun rfold :: "('a \<Rightarrow> 's \<Rightarrow> 's res) \<Rightarrow> 'a list \<Rightarrow> 's \<Rightarrow> 's res" where
  "rfold f [] s = Inr s"
| "rfold f (x # xs) s = rbind (f x s) (rfold f xs)"

lemma rfold_append: "rfold f (xs @ ys) s = rbind (rfold f xs s) (rfold f ys)"
  by (induction xs arbitrary: s) (auto simp: rbind_def split: sum.splits)

lemma rfold_invariant:
  assumes "rfold f xs s = Inr t" "P s"
    and "\<And>x s s'. x \<in> set xs \<Longrightarrow> P s \<Longrightarrow> f x s = Inr s' \<Longrightarrow> P s'"
  shows "P t"
  using assms by (induction xs arbitrary: s) auto

lemma rfold_total:
  assumes "P s" "\<And>x s. x \<in> set xs \<Longrightarrow> P s \<Longrightarrow> \<exists>s'. f x s = Inr s' \<and> P s'"
  shows "\<exists>t. rfold f xs s = Inr t \<and> P t"
  using assms
proof (induction xs arbitrary: s)
  case (Cons x xs)
  from Cons.prems obtain s1 where "f x s = Inr s1" "P s1" by auto
  with Cons.IH [of s1] Cons.prems(2) show ?case by auto
qed simp

text \<open>
  Computations that need not end: \<open>None\<close> for a run without end, otherwise a value or the
  exception that was thrown; and the loop over such computations.
\<close>

definition cbind :: "'a res option \<Rightarrow> ('a \<Rightarrow> 'b res option) \<Rightarrow> 'b res option" where
  "cbind m f = (case m of None \<Rightarrow> None | Some (Inl e) \<Rightarrow> Some (Inl e) | Some (Inr x) \<Rightarrow> f x)"

lemma cbind_simps [simp]:
  "cbind None f = None"
  "cbind (Some (Inl e)) f = Some (Inl e)"
  "cbind (Some (Inr x)) f = f x"
  by (simp_all add: cbind_def)

fun cfold :: "('a \<Rightarrow> 's \<Rightarrow> 's res option) \<Rightarrow> 'a list \<Rightarrow> 's \<Rightarrow> 's res option" where
  "cfold f [] s = Some (Inr s)"
| "cfold f (x # xs) s = cbind (f x s) (cfold f xs)"

text \<open>A counting loop that establishes a property step by step.\<close>

lemma cfold_upt_total:
  assumes "a \<le> b" "P a s"
    and "\<And>i s. a \<le> i \<Longrightarrow> i < b \<Longrightarrow> P i s \<Longrightarrow> \<exists>s'. f i s = Some (Inr s') \<and> P (Suc i) s'"
  shows "\<exists>t. cfold f [a..<b] s = Some (Inr t) \<and> P b t"
  using assms
proof (induction "b - a" arbitrary: a s)
  case 0
  then show ?case by simp
next
  case (Suc k)
  then have ab: "a < b" by simp
  from Suc.prems(3) [OF le_refl ab Suc.prems(2)] obtain s1 where
    s1: "f a s = Some (Inr s1)" "P (Suc a) s1" by blast
  have "\<exists>t. cfold f [Suc a..<b] s1 = Some (Inr t) \<and> P b t"
    by (rule Suc.hyps(1)) (use Suc.hyps(2) Suc.prems(3) ab s1(2) in auto)
  with s1(1) ab show ?case by (simp add: upt_conv_Cons)
qed

text \<open>
  The interface between a component that keeps concrete state and an abstract view of it: each
  operation that is applicable in the view succeeds on the state and commutes with the view.
  A budget counts how many more operations the state has room for. Loops over operations then
  refine folds over the view, whatever the component is.
\<close>

locale op_simulation =
  fixes step :: "'op \<Rightarrow> 's \<Rightarrow> 's res"
    and astep :: "'op \<Rightarrow> 'v \<Rightarrow> 'v"
    and view :: "'s \<Rightarrow> 'v"
    and inv :: "nat \<Rightarrow> 's \<Rightarrow> bool"
    and ok :: "'op \<Rightarrow> 'v \<Rightarrow> bool"
  assumes step_sim: "inv (Suc k) s \<Longrightarrow> ok x (view s) \<Longrightarrow>
      \<exists>s'. step x s = Inr s' \<and> inv k s' \<and> view s' = astep x (view s)"
    and ok_stable: "ok y v \<Longrightarrow> ok y (astep x v)"
begin

lemma run_sim:
  "inv (length xs + k) s \<Longrightarrow> \<forall>x \<in> set xs. ok x (view s) \<Longrightarrow>
     \<exists>s'. rfold step xs s = Inr s' \<and> inv k s' \<and> view s' = fold astep xs (view s)"
proof (induction xs arbitrary: s)
  case Nil
  then show ?case by simp
next
  case (Cons x xs)
  from Cons.prems obtain s1 where
    s1: "step x s = Inr s1" "inv (length xs + k) s1" "view s1 = astep x (view s)"
    using step_sim [of "length xs + k" s x] by auto
  with Cons.prems(2) have "\<forall>y \<in> set xs. ok y (view s1)" by (simp add: ok_stable)
  from Cons.IH [OF s1(2) this] s1 show ?case by auto
qed

end

section \<open>Fixed-width conversions\<close>

definition u32 :: "nat \<Rightarrow> nat" where
  "u32 n = n mod 2 ^ 32"

lemma u32_id [simp]: "n < 2 ^ 32 \<Longrightarrow> u32 n = n"
  by (simp add: u32_def)

lemma u32_less [simp]: "u32 n < 4294967296"
  by (simp add: u32_def)

text \<open>The conversion of a \<^verbatim>\<open>uint32_t\<close> to an \<^verbatim>\<open>int32_t\<close>.\<close>

definition i32_of_u32 :: "nat \<Rightarrow> int" where
  "i32_of_u32 n = (if u32 n < 2 ^ 31 then int (u32 n) else int (u32 n) - 2 ^ 32)"

lemma i32_of_u32_small: "n < 2 ^ 31 \<Longrightarrow> i32_of_u32 n = int n"
  by (simp add: i32_of_u32_def)

lemma i32_of_u32_range: "- (2 ^ 31) \<le> i32_of_u32 n \<and> i32_of_u32 n < 2 ^ 31"
  using u32_less [of n] by (cases "u32 n < 2 ^ 31") (simp_all add: i32_of_u32_def del: u32_less)

section \<open>Decimal formatting\<close>

definition digit_char :: "nat \<Rightarrow> char" where
  "digit_char d = char_of (48 + d)"

fun dec :: "nat \<Rightarrow> string" where
  "dec n = (if n < 10 then [digit_char n] else dec (n div 10) @ [digit_char (n mod 10)])"

declare dec.simps [simp del]

definition is_digit :: "char \<Rightarrow> bool" where
  "is_digit c \<longleftrightarrow> 48 \<le> (of_char c :: nat) \<and> (of_char c :: nat) < 58"

lemma of_char_digit_char: "d < 10 \<Longrightarrow> (of_char (digit_char d) :: nat) = 48 + d"
  by (simp add: digit_char_def)

lemma is_digit_digit_char [simp]: "d < 10 \<Longrightarrow> is_digit (digit_char d)"
  by (simp add: is_digit_def of_char_digit_char)

lemma digit_char_inj: "c < 10 \<Longrightarrow> d < 10 \<Longrightarrow> digit_char c = digit_char d \<Longrightarrow> c = d"
  by (metis of_char_digit_char add_left_cancel)

lemma dec_digits: "c \<in> set (dec n) \<Longrightarrow> is_digit c"
proof (induction n rule: dec.induct)
  case (1 n)
  show ?case
  proof (cases "n < 10")
    case True
    with "1.prems" have "c = digit_char n" by (simp add: dec.simps [of n])
    with True show ?thesis by simp
  next
    case False
    with "1.prems" have "c \<in> set (dec (n div 10)) \<or> c = digit_char (n mod 10)"
      by (auto simp: dec.simps [of n])
    with "1.IH" False show ?thesis by auto
  qed
qed

lemma dec_nonempty [simp]: "dec n \<noteq> []"
  by (subst dec.simps) simp

lemma dec_inj: "dec m = dec n \<Longrightarrow> m = n"
proof (induction m arbitrary: n rule: dec.induct)
  case (1 m)
  note eq = "1.prems"
  show ?case
  proof (cases "m < 10")
    case True
    then have "\<not> 10 \<le> n"
      using eq dec_nonempty [of "n div 10", THEN not_sym]
      by (auto simp: dec.simps [of m] dec.simps [of n])
    with True eq show ?thesis
      by (auto simp: dec.simps [of m] dec.simps [of n] intro: digit_char_inj)
  next
    case False
    then have n: "10 \<le> n"
      using eq dec_nonempty [of "m div 10"]
      by (cases "n < 10") (auto simp: dec.simps [of m] dec.simps [of n])
    with False eq have "dec (m div 10) = dec (n div 10)"
      and d: "digit_char (m mod 10) = digit_char (n mod 10)"
      by (auto simp: dec.simps [of m] dec.simps [of n])
    with "1.IH" False have "m div 10 = n div 10" by blast
    moreover have "m mod 10 = n mod 10"
      by (rule digit_char_inj [OF _ _ d]) simp_all
    ultimately show ?thesis by (metis div_mult_mod_eq)
  qed
qed

text \<open>A decimal number followed by a non-digit is read back in only one way.\<close>

lemma dec_append_inj:
  assumes "dec m @ a # xs = dec n @ b # ys" "\<not> is_digit a" "\<not> is_digit b"
  shows "m = n \<and> a = b \<and> xs = ys"
proof -
  have split: "takeWhile is_digit (dec k @ c # zs) = dec k"
    "dropWhile is_digit (dec k @ c # zs) = c # zs" if "\<not> is_digit c" for k c zs
    using that by (simp_all add: dec_digits)
  from assms have "dec m = dec n" by (metis split(1))
  moreover from assms have "a # xs = b # ys" by (metis split(2))
  ultimately show ?thesis using dec_inj by auto
qed

section \<open>Joining strings\<close>

text \<open>\<^verbatim>\<open>fmt::join(parts, sep)\<close>.\<close>

fun join :: "string \<Rightarrow> string list \<Rightarrow> string" where
  "join sep [] = []"
| "join sep [s] = s"
| "join sep (s # t # ss) = s @ sep @ join sep (t # ss)"

end
