(* ===== verification/Regex_Group.thy ===== *)
theory Regex_Group
  imports LS_Prelude "HOL-Library.Product_Lexorder"
begin

text \<open>
  The character groups of \<^verbatim>\<open>finite_automata/RegexAST.hpp\<close>
  (class \<^verbatim>\<open>RegexASTGroup\<close>): lists of code point ranges with a negation flag, their
  constructors with the null checks and the exceptions, the merge and complement of ranges, and
  the rewriting of the wildcard to exclude delimiters.
\<close>

section \<open>Groups and their constructors\<close>

definition cUnicodeMax :: nat where
  "cUnicodeMax = 1114111"

definition cSizeOfByte :: nat where
  "cSizeOfByte = 256"

type_synonym range = "nat \<times> nat"

record group =
  g_is_wildcard :: bool
  g_negate :: bool
  g_ranges :: "range list"

text \<open>
  The arguments are pointers that a failed \<^verbatim>\<open>dynamic_cast\<close> makes null: a literal is
  given by its character, and \<open>None\<close> is \<^verbatim>\<open>nullptr\<close>.
\<close>

definition group_default :: group where
  "group_default = \<lparr>g_is_wildcard = False, g_negate = True, g_ranges = []\<rparr>"

definition group_of_literal :: "nat option \<Rightarrow> group res" where
  "group_of_literal right =
     (case right of
        None \<Rightarrow> Inl RuntimeError
      | Some c \<Rightarrow> Inr \<lparr>g_is_wildcard = False, g_negate = False, g_ranges = [(c, c)]\<rparr>)"

definition group_of_group :: "group option \<Rightarrow> group res" where
  "group_of_group right =
     (case right of
        None \<Rightarrow> Inl RuntimeError
      | Some g \<Rightarrow> Inr \<lparr>g_is_wildcard = False, g_negate = g_negate g, g_ranges = g_ranges g\<rparr>)"

definition group_add_literal :: "group option \<Rightarrow> nat option \<Rightarrow> group res" where
  "group_add_literal left right =
     (case (left, right) of
        (Some g, Some c) \<Rightarrow>
          Inr \<lparr>g_is_wildcard = False, g_negate = g_negate g, g_ranges = g_ranges g @ [(c, c)]\<rparr>
      | _ \<Rightarrow> Inl RuntimeError)"

definition group_add_group :: "group option \<Rightarrow> group option \<Rightarrow> group res" where
  "group_add_group left right =
     (case (left, right) of
        (Some g, Some h) \<Rightarrow>
          (if g_negate h then Inl RuntimeError
           else Inr \<lparr>g_is_wildcard = False, g_negate = g_negate g,
                     g_ranges = g_ranges g @ g_ranges h\<rparr>)
      | _ \<Rightarrow> Inl RuntimeError)"

definition group_of_literal_range :: "nat option \<Rightarrow> nat option \<Rightarrow> group res" where
  "group_of_literal_range left right =
     (case (left, right) of
        (Some a, Some b) \<Rightarrow>
          (if a < b then Inr \<lparr>g_is_wildcard = False, g_negate = False, g_ranges = [(a, b)]\<rparr>
           else Inl AssertFailed)
      | _ \<Rightarrow> Inl RuntimeError)"

definition group_min_max :: "nat \<Rightarrow> nat \<Rightarrow> group" where
  "group_min_max mn mx = \<lparr>g_is_wildcard = False, g_negate = False, g_ranges = [(mn, mx)]\<rparr>"

definition group_of_literals :: "nat list \<Rightarrow> group" where
  "group_of_literals literals =
     \<lparr>g_is_wildcard = False, g_negate = False, g_ranges = map (\<lambda>l. (l, l)) literals\<rparr>"

definition group_add_range :: "nat \<Rightarrow> nat \<Rightarrow> group \<Rightarrow> group" where
  "group_add_range mn mx g = g\<lparr>g_ranges := g_ranges g @ [(mn, mx)]\<rparr>"

definition group_push_literal :: "nat \<Rightarrow> group \<Rightarrow> group" where
  "group_push_literal l g = g\<lparr>g_ranges := g_ranges g @ [(l, l)]\<rparr>"

definition group_set_is_wildcard_true :: "group \<Rightarrow> group" where
  "group_set_is_wildcard_true g = g\<lparr>g_is_wildcard := True\<rparr>"

section \<open>Merge and complement\<close>

text \<open>The loop of \<^verbatim>\<open>merge\<close>, with the range under construction as an argument.\<close>

fun merge_from :: "range \<Rightarrow> range list \<Rightarrow> range list" where
  "merge_from cur [] = [cur]"
| "merge_from cur (r # rs) =
     (if fst r \<le> u32 (snd cur + 1) then merge_from (fst cur, max (snd r) (snd cur)) rs
      else cur # merge_from r rs)"

fun group_merge :: "range list \<Rightarrow> range list" where
  "group_merge [] = []"
| "group_merge (r # rs) = merge_from r rs"

text \<open>The loop of \<^verbatim>\<open>complement\<close>, with \<^verbatim>\<open>low\<close> as an argument.\<close>

fun complement_from :: "nat \<Rightarrow> range list \<Rightarrow> range list" where
  "complement_from low [] = (if 0 < low then [(low, cUnicodeMax)] else [])"
| "complement_from low ((b, e) # rs) =
     (if 0 < b then [(low, b - 1)] else []) @ complement_from (u32 (e + 1)) rs"

definition group_complement :: "range list \<Rightarrow> range list" where
  "group_complement ranges = complement_from 0 ranges"

definition group_do_negate :: "group \<Rightarrow> group" where
  "group_do_negate g = g\<lparr>g_ranges := group_complement (group_merge (sort (g_ranges g)))\<rparr>"

text \<open>The ranges \<^verbatim>\<open>add_to_nfa\<close> turns into transitions.\<close>

definition group_effective_ranges :: "group \<Rightarrow> range list" where
  "group_effective_ranges g =
     (let merged = group_merge (sort (g_ranges g))
      in if g_negate g then group_complement merged else merged)"

section \<open>Wildcards and delimiters\<close>

text \<open>
  The gaps between consecutive delimiters, and the code of
  \<^verbatim>\<open>remove_delimiters_from_wildcard\<close> for a group; it sorts the caller's vector in
  place, so the vector is returned as well.
\<close>

fun delimiter_gaps :: "nat list \<Rightarrow> range list" where
  "delimiter_gaps (a # b # ds) =
     (if 1 < b - a then [(a + 1, b - 1)] else []) @ delimiter_gaps (b # ds)"
| "delimiter_gaps ds = []"

definition group_remove_delimiters :: "group \<Rightarrow> nat list \<Rightarrow> group \<times> nat list" where
  "group_remove_delimiters g delimiters =
     (if \<not> g_is_wildcard g then (g, delimiters)
      else if delimiters = [] then (g, delimiters)
      else let ds = sort delimiters
           in (g\<lparr>g_ranges := (if hd ds \<noteq> 0 then [(0, hd ds - 1)] else [])
                 @ delimiter_gaps ds
                 @ (if last ds \<noteq> cUnicodeMax then [(last ds + 1, cUnicodeMax)] else [])\<rparr>, ds))"

section \<open>The characters of a list of ranges\<close>

definition in_ranges :: "nat \<Rightarrow> range list \<Rightarrow> bool" where
  "in_ranges c rs \<longleftrightarrow> (\<exists>(b, e) \<in> set rs. b \<le> c \<and> c \<le> e)"

definition ranges_wf :: "range list \<Rightarrow> bool" where
  "ranges_wf rs \<longleftrightarrow> (\<forall>(b, e) \<in> set rs. b \<le> e \<and> e \<le> cUnicodeMax)"

text \<open>What merging establishes: sorted, with a gap between any two neighbours.\<close>

fun separated :: "range list \<Rightarrow> bool" where
  "separated (r # s # rs) \<longleftrightarrow> snd r + 1 < fst s \<and> separated (s # rs)"
| "separated rs \<longleftrightarrow> True"

lemma in_ranges_simps [simp]:
  "\<not> in_ranges c []"
  "in_ranges c ((b, e) # rs) \<longleftrightarrow> (b \<le> c \<and> c \<le> e) \<or> in_ranges c rs"
  "in_ranges c (rs @ ss) \<longleftrightarrow> in_ranges c rs \<or> in_ranges c ss"
  by (auto simp: in_ranges_def)

lemma in_ranges_sort [simp]: "in_ranges c (sort rs) = in_ranges c rs"
  by (simp add: in_ranges_def)

lemma ranges_wf_simps [simp]:
  "ranges_wf []"
  "ranges_wf ((b, e) # rs) \<longleftrightarrow> b \<le> e \<and> e \<le> cUnicodeMax \<and> ranges_wf rs"
  "ranges_wf (rs @ ss) \<longleftrightarrow> ranges_wf rs \<and> ranges_wf ss"
  "ranges_wf (sort rs) = ranges_wf rs"
  by (auto simp: ranges_wf_def)

lemma ranges_wf_no_wrap [simp]: "e \<le> cUnicodeMax \<Longrightarrow> u32 (Suc e) = Suc e"
  by (simp add: cUnicodeMax_def)

lemma sorted_map_fst: "sorted (rs :: range list) \<Longrightarrow> sorted (map fst rs)"
  by (induction rs) (auto simp: less_eq_prod_def)

lemma merge_from_sound:
  assumes "ranges_wf (cur # rs)" "sorted (map fst (cur # rs))"
  shows "in_ranges c (merge_from cur rs) = in_ranges c (cur # rs)"
    and "ranges_wf (merge_from cur rs)" and "separated (merge_from cur rs)"
    and "fst (hd (merge_from cur rs)) = fst cur"
proof -
  have "in_ranges c (merge_from cur rs) = in_ranges c (cur # rs) \<and>
      ranges_wf (merge_from cur rs) \<and> separated (merge_from cur rs) \<and>
      fst (hd (merge_from cur rs)) = fst cur \<and> merge_from cur rs \<noteq> []"
    using assms
  proof (induction rs arbitrary: cur)
    case Nil
    then show ?case by (cases cur) simp
  next
    case (Cons r rs)
    obtain a b where cur: "cur = (a, b)" by (cases cur)
    obtain a' b' where r: "r = (a', b')" by (cases r)
    from Cons.prems cur r have le: "a \<le> a'" and wf: "a \<le> b" "b \<le> cUnicodeMax" "a' \<le> b'"
      "b' \<le> cUnicodeMax" "ranges_wf rs" and wrap: "u32 (b + 1) = b + 1"
      by auto
    show ?case
    proof (cases "a' \<le> b + 1")
      case True
      have "sorted (map fst ((a, max b' b) # rs))" using Cons.prems(2) cur r by auto
      moreover have "ranges_wf ((a, max b' b) # rs)" using wf by simp
      ultimately have IH: "in_ranges c (merge_from (a, max b' b) rs) = in_ranges c ((a, max b' b) # rs)"
        "ranges_wf (merge_from (a, max b' b) rs)" "separated (merge_from (a, max b' b) rs)"
        "fst (hd (merge_from (a, max b' b) rs)) = a" "merge_from (a, max b' b) rs \<noteq> []"
        using Cons.IH by auto
      have "merge_from cur (r # rs) = merge_from (a, max b' b) rs"
        using True wrap cur r by simp
      moreover have "(a \<le> c \<and> c \<le> max b' b) = (a \<le> c \<and> c \<le> b \<or> a' \<le> c \<and> c \<le> b')"
        using True le by auto
      ultimately show ?thesis using IH cur r by simp
    next
      case False
      from Cons.IH [of r] Cons.prems
      have IH: "in_ranges c (merge_from r rs) = in_ranges c (r # rs)"
        "ranges_wf (merge_from r rs)" "separated (merge_from r rs)"
        "fst (hd (merge_from r rs)) = a'" "merge_from r rs \<noteq> []"
        using cur r by auto
      from False wrap cur r have eq: "merge_from cur (r # rs) = cur # merge_from r rs" by simp
      have "separated (cur # merge_from r rs)"
        using IH False cur by (cases "merge_from r rs") simp_all
      with eq IH cur r wf show ?thesis by simp
    qed
  qed
  then show "in_ranges c (merge_from cur rs) = in_ranges c (cur # rs)"
    "ranges_wf (merge_from cur rs)" "separated (merge_from cur rs)"
    "fst (hd (merge_from cur rs)) = fst cur" by blast+
qed

lemma group_merge_sound:
  assumes "ranges_wf rs" "sorted rs"
  shows "in_ranges c (group_merge rs) = in_ranges c rs"
    and "ranges_wf (group_merge rs)" and "separated (group_merge rs)"
  using assms merge_from_sound [of "hd rs" "tl rs"] sorted_map_fst [of rs]
  by (cases rs; simp)+

lemma separated_above:
  "separated ((b, e) # rs) \<Longrightarrow> ranges_wf ((b, e) # rs) \<Longrightarrow> in_ranges c rs \<Longrightarrow> e + 1 < c"
proof (induction rs arbitrary: b e)
  case Nil
  then show ?case by simp
next
  case (Cons r rs)
  obtain b' e' where r: "r = (b', e')" by (cases r)
  from Cons.prems r have "e + 1 < b'" "b' \<le> e'" by simp_all
  with Cons.IH [of b' e'] Cons.prems r show ?case by auto
qed

text \<open>
  Complementing separated ranges from a positive lower bound keeps exactly the characters at or
  above the bound that are in no range. A range that ends at the last code point leaves a
  trailing empty range behind, which contains no character.
\<close>

lemma complement_from_sound:
  assumes "separated rs" "ranges_wf rs" "0 < low" "low \<le> cUnicodeMax + 1"
    and "rs \<noteq> [] \<Longrightarrow> low < fst (hd rs)"
  shows "in_ranges c (complement_from low rs) \<longleftrightarrow> low \<le> c \<and> c \<le> cUnicodeMax \<and> \<not> in_ranges c rs"
  using assms
proof (induction rs arbitrary: low)
  case Nil
  then show ?case by simp
next
  case (Cons r rs)
  obtain b e where r: "r = (b, e)" by (cases r)
  from Cons.prems r have be: "b \<le> e" "e \<le> cUnicodeMax" "low < b" "u32 (e + 1) = e + 1"
    by auto
  have "rs \<noteq> [] \<Longrightarrow> e + 1 < fst (hd rs)" using Cons.prems(1) r by (cases rs) auto
  moreover have "separated rs" using Cons.prems(1) by (cases rs) auto
  ultimately have IH: "in_ranges c (complement_from (e + 1) rs) \<longleftrightarrow>
      e + 1 \<le> c \<and> c \<le> cUnicodeMax \<and> \<not> in_ranges c rs"
    using Cons.IH [of "e + 1"] Cons.prems(2) be r by auto
  from separated_above [of b e rs c] Cons.prems r
  have above: "in_ranges c rs \<Longrightarrow> e + 1 < c" by blast
  have "complement_from low (r # rs) = (low, b - 1) # complement_from (e + 1) rs"
    using be r by simp
  then have "in_ranges c (complement_from low (r # rs)) \<longleftrightarrow>
      (low \<le> c \<and> c \<le> b - 1) \<or> (e + 1 \<le> c \<and> c \<le> cUnicodeMax \<and> \<not> in_ranges c rs)"
    using IH by simp
  with above be r show ?case by auto
qed

lemma group_complement_sound:
  assumes "separated rs" "ranges_wf rs" "rs \<noteq> []"
  shows "in_ranges c (group_complement rs) \<longleftrightarrow> c \<le> cUnicodeMax \<and> \<not> in_ranges c rs"
proof -
  obtain b e rs' where rs: "rs = (b, e) # rs'" using assms(3) by (cases rs) auto
  from assms rs have be: "b \<le> e" "e \<le> cUnicodeMax" "u32 (e + 1) = e + 1"
    by auto
  have "rs' \<noteq> [] \<Longrightarrow> e + 1 < fst (hd rs')" using assms(1) rs by (cases rs') auto
  moreover have "separated rs'" using assms(1) rs by (cases rs') auto
  ultimately have tail: "in_ranges c (complement_from (e + 1) rs') \<longleftrightarrow>
      e + 1 \<le> c \<and> c \<le> cUnicodeMax \<and> \<not> in_ranges c rs'"
    using complement_from_sound [of rs' "e + 1" c] assms(2) rs be by auto
  from separated_above [of b e rs' c] assms rs
  have above: "in_ranges c rs' \<Longrightarrow> e + 1 < c" by blast
  have "in_ranges c (group_complement rs) \<longleftrightarrow>
      (0 < b \<and> c \<le> b - 1) \<or> in_ranges c (complement_from (e + 1) rs')"
    using be rs by (simp add: group_complement_def)
  with tail above be rs show ?thesis by auto
qed

lemma group_merge_Nil_iff [simp]: "group_merge rs = [] \<longleftrightarrow> rs = []"
proof (cases rs)
  case (Cons r rs')
  have "merge_from r rs' \<noteq> []" by (induction rs' arbitrary: r) auto
  with Cons show ?thesis by simp
qed simp

lemma sort_Nil_iff [simp]: "sort xs = [] \<longleftrightarrow> xs = []"
  by (metis length_0_conv length_sort)

text \<open>The ranges that become transitions, as a set.\<close>

lemma effective_ranges_sound:
  assumes "ranges_wf (g_ranges g)" "g_ranges g \<noteq> []"
  shows "in_ranges c (group_effective_ranges g) \<longleftrightarrow>
    (if g_negate g then c \<le> cUnicodeMax \<and> \<not> in_ranges c (g_ranges g) else in_ranges c (g_ranges g))"
proof -
  have m: "in_ranges c (group_merge (sort (g_ranges g))) = in_ranges c (g_ranges g)"
    "ranges_wf (group_merge (sort (g_ranges g)))" "separated (group_merge (sort (g_ranges g)))"
    "group_merge (sort (g_ranges g)) \<noteq> []"
    using group_merge_sound [of "sort (g_ranges g)"] assms by simp_all
  from group_complement_sound [OF m(3,2,4), of c] m(1) show ?thesis
    by (simp add: group_effective_ranges_def Let_def)
qed

section \<open>Properties\<close>

text \<open>
  The ranges a group turns into transitions denote the right characters: for well-formed
  ranges, a plain group accepts exactly the characters of its ranges, and a negated group with at
  least one range accepts exactly the code points up to U+10FFFF outside of them.
\<close>

theorem group_effective_ranges_correct:
  assumes "ranges_wf (g_ranges g)" "g_ranges g \<noteq> []"
  shows "in_ranges c (group_effective_ranges g) \<longleftrightarrow>
    (if g_negate g then c \<le> cUnicodeMax \<and> \<not> in_ranges c (g_ranges g) else in_ranges c (g_ranges g))"
  using assms by (rule effective_ranges_sound)

theorem group_effective_ranges_correct_witness:
  "in_ranges 97 (group_effective_ranges \<lparr>g_is_wildcard = False, g_negate = True, g_ranges = [(48, 57), (10, 10)]\<rparr>)
    \<longleftrightarrow> (if g_negate \<lparr>g_is_wildcard = False, g_negate = True, g_ranges = [(48, 57), (10, 10)]\<rparr>
        then (97::nat) \<le> cUnicodeMax \<and> \<not> in_ranges 97 (g_ranges \<lparr>g_is_wildcard = False, g_negate = True, g_ranges = [(48, 57), (10, 10)]\<rparr>)
        else in_ranges 97 (g_ranges \<lparr>g_is_wildcard = False, g_negate = True, g_ranges = [(48, 57), (10, 10)]\<rparr>))"
  by (rule group_effective_ranges_correct) (simp_all add: cUnicodeMax_def)



lemma sorted_hd_last: "sorted (xs :: nat list) \<Longrightarrow> x \<in> set xs \<Longrightarrow> hd xs \<le> x \<and> x \<le> last xs"
proof (induction xs)
  case (Cons y ys)
  show ?case
  proof (cases "ys = []")
    case False
    then have "last ys \<in> set ys" by simp
    with Cons.prems False have "y \<le> last ys" by auto
    with Cons False show ?thesis by auto
  qed (use Cons.prems in simp)
qed simp

lemma delimiter_gaps_sound:
  assumes "sorted ds" "ds \<noteq> []"
  shows "in_ranges c (delimiter_gaps ds) \<longleftrightarrow> hd ds < c \<and> c < last ds \<and> c \<notin> set ds"
  using assms
proof (induction ds rule: delimiter_gaps.induct)
  case (1 a b ds)
  then have IH: "in_ranges c (delimiter_gaps (b # ds)) \<longleftrightarrow>
      b < c \<and> c < last (b # ds) \<and> c \<notin> set (b # ds)"
    and ab: "a \<le> b" "\<forall>d \<in> set ds. b \<le> d" by auto
  obtain l where l: "last (b # ds) = l" "b \<le> l"
    using sorted_hd_last [of "b # ds" b] "1.prems" by simp
  have "in_ranges c (delimiter_gaps (a # b # ds)) \<longleftrightarrow>
      (a < c \<and> c < b) \<or> (b < c \<and> c < last (b # ds) \<and> c \<notin> set (b # ds))"
    using IH by (cases "1 < b - a") auto
  then have "in_ranges c (delimiter_gaps (a # b # ds)) \<longleftrightarrow>
      (a < c \<and> c < b) \<or> (b < c \<and> c < l \<and> c \<notin> set ds)"
    using l by auto
  moreover have "last (a # b # ds) = l" using l by simp
  moreover have "c < b \<Longrightarrow> c \<notin> set ds" using ab(2) by auto
  ultimately show ?case using ab(1) l(2) by (simp del: delimiter_gaps.simps last.simps) linarith
qed auto

text \<open>
  C29: removing the delimiters from a wildcard leaves exactly the non-delimiters: for a non-empty
  list of delimiters within the code points, the rewritten wildcard's ranges contain a code point
  if and only if it is not a delimiter; other groups are untouched, and the caller's vector is
  left sorted with the same elements.
\<close>

theorem group_remove_delimiters_correct:
  assumes "delims \<noteq> []" "\<forall>d \<in> set delims. d \<le> cUnicodeMax" "c \<le> cUnicodeMax"
  shows "group_remove_delimiters g delims = (g', delims') \<Longrightarrow>
    (if g_is_wildcard g then (in_ranges c (g_ranges g') \<longleftrightarrow> c \<notin> set delims) \<and> sorted delims'
     else g' = g) \<and> set delims' = set delims"
proof -
  assume eq: "group_remove_delimiters g delims = (g', delims')"
  let ?ds = "sort delims"
  have ds: "sorted ?ds" "?ds \<noteq> []" "set ?ds = set delims" using assms(1) by simp_all
  then have hl: "hd ?ds \<in> set delims" "last ?ds \<in> set delims" by (metis hd_in_set last_in_set)+
  have bounds: "\<forall>d \<in> set delims. hd ?ds \<le> d \<and> d \<le> last ?ds"
    using sorted_hd_last [OF ds(1)] ds(3) by blast
  show ?thesis
  proof (cases "g_is_wildcard g")
    case True
    with eq assms have g': "g_ranges g' = (if hd ?ds \<noteq> 0 then [(0, hd ?ds - 1)] else [])
        @ delimiter_gaps ?ds @ (if last ?ds \<noteq> cUnicodeMax then [(last ?ds + 1, cUnicodeMax)] else [])"
      "delims' = ?ds"
      by (auto simp: group_remove_delimiters_def Let_def)
    have "in_ranges c (g_ranges g') \<longleftrightarrow> c < hd ?ds \<or>
        (hd ?ds < c \<and> c < last ?ds \<and> c \<notin> set delims) \<or> last ?ds < c"
      unfolding g' using delimiter_gaps_sound [OF ds(1,2), of c] assms(3) ds(3) by auto
    also have "\<dots> \<longleftrightarrow> c \<notin> set delims"
      using bounds hl by (metis leD linorder_neqE_nat)
    finally show ?thesis using True g' by simp
  next
    case False
    with eq show ?thesis by (simp add: group_remove_delimiters_def)
  qed
qed

theorem group_remove_delimiters_correct_witness:
  "(if g_is_wildcard (group_set_is_wildcard_true (group_min_max 0 cUnicodeMax))
    then (in_ranges (9::nat) (g_ranges (fst (group_remove_delimiters
             (group_set_is_wildcard_true (group_min_max 0 cUnicodeMax)) [32, 10]))) \<longleftrightarrow> (9::nat) \<notin> set [32, 10])
       \<and> sorted (snd (group_remove_delimiters
             (group_set_is_wildcard_true (group_min_max 0 cUnicodeMax)) [32, 10]))
    else fst (group_remove_delimiters
             (group_set_is_wildcard_true (group_min_max 0 cUnicodeMax)) [32, 10])
         = group_set_is_wildcard_true (group_min_max 0 cUnicodeMax))
   \<and> set (snd (group_remove_delimiters
             (group_set_is_wildcard_true (group_min_max 0 cUnicodeMax)) [32, 10])) = set [32::nat, 10]"
  by (rule group_remove_delimiters_correct [of "[32, 10]" 9]) (simp_all add: cUnicodeMax_def)

end
