(* ===== verification/Prefix_Tree.thy ===== *)
theory Prefix_Tree
  imports LS_Prelude
begin

text \<open>
  \<^verbatim>\<open>finite_automata/PrefixTree.hpp\<close> and \<^verbatim>\<open>PrefixTree.cpp\<close>: the tree of
  lexing positions that backs every register. A node is stored in a vector and names its
  parent by index; a path from a node up to the root is the reversed history of one tag.
\<close>

section \<open>The tree and its operations\<close>

record pt_node =
  pt_parent :: "nat option"
  pt_position :: int

type_synonym prefix_tree = "pt_node list"

definition pt_root_id :: nat where
  "pt_root_id = 0"

definition pt_new :: prefix_tree where
  "pt_new = [\<lparr>pt_parent = None, pt_position = -1\<rparr>]"

definition pt_insert :: "prefix_tree \<Rightarrow> nat \<Rightarrow> int \<Rightarrow> (prefix_tree \<times> nat) res" where
  "pt_insert t parent_node_id position =
     (if length t \<le> parent_node_id then Inl OutOfRange
      else let t' = t @ [\<lparr>pt_parent = Some parent_node_id, pt_position = position\<rparr>]
           in Inr (t', u32 (length t' - 1)))"

definition pt_set :: "prefix_tree \<Rightarrow> nat \<Rightarrow> int \<Rightarrow> prefix_tree res" where
  "pt_set t node_id position =
     (if length t \<le> node_id then Inl OutOfRange
      else Inr (t[node_id := (t ! node_id)\<lparr>pt_position := position\<rparr>]))"

definition pt_size :: "prefix_tree \<Rightarrow> nat" where
  "pt_size t = length t"

text \<open>
  The loop of \<^verbatim>\<open>get_reversed_positions\<close>. Nothing in the class rules out a cycle of
  parents, so the loop is a partial function: \<open>None\<close> is a run that does not stop.
\<close>

partial_function (option) pt_walk ::
  "prefix_tree \<Rightarrow> pt_node \<Rightarrow> int list \<Rightarrow> int list res option" where
  "pt_walk t current reversed_positions =
     (case pt_parent current of
        None \<Rightarrow> Some (Inr reversed_positions)
      | Some parent \<Rightarrow>
          (if length t \<le> parent then Some (Inl OutOfRange)
           else pt_walk t (t ! parent) (reversed_positions @ [pt_position current])))"

definition pt_get_reversed_positions :: "prefix_tree \<Rightarrow> nat \<Rightarrow> int list res option" where
  "pt_get_reversed_positions t node_id =
     (if length t \<le> node_id then Some (Inl OutOfRange) else pt_walk t (t ! node_id) [])"

section \<open>Well-formed trees\<close>

text \<open>
  Node 0 is the root and the only node without a parent; every other node was inserted after
  its parent, so parent indices decrease.
\<close>

definition pt_wf :: "prefix_tree \<Rightarrow> bool" where
  "pt_wf t \<longleftrightarrow> t \<noteq> [] \<and> pt_parent (t ! 0) = None \<and>
     (\<forall>i < length t. 0 < i \<longrightarrow> (\<exists>p. pt_parent (t ! i) = Some p \<and> p < i))"

lemma pt_wf_parent:
  "pt_wf t \<Longrightarrow> i < length t \<Longrightarrow> pt_parent (t ! i) = Some p \<Longrightarrow> p < i"
  by (cases "i = 0") (auto simp: pt_wf_def)

lemma pt_wf_new [simp]: "pt_wf pt_new"
  by (simp add: pt_wf_def pt_new_def)

text \<open>The positions on the way from a node to the root, the abstraction of a node.\<close>

function pt_path :: "prefix_tree \<Rightarrow> nat \<Rightarrow> int list" where
  "pt_path t i =
     (if i < length t
      then (case pt_parent (t ! i) of
              None \<Rightarrow> []
            | Some p \<Rightarrow> if p < i then pt_position (t ! i) # pt_path t p else [])
      else [])"
  by pat_completeness auto
termination
  by (relation "measure snd") auto

declare pt_path.simps [simp del]

lemma pt_path_root [simp]: "pt_wf t \<Longrightarrow> pt_path t 0 = []"
  by (subst pt_path.simps) (simp add: pt_wf_def)

lemma pt_path_step:
  "pt_wf t \<Longrightarrow> i < length t \<Longrightarrow> pt_parent (t ! i) = Some p \<Longrightarrow>
     pt_path t i = pt_position (t ! i) # pt_path t p"
  by (subst pt_path.simps) (simp add: pt_wf_parent)

lemma pt_walk_path:
  "pt_wf t \<Longrightarrow> i < length t \<Longrightarrow> pt_walk t (t ! i) acc = Some (Inr (acc @ pt_path t i))"
proof (induction i arbitrary: acc rule: less_induct)
  case (less i)
  show ?case
  proof (cases "pt_parent (t ! i)")
    case None
    with less.prems have "i = 0" by (cases "i = 0") (auto simp: pt_wf_def)
    with None less.prems show ?thesis by (simp add: pt_walk.simps)
  next
    case (Some p)
    with less.prems have "p < i" by (rule pt_wf_parent)
    with less Some show ?thesis by (simp add: pt_walk.simps pt_path_step)
  qed
qed

lemma pt_get_path:
  "pt_wf t \<Longrightarrow> i < length t \<Longrightarrow> pt_get_reversed_positions t i = Some (Inr (pt_path t i))"
  by (simp add: pt_get_reversed_positions_def pt_walk_path)

lemma pt_path_append:
  assumes "i < length t"
  shows "pt_path (t @ us) i = pt_path t i"
  using assms
proof (induction i rule: less_induct)
  case (less i)
  then show ?case
    by (subst (1 2) pt_path.simps) (auto simp: nth_append split: option.split)
qed

lemma pt_wf_insert:
  assumes "pt_wf t" "p < length t"
  shows "pt_wf (t @ [\<lparr>pt_parent = Some p, pt_position = x\<rparr>])"
  using assms unfolding pt_wf_def
  by (auto simp: nth_append less_Suc_eq)

lemma pt_path_insert:
  assumes "pt_wf t" "p < length t"
  shows "pt_path (t @ [\<lparr>pt_parent = Some p, pt_position = x\<rparr>]) (length t) = x # pt_path t p"
  using assms by (subst pt_path_step) (auto simp: pt_wf_insert pt_path_append)

section \<open>The interface the register handler uses\<close>

text \<open>
  What \<^verbatim>\<open>RegisterHandler\<close> needs of its position store: inserting below a node gives
  a new node whose path extends the parent's path, and leaves every other path alone. Lemmas
  about a vector of registers are proved once, over any such store.
\<close>

locale position_store =
  fixes ins :: "'s \<Rightarrow> nat \<Rightarrow> int \<Rightarrow> ('s \<times> nat) res"
    and path :: "'s \<Rightarrow> nat \<Rightarrow> int list"
    and valid :: "'s \<Rightarrow> nat \<Rightarrow> bool"
    and inv :: "'s \<Rightarrow> bool"
    and room :: "'s \<Rightarrow> bool"
  assumes ins_ok: "inv s \<Longrightarrow> room s \<Longrightarrow> valid s p \<Longrightarrow>
      \<exists>s' i. ins s p x = Inr (s', i) \<and> inv s' \<and> valid s' i \<and> path s' i = x # path s p
        \<and> (\<forall>j. valid s j \<longrightarrow> valid s' j \<and> path s' j = path s j)"
    and ins_bad: "\<not> valid s p \<Longrightarrow> ins s p x = Inl OutOfRange"
begin

definition reg_view :: "'s \<Rightarrow> nat list \<Rightarrow> int list list" where
  "reg_view s regs = map (path s) regs"

definition reg_inv :: "'s \<Rightarrow> nat list \<Rightarrow> bool" where
  "reg_inv s regs \<longleftrightarrow> inv s \<and> (\<forall>r \<in> set regs. valid s r)"

lemma append_view:
  assumes "reg_inv s regs" "room s" "r < length regs"
  obtains s' i where "ins s (regs ! r) x = Inr (s', i)" "reg_inv s' (regs[r := i])"
    "reg_view s' (regs[r := i]) = (reg_view s regs)[r := x # reg_view s regs ! r]"
proof -
  from assms have v: "inv s" "valid s (regs ! r)" by (auto simp: reg_inv_def)
  from ins_ok [OF v(1) assms(2) v(2), of x] obtain s' i where
    i: "ins s (regs ! r) x = Inr (s', i)" "inv s'" "valid s' i" "path s' i = x # path s (regs ! r)"
    "\<And>j. valid s j \<Longrightarrow> valid s' j \<and> path s' j = path s j" by blast
  have old: "map (path s') regs = map (path s) regs"
    using i(5) assms(1) by (auto simp: reg_inv_def)
  have "reg_inv s' (regs[r := i])"
    using i assms(1) set_update_subset_insert [of regs r i] by (fastforce simp: reg_inv_def)
  moreover have "reg_view s' (regs[r := i]) = (reg_view s regs)[r := x # reg_view s regs ! r]"
    unfolding reg_view_def map_update old using i(4) assms(3) by simp
  ultimately show ?thesis using that i(1) by blast
qed

lemma copy_view:
  assumes "reg_inv s regs" "d < length regs" "r < length regs"
  shows "reg_inv s (regs[d := regs ! r])"
    "reg_view s (regs[d := regs ! r]) = (reg_view s regs)[d := reg_view s regs ! r]"
  using assms set_update_subset_insert [of regs d "regs ! r"]
  by (fastforce simp: reg_inv_def, simp add: reg_view_def map_update)

end

interpretation pt: position_store pt_insert pt_path "\<lambda>t i. i < length t" pt_wf
  "\<lambda>t. length t < 2 ^ 32"
proof unfold_locales
  fix s :: prefix_tree and p x
  assume "pt_wf s" "length s < 2 ^ 32" "p < length s"
  then show "\<exists>s' i. pt_insert s p x = Inr (s', i) \<and> pt_wf s' \<and> i < length s' \<and>
      pt_path s' i = x # pt_path s p \<and>
      (\<forall>j. j < length s \<longrightarrow> j < length s' \<and> pt_path s' j = pt_path s j)"
    by (auto simp: pt_insert_def Let_def pt_wf_insert pt_path_insert pt_path_append)
next
  fix s :: prefix_tree and p x
  assume "\<not> p < length s"
  then show "pt_insert s p x = Inl OutOfRange" by (simp add: pt_insert_def)
qed

section \<open>Properties\<close>

text \<open>
  C31: inserting a position below an existing node of a well-formed prefix tree with fewer than
  2^32 nodes succeeds; reading the new node back terminates and yields the inserted position
  followed by the parent's positions, every older node reads back what it read before, and the
  tree stays well-formed.
\<close>

theorem pt_insert_roundtrip:
  assumes "pt_wf t" "length t < 2 ^ 32" "p < length t"
  shows "\<exists>t' i ps. pt_insert t p x = Inr (t', i) \<and> pt_wf t' \<and>
    pt_get_reversed_positions t p = Some (Inr ps) \<and>
    pt_get_reversed_positions t' i = Some (Inr (x # ps)) \<and>
    (\<forall>j < length t. pt_get_reversed_positions t' j = pt_get_reversed_positions t j)"
proof -
  from pt.ins_ok [OF assms, of x] obtain t' i where
    "pt_insert t p x = Inr (t', i)" "pt_wf t'" "i < length t'" "pt_path t' i = x # pt_path t p"
    "\<forall>j. j < length t \<longrightarrow> j < length t' \<and> pt_path t' j = pt_path t j" by blast
  with assms show ?thesis by (simp add: pt_get_path)
qed

theorem pt_insert_roundtrip_witness:
  "\<exists>t' i ps. pt_insert pt_new 0 7 = Inr (t', i) \<and> pt_wf t' \<and>
    pt_get_reversed_positions pt_new 0 = Some (Inr ps) \<and>
    pt_get_reversed_positions t' i = Some (Inr (7 # ps)) \<and>
    (\<forall>j < length pt_new. pt_get_reversed_positions t' j = pt_get_reversed_positions pt_new j)"
  by (rule pt_insert_roundtrip) (simp_all add: pt_new_def pt_wf_def)

end
