(* ===== verification/Register_Handler.thy ===== *)
theory Register_Handler
  imports Prefix_Tree
begin

text \<open>
  \<^verbatim>\<open>finite_automata/RegisterHandler.hpp\<close>: the registers of a tagged DFA. A register
  holds the index of a node of the prefix tree; its value, as the rest of the program sees it,
  is the list of positions on the path from that node to the root.
\<close>

section \<open>State and operations\<close>

record register_handler =
  rh_tree :: prefix_tree
  rh_regs :: "nat list"

definition rh_new :: register_handler where
  "rh_new = \<lparr>rh_tree = pt_new, rh_regs = []\<rparr>"

definition rh_add_register :: "register_handler \<Rightarrow> register_handler \<times> nat" where
  "rh_add_register h =
     (let regs = rh_regs h @ [pt_root_id] in (h\<lparr>rh_regs := regs\<rparr>, u32 (length regs - 1)))"

fun rh_add_registers :: "register_handler \<Rightarrow> nat \<Rightarrow> register_handler \<times> nat list" where
  "rh_add_registers h 0 = (h, [])"
| "rh_add_registers h (Suc n) =
     (let (h1, r) = rh_add_register h; (h2, rs) = rh_add_registers h1 n in (h2, r # rs))"

definition rh_copy_register :: "register_handler \<Rightarrow> nat \<Rightarrow> nat \<Rightarrow> register_handler res" where
  "rh_copy_register h dest source =
     (if length (rh_regs h) \<le> source \<or> length (rh_regs h) \<le> dest then Inl OutOfRange
      else Inr (h\<lparr>rh_regs := (rh_regs h)[dest := rh_regs h ! source]\<rparr>))"

definition rh_append_position :: "register_handler \<Rightarrow> nat \<Rightarrow> int \<Rightarrow> register_handler res" where
  "rh_append_position h reg position =
     (if length (rh_regs h) \<le> reg then Inl OutOfRange
      else rbind (pt_insert (rh_tree h) (rh_regs h ! reg) position)
        (\<lambda>(tree, node). Inr \<lparr>rh_tree = tree, rh_regs = (rh_regs h)[reg := node]\<rparr>))"

definition rh_get_reversed_positions :: "register_handler \<Rightarrow> nat \<Rightarrow> int list res option" where
  "rh_get_reversed_positions h reg =
     (if length (rh_regs h) \<le> reg then Some (Inl OutOfRange)
      else pt_get_reversed_positions (rh_tree h) (rh_regs h ! reg))"

definition rh_get_num_regs :: "register_handler \<Rightarrow> nat" where
  "rh_get_num_regs h = length (rh_regs h)"

section \<open>The view of the registers\<close>

definition rh_view :: "register_handler \<Rightarrow> int list list" where
  "rh_view h = map (pt_path (rh_tree h)) (rh_regs h)"

definition rh_inv :: "nat \<Rightarrow> register_handler \<Rightarrow> bool" where
  "rh_inv k h \<longleftrightarrow> pt.reg_inv (rh_tree h) (rh_regs h) \<and> length (rh_tree h) + k \<le> 2 ^ 32"

lemma rh_view_eq: "rh_view h = pt.reg_view (rh_tree h) (rh_regs h)"
  by (simp add: rh_view_def pt.reg_view_def)

lemma rh_inv_mono: "rh_inv k h \<Longrightarrow> j \<le> k \<Longrightarrow> rh_inv j h"
  by (simp add: rh_inv_def)

lemma length_rh_view [simp]: "length (rh_view h) = length (rh_regs h)"
  by (simp add: rh_view_def)

lemma rh_get_view:
  "rh_inv k h \<Longrightarrow> r < rh_get_num_regs h \<Longrightarrow>
     rh_get_reversed_positions h r = Some (Inr (rh_view h ! r))"
  by (simp add: rh_get_reversed_positions_def rh_inv_def pt.reg_inv_def rh_view_def
      rh_get_num_regs_def pt_get_path)

lemma rh_inv_new: "k < 2 ^ 32 \<Longrightarrow> rh_inv k rh_new"
  by (simp add: rh_inv_def rh_new_def pt.reg_inv_def) (simp add: pt_new_def)

lemma rh_add_register_view:
  assumes "rh_inv k h"
  shows "rh_inv k (fst (rh_add_register h))"
    "rh_view (fst (rh_add_register h)) = rh_view h @ [[]]"
    "length (rh_regs h) < 2 ^ 32 \<Longrightarrow> snd (rh_add_register h) = length (rh_regs h)"
  using assms
  by (auto simp: rh_add_register_def Let_def rh_inv_def pt.reg_inv_def rh_view_def
      pt_root_id_def pt_wf_def [of "rh_tree h"] intro!: pt_path_root)

lemma rh_add_registers_view:
  "rh_inv k h \<Longrightarrow> rh_inv k (fst (rh_add_registers h n)) \<and>
     rh_view (fst (rh_add_registers h n)) = rh_view h @ replicate n []"
proof (induction n arbitrary: h)
  case 0
  then show ?case by simp
next
  case (Suc n)
  from Suc.IH [OF rh_add_register_view(1) [OF Suc.prems]] rh_add_register_view(2) [OF Suc.prems]
  show ?case by (simp add: Let_def case_prod_beta)
qed

lemma rh_append_view:
  assumes "rh_inv (Suc k) h" "r < length (rh_regs h)"
  shows "\<exists>h'. rh_append_position h r x = Inr h' \<and> rh_inv k h' \<and>
    rh_view h' = (rh_view h)[r := x # rh_view h ! r]"
proof -
  from assms have i: "pt.reg_inv (rh_tree h) (rh_regs h)" "length (rh_tree h) < 2 ^ 32"
    by (simp_all add: rh_inv_def)
  from pt.append_view [OF i assms(2), of x] obtain t j where
    t: "pt_insert (rh_tree h) (rh_regs h ! r) x = Inr (t, j)" "pt.reg_inv t ((rh_regs h)[r := j])"
    "pt.reg_view t ((rh_regs h)[r := j]) = (rh_view h)[r := x # rh_view h ! r]"
    unfolding rh_view_eq by metis
  then have "length t = Suc (length (rh_tree h))"
    by (auto simp: pt_insert_def Let_def split: if_splits)
  with t assms show ?thesis
    by (simp add: rh_append_position_def rh_inv_def rh_view_eq)
qed

lemma rh_copy_view:
  assumes "rh_inv k h" "d < length (rh_regs h)" "r < length (rh_regs h)"
  shows "\<exists>h'. rh_copy_register h d r = Inr h' \<and> rh_inv k h' \<and>
    rh_view h' = (rh_view h)[d := rh_view h ! r]"
  using assms pt.copy_view [of "rh_tree h" "rh_regs h" d r]
  by (simp add: rh_copy_register_def rh_inv_def rh_view_eq)

end
