(* ===== verification/Tag_Register_Ops.thy ===== *)
theory Tag_Register_Ops
  imports Register_Handler "HOL-Library.Product_Lexorder"
begin

text \<open>
  \<^verbatim>\<open>finite_automata/TagOperation.hpp\<close> and \<^verbatim>\<open>RegisterOperation.hpp\<close>: the
  operations on tags that label NFA transitions, the operations on registers that label DFA
  transitions, their text forms, and \<^verbatim>\<open>Dfa::process_reg_ops\<close>, which executes the
  latter on a register handler.
\<close>

section \<open>Tag operations\<close>

datatype tag_operation_type = TagSet | TagNegate

record tag_operation =
  to_tag_id :: nat
  to_type :: tag_operation_type
  to_multi_valued :: bool

fun tag_type_rank :: "tag_operation_type \<Rightarrow> nat" where
  "tag_type_rank TagSet = 0"
| "tag_type_rank TagNegate = 1"

text \<open>
  Both comparison operators look at the tag and the type only, so operations that differ in
  \<open>to_multi_valued\<close> compare equal.
\<close>

definition tag_operation_less :: "tag_operation \<Rightarrow> tag_operation \<Rightarrow> bool" where
  "tag_operation_less a b \<longleftrightarrow>
     (to_tag_id a, tag_type_rank (to_type a)) < (to_tag_id b, tag_type_rank (to_type b))"

definition tag_operation_eq :: "tag_operation \<Rightarrow> tag_operation \<Rightarrow> bool" where
  "tag_operation_eq a b \<longleftrightarrow> (to_tag_id a, to_type a) = (to_tag_id b, to_type b)"

definition tag_operation_serialize :: "tag_operation \<Rightarrow> string" where
  "tag_operation_serialize a =
     dec (to_tag_id a) @ (case to_type a of TagSet \<Rightarrow> ''p'' | TagNegate \<Rightarrow> ''n'')
     @ (if to_multi_valued a then ''+'' else '''')"

text \<open>The key by which tag operations compare.\<close>

definition tag_key :: "tag_operation \<Rightarrow> nat \<times> nat" where
  "tag_key a = (to_tag_id a, tag_type_rank (to_type a))"

lemma tag_type_rank_inj [simp]: "tag_type_rank s = tag_type_rank t \<longleftrightarrow> s = t"
  by (cases s; cases t) simp_all

lemma tag_operation_less_key: "tag_operation_less a b \<longleftrightarrow> tag_key a < tag_key b"
  by (simp add: tag_operation_less_def tag_key_def)

lemma tag_operation_eq_key: "tag_operation_eq a b \<longleftrightarrow> tag_key a = tag_key b"
  by (simp add: tag_operation_eq_def tag_key_def)

section \<open>Register operations\<close>

datatype reg_op_type = RegCopy | RegSet | RegNegate

record reg_op =
  ro_reg_id :: nat
  ro_type :: reg_op_type
  ro_copy_reg_id :: "nat option"

definition create_set_operation :: "nat \<Rightarrow> reg_op" where
  "create_set_operation reg = \<lparr>ro_reg_id = reg, ro_type = RegSet, ro_copy_reg_id = None\<rparr>"

definition create_negate_operation :: "nat \<Rightarrow> reg_op" where
  "create_negate_operation reg = \<lparr>ro_reg_id = reg, ro_type = RegNegate, ro_copy_reg_id = None\<rparr>"

definition create_copy_operation :: "nat \<Rightarrow> nat \<Rightarrow> reg_op" where
  "create_copy_operation dest src =
     \<lparr>ro_reg_id = dest, ro_type = RegCopy, ro_copy_reg_id = Some src\<rparr>"

definition reg_op_serialize :: "reg_op \<Rightarrow> string option" where
  "reg_op_serialize r =
     (case ro_type r of
        RegCopy \<Rightarrow> (case ro_copy_reg_id r of
            None \<Rightarrow> None
          | Some src \<Rightarrow> Some (dec (ro_reg_id r) @ ''c'' @ dec src))
      | RegSet \<Rightarrow> Some (dec (ro_reg_id r) @ ''p'')
      | RegNegate \<Rightarrow> Some (dec (ro_reg_id r) @ ''n''))"

text \<open>
  The operations that exist in the program: the constructors are private, so every object comes
  from one of the three factories and is possibly renumbered by \<^verbatim>\<open>set_reg_id\<close>.
\<close>

definition reg_op_wf :: "reg_op \<Rightarrow> bool" where
  "reg_op_wf r \<longleftrightarrow> (ro_type r = RegCopy \<longleftrightarrow> ro_copy_reg_id r \<noteq> None)"

lemma reg_op_wf_create [simp]:
  "reg_op_wf (create_set_operation r)" "reg_op_wf (create_negate_operation r)"
  "reg_op_wf (create_copy_operation d r)"
  by (simp_all add: reg_op_wf_def create_set_operation_def create_negate_operation_def
      create_copy_operation_def)

lemma reg_op_wf_renumber [simp]: "reg_op_wf (r\<lparr>ro_reg_id := i\<rparr>) = reg_op_wf r"
  by (simp add: reg_op_wf_def)

section \<open>Executing register operations\<close>

definition process_reg_op :: "nat \<Rightarrow> reg_op \<Rightarrow> register_handler \<Rightarrow> register_handler res" where
  "process_reg_op curr_pos r h =
     (case ro_type r of
        RegSet \<Rightarrow> rh_append_position h (ro_reg_id r) (i32_of_u32 curr_pos)
      | RegNegate \<Rightarrow> rh_append_position h (ro_reg_id r) (-1)
      | RegCopy \<Rightarrow> (case ro_copy_reg_id r of
            Some src \<Rightarrow> rh_copy_register h (ro_reg_id r) src
          | None \<Rightarrow> Inl LogicError))"

definition process_reg_ops ::
  "register_handler \<Rightarrow> reg_op list \<Rightarrow> nat \<Rightarrow> register_handler res" where
  "process_reg_ops h reg_ops curr_pos = rfold (process_reg_op curr_pos) reg_ops h"

text \<open>
  What the operations mean, with a register file as a list of position histories, newest
  position first.
\<close>

definition exec_reg_op :: "int \<Rightarrow> reg_op \<Rightarrow> int list list \<Rightarrow> int list list" where
  "exec_reg_op pos r v =
     (case ro_type r of
        RegSet \<Rightarrow> v[ro_reg_id r := pos # v ! ro_reg_id r]
      | RegNegate \<Rightarrow> v[ro_reg_id r := (-1) # v ! ro_reg_id r]
      | RegCopy \<Rightarrow> v[ro_reg_id r := v ! the (ro_copy_reg_id r)])"

definition reg_op_ok :: "nat \<Rightarrow> reg_op \<Rightarrow> bool" where
  "reg_op_ok n r \<longleftrightarrow> reg_op_wf r \<and> ro_reg_id r < n \<and>
     (case ro_copy_reg_id r of None \<Rightarrow> True | Some src \<Rightarrow> src < n)"

lemma length_exec_reg_op [simp]: "length (exec_reg_op pos r v) = length v"
  by (simp add: exec_reg_op_def split: reg_op_type.split)

interpretation reg_sim: op_simulation "process_reg_op pos" "exec_reg_op (i32_of_u32 pos)"
  rh_view rh_inv "\<lambda>r v. reg_op_ok (length v) r" for pos
proof unfold_locales
  fix k s x
  assume inv: "rh_inv (Suc k) s" and ok: "reg_op_ok (length (rh_view s)) x"
  then have r: "ro_reg_id x < length (rh_regs s)" by (simp add: reg_op_ok_def)
  show "\<exists>s'. process_reg_op pos x s = Inr s' \<and> rh_inv k s' \<and>
      rh_view s' = exec_reg_op (i32_of_u32 pos) x (rh_view s)"
  proof (cases "ro_type x")
    case RegCopy
    with ok obtain src where "ro_copy_reg_id x = Some src" "src < length (rh_regs s)"
      by (auto simp: reg_op_ok_def reg_op_wf_def)
    with RegCopy r rh_copy_view [OF rh_inv_mono [OF inv, of k]] show ?thesis
      by (simp add: process_reg_op_def exec_reg_op_def)
  next
    case RegSet
    with rh_append_view [OF inv r] show ?thesis
      by (simp add: process_reg_op_def exec_reg_op_def)
  next
    case RegNegate
    with rh_append_view [OF inv r] show ?thesis
      by (simp add: process_reg_op_def exec_reg_op_def)
  qed
qed simp

section \<open>Properties\<close>

text \<open>
  C24: executing a list of register operations on a well-formed register handler with room for
  one node per operation succeeds when every operation names existing registers, and refines
  the fold of their meaning over the register file: a set pushes the current position (as an
  int32), a negate pushes -1, a copy overwrites the destination's history; reading any register
  afterwards returns exactly its history in the resulting file.
\<close>

theorem process_reg_ops_refines:
  assumes "rh_inv (length ops) h" "\<forall>r \<in> set ops. reg_op_ok (rh_get_num_regs h) r"
  shows "\<exists>h'. process_reg_ops h ops pos = Inr h' \<and>
    rh_view h' = fold (exec_reg_op (i32_of_u32 pos)) ops (rh_view h) \<and>
    (\<forall>r < rh_get_num_regs h. rh_get_reversed_positions h' r =
       Some (Inr (fold (exec_reg_op (i32_of_u32 pos)) ops (rh_view h) ! r)))"
proof -
  from reg_sim.run_sim [of ops 0 h pos] assms obtain h' where
    h': "process_reg_ops h ops pos = Inr h'" "rh_inv 0 h'"
    "rh_view h' = fold (exec_reg_op (i32_of_u32 pos)) ops (rh_view h)"
    by (auto simp: process_reg_ops_def rh_get_num_regs_def)
  have "length (fold (exec_reg_op p) rs v) = length v" for p rs v
    by (induction rs arbitrary: v) simp_all
  then have "length (rh_view h') = length (rh_view h)" by (simp only: h'(3))
  then have "rh_get_num_regs h' = rh_get_num_regs h" by (simp add: rh_get_num_regs_def)
  with rh_get_view [OF h'(2)] h' show ?thesis by simp
qed

definition demo_handler :: register_handler where
  "demo_handler = fst (rh_add_registers rh_new 2)"

theorem process_reg_ops_refines_witness:
  "\<exists>h'. process_reg_ops demo_handler [create_set_operation 0, create_copy_operation 1 0] 5 = Inr h' \<and>
    rh_view h' = fold (exec_reg_op (i32_of_u32 5))
      [create_set_operation 0, create_copy_operation 1 0] (rh_view demo_handler) \<and>
    (\<forall>r < rh_get_num_regs demo_handler. rh_get_reversed_positions h' r =
       Some (Inr (fold (exec_reg_op (i32_of_u32 5))
         [create_set_operation 0, create_copy_operation 1 0] (rh_view demo_handler) ! r)))"
proof (rule process_reg_ops_refines)
  show "rh_inv (length [create_set_operation 0, create_copy_operation 1 0]) demo_handler"
    unfolding demo_handler_def by (rule conjunct1 [OF rh_add_registers_view]) (simp add: rh_inv_new)
  show "\<forall>r \<in> set [create_set_operation 0, create_copy_operation 1 0].
      reg_op_ok (rh_get_num_regs demo_handler) r"
    by (simp add: reg_op_ok_def create_set_operation_def create_copy_operation_def
        reg_op_wf_def demo_handler_def rh_get_num_regs_def rh_add_register_def rh_new_def
        numeral_2_eq_2)
qed

text \<open>
  The text form of register operations is unambiguous: two operations built by the
  factories (renumbered or not) that serialize to the same string are the same operation, and
  serialization of such an operation never fails.
\<close>

theorem reg_op_serialize_injective:
  assumes "reg_op_wf a" "reg_op_wf b"
  shows "reg_op_serialize a \<noteq> None \<and> (reg_op_serialize a = reg_op_serialize b \<longrightarrow> a = b)"
proof -
  have nd: "\<not> is_digit CHR ''c''" "\<not> is_digit CHR ''p''" "\<not> is_digit CHR ''n''"
    by (simp_all add: is_digit_def)
  note inj = dec_append_inj [OF _ nd(1) nd(1)] dec_append_inj [OF _ nd(1) nd(2)]
    dec_append_inj [OF _ nd(1) nd(3)] dec_append_inj [OF _ nd(2) nd(1)]
    dec_append_inj [OF _ nd(2) nd(2)] dec_append_inj [OF _ nd(2) nd(3)]
    dec_append_inj [OF _ nd(3) nd(1)] dec_append_inj [OF _ nd(3) nd(2)]
    dec_append_inj [OF _ nd(3) nd(3)]
  show ?thesis
    using assms
    by (cases a; cases b)
      (auto simp: reg_op_serialize_def reg_op_wf_def split: reg_op_type.splits
        dest!: inj dec_inj)
qed

theorem reg_op_serialize_injective_witness:
  "reg_op_serialize (create_copy_operation 12 3) \<noteq> reg_op_serialize (create_set_operation 12)"
  using reg_op_serialize_injective [of "create_copy_operation 12 3" "create_set_operation 12"]
  by (auto simp: create_copy_operation_def create_set_operation_def reg_op_wf_def)

end
