(* ===== verification/Regex_Ast.thy ===== *)
theory Regex_Ast
  imports Regex_Group
begin

text \<open>
  The abstract syntax of schema regexes, \<^verbatim>\<open>finite_automata/RegexAST.hpp\<close>: the node
  classes as one datatype, the two capture lists that every node carries, the constructors that
  compute them, and the operations that walk the tree (text form, possible inputs, removal of
  delimiters from wildcards). Captures are compared by pointer in the code, so a capture has an
  address besides its name.
\<close>

section \<open>Nodes\<close>

datatype capture = Capture (cap_addr: nat) (cap_name: string)

record ast_base =
  ab_subtree_positive_captures :: "capture list"
  ab_negative_captures :: "capture list"

datatype regex_ast =
    ReEmpty ast_base
  | ReLiteral ast_base nat
  | ReInteger ast_base "nat list"
  | ReGroup ast_base group
  | ReOr ast_base regex_ast regex_ast
  | ReCat ast_base regex_ast regex_ast
  | ReMult ast_base regex_ast nat nat
  | ReCapture ast_base regex_ast capture

fun ast_base_of :: "regex_ast \<Rightarrow> ast_base" where
  "ast_base_of (ReEmpty b) = b"
| "ast_base_of (ReLiteral b _) = b"
| "ast_base_of (ReInteger b _) = b"
| "ast_base_of (ReGroup b _) = b"
| "ast_base_of (ReOr b _ _) = b"
| "ast_base_of (ReCat b _ _) = b"
| "ast_base_of (ReMult b _ _ _) = b"
| "ast_base_of (ReCapture b _ _) = b"

fun ast_map_base :: "(ast_base \<Rightarrow> ast_base) \<Rightarrow> regex_ast \<Rightarrow> regex_ast" where
  "ast_map_base f (ReEmpty b) = ReEmpty (f b)"
| "ast_map_base f (ReLiteral b c) = ReLiteral (f b) c"
| "ast_map_base f (ReInteger b ds) = ReInteger (f b) ds"
| "ast_map_base f (ReGroup b g) = ReGroup (f b) g"
| "ast_map_base f (ReOr b l r) = ReOr (f b) l r"
| "ast_map_base f (ReCat b l r) = ReCat (f b) l r"
| "ast_map_base f (ReMult b r m n) = ReMult (f b) r m n"
| "ast_map_base f (ReCapture b r c) = ReCapture (f b) r c"

definition get_subtree_positive_captures :: "regex_ast \<Rightarrow> capture list" where
  "get_subtree_positive_captures r = ab_subtree_positive_captures (ast_base_of r)"

definition get_negative_captures :: "regex_ast \<Rightarrow> capture list" where
  "get_negative_captures r = ab_negative_captures (ast_base_of r)"

definition set_negative_captures :: "capture list \<Rightarrow> regex_ast \<Rightarrow> regex_ast" where
  "set_negative_captures cs = ast_map_base (\<lambda>b. b\<lparr>ab_negative_captures := cs\<rparr>)"

lemma set_negative_captures_base [simp]:
  "get_subtree_positive_captures (set_negative_captures cs r) = get_subtree_positive_captures r"
  "get_negative_captures (set_negative_captures cs r) = cs"
  by (cases r; simp add: get_subtree_positive_captures_def get_negative_captures_def
      set_negative_captures_def)+

section \<open>Constructors\<close>

definition base_new :: ast_base where
  "base_new = \<lparr>ab_subtree_positive_captures = [], ab_negative_captures = []\<rparr>"

definition base_with :: "capture list \<Rightarrow> ast_base" where
  "base_with cs = base_new\<lparr>ab_subtree_positive_captures := cs\<rparr>"

definition mk_empty :: regex_ast where
  "mk_empty = ReEmpty base_new"

definition mk_literal :: "nat \<Rightarrow> regex_ast" where
  "mk_literal character = ReLiteral base_new character"

definition mk_group :: "group \<Rightarrow> regex_ast" where
  "mk_group g = ReGroup base_new g"

text \<open>\<^verbatim>\<open>digit - '0'\<close> on \<^verbatim>\<open>uint32_t\<close>.\<close>

definition digit_of_char :: "nat \<Rightarrow> nat" where
  "digit_of_char digit = u32 (digit + (2 ^ 32 - 48))"

definition mk_integer :: "nat \<Rightarrow> regex_ast" where
  "mk_integer digit = ReInteger base_new [digit_of_char digit]"

definition mk_integer_snoc :: "nat list \<Rightarrow> nat \<Rightarrow> regex_ast" where
  "mk_integer_snoc left_digits digit = ReInteger base_new (left_digits @ [digit_of_char digit])"

definition mk_or :: "regex_ast \<Rightarrow> regex_ast \<Rightarrow> regex_ast" where
  "mk_or left right =
     (let l = set_negative_captures (get_subtree_positive_captures right) left;
          r = set_negative_captures (get_subtree_positive_captures l) right
      in ReOr (base_with (get_subtree_positive_captures l @ get_subtree_positive_captures r)) l r)"

definition mk_cat :: "regex_ast \<Rightarrow> regex_ast \<Rightarrow> regex_ast" where
  "mk_cat left right =
     ReCat (base_with (get_subtree_positive_captures left @ get_subtree_positive_captures right))
       left right"

definition mk_mult :: "regex_ast \<Rightarrow> nat \<Rightarrow> nat \<Rightarrow> regex_ast" where
  "mk_mult operand mn mx = ReMult (base_with (get_subtree_positive_captures operand)) operand mn mx"

definition mk_capture :: "regex_ast option \<Rightarrow> capture option \<Rightarrow> regex_ast res" where
  "mk_capture capture_regex_ast cap =
     (case capture_regex_ast of
        None \<Rightarrow> Inl InvalidArgument
      | Some r \<Rightarrow> (case cap of
            None \<Rightarrow> Inl InvalidArgument
          | Some c \<Rightarrow> Inr (ReCapture (base_with (get_subtree_positive_captures r @ [c])) r c)))"

definition is_infinite :: "nat \<Rightarrow> bool" where
  "is_infinite mx \<longleftrightarrow> mx = 0"

section \<open>Walking the tree\<close>

text \<open>
  \<^verbatim>\<open>remove_delimiters_from_wildcard\<close> threads the caller's vector, which a wildcard group
  sorts in place.
\<close>

fun remove_delimiters_from_wildcard :: "regex_ast \<Rightarrow> nat list \<Rightarrow> regex_ast \<times> nat list" where
  "remove_delimiters_from_wildcard (ReGroup b g) ds =
     (let (g', ds') = group_remove_delimiters g ds in (ReGroup b g', ds'))"
| "remove_delimiters_from_wildcard (ReOr b l r) ds =
     (let (l', ds1) = remove_delimiters_from_wildcard l ds;
          (r', ds2) = remove_delimiters_from_wildcard r ds1 in (ReOr b l' r', ds2))"
| "remove_delimiters_from_wildcard (ReCat b l r) ds =
     (let (l', ds1) = remove_delimiters_from_wildcard l ds;
          (r', ds2) = remove_delimiters_from_wildcard r ds1 in (ReCat b l' r', ds2))"
| "remove_delimiters_from_wildcard (ReMult b r m n) ds =
     (let (r', ds') = remove_delimiters_from_wildcard r ds in (ReMult b r' m n, ds'))"
| "remove_delimiters_from_wildcard (ReCapture b r c) ds =
     (let (r', ds') = remove_delimiters_from_wildcard r ds in (ReCapture b r' c, ds'))"
| "remove_delimiters_from_wildcard r ds = (r, ds)"

text \<open>
  \<^verbatim>\<open>set_possible_inputs_to_true\<close> on an array of \<^verbatim>\<open>cSizeOfUnicode\<close>
  flags, as a function of the code point; a range is the loop from its first to its last
  character. The groups index the caller's array with \<^verbatim>\<open>at\<close>, which throws; a negated
  group and a literal index without a check.
\<close>

fun mark_ranges :: "exn \<Rightarrow> range list \<Rightarrow> bool \<Rightarrow> (nat \<Rightarrow> bool) \<Rightarrow> (nat \<Rightarrow> bool) res" where
  "mark_ranges out [] v inputs = Inr inputs"
| "mark_ranges out ((b, e) # rs) v inputs =
     (if b \<le> e \<and> cUnicodeMax < e then Inl out
      else mark_ranges out rs v (\<lambda>i. if b \<le> i \<and> i \<le> e then v else inputs i))"

definition group_set_possible_inputs :: "group \<Rightarrow> (nat \<Rightarrow> bool) \<Rightarrow> (nat \<Rightarrow> bool) res" where
  "group_set_possible_inputs g is_possible_input =
     (if \<not> g_negate g then mark_ranges OutOfRange (g_ranges g) True is_possible_input
      else rbind (mark_ranges UndefinedBehavior (g_ranges g) False (\<lambda>i. True)) (\<lambda>inputs.
        Inr (\<lambda>i. if i \<le> cUnicodeMax \<and> inputs i then True else is_possible_input i)))"

fun set_possible_inputs_to_true :: "regex_ast \<Rightarrow> (nat \<Rightarrow> bool) \<Rightarrow> (nat \<Rightarrow> bool) res" where
  "set_possible_inputs_to_true (ReEmpty b) inputs = Inr inputs"
| "set_possible_inputs_to_true (ReLiteral b c) inputs =
     (if c \<le> cUnicodeMax then Inr (inputs(c := True)) else Inl UndefinedBehavior)"
| "set_possible_inputs_to_true (ReInteger b ds) inputs =
     rfold (\<lambda>i inp. if u32 (48 + i) \<le> cUnicodeMax then Inr (inp(u32 (48 + i) := True))
                    else Inl OutOfRange) ds inputs"
| "set_possible_inputs_to_true (ReGroup b g) inputs = group_set_possible_inputs g inputs"
| "set_possible_inputs_to_true (ReOr b l r) inputs =
     rbind (set_possible_inputs_to_true l inputs) (set_possible_inputs_to_true r)"
| "set_possible_inputs_to_true (ReCat b l r) inputs =
     rbind (set_possible_inputs_to_true l inputs) (set_possible_inputs_to_true r)"
| "set_possible_inputs_to_true (ReMult b r m n) inputs = set_possible_inputs_to_true r inputs"
| "set_possible_inputs_to_true (ReCapture b r c) inputs = set_possible_inputs_to_true r inputs"

section \<open>Text form\<close>

text \<open>A \<^verbatim>\<open>std::u32string\<close> is a list of code points.\<close>

type_synonym u32string = "nat list"

definition u32s :: "string \<Rightarrow> u32string" where
  "u32s s = map of_char s"

definition control_white_space_chars :: "nat list" where
  "control_white_space_chars = [9, 10, 13, 12, 11]"

definition printable_ascii :: "nat \<Rightarrow> bool" where
  "printable_ascii c \<longleftrightarrow> 32 \<le> c \<and> c \<le> 125"

definition unescape_char :: "nat \<Rightarrow> nat" where
  "unescape_char c =
     (if c = 9 then 116 else if c = 10 then 110 else if c = 13 then 114
      else if c = 12 then 102 else if c = 11 then 118 else c)"

definition serialize_range :: "range \<Rightarrow> u32string" where
  "serialize_range r =
     (let (b, e) = r;
          esc = (\<lambda>c. if c \<in> set control_white_space_chars then u32s [CHR 0x5C] else []);
          printable = (\<lambda>c. printable_ascii c \<or> c \<in> set control_white_space_chars);
          u = u32s [CHR 0x5C, CHR ''u'']
      in if b = e then
           (if printable b then esc b @ [unescape_char b] else u @ u32s (dec b))
         else if printable b \<and> printable e then
           esc b @ [unescape_char b] @ u32s ''-'' @ esc e @ [unescape_char e]
         else u @ u32s (dec b) @ u32s ''-'' @ u @ u32s (dec e))"

definition serialize_negative_captures :: "regex_ast \<Rightarrow> u32string" where
  "serialize_negative_captures r =
     concat (map (\<lambda>c. u32s (''<~'' @ cap_name c @ ''>'')) (get_negative_captures r))"

definition serialize_group :: "group \<Rightarrow> u32string" where
  "serialize_group g =
     u32s ''['' @ (if g_negate g then u32s ''^'' else [])
     @ (if g_is_wildcard g then u32s ''*''
        else fold (\<lambda>r acc. (if acc = [] then acc else acc @ u32s '','') @ serialize_range r)
               (g_ranges g) [])
     @ u32s '']''"

fun ast_serialize :: "regex_ast \<Rightarrow> u32string" where
  "ast_serialize (ReEmpty b) = serialize_negative_captures (ReEmpty b)"
| "ast_serialize (ReLiteral b c) = c # serialize_negative_captures (ReLiteral b c)"
| "ast_serialize (ReInteger b ds) =
     u32s (concat (map dec ds)) @ serialize_negative_captures (ReInteger b ds)"
| "ast_serialize (ReGroup b g) = serialize_group g @ serialize_negative_captures (ReGroup b g)"
| "ast_serialize (ReOr b l r) =
     u32s ''('' @ u32s ''('' @ ast_serialize l @ u32s '')|('' @ ast_serialize r @ u32s '')''
     @ serialize_negative_captures (ReOr b l r) @ u32s '')''"
| "ast_serialize (ReCat b l r) =
     ast_serialize l @ ast_serialize r @ serialize_negative_captures (ReCat b l r)"
| "ast_serialize (ReMult b r m n) =
     u32s ''('' @ ast_serialize r @ u32s ''){'' @ u32s (dec m) @ u32s '',''
     @ (if is_infinite n then u32s ''inf'' else u32s (dec n)) @ u32s ''}''
     @ serialize_negative_captures (ReMult b r m n)"
| "ast_serialize (ReCapture b r c) =
     u32s ''('' @ ast_serialize r @ u32s '')<'' @ u32s (cap_name c) @ u32s ''>''
     @ serialize_negative_captures (ReCapture b r c)"

section \<open>Trees that the program can build\<close>

text \<open>The captures of a subtree, read off the capture nodes themselves.\<close>

fun captures_of :: "regex_ast \<Rightarrow> capture list" where
  "captures_of (ReOr b l r) = captures_of l @ captures_of r"
| "captures_of (ReCat b l r) = captures_of l @ captures_of r"
| "captures_of (ReMult b r m n) = captures_of r"
| "captures_of (ReCapture b r c) = captures_of r @ [c]"
| "captures_of r = []"

text \<open>
  The invariant of the capture lists: the cached positive captures are those of the subtree, the
  two arms of an alternation negate each other's captures, and no other node has negative
  captures. A tree is fresh until an alternation takes it.
\<close>

fun ast_captures_wf :: "regex_ast \<Rightarrow> bool" where
  "ast_captures_wf (ReOr b l r) \<longleftrightarrow>
     ab_subtree_positive_captures b = captures_of l @ captures_of r \<and>
     get_negative_captures l = captures_of r \<and> get_negative_captures r = captures_of l \<and>
     ast_captures_wf l \<and> ast_captures_wf r"
| "ast_captures_wf (ReCat b l r) \<longleftrightarrow>
     ab_subtree_positive_captures b = captures_of l @ captures_of r \<and>
     get_negative_captures l = [] \<and> get_negative_captures r = [] \<and>
     ast_captures_wf l \<and> ast_captures_wf r"
| "ast_captures_wf (ReMult b r m n) \<longleftrightarrow>
     ab_subtree_positive_captures b = captures_of r \<and> get_negative_captures r = [] \<and>
     ast_captures_wf r"
| "ast_captures_wf (ReCapture b r c) \<longleftrightarrow>
     ab_subtree_positive_captures b = captures_of r @ [c] \<and> get_negative_captures r = [] \<and>
     ast_captures_wf r"
| "ast_captures_wf r \<longleftrightarrow> get_subtree_positive_captures r = []"

definition ast_fresh :: "regex_ast \<Rightarrow> bool" where
  "ast_fresh r \<longleftrightarrow> ast_captures_wf r \<and> get_negative_captures r = []"

lemma ast_captures_wf_positive:
  "ast_captures_wf r \<Longrightarrow> get_subtree_positive_captures r = captures_of r"
  by (cases r) (simp_all add: get_subtree_positive_captures_def)

lemma captures_of_set_negative [simp]: "captures_of (set_negative_captures cs r) = captures_of r"
  by (cases r) (simp_all add: set_negative_captures_def)

lemma ast_captures_wf_set_negative [simp]:
  "ast_captures_wf (set_negative_captures cs r) = ast_captures_wf r"
  by (cases r) (simp_all add: set_negative_captures_def get_subtree_positive_captures_def)

lemmas mk_defs = mk_empty_def mk_literal_def mk_group_def mk_integer_def mk_integer_snoc_def
  mk_or_def mk_cat_def mk_mult_def base_with_def base_new_def

section \<open>Properties\<close>

lemma mk_get_negative [simp]:
  "get_negative_captures mk_empty = []" "get_negative_captures (mk_literal c) = []"
  "get_negative_captures (mk_group g) = []" "get_negative_captures (mk_integer d) = []"
  "get_negative_captures (mk_integer_snoc ds d) = []" "get_negative_captures (mk_or l r) = []"
  "get_negative_captures (mk_cat l r) = []" "get_negative_captures (mk_mult l m n) = []"
  by (simp_all add: mk_defs get_negative_captures_def Let_def)

text \<open>
  The constructors keep the capture bookkeeping right: every node they build from fresh
  children is fresh again and caches exactly the captures of its subtree, and the two arms of an
  alternation record each other's captures as negative captures.
\<close>

theorem constructors_keep_captures:
  assumes "ast_fresh l" "ast_fresh r"
  shows "ast_fresh mk_empty \<and> ast_fresh (mk_literal c) \<and> ast_fresh (mk_group g) \<and>
    ast_fresh (mk_integer d) \<and> ast_fresh (mk_integer_snoc ds d) \<and>
    ast_fresh (mk_or l r) \<and> ast_fresh (mk_cat l r) \<and> ast_fresh (mk_mult l m n) \<and>
    (\<exists>x. mk_capture (Some l) (Some cap) = Inr x \<and> ast_fresh x
       \<and> get_subtree_positive_captures x = captures_of l @ [cap])"
  using assms
  by (simp add: mk_defs mk_capture_def get_subtree_positive_captures_def Let_def ast_fresh_def
      get_negative_captures_def ast_captures_wf_positive [unfolded get_subtree_positive_captures_def]
      ast_captures_wf_set_negative set_negative_captures_base [unfolded get_negative_captures_def])

definition demo_capture :: regex_ast where
  "demo_capture = (case mk_capture (Some (mk_literal 97)) (Some (Capture 1 ''x'')) of
     Inr r \<Rightarrow> r | Inl _ \<Rightarrow> mk_empty)"

theorem constructors_keep_captures_witness:
  "ast_fresh mk_empty \<and> ast_fresh (mk_literal 98) \<and> ast_fresh (mk_group group_default) \<and>
    ast_fresh (mk_integer 50) \<and> ast_fresh (mk_integer_snoc [1] 50) \<and>
    ast_fresh (mk_or demo_capture (mk_literal 98)) \<and>
    ast_fresh (mk_cat demo_capture (mk_literal 98)) \<and> ast_fresh (mk_mult demo_capture 1 0) \<and>
    (\<exists>x. mk_capture (Some demo_capture) (Some (Capture 2 ''y'')) = Inr x \<and> ast_fresh x
       \<and> get_subtree_positive_captures x = captures_of demo_capture @ [Capture 2 ''y''])"
  by (rule constructors_keep_captures [where l = demo_capture and r = "mk_literal 98"])
    (simp_all add: demo_capture_def mk_capture_def mk_defs get_subtree_positive_captures_def
      ast_fresh_def get_negative_captures_def)

lemma mark_ranges_eq:
  "ranges_wf rs \<Longrightarrow> mark_ranges out rs v inputs =
     Inr (\<lambda>i. if in_ranges i rs then v else inputs i)"
  by (induction rs arbitrary: inputs) (auto simp: fun_eq_iff ranges_wf_def)

text \<open>
  C28: a group marks as possible inputs exactly its characters, agreeing with the ranges it turns
  into transitions: for well-formed, non-empty ranges it does not throw, and a code point is
  newly marked if and only if it lies in the group's effective ranges.
\<close>

theorem group_possible_inputs_agree:
  assumes "ranges_wf (g_ranges g)" "g_ranges g \<noteq> []"
  shows "\<exists>inputs'. group_set_possible_inputs g inputs = Inr inputs' \<and>
    (\<forall>c. inputs' c \<longleftrightarrow> inputs c \<or> in_ranges c (group_effective_ranges g))"
proof -
  have m: "in_ranges c (group_merge (sort (g_ranges g))) = in_ranges c (g_ranges g)"
    "ranges_wf (group_merge (sort (g_ranges g)))" "separated (group_merge (sort (g_ranges g)))"
    "group_merge (sort (g_ranges g)) \<noteq> []" for c
    using group_merge_sound [of "sort (g_ranges g)"] assms by simp_all
  show ?thesis
    using group_complement_sound [OF m(3,2,4)] m(1)
    by (auto simp: group_set_possible_inputs_def group_effective_ranges_def Let_def
        mark_ranges_eq assms(1))
qed

theorem group_possible_inputs_agree_witness:
  "\<exists>inputs'. group_set_possible_inputs (group_min_max 48 57) (\<lambda>i. False) = Inr inputs' \<and>
    (\<forall>c. inputs' c \<longleftrightarrow> (\<lambda>i. False) c \<or> in_ranges c (group_effective_ranges (group_min_max 48 57)))"
  by (rule group_possible_inputs_agree) (simp_all add: group_min_max_def cUnicodeMax_def)

end
