(* ===== verification/Nfa.thy ===== *)
theory Nfa
  imports Tag_Register_Ops Regex_Ast
begin

text \<open>
  \<^verbatim>\<open>finite_automata/Nfa.hpp\<close>, \<^verbatim>\<open>NfaState.hpp\<close> (byte states),
  \<^verbatim>\<open>NfaSpontaneousTransition.hpp\<close> and \<^verbatim>\<open>UniqueIdGenerator.hpp\<close>: the
  automaton under construction, its primitive extensions, the breadth-first traversal and the text
  form. A pointer to a state is the state's position in \<^verbatim>\<open>m_states\<close>, which only
  grows; states are owned through \<^verbatim>\<open>unique_ptr\<close>, so positions identify them.
\<close>

section \<open>States\<close>

text \<open>\<^verbatim>\<open>UniqueIdGenerator\<close>: the state is the current id.\<close>

definition generate_id :: "nat \<Rightarrow> nat \<times> nat" where
  "generate_id current = (current, u32 (current + 1))"

record nfa_spontaneous_transition =
  sp_tag_ops :: "tag_operation list"
  sp_dest_state :: nat

record nfa_state =
  ns_id :: nat
  ns_accepting :: bool
  ns_matching_variable_id :: nat
  ns_spontaneous_transitions :: "nfa_spontaneous_transition list"
  ns_bytes_transitions :: "nat \<Rightarrow> nat list"

definition ns_new :: "nat \<Rightarrow> nfa_state" where
  "ns_new i = \<lparr>ns_id = i, ns_accepting = False, ns_matching_variable_id = 0,
     ns_spontaneous_transitions = [], ns_bytes_transitions = (\<lambda>_. [])\<rparr>"

definition ns_new_accepting :: "nat \<Rightarrow> nat \<Rightarrow> nfa_state" where
  "ns_new_accepting i matching_variable_id =
     (ns_new i)\<lparr>ns_accepting := True, ns_matching_variable_id := matching_variable_id\<rparr>"

definition ns_add_spontaneous_transition :: "nat \<Rightarrow> nfa_state \<Rightarrow> nfa_state" where
  "ns_add_spontaneous_transition dest s =
     s\<lparr>ns_spontaneous_transitions :=
         ns_spontaneous_transitions s @ [\<lparr>sp_tag_ops = [], sp_dest_state = dest\<rparr>]\<rparr>"

definition ns_add_tagged_transition ::
  "tag_operation_type \<Rightarrow> nat list \<Rightarrow> nat \<Rightarrow> bool \<Rightarrow> nfa_state \<Rightarrow> nfa_state" where
  "ns_add_tagged_transition op_type tag_ids dest multi_valued s =
     (let tag_ops = map (\<lambda>tag_id. \<lparr>to_tag_id = tag_id, to_type = op_type,
                                   to_multi_valued = multi_valued\<rparr>) tag_ids
      in s\<lparr>ns_spontaneous_transitions :=
         ns_spontaneous_transitions s @ [\<lparr>sp_tag_ops = tag_ops, sp_dest_state = dest\<rparr>]\<rparr>)"

definition ns_new_tagged ::
  "nat \<Rightarrow> tag_operation_type \<Rightarrow> nat list \<Rightarrow> nat \<Rightarrow> bool \<Rightarrow> nfa_state" where
  "ns_new_tagged i op_type tag_ids dest multi_valued =
     ns_add_tagged_transition op_type tag_ids dest multi_valued (ns_new i)"

definition ns_add_byte_transition :: "nat \<Rightarrow> nat \<Rightarrow> nfa_state \<Rightarrow> nfa_state" where
  "ns_add_byte_transition byte dest s =
     s\<lparr>ns_bytes_transitions := (ns_bytes_transitions s)(byte := ns_bytes_transitions s byte @ [dest])\<rparr>"

text \<open>
  \<^verbatim>\<open>add_interval\<close> for byte states: the part of the interval below 256 becomes byte
  transitions and the rest is dropped.
\<close>

definition ns_add_interval :: "range \<Rightarrow> nat \<Rightarrow> nfa_state \<Rightarrow> nfa_state" where
  "ns_add_interval interval dest s =
     (if fst interval < cSizeOfByte
      then let bound = min (snd interval) (cSizeOfByte - 1)
           in fold (\<lambda>i. ns_add_byte_transition i dest) [fst interval ..< Suc bound] s
      else s)"

definition sp_serialize :: "(nat \<rightharpoonup> nat) \<Rightarrow> nfa_spontaneous_transition \<Rightarrow> string option" where
  "sp_serialize state_ids t =
     (case state_ids (sp_dest_state t) of
        None \<Rightarrow> None
      | Some i \<Rightarrow> Some (dec i @ ''['' @ join '','' (map tag_operation_serialize (sp_tag_ops t)) @ '']''))"

text \<open>
  \<^verbatim>\<open>NfaState::serialize\<close>: \<^verbatim>\<open>state_ids.at\<close> throws, a spontaneous transition
  to an unnumbered state makes the result \<^verbatim>\<open>nullopt\<close>.
\<close>

definition map_at :: "(nat \<rightharpoonup> nat) \<Rightarrow> nat \<Rightarrow> nat res" where
  "map_at m k = (case m k of None \<Rightarrow> Inl OutOfRange | Some v \<Rightarrow> Inr v)"

definition ns_serialize :: "(nat \<rightharpoonup> nat) \<Rightarrow> nat \<Rightarrow> nfa_state \<Rightarrow> string option res" where
  "ns_serialize state_ids this s =
     (let accepting_tag_string =
            (if ns_accepting s
             then ''accepting_tag='' @ dec (ns_matching_variable_id s) @ '','' else '''')
      in rbind (rfold (\<lambda>(idx, dest) acc. rbind (map_at state_ids dest)
                  (\<lambda>i. Inr (acc @ [[char_of idx] @ ''-->'' @ dec i])))
                [(idx, dest). idx \<leftarrow> [0..<cSizeOfByte], dest \<leftarrow> ns_bytes_transitions s idx] [])
         (\<lambda>byte_transitions.
           case those (map (sp_serialize state_ids) (ns_spontaneous_transitions s)) of
             None \<Rightarrow> Inr None
           | Some serialized_spontaneous_transitions \<Rightarrow>
               rbind (map_at state_ids this) (\<lambda>i.
                 Inr (Some (dec i @ '':'' @ accepting_tag_string
                   @ ''byte_transitions={'' @ join '','' byte_transitions
                   @ ''},spontaneous_transition={''
                   @ join '','' serialized_spontaneous_transitions @ ''}'')))))"

section \<open>The automaton\<close>

record nfa =
  nf_states :: "nfa_state list"
  nf_capture_to_tag_id_pair :: "nat \<rightharpoonup> nat \<times> nat"
  nf_root :: nat
  nf_state_id_generator :: nat
  nf_tag_id_generator :: nat

definition nfa_set_root :: "nat \<Rightarrow> nfa \<Rightarrow> nfa" where
  "nfa_set_root root n = n\<lparr>nf_root := root\<rparr>"

definition nfa_update_state :: "nat \<Rightarrow> (nfa_state \<Rightarrow> nfa_state) \<Rightarrow> nfa \<Rightarrow> nfa" where
  "nfa_update_state p f n = n\<lparr>nf_states := (nf_states n)[p := f (nf_states n ! p)]\<rparr>"

text \<open>Appends the state that the constructor call makes of the next id.\<close>

definition nfa_emplace :: "(nat \<Rightarrow> nfa_state) \<Rightarrow> nfa \<Rightarrow> nat \<times> nfa" where
  "nfa_emplace mk n =
     (let (i, gen) = generate_id (nf_state_id_generator n)
      in (length (nf_states n), n\<lparr>nf_states := nf_states n @ [mk i], nf_state_id_generator := gen\<rparr>))"

definition new_state :: "nfa \<Rightarrow> nat \<times> nfa" where
  "new_state = nfa_emplace ns_new"

definition new_accepting_state :: "nat \<Rightarrow> nfa \<Rightarrow> nat \<times> nfa" where
  "new_accepting_state matching_variable_id =
     nfa_emplace (\<lambda>i. ns_new_accepting i matching_variable_id)"

definition add_root_interval :: "range \<Rightarrow> nat \<Rightarrow> nfa \<Rightarrow> nfa" where
  "add_root_interval interval dest n =
     nfa_update_state (nf_root n) (ns_add_interval interval dest) n"

definition get_or_create_capture_tag_pair :: "capture \<Rightarrow> nfa \<Rightarrow> (nat \<times> nat) \<times> nfa" where
  "get_or_create_capture_tag_pair c n =
     (case nf_capture_to_tag_id_pair n (cap_addr c) of
        Some tags \<Rightarrow> (tags, n)
      | None \<Rightarrow>
          (let (start_tag, gen1) = generate_id (nf_tag_id_generator n);
               (end_tag, gen2) = generate_id gen1
           in ((start_tag, end_tag),
               n\<lparr>nf_tag_id_generator := gen2,
                 nf_capture_to_tag_id_pair :=
                   (nf_capture_to_tag_id_pair n)(cap_addr c \<mapsto> (start_tag, end_tag))\<rparr>)))"

fun tags_of_captures :: "capture list \<Rightarrow> nfa \<Rightarrow> nat list \<times> nfa" where
  "tags_of_captures [] n = ([], n)"
| "tags_of_captures (c # cs) n =
     (let ((start_tag, end_tag), n1) = get_or_create_capture_tag_pair c n;
          (tags, n2) = tags_of_captures cs n1
      in (start_tag # end_tag # tags, n2))"

definition new_state_from_negative_captures ::
  "capture list \<Rightarrow> nat \<Rightarrow> bool \<Rightarrow> nfa \<Rightarrow> nat \<times> nfa" where
  "new_state_from_negative_captures captures dest multi_valued n =
     (let (tags, n1) = tags_of_captures captures n
      in nfa_emplace (\<lambda>i. ns_new_tagged i TagNegate tags dest multi_valued) n1)"

definition new_start_and_end_states_from_positive_capture ::
  "capture \<Rightarrow> nat \<Rightarrow> bool \<Rightarrow> nfa \<Rightarrow> (nat \<times> nat) \<times> nfa" where
  "new_start_and_end_states_from_positive_capture c dest multi_valued n =
     (let ((start_tag, end_tag), n1) = get_or_create_capture_tag_pair c n;
          (start_state, n2) = new_state n1;
          n3 = nfa_update_state (nf_root n2)
                 (ns_add_tagged_transition TagSet [start_tag] start_state multi_valued) n2;
          (end_state, n4) = nfa_emplace (\<lambda>i. ns_new_tagged i TagSet [end_tag] dest multi_valued) n3
      in ((start_state, end_state), n4))"

section \<open>Traversal and text form\<close>

text \<open>The states a state's transitions lead to, in the order the traversal looks at them.\<close>

definition nfa_successors :: "nfa \<Rightarrow> nat \<Rightarrow> nat list" where
  "nfa_successors n s =
     concat (map (ns_bytes_transitions (nf_states n ! s)) [0..<cSizeOfByte])
     @ map sp_dest_state (ns_spontaneous_transitions (nf_states n ! s))"

fun add_to_queue_and_visited :: "nat \<Rightarrow> nat list \<times> nat list \<Rightarrow> nat list \<times> nat list" where
  "add_to_queue_and_visited dest (state_queue, visited) =
     (if dest \<in> set visited then (state_queue, visited)
      else (state_queue @ [dest], dest # visited))"

partial_function (option) bfs_loop ::
  "(nat \<Rightarrow> nat list) \<Rightarrow> nat list \<times> nat list \<Rightarrow> nat list \<Rightarrow> nat list option" where
  "bfs_loop succ st visited_order =
     (case fst st of
        [] \<Rightarrow> Some visited_order
      | current # rest \<Rightarrow>
          bfs_loop succ (fold add_to_queue_and_visited (succ current) (rest, snd st))
            (visited_order @ [current]))"

definition get_bfs_traversal_order :: "nfa \<Rightarrow> nat list option" where
  "get_bfs_traversal_order n =
     bfs_loop (nfa_successors n) (add_to_queue_and_visited (nf_root n) ([], [])) []"

definition number_states :: "nat list \<Rightarrow> (nat \<rightharpoonup> nat)" where
  "number_states order = map_of (zip order [0..<length order])"

definition nfa_serialize :: "nfa \<Rightarrow> string option res option" where
  "nfa_serialize n =
     map_option (\<lambda>traversal_order.
       let state_ids = number_states traversal_order
       in rbind (rfold (\<lambda>s acc.
             case acc of
               None \<Rightarrow> Inr None
             | Some strs \<Rightarrow> rbind (ns_serialize state_ids s (nf_states n ! s))
                 (\<lambda>r. Inr (map_option (\<lambda>str. strs @ [str]) r)))
           traversal_order (Some []))
         (\<lambda>r. Inr (map_option (\<lambda>strs. join [CHR 0x0A] strs @ [CHR 0x0A]) r)))
       (get_bfs_traversal_order n)"

section \<open>The graph of an automaton\<close>

definition nfa_size :: "nfa \<Rightarrow> nat" where
  "nfa_size n = length (nf_states n)"

text \<open>An edge reads nothing (\<open>None\<close>) or one byte.\<close>

definition nfa_edge :: "nfa \<Rightarrow> nat \<Rightarrow> nat option \<Rightarrow> nat \<Rightarrow> bool" where
  "nfa_edge n s a t \<longleftrightarrow> s < nfa_size n \<and>
     (case a of
        None \<Rightarrow> t \<in> sp_dest_state ` set (ns_spontaneous_transitions (nf_states n ! s))
      | Some c \<Rightarrow> c < cSizeOfByte \<and> t \<in> set (ns_bytes_transitions (nf_states n ! s) c))"

inductive nfa_path :: "nfa \<Rightarrow> nat \<Rightarrow> nat list \<Rightarrow> nat \<Rightarrow> bool" for n where
  path_refl: "nfa_path n s [] s"
| path_eps: "nfa_edge n s None t \<Longrightarrow> nfa_path n t w u \<Longrightarrow> nfa_path n s w u"
| path_byte: "nfa_edge n s (Some c) t \<Longrightarrow> nfa_path n t w u \<Longrightarrow> nfa_path n s (c # w) u"

definition nfa_accepting :: "nfa \<Rightarrow> nat \<Rightarrow> nat option" where
  "nfa_accepting n s =
     (if s < nfa_size n \<and> ns_accepting (nf_states n ! s)
      then Some (ns_matching_variable_id (nf_states n ! s)) else None)"

text \<open>The words an automaton accepts for a variable id.\<close>

definition nfa_accepts :: "nfa \<Rightarrow> nat list \<Rightarrow> nat \<Rightarrow> bool" where
  "nfa_accepts n w v \<longleftrightarrow> (\<exists>t. nfa_path n (nf_root n) w t \<and> nfa_accepting n t = Some v)"

lemma nfa_path_append: "nfa_path n s v t \<Longrightarrow> nfa_path n t w u \<Longrightarrow> nfa_path n s (v @ w) u"
  by (induction rule: nfa_path.induct) (auto intro: nfa_path.intros)

lemma nfa_path_edge:
  "nfa_edge n s None t \<Longrightarrow> nfa_path n s [] t"
  "nfa_edge n s (Some c) t \<Longrightarrow> nfa_path n s [c] t"
  by (blast intro: nfa_path.intros)+

lemma nfa_path_mono:
  assumes "nfa_path n s w t" "\<And>s a t. nfa_edge n s a t \<Longrightarrow> nfa_edge m s a t"
  shows "nfa_path m s w t"
  using assms(1) by induction (auto intro: nfa_path.intros assms(2))

text \<open>
  The well-formed automata: every pointer points to a state, the ids are the positions
  (as \<^verbatim>\<open>uint32_t\<close>) and the generator is at the next one.
\<close>

definition nfa_wf :: "nfa \<Rightarrow> bool" where
  "nfa_wf n \<longleftrightarrow> nf_root n < nfa_size n \<and>
     (\<forall>s a t. nfa_edge n s a t \<longrightarrow> t < nfa_size n) \<and>
     (\<forall>s < nfa_size n. ns_id (nf_states n ! s) = u32 s) \<and>
     nf_state_id_generator n = u32 (nfa_size n)"

lemma nfa_successors_edge:
  "s < nfa_size n \<Longrightarrow> t \<in> set (nfa_successors n s) \<longleftrightarrow> (\<exists>a. nfa_edge n s a t)"
  by (auto simp: nfa_successors_def nfa_edge_def split: option.splits)

section \<open>The traversal visits exactly the reachable states\<close>

lemma fold_add_to_queue:
  "fold add_to_queue_and_visited ts (q, v) = (q', v') \<Longrightarrow>
     \<exists>new. q' = q @ new \<and> distinct new \<and> set new = set ts - set v \<and> set v' = set v \<union> set ts"
proof (induction ts arbitrary: q v)
  case Nil
  then show ?case by simp
next
  case (Cons t ts)
  show ?case
  proof (cases "t \<in> set v")
    case True
    with Cons show ?thesis by fastforce
  next
    case False
    with Cons.prems have "fold add_to_queue_and_visited ts (q @ [t], t # v) = (q', v')" by simp
    from Cons.IH [OF this] obtain new where new: "q' = (q @ [t]) @ new" "distinct new"
      "set new = set ts - set (t # v)" "set v' = set (t # v) \<union> set ts" by blast
    with False show ?thesis by (intro exI [of _ "t # new"]) auto
  qed
qed

definition bfs_inv :: "(nat \<Rightarrow> nat list) \<Rightarrow> nat \<Rightarrow> nat list \<Rightarrow> nat list \<Rightarrow> nat list \<Rightarrow> bool" where
  "bfs_inv succ root queue visited order \<longleftrightarrow>
     set visited = set order \<union> set queue \<and> distinct (order @ queue) \<and> root \<in> set visited \<and>
     (\<forall>s \<in> set order. set (succ s) \<subseteq> set visited) \<and>
     (\<forall>s \<in> set visited. (root, s) \<in> {(s, t). t \<in> set (succ s)}\<^sup>*)"

lemma bfs_inv_step:
  assumes inv: "bfs_inv succ root (s # q) v order"
    and f: "fold add_to_queue_and_visited (succ s) (q, v) = (q', v')"
  shows "bfs_inv succ root q' v' (order @ [s])"
proof -
  from fold_add_to_queue [OF f] obtain new where new: "q' = q @ new" "distinct new"
    "set new = set (succ s) - set v" "set v' = set v \<union> set (succ s)" by blast
  from inv have s: "(root, s) \<in> {(s, t). t \<in> set (succ s)}\<^sup>*" by (simp add: bfs_inv_def)
  have "(root, t) \<in> {(s, t). t \<in> set (succ s)}\<^sup>*" if "t \<in> set (succ s)" for t
    using rtrancl_into_rtrancl [OF s] that by simp
  moreover have "set (succ x) \<subseteq> set v'" if "x \<in> set (order @ [s])" for x
    using that inv new(4) by (auto simp: bfs_inv_def subset_iff)
  ultimately show ?thesis using inv new unfolding bfs_inv_def by (intro conjI ballI) auto
qed

lemma bfs_loop_total:
  assumes "bfs_inv succ root q v order" "finite U" "root \<in> U"
    and "\<And>s. s \<in> U \<Longrightarrow> set (succ s) \<subseteq> U" "set v \<subseteq> U"
  shows "\<exists>res. bfs_loop succ (q, v) order = Some (order @ res) \<and>
           bfs_inv succ root [] (order @ res) (order @ res)"
  using assms(1,5)
proof (induction "card (U - set order)" arbitrary: q v order rule: less_induct)
  case less
  show ?case
  proof (cases q)
    case Nil
    with less.prems show ?thesis
      by (subst bfs_loop.simps) (auto simp: bfs_inv_def intro!: exI [of _ "[]"])
  next
    case (Cons s q1)
    obtain q' v' where f: "fold add_to_queue_and_visited (succ s) (q1, v) = (q', v')"
      by (cases "fold add_to_queue_and_visited (succ s) (q1, v)") auto
    have inv': "bfs_inv succ root q' v' (order @ [s])"
      using less.prems(1) f Cons by (blast intro: bfs_inv_step)
    have s: "s \<in> U" "s \<notin> set order"
      using less.prems Cons by (auto simp: bfs_inv_def)
    then have "card (U - set (order @ [s])) < card (U - set order)"
      by (intro psubset_card_mono) (auto simp: assms(2))
    moreover have "set v' \<subseteq> U"
      using fold_add_to_queue [OF f] less.prems(2) assms(4) [OF s(1)] by auto
    ultimately obtain res where "bfs_loop succ (q', v') (order @ [s]) = Some ((order @ [s]) @ res)"
      "bfs_inv succ root [] ((order @ [s]) @ res) ((order @ [s]) @ res)"
      using less.hyps inv' by blast
    then show ?thesis
      using f Cons by (subst bfs_loop.simps) (auto intro!: exI [of _ "s # res"])
  qed
qed

definition nfa_reachable :: "nfa \<Rightarrow> nat \<Rightarrow> bool" where
  "nfa_reachable n s \<longleftrightarrow> (nf_root n, s) \<in> {(s, t). \<exists>a. nfa_edge n s a t}\<^sup>*"

lemma rtrancl_restrict:
  assumes "(r, s) \<in> A\<^sup>*" "r \<in> U" "\<And>x y. x \<in> U \<Longrightarrow> (x, y) \<in> A \<Longrightarrow> (x, y) \<in> B \<and> y \<in> U"
  shows "(r, s) \<in> B\<^sup>* \<and> s \<in> U"
  using assms(1) by induction (use assms(2,3) in \<open>auto intro: rtrancl_into_rtrancl\<close>)

lemma bfs_order:
  assumes wf: "nfa_wf n"
  shows "\<exists>order. get_bfs_traversal_order n = Some order \<and> distinct order \<and>
           (\<forall>s. s \<in> set order \<longleftrightarrow> nfa_reachable n s) \<and> set order \<subseteq> {..<nfa_size n}"
proof -
  let ?U = "{..<nfa_size n}"
  let ?A = "{(s, t). t \<in> set (nfa_successors n s)}"
  let ?B = "{(s, t). \<exists>a. nfa_edge n s a t}"
  have root: "nf_root n \<in> ?U" and tgt: "\<And>s a t. nfa_edge n s a t \<Longrightarrow> t \<in> ?U"
    using wf by (auto simp: nfa_wf_def)
  have succ: "set (nfa_successors n s) \<subseteq> ?U" if "s \<in> ?U" for s
    using that tgt by (auto simp: nfa_successors_edge)
  obtain order where order: "get_bfs_traversal_order n = Some order"
    and inv: "bfs_inv (nfa_successors n) (nf_root n) [] order order"
    using bfs_loop_total [of "nfa_successors n" "nf_root n" "[nf_root n]" "[nf_root n]" "[]" ?U]
      root succ by (auto simp: get_bfs_traversal_order_def bfs_inv_def)
  have AB: "(nf_root n, s) \<in> ?A\<^sup>* \<Longrightarrow> (nf_root n, s) \<in> ?B\<^sup>* \<and> s \<in> ?U" for s
    by (rule rtrancl_restrict [OF _ root]) (use tgt in \<open>auto simp: nfa_successors_edge\<close>)
  have BA: "(nf_root n, s) \<in> ?B\<^sup>* \<Longrightarrow> (nf_root n, s) \<in> ?A\<^sup>* \<and> s \<in> ?U" for s
    by (rule rtrancl_restrict [OF _ root]) (use tgt in \<open>auto simp: nfa_successors_edge\<close>)
  have closed: "(nf_root n, s) \<in> ?A\<^sup>* \<Longrightarrow> s \<in> set order" for s
    by (induction rule: rtrancl_induct) (use inv in \<open>auto simp: bfs_inv_def\<close>)
  have "s \<in> set order \<longleftrightarrow> nfa_reachable n s" for s
    using AB BA closed inv unfolding nfa_reachable_def bfs_inv_def by blast
  moreover have "set order \<subseteq> ?U" using AB inv unfolding bfs_inv_def by blast
  ultimately show ?thesis using order inv by (auto simp: bfs_inv_def)
qed

section \<open>The text form\<close>

lemma those_total: "\<forall>x \<in> set xs. x \<noteq> None \<Longrightarrow> \<exists>ys. those xs = Some ys"
  by (induction xs) auto

lemma ns_serialize_total:
  assumes "\<And>c t. c < cSizeOfByte \<Longrightarrow> t \<in> set (ns_bytes_transitions s c) \<Longrightarrow> t \<in> dom m"
    and "\<And>t. t \<in> set (ns_spontaneous_transitions s) \<Longrightarrow> sp_dest_state t \<in> dom m"
    and "this \<in> dom m"
  shows "\<exists>str. ns_serialize m this s = Inr (Some str)"
proof -
  let ?bytes = "[(idx, dest). idx \<leftarrow> [0..<cSizeOfByte], dest \<leftarrow> ns_bytes_transitions s idx]"
  let ?f = "\<lambda>(idx, dest) acc. rbind (map_at m dest)
      (\<lambda>i. Inr (acc @ [[char_of idx] @ ''-->'' @ dec i]))"
  have "\<exists>t. rfold ?f ?bytes [] = Inr t \<and> True"
  proof (rule rfold_total [where P = "\<lambda>_. True"])
    fix x acc
    assume "x \<in> set ?bytes"
    then have "\<exists>c < cSizeOfByte. snd x \<in> set (ns_bytes_transitions s c)" by auto
    then have "snd x \<in> dom m" using assms(1) by blast
    then show "\<exists>s'. ?f x acc = Inr s' \<and> True" by (cases x) (auto simp: map_at_def)
  qed simp
  then obtain bs where bs: "rfold ?f ?bytes [] = Inr bs" by blast
  have "\<forall>x \<in> set (map (sp_serialize m) (ns_spontaneous_transitions s)). x \<noteq> None"
    using assms(2) by (force simp: sp_serialize_def)
  then obtain ss where ss: "those (map (sp_serialize m) (ns_spontaneous_transitions s)) = Some ss"
    using those_total by blast
  from assms(3) obtain i where "map_at m this = Inr i" by (auto simp: map_at_def)
  then show ?thesis unfolding ns_serialize_def Let_def bs ss by simp
qed

lemma number_states_dom: "dom (number_states order) = set order"
  by (simp add: number_states_def)

section \<open>Properties\<close>

text \<open>
  C27: the breadth-first traversal of a well-formed automaton terminates and visits every state
  reachable from the root exactly once, and nothing else.
\<close>

theorem bfs_visits_reachable_once:
  assumes "nfa_wf n"
  shows "\<exists>order. get_bfs_traversal_order n = Some order \<and> distinct order \<and>
    (\<forall>s. s \<in> set order \<longleftrightarrow> nfa_reachable n s)"
  using bfs_order [OF assms] by blast

definition demo_graph :: nfa where
  "demo_graph = \<lparr>nf_states = [ns_add_spontaneous_transition 1 (ns_new 0), ns_new_accepting 1 7],
     nf_capture_to_tag_id_pair = (\<lambda>_. None), nf_root = 0, nf_state_id_generator = 2,
     nf_tag_id_generator = 0\<rparr>"

lemma demo_graph_wf: "nfa_wf demo_graph"
  by (auto simp: nfa_wf_def demo_graph_def nfa_size_def nfa_edge_def less_Suc_eq ns_new_def
      ns_new_accepting_def ns_add_spontaneous_transition_def split: option.splits)

theorem bfs_visits_reachable_once_witness:
  "\<exists>order. get_bfs_traversal_order demo_graph = Some order \<and> distinct order \<and>
    (\<forall>s. s \<in> set order \<longleftrightarrow> nfa_reachable demo_graph s)"
  by (rule bfs_visits_reachable_once [OF demo_graph_wf])

text \<open>
  A well-formed automaton always has a text form: the traversal ends, no
  \<^verbatim>\<open>at\<close> throws, and the result is not \<^verbatim>\<open>nullopt\<close>.
\<close>

theorem nfa_serialize_total:
  assumes "nfa_wf n"
  shows "\<exists>str. nfa_serialize n = Some (Inr (Some str))"
proof -
  from bfs_order [OF assms] obtain order where order: "get_bfs_traversal_order n = Some order"
    "\<And>s. s \<in> set order \<longleftrightarrow> nfa_reachable n s" "set order \<subseteq> {..<nfa_size n}" by blast
  let ?m = "number_states order"
  have closed: "t \<in> set order" if "s \<in> set order" "nfa_edge n s a t" for s a t
    using that order(2) unfolding nfa_reachable_def
    by (auto intro: rtrancl_into_rtrancl)
  have ser: "\<exists>str. ns_serialize ?m s (nf_states n ! s) = Inr (Some str)" if "s \<in> set order" for s
  proof (rule ns_serialize_total)
    have s: "s < nfa_size n" using that order(3) by auto
    show "t \<in> dom ?m" if "c < cSizeOfByte" "t \<in> set (ns_bytes_transitions (nf_states n ! s) c)" for c t
      using closed [OF \<open>s \<in> set order\<close>, of "Some c" t] that s by (simp add: nfa_edge_def number_states_dom)
    show "sp_dest_state t \<in> dom ?m" if "t \<in> set (ns_spontaneous_transitions (nf_states n ! s))" for t
      using closed [OF \<open>s \<in> set order\<close>, of None] that s by (simp add: nfa_edge_def number_states_dom)
  qed (use that in \<open>simp add: number_states_dom\<close>)
  let ?f = "\<lambda>s acc. case acc of None \<Rightarrow> Inr None
      | Some strs \<Rightarrow> rbind (ns_serialize ?m s (nf_states n ! s))
                      (\<lambda>r. Inr (map_option (\<lambda>str. strs @ [str]) r))"
  have "\<exists>t. rfold ?f order (Some []) = Inr t \<and> t \<noteq> None"
  proof (rule rfold_total [where P = "\<lambda>t. t \<noteq> None"])
    fix s and acc :: "string list option"
    assume "s \<in> set order" "acc \<noteq> None"
    with ser [of s] show "\<exists>s'. ?f s acc = Inr s' \<and> s' \<noteq> None" by auto
  qed simp
  then obtain strs where "rfold ?f order (Some []) = Inr (Some strs)" by blast
  then show ?thesis by (simp add: nfa_serialize_def order(1) Let_def)
qed

theorem nfa_serialize_total_witness:
  "\<exists>str. nfa_serialize demo_graph = Some (Inr (Some str))"
  by (rule nfa_serialize_total [OF demo_graph_wf])

end
