(* ===== verification/Regex_Language.thy ===== *)
theory Regex_Language
  imports Regex_Ast
begin

text \<open>
  Languages of schema regexes: concatenation and iteration of word sets, the language a regex is
  written to denote, and the pair of languages that the automaton construction of
  \<^verbatim>\<open>RegexAST.hpp\<close> gives a node: the words that lead from the current root to the end
  state, and the words on which the construction loops at the end state.
\<close>

section \<open>Word sets\<close>

type_synonym lang = "nat list set"

definition conc :: "lang \<Rightarrow> lang \<Rightarrow> lang" where
  "conc A B = {v @ w | v w. v \<in> A \<and> w \<in> B}"

inductive_set star :: "lang \<Rightarrow> lang" for A where
  star_Nil [intro, simp]: "[] \<in> star A"
| star_append: "v \<in> A \<Longrightarrow> w \<in> star A \<Longrightarrow> v @ w \<in> star A"

lemma concI [intro]: "v \<in> A \<Longrightarrow> w \<in> B \<Longrightarrow> v @ w \<in> conc A B"
  by (auto simp: conc_def)

lemma concE [elim]:
  assumes "u \<in> conc A B"
  obtains v w where "u = v @ w" "v \<in> A" "w \<in> B"
  using assms by (auto simp: conc_def)

lemma conc_empty [simp]: "conc {} B = {}" "conc A {} = {}"
  by (auto simp: conc_def)

lemma conc_eps [simp]: "conc {[]} B = B" "conc A {[]} = A"
  by (auto simp: conc_def)

lemma conc_mono: "A \<subseteq> A' \<Longrightarrow> B \<subseteq> B' \<Longrightarrow> conc A B \<subseteq> conc A' B'"
  by (auto simp: conc_def)

lemma conc_assoc: "conc (conc A B) C = conc A (conc B C)"
  by (auto simp: conc_def; metis append_assoc)

lemma conc_Un: "conc (A \<union> B) C = conc A C \<union> conc B C" "conc C (A \<union> B) = conc C A \<union> conc C B"
  by (auto simp: conc_def)

lemma conc_insert_eps: "conc (insert [] A) B = B \<union> conc A B"
  by (subst insert_is_Un) (simp only: conc_Un conc_eps)

lemma conc_UN:
  "conc (\<Union>k \<in> K. A k) B = (\<Union>k \<in> K. conc (A k) B)" "conc B (\<Union>k \<in> K. A k) = (\<Union>k \<in> K. conc B (A k))"
  by (auto simp: conc_def)

lemma star_concat: "v \<in> star A \<Longrightarrow> w \<in> star A \<Longrightarrow> v @ w \<in> star A"
  by (induction rule: star.induct) (auto intro: star_append)

lemma star_single: "v \<in> A \<Longrightarrow> v \<in> star A"
  using star_append [of v A "[]"] by simp

lemma conc_star_star [simp]: "conc (star A) (star A) = star A"
  by (auto simp: conc_def intro: star_concat)

lemma star_unfold: "star A = {[]} \<union> conc A (star A)"
  by (auto elim: star.cases intro: star_append)

lemma star_mono: "A \<subseteq> B \<Longrightarrow> star A \<subseteq> star B"
proof
  fix w
  assume "A \<subseteq> B" "w \<in> star A"
  from this(2,1) show "w \<in> star B" by induction (auto intro: star_append)
qed

lemma star_empty [simp]: "star {} = {[]}"
  by (auto elim: star.cases)

text \<open>The least solution of \<open>X = A X + B\<close>.\<close>

lemma star_least: "B \<subseteq> X \<Longrightarrow> conc A X \<subseteq> X \<Longrightarrow> conc (star A) B \<subseteq> X"
proof
  fix u
  assume *: "B \<subseteq> X" "conc A X \<subseteq> X" "u \<in> conc (star A) B"
  then obtain v w where "u = v @ w" "v \<in> star A" "w \<in> B" by auto
  from this(2,3) *(1,2) have "v @ w \<in> X"
    by (induction arbitrary: u) (auto simp: conc_def)
  then show "u \<in> X" using \<open>u = v @ w\<close> by simp
qed

lemma star_step: "conc A (conc (star A) B) \<subseteq> conc (star A) B"
  by (subst (2) star_unfold) (simp only: conc_Un conc_assoc, blast)

lemma star_base: "B \<subseteq> conc (star A) B"
  by (fastforce simp: conc_def)

definition power_lang :: "lang \<Rightarrow> nat \<Rightarrow> lang" where
  "power_lang A k = (conc A ^^ k) {[]}"

lemma power_lang_simps [simp]:
  "power_lang A 0 = {[]}" "power_lang A (Suc k) = conc A (power_lang A k)"
  by (simp_all add: power_lang_def)

lemma conc_pow: "(conc A ^^ k) B = conc (power_lang A k) B"
  by (induction k) (simp_all add: conc_assoc)

lemma power_lang_add: "power_lang A (j + k) = conc (power_lang A j) (power_lang A k)"
  by (induction j) (simp_all add: conc_assoc)

lemma power_lang_mono: "A \<subseteq> B \<Longrightarrow> power_lang A k \<subseteq> power_lang B k"
  by (induction k) (auto intro: conc_mono [THEN subsetD])

lemma star_power: "star A = (\<Union>k. power_lang A k)"
proof
  have "w \<in> star A \<Longrightarrow> \<exists>k. w \<in> power_lang A k" for w
  proof (induction rule: star.induct)
    case star_Nil
    show ?case by (intro exI [of _ 0]) simp
  next
    case (star_append v w)
    then obtain k where "w \<in> power_lang A k" by auto
    with star_append show ?case by (intro exI [of _ "Suc k"]) auto
  qed
  then show "star A \<subseteq> (\<Union>k. power_lang A k)" by auto
  have "power_lang A k \<subseteq> star A" for k
    by (induction k) (auto intro: star_append)
  then show "(\<Union>k. power_lang A k) \<subseteq> star A" by auto
qed

section \<open>The language a regex denotes\<close>

text \<open>The numbers of repetitions that \<open>{mn,mx}\<close> allows; a maximum of 0 stands for no bound.\<close>

definition repeat_counts :: "nat \<Rightarrow> nat \<Rightarrow> nat set" where
  "repeat_counts mn mx = (if is_infinite mx then {mn..} else {mn..max mn mx})"

fun regex_lang :: "regex_ast \<Rightarrow> lang" where
  "regex_lang (ReEmpty b) = {[]}"
| "regex_lang (ReLiteral b c) = {[c] |_::unit. c < cSizeOfByte}"
| "regex_lang (ReInteger b ds) = {}"
| "regex_lang (ReGroup b g) = {[c] |c. c < cSizeOfByte \<and> in_ranges c (group_effective_ranges g)}"
| "regex_lang (ReOr b l r) = regex_lang l \<union> regex_lang r"
| "regex_lang (ReCat b l r) = conc (regex_lang l) (regex_lang r)"
| "regex_lang (ReMult b r m n) = (\<Union>k \<in> repeat_counts m n. power_lang (regex_lang r) k)"
| "regex_lang (ReCapture b r c) = regex_lang r"

section \<open>The languages of the construction\<close>

text \<open>
  A pair of languages: the entry words lead from the root to the end state, the loop words
  from the end state to itself. A node with negative captures is built towards a state of its
  own, which absorbs its loops.
\<close>

type_synonym build = "lang \<times> lang"

definition absorb_loops :: "build \<Rightarrow> build" where
  "absorb_loops b = (conc (fst b) (star (snd b)), {})"

definition with_negatives :: "regex_ast \<Rightarrow> build \<Rightarrow> build" where
  "with_negatives r b = (if get_negative_captures r = [] then b else absorb_loops b)"

definition build_lang :: "build \<Rightarrow> lang" where
  "build_lang b = conc (fst b) (star (snd b))"

text \<open>At least one and at most \<open>k + 1\<close> copies, the last of them ending at the end state.\<close>

fun optional_copies :: "build \<Rightarrow> nat \<Rightarrow> lang" where
  "optional_copies b 0 = fst b"
| "optional_copies b (Suc k) = fst b \<union> conc (build_lang b) (optional_copies b k)"

definition mult_build :: "nat \<Rightarrow> nat \<Rightarrow> build \<Rightarrow> build" where
  "mult_build mn mx b =
     (let copies = (\<lambda>k B. (conc (build_lang b) ^^ k) B);
          base = (if mn = 0 then {[]} else copies (mn - 1) (fst b));
          more = (if is_infinite mx \<or> mx \<le> mn then {}
                  else if mn = 0 then optional_copies b (mx - 1)
                  else copies mn (optional_copies b (mx - (mn + 1))))
      in (base \<union> more,
          (if is_infinite mx then fst b \<union> snd b else snd b)))"

fun regex_build :: "regex_ast \<Rightarrow> build" where
  "regex_build (ReEmpty b) = ({[]}, {})"
| "regex_build (ReLiteral b c) = ({[c] |_::unit. c < cSizeOfByte}, {})"
| "regex_build (ReInteger b ds) = ({}, {})"
| "regex_build (ReGroup b g) =
     ({[c] |c. c < cSizeOfByte \<and> in_ranges c (group_effective_ranges g)}, {})"
| "regex_build (ReOr b l r) =
     (let bl = with_negatives l (regex_build l); br = with_negatives r (regex_build r)
      in (fst bl \<union> fst br, snd bl \<union> snd br))"
| "regex_build (ReCat b l r) =
     (let bl = with_negatives l (regex_build l); br = with_negatives r (regex_build r)
      in (conc (build_lang bl) (fst br), snd br))"
| "regex_build (ReMult b r m n) = mult_build m n (with_negatives r (regex_build r))"
| "regex_build (ReCapture b r c) = absorb_loops (with_negatives r (regex_build r))"

definition rule_build :: "regex_ast \<Rightarrow> build" where
  "rule_build r = with_negatives r (regex_build r)"

lemma build_lang_absorb [simp]: "build_lang (absorb_loops b) = build_lang b"
  by (simp add: build_lang_def absorb_loops_def)

lemma build_lang_with_negatives [simp]: "build_lang (with_negatives r b) = build_lang b"
  by (simp add: with_negatives_def)

section \<open>When the construction is exact\<close>

lemma star_Un: "star (D \<union> Q) = conc (star Q) (star (conc D (star Q)))"
proof
  let ?T = "conc (star Q) (star (conc D (star Q)))"
  have "conc D ?T \<subseteq> star (conc D (star Q))"
    by (subst (2) star_unfold) (auto simp: conc_assoc)
  then have "conc D ?T \<subseteq> ?T" using star_base [of "star (conc D (star Q))" Q] by blast
  moreover have "conc Q ?T \<subseteq> ?T" by (rule star_step)
  ultimately have step: "conc (D \<union> Q) ?T \<subseteq> ?T" by (simp add: conc_Un)
  have "[] \<in> ?T" using concI [of "[]" "star Q" "[]" "star (conc D (star Q))"] by simp
  then have "conc (star (D \<union> Q)) {[]} \<subseteq> ?T" using step by (intro star_least) auto
  then show "star (D \<union> Q) \<subseteq> ?T" by simp
  have Q: "star Q \<subseteq> star (D \<union> Q)" by (rule star_mono) simp
  have "conc D (star Q) \<subseteq> star (D \<union> Q)"
    using Q by (auto intro: star_append)
  then have "star (conc D (star Q)) \<subseteq> star (D \<union> Q)"
    using star_least [of "{[]}" "star (D \<union> Q)" "conc D (star Q)"]
      conc_mono [of "conc D (star Q)" "star (D \<union> Q)" "star (D \<union> Q)" "star (D \<union> Q)"] by auto
  with Q have "?T \<subseteq> conc (star (D \<union> Q)) (star (D \<union> Q))" by (rule conc_mono)
  then show "?T \<subseteq> star (D \<union> Q)" by simp
qed

lemma star_power_from:
  "conc (power_lang A m) (star A) = (\<Union>k \<in> {m..}. power_lang A k)"
proof -
  have "conc (power_lang A m) (star A) = (\<Union>k. power_lang A (m + k))"
    by (simp add: star_power conc_UN power_lang_add)
  also have "\<dots> = (\<Union>k \<in> range ((+) m). power_lang A k)" by (simp add: image_image)
  also have "range ((+) m) = {m..}" by (auto simp: le_iff_add)
  finally show ?thesis .
qed

lemma power_snoc: "0 < k \<Longrightarrow> conc (power_lang A (k - 1)) A = power_lang A k"
  using power_lang_add [of A "k - 1" 1] by simp

lemma shift_UN: "(\<Union>j \<in> {1..d}. F (m + j)) = (\<Union>j \<in> {m + 1..m + d}. F j)" for m d :: nat
proof -
  have "{m + 1..m + d} = (+) m ` {1..d}" by (simp only: image_add_atLeastAtMost add.commute)
  then show ?thesis by (simp only: image_image)
qed

lemma optional_copies_lang:
  "conc (optional_copies b k) (star (snd b)) = (\<Union>j \<in> {1..Suc k}. power_lang (build_lang b) j)"
proof (induction k)
  case 0
  show ?case by (simp add: build_lang_def)
next
  case (Suc k)
  have "conc (optional_copies b (Suc k)) (star (snd b)) =
      build_lang b \<union> (\<Union>j \<in> {1..Suc k}. power_lang (build_lang b) (1 + j))"
    by (simp add: conc_Un conc_assoc Suc.IH conc_UN build_lang_def del: UN_simps)
  also have "\<dots> = power_lang (build_lang b) 1 \<union>
      (\<Union>j \<in> {1 + 1..1 + Suc k}. power_lang (build_lang b) j)"
    by (subst shift_UN) simp
  also have "\<dots> = (\<Union>j \<in> insert 1 {1 + 1..1 + Suc k}. power_lang (build_lang b) j)" by simp
  also have "insert 1 {1 + 1..1 + Suc k} = {1..Suc (Suc k)}" by auto
  finally show ?case .
qed

lemma copies_lang:
  "0 < m \<Longrightarrow> conc ((conc (build_lang b) ^^ (m - 1)) (fst b)) (star (snd b)) = power_lang (build_lang b) m"
  using power_snoc [of m "build_lang b"] by (simp add: conc_pow conc_assoc build_lang_def)

lemma mult_build_pos:
  assumes "0 < mn"
  shows "build_lang (mult_build mn mx b) = (\<Union>k \<in> repeat_counts mn mx. power_lang (build_lang b) k)"
proof (cases "mx = 0")
  case True
  have "build_lang (mult_build mn mx b) =
      conc ((conc (build_lang b) ^^ (mn - 1)) (fst b)) (star (fst b \<union> snd b))"
    using assms True by (simp add: mult_build_def build_lang_def is_infinite_def)
  also have "\<dots> = conc (power_lang (build_lang b) mn) (star (build_lang b))"
    using copies_lang [OF assms, of b] by (simp add: star_Un build_lang_def flip: conc_assoc)
  finally show ?thesis using True by (simp add: star_power_from repeat_counts_def is_infinite_def)
next
  case False
  show ?thesis
  proof (cases "mn < mx")
    case True
    have "conc ((conc (build_lang b) ^^ mn) (optional_copies b (mx - (mn + 1)))) (star (snd b)) =
        (\<Union>j \<in> {1..mx - mn}. power_lang (build_lang b) (mn + j))"
      using True by (simp add: conc_pow conc_assoc optional_copies_lang conc_UN power_lang_add
          Suc_diff_Suc)
    moreover have "(\<Union>j \<in> {1..mx - mn}. power_lang (build_lang b) (mn + j)) =
        (\<Union>j \<in> {mn + 1..mx}. power_lang (build_lang b) j)"
      using True shift_UN [of "\<lambda>j. power_lang (build_lang b) j" mn "mx - mn"] by simp
    moreover have "{mn..mx} = insert mn {mn + 1..mx}" using True by auto
    ultimately show ?thesis
      using copies_lang [OF assms, of b] False True assms
      by (simp add: mult_build_def build_lang_def is_infinite_def repeat_counts_def Let_def conc_Un)
  next
    case none: False
    then show ?thesis
      using copies_lang [OF assms, of b] False assms
      by (simp add: mult_build_def build_lang_def is_infinite_def repeat_counts_def)
  qed
qed

lemma mult_build_zero:
  "build_lang (mult_build 0 mx b) =
     conc (star (snd b)) (if mx = 0 then star (build_lang b) else {[]}) \<union>
     (\<Union>k \<in> repeat_counts 0 mx. power_lang (build_lang b) k)"
proof (cases "mx = 0")
  case True
  have "build_lang (mult_build 0 mx b) = conc (star (snd b)) (star (build_lang b))"
    using True by (simp add: mult_build_def build_lang_def is_infinite_def star_Un)
  then show ?thesis
    using True star_base [of "star (build_lang b)" "snd b"] star_power_from [of "build_lang b" 0]
    by (auto simp: repeat_counts_def is_infinite_def)
next
  case False
  then have "{0..mx} = insert 0 {1..mx}" by auto
  moreover have "build_lang (mult_build 0 mx b) =
      star (snd b) \<union> conc (optional_copies b (mx - 1)) (star (snd b))"
    using False by (simp add: mult_build_def build_lang_def is_infinite_def conc_Un
        conc_insert_eps)
  ultimately show ?thesis
    using False optional_copies_lang [of b "mx - 1"]
    by (auto simp: repeat_counts_def is_infinite_def)
qed

text \<open>
  Whether the construction may put loops on the end state it is given: an unbounded repetition
  does, and passes them to every enclosing node that shares its end state. Captures and negative
  captures stop them.
\<close>

fun ends_in_loop :: "regex_ast \<Rightarrow> bool" where
  "ends_in_loop (ReOr b l r) \<longleftrightarrow> get_negative_captures l = [] \<and> ends_in_loop l \<or>
     get_negative_captures r = [] \<and> ends_in_loop r"
| "ends_in_loop (ReCat b l r) \<longleftrightarrow> get_negative_captures r = [] \<and> ends_in_loop r"
| "ends_in_loop (ReMult b r m n) \<longleftrightarrow> is_infinite n \<or> get_negative_captures r = [] \<and> ends_in_loop r"
| "ends_in_loop r \<longleftrightarrow> False"

definition shares_loop :: "regex_ast \<Rightarrow> bool" where
  "shares_loop r \<longleftrightarrow> get_negative_captures r = [] \<and> ends_in_loop r"

text \<open>The regexes in which no shared end state gets the loops of another arm or of zero copies.\<close>

fun exact_form :: "regex_ast \<Rightarrow> bool" where
  "exact_form (ReOr b l r) \<longleftrightarrow> exact_form l \<and> exact_form r \<and> \<not> shares_loop l \<and> \<not> shares_loop r"
| "exact_form (ReCat b l r) \<longleftrightarrow> exact_form l \<and> exact_form r"
| "exact_form (ReMult b r m n) \<longleftrightarrow> exact_form r \<and> (m = 0 \<longrightarrow> \<not> shares_loop r)"
| "exact_form (ReCapture b r c) \<longleftrightarrow> exact_form r"
| "exact_form r \<longleftrightarrow> True"

lemma no_loops: "\<not> ends_in_loop r \<Longrightarrow> snd (regex_build r) = {}"
  by (induction r) (auto simp: with_negatives_def absorb_loops_def mult_build_def Let_def)

lemma no_shared_loops: "\<not> shares_loop r \<Longrightarrow> snd (with_negatives r (regex_build r)) = {}"
  using no_loops by (auto simp: shares_loop_def with_negatives_def absorb_loops_def)

lemma build_lang_cat:
  "build_lang (conc (build_lang B) (fst C), snd C) = conc (build_lang B) (build_lang C)"
  by (simp add: build_lang_def conc_assoc)

lemma regex_lang_le_build: "regex_lang r \<subseteq> build_lang (regex_build r)"
proof (induction r)
  case (ReOr b l r)
  have le: "build_lang B \<subseteq> build_lang (fst B \<union> fst C, snd B \<union> snd C)"
    "build_lang C \<subseteq> build_lang (fst B \<union> fst C, snd B \<union> snd C)" for B C
    unfolding build_lang_def by (simp_all add: conc_mono star_mono)
  let ?L = "with_negatives l (regex_build l)" and ?R = "with_negatives r (regex_build r)"
  from ReOr.IH le(1) [of ?L ?R] le(2) [where B = ?L and C = ?R]
  have "regex_lang l \<subseteq> build_lang (fst ?L \<union> fst ?R, snd ?L \<union> snd ?R)"
    "regex_lang r \<subseteq> build_lang (fst ?L \<union> fst ?R, snd ?L \<union> snd ?R)" by simp_all
  then show ?case by (simp add: Let_def)
next
  case (ReCat b l r)
  with build_lang_cat [of "with_negatives l (regex_build l)" "with_negatives r (regex_build r)"]
  show ?case by (simp add: Let_def conc_mono)
next
  case (ReMult b r m n)
  have "(\<Union>k \<in> repeat_counts m n. power_lang (regex_lang r) k) \<subseteq>
      (\<Union>k \<in> repeat_counts m n. power_lang (build_lang (regex_build r)) k)"
    using power_lang_mono [OF ReMult] by blast
  then show ?case by (cases "m = 0") (auto simp: mult_build_pos mult_build_zero)
next
  case (ReCapture b r c)
  then show ?case by simp
qed (simp_all add: build_lang_def)

lemma build_lang_exact: "exact_form r \<Longrightarrow> build_lang (regex_build r) = regex_lang r"
proof (induction r)
  case (ReOr b l r)
  then have "snd (with_negatives l (regex_build l)) = {}" "snd (with_negatives r (regex_build r)) = {}"
    by (simp_all add: no_shared_loops)
  with ReOr build_lang_with_negatives [of l "regex_build l"]
    build_lang_with_negatives [of r "regex_build r"]
  show ?case by (simp add: Let_def build_lang_def)
next
  case (ReCat b l r)
  with build_lang_cat [of "with_negatives l (regex_build l)" "with_negatives r (regex_build r)"]
  show ?case by (simp add: Let_def)
next
  case (ReMult b r m n)
  show ?case
  proof (cases "m = 0")
    case True
    with ReMult have "snd (with_negatives r (regex_build r)) = {}" by (simp add: no_shared_loops)
    with True ReMult star_power_from [of "regex_lang r" 0] show ?thesis
      by (auto simp: mult_build_zero repeat_counts_def is_infinite_def)
  next
    case False
    with ReMult show ?thesis by (simp add: mult_build_pos)
  qed
next
  case (ReCapture b r c)
  then show ?case by simp
qed (simp_all add: build_lang_def)

end
