(* ===== verification/Nfa_Construction.thy ===== *)
theory Nfa_Construction
  imports Nfa Regex_Language
begin

text \<open>
  The construction of the tagged NFA from regexes: the \<^verbatim>\<open>add_to_nfa\<close> methods of
  \<^verbatim>\<open>finite_automata/RegexAST.hpp\<close>, \<^verbatim>\<open>LexicalRule.hpp\<close> and the
  constructor of \<^verbatim>\<open>Nfa\<close>; and what the constructed automaton accepts.
\<close>

section \<open>The construction\<close>

type_synonym builder = "bool \<Rightarrow> nat \<Rightarrow> nfa \<Rightarrow> nfa res"

definition add_with_negative_captures :: "capture list \<Rightarrow> builder \<Rightarrow> builder" where
  "add_with_negative_captures negative_captures add descendent_of_repetition end_state n =
     (if negative_captures \<noteq> []
      then (let (state_with_spontaneous_transition, n1) =
                  new_state_from_negative_captures negative_captures end_state
                    descendent_of_repetition n
            in add descendent_of_repetition state_with_spontaneous_transition n1)
      else add descendent_of_repetition end_state n)"

definition group_add_to_nfa :: "group \<Rightarrow> nat \<Rightarrow> nfa \<Rightarrow> nfa" where
  "group_add_to_nfa g end_state n =
     fold (\<lambda>interval. add_root_interval interval end_state) (group_effective_ranges g) n"

lemma group_add_size [simp]: "length (nf_states (group_add_to_nfa g end_state n)) = length (nf_states n)"
proof -
  have "length (nf_states (fold (\<lambda>interval. add_root_interval interval end_state) rs n)) = length (nf_states n)" for rs
    by (induction rs arbitrary: n) (simp_all add: add_root_interval_def nfa_update_state_def)
  then show ?thesis by (simp add: group_add_to_nfa_def)
qed

text \<open>The loops of \<^verbatim>\<open>RegexASTMultiplication\<close>, each a number of iterations.\<close>

fun mult_required :: "nat \<Rightarrow> (nat \<Rightarrow> nfa \<Rightarrow> nfa res) \<Rightarrow> nfa \<Rightarrow> nfa res" where
  "mult_required 0 operand n = Inr n"
| "mult_required (Suc k) operand n =
     (let (intermediate_state, n1) = new_state n
      in rbind (operand intermediate_state n1)
           (\<lambda>n2. mult_required k operand (nfa_set_root intermediate_state n2)))"

fun mult_optional :: "nat \<Rightarrow> (nat \<Rightarrow> nfa \<Rightarrow> nfa res) \<Rightarrow> nat \<Rightarrow> nfa \<Rightarrow> nfa res" where
  "mult_optional 0 operand end_state n = Inr n"
| "mult_optional (Suc k) operand end_state n =
     rbind (operand end_state n) (\<lambda>n0.
       let (intermediate_state, n1) = new_state n0
       in rbind (operand intermediate_state n1)
            (\<lambda>n2. mult_optional k operand end_state (nfa_set_root intermediate_state n2)))"

definition mult_add_to_nfa ::
  "nat \<Rightarrow> nat \<Rightarrow> (nat \<Rightarrow> nfa \<Rightarrow> nfa res) \<Rightarrow> nat \<Rightarrow> nfa \<Rightarrow> nfa res" where
  "mult_add_to_nfa mn mx operand end_state n =
     (let saved_root = nf_root n
      in rbind
          (if mn = 0
           then Inr (nfa_update_state (nf_root n) (ns_add_spontaneous_transition end_state) n)
           else rbind (mult_required (mn - 1) operand n) (operand end_state)) (\<lambda>n1.
         rbind
          (if is_infinite mx then operand end_state (nfa_set_root end_state n1)
           else if mn < mx then
             rbind
              (if mn \<noteq> 0 then mult_required 1 operand n1 else Inr n1) (\<lambda>n2.
             rbind (mult_optional (mx - (mn + 1)) operand end_state n2)
              (operand end_state))
           else Inr n1) (\<lambda>n3.
         Inr (nfa_set_root saved_root n3))))"

definition capture_add_to_nfa :: "capture \<Rightarrow> builder \<Rightarrow> builder" where
  "capture_add_to_nfa c capture_regex_ast descendent_of_repetition dest_state n =
     (let ((capture_start_state, capture_end_state), n1) =
            new_start_and_end_states_from_positive_capture c dest_state descendent_of_repetition n;
          initial_root = nf_root n1
      in rbind (capture_regex_ast descendent_of_repetition capture_end_state
                  (nfa_set_root capture_start_state n1)) (\<lambda>n2.
         Inr (nfa_set_root initial_root n2)))"

primrec add_to_nfa :: "regex_ast \<Rightarrow> builder" where
  "add_to_nfa (ReEmpty b) descendent_of_repetition end_state n =
     Inr (nfa_update_state (nf_root n) (ns_add_spontaneous_transition end_state) n)"
| "add_to_nfa (ReLiteral b c) descendent_of_repetition end_state n =
     Inr (add_root_interval (c, c) end_state n)"
| "add_to_nfa (ReInteger b ds) descendent_of_repetition end_state n = Inl RuntimeError"
| "add_to_nfa (ReGroup b g) descendent_of_repetition end_state n =
     Inr (group_add_to_nfa g end_state n)"
| "add_to_nfa (ReOr b l r) descendent_of_repetition end_state n =
     rbind (add_with_negative_captures (get_negative_captures l) (add_to_nfa l)
              descendent_of_repetition end_state n)
       (add_with_negative_captures (get_negative_captures r) (add_to_nfa r)
          descendent_of_repetition end_state)"
| "add_to_nfa (ReCat b l r) descendent_of_repetition end_state n =
     (let saved_root = nf_root n;
          (intermediate_state, n1) = new_state n
      in rbind (add_with_negative_captures (get_negative_captures l) (add_to_nfa l)
                  descendent_of_repetition intermediate_state n1) (\<lambda>n2.
         rbind (add_with_negative_captures (get_negative_captures r) (add_to_nfa r)
                  descendent_of_repetition end_state (nfa_set_root intermediate_state n2)) (\<lambda>n3.
         Inr (nfa_set_root saved_root n3))))"
| "add_to_nfa (ReMult b r mn mx) descendent_of_repetition end_state n =
     mult_add_to_nfa mn mx
       (add_with_negative_captures (get_negative_captures r) (add_to_nfa r) True) end_state n"
| "add_to_nfa (ReCapture b r c) descendent_of_repetition dest_state n =
     capture_add_to_nfa c (add_with_negative_captures (get_negative_captures r) (add_to_nfa r))
       descendent_of_repetition dest_state n"

definition add_to_nfa_with_negative_captures :: "regex_ast \<Rightarrow> builder" where
  "add_to_nfa_with_negative_captures r =
     add_with_negative_captures (get_negative_captures r) (add_to_nfa r)"

record lexical_rule =
  lr_variable_id :: nat
  lr_regex :: regex_ast

definition lexical_rule_get_captures :: "lexical_rule \<Rightarrow> capture list" where
  "lexical_rule_get_captures rule = get_subtree_positive_captures (lr_regex rule)"

definition lexical_rule_add_to_nfa :: "lexical_rule \<Rightarrow> nfa \<Rightarrow> nfa res" where
  "lexical_rule_add_to_nfa rule n =
     (let (end_state, n1) = new_accepting_state (lr_variable_id rule) n
      in add_to_nfa_with_negative_captures (lr_regex rule) False end_state n1)"

definition nfa_empty :: nfa where
  "nfa_empty = \<lparr>nf_states = [], nf_capture_to_tag_id_pair = (\<lambda>_. None), nf_root = 0,
     nf_state_id_generator = 0, nf_tag_id_generator = 0\<rparr>"

definition nfa_of_rules :: "lexical_rule list \<Rightarrow> nfa res" where
  "nfa_of_rules rules =
     (let (root, n) = new_state nfa_empty
      in rfold lexical_rule_add_to_nfa rules (nfa_set_root root n))"

section \<open>How the primitives change the graph\<close>

definition ns_edge :: "nfa_state \<Rightarrow> nat option \<Rightarrow> nat \<Rightarrow> bool" where
  "ns_edge s a t \<longleftrightarrow>
     (case a of
        None \<Rightarrow> t \<in> sp_dest_state ` set (ns_spontaneous_transitions s)
      | Some c \<Rightarrow> c < cSizeOfByte \<and> t \<in> set (ns_bytes_transitions s c))"

lemma nfa_edge_state: "nfa_edge n s a t \<longleftrightarrow> s < nfa_size n \<and> ns_edge (nf_states n ! s) a t"
  by (simp add: nfa_edge_def ns_edge_def)

lemma ns_edge_new [simp]:
  "ns_edge (ns_new i) a t = False"
  "ns_edge (ns_new_accepting i v) a t = False"
  "ns_edge (ns_add_spontaneous_transition d s) a t \<longleftrightarrow> ns_edge s a t \<or> a = None \<and> t = d"
  "ns_edge (ns_add_tagged_transition ty tags d mv s) a t \<longleftrightarrow> ns_edge s a t \<or> a = None \<and> t = d"
  "ns_edge (ns_new_tagged i ty tags d mv) a t \<longleftrightarrow> a = None \<and> t = d"
  by (auto simp: ns_edge_def ns_new_def ns_new_accepting_def ns_add_spontaneous_transition_def
      ns_add_tagged_transition_def ns_new_tagged_def Let_def split: option.splits)

lemma ns_edge_add_byte:
  "ns_edge (ns_add_byte_transition c d s) a t \<longleftrightarrow>
     ns_edge s a t \<or> a = Some c \<and> c < cSizeOfByte \<and> t = d"
  by (auto simp: ns_edge_def ns_add_byte_transition_def split: option.splits)

lemma ns_edge_add_bytes:
  "ns_edge (fold (\<lambda>i. ns_add_byte_transition i d) cs s) a t \<longleftrightarrow>
     ns_edge s a t \<or> (\<exists>c \<in> set cs. a = Some c \<and> c < cSizeOfByte \<and> t = d)"
  by (induction cs arbitrary: s) (auto simp: ns_edge_add_byte)

lemma ns_edge_add_interval [simp]:
  "ns_edge (ns_add_interval (b, e) d s) a t \<longleftrightarrow>
     ns_edge s a t \<or> (\<exists>c. a = Some c \<and> c < cSizeOfByte \<and> b \<le> c \<and> c \<le> e \<and> t = d)"
  by (auto simp: ns_add_interval_def ns_edge_add_bytes Let_def cSizeOfByte_def)

definition same_state :: "nfa_state \<Rightarrow> nfa_state \<Rightarrow> bool" where
  "same_state s t \<longleftrightarrow> ns_id s = ns_id t \<and> ns_accepting s = ns_accepting t \<and>
     ns_matching_variable_id s = ns_matching_variable_id t"

lemma same_state_add_byte: "same_state (ns_add_byte_transition c d s) s"
  by (simp add: same_state_def ns_add_byte_transition_def)

lemma same_state_add_bytes: "same_state (fold (\<lambda>i. ns_add_byte_transition i d) cs s) s"
  by (induction cs arbitrary: s)
    (auto simp: same_state_def ns_add_byte_transition_def)

lemma same_state_simps [simp]:
  "same_state s s"
  "same_state (ns_add_spontaneous_transition d s) s"
  "same_state (ns_add_tagged_transition ty tags d mv s) s"
  "same_state (ns_add_interval r d s) s"
  using same_state_add_bytes
  by (simp_all add: same_state_def ns_add_spontaneous_transition_def ns_add_interval_def
      ns_add_tagged_transition_def Let_def)

text \<open>The part of an automaton that the languages depend on.\<close>

definition nfa_graph :: "nfa \<Rightarrow> nfa_state list \<times> nat" where
  "nfa_graph n = (nf_states n, nf_state_id_generator n)"

lemma nfa_graph_simps [simp]:
  "nfa_graph (nfa_set_root r n) = nfa_graph n"
  "nfa_graph (snd (get_or_create_capture_tag_pair c n)) = nfa_graph n"
  by (simp_all add: nfa_graph_def nfa_set_root_def get_or_create_capture_tag_pair_def Let_def
      split: option.splits prod.splits)

lemma nf_root_simps [simp]:
  "nf_root (nfa_set_root r n) = r"
  "nf_root (nfa_update_state p f n) = nf_root n"
  "nf_root (snd (nfa_emplace mk n)) = nf_root n"
  "nf_root (snd (get_or_create_capture_tag_pair c n)) = nf_root n"
  by (simp_all add: nfa_set_root_def nfa_update_state_def nfa_emplace_def
      get_or_create_capture_tag_pair_def Let_def split: option.splits prod.splits)

lemma tags_of_captures_graph [simp]:
  "nfa_graph (snd (tags_of_captures cs n)) = nfa_graph n \<and>
   nf_root (snd (tags_of_captures cs n)) = nf_root n"
proof (induction cs arbitrary: n)
  case (Cons c cs)
  show ?case
    using Cons.IH [of "snd (get_or_create_capture_tag_pair c n)"]
    by (auto split: prod.splits)
qed simp

section \<open>Links\<close>

text \<open>
  \<open>residual R n\<close>: a language for each state such that every edge is a step of the
  languages. This is what shows that nothing but the intended words is accepted.
\<close>

definition before :: "nat option \<Rightarrow> lang \<Rightarrow> lang" where
  "before a L = (case a of None \<Rightarrow> L | Some c \<Rightarrow> Cons c ` L)"

definition residual :: "(nat \<Rightarrow> lang) \<Rightarrow> nfa \<Rightarrow> bool" where
  "residual R n \<longleftrightarrow> (\<forall>s a t. nfa_edge n s a t \<longrightarrow> before a (R t) \<subseteq> R s)"

text \<open>The well-formed automata, whatever the root.\<close>

definition nfa_ok :: "nfa \<Rightarrow> bool" where
  "nfa_ok n \<longleftrightarrow> (\<forall>s a t. nfa_edge n s a t \<longrightarrow> t < nfa_size n) \<and>
     (\<forall>s < nfa_size n. ns_id (nf_states n ! s) = u32 s) \<and>
     nf_state_id_generator n = u32 (nfa_size n)"

definition nfa_ext :: "nfa \<Rightarrow> nfa \<Rightarrow> bool" where
  "nfa_ext n n' \<longleftrightarrow> nfa_ok n' \<and> nfa_size n \<le> nfa_size n' \<and>
     (\<forall>s a t. nfa_edge n s a t \<longrightarrow> nfa_edge n' s a t) \<and>
     (\<forall>s < nfa_size n. nfa_accepting n' s = nfa_accepting n s) \<and>
     (\<forall>s \<ge> nfa_size n. nfa_accepting n' s = None)"

text \<open>
  \<open>linked B p e n n'\<close>: \<open>n'\<close> extends \<open>n\<close> with a fragment from \<open>p\<close> to \<open>e\<close> whose
  languages are exactly \<open>B\<close>.
\<close>

definition linked :: "build \<Rightarrow> nat \<Rightarrow> nat \<Rightarrow> nfa \<Rightarrow> nfa \<Rightarrow> bool" where
  "linked B p e n n' \<longleftrightarrow> (nfa_ok n \<and> p < nfa_size n \<and> e < nfa_size n \<longrightarrow>
     nfa_ext n n' \<and>
     (\<forall>w \<in> fst B. nfa_path n' p w e) \<and> (\<forall>w \<in> snd B. nfa_path n' e w e) \<and>
     (\<forall>R. residual R n \<and> conc (fst B) (R e) \<subseteq> R p \<and> conc (snd B) (R e) \<subseteq> R e \<longrightarrow>
        (\<exists>R'. (\<forall>s < nfa_size n. R' s = R s) \<and> residual R' n')))"

lemma nfa_edge_graph: "nfa_graph n = nfa_graph m \<Longrightarrow> nfa_edge n = nfa_edge m"
  by (intro ext) (simp add: nfa_graph_def nfa_edge_def nfa_size_def split: option.split)

lemma nfa_graph_cong:
  assumes "nfa_graph n = nfa_graph m"
  shows "nfa_size n = nfa_size m" "nfa_ok n = nfa_ok m" "residual R n = residual R m"
    "nfa_accepting n = nfa_accepting m" "nfa_path n = nfa_path m" "nfa_ext l n = nfa_ext l m"
    "nfa_ext n l = nfa_ext m l"
proof -
  note e = nfa_edge_graph [OF assms]
  show size: "nfa_size n = nfa_size m" using assms by (simp add: nfa_graph_def nfa_size_def)
  show ok: "nfa_ok n = nfa_ok m" using assms e by (simp add: nfa_ok_def nfa_graph_def nfa_size_def)
  show "residual R n = residual R m" by (simp add: residual_def e)
  show acc: "nfa_accepting n = nfa_accepting m"
    using assms by (simp add: fun_eq_iff nfa_accepting_def nfa_graph_def nfa_size_def)
  show "nfa_path n = nfa_path m"
    using nfa_path_mono [of n _ _ _ m] nfa_path_mono [of m _ _ _ n] e by (auto simp: fun_eq_iff)
  show "nfa_ext l n = nfa_ext l m" "nfa_ext n l = nfa_ext m l"
    by (simp_all add: nfa_ext_def size ok acc e)
qed

lemma linked_cong:
  "nfa_graph n = nfa_graph m \<Longrightarrow> nfa_graph n' = nfa_graph m' \<Longrightarrow>
     linked B p e n n' = linked B p e m m'"
  by (simp add: linked_def nfa_graph_cong [of n m] nfa_graph_cong [of n' m'])

lemma nfa_ext_trans:
  assumes "nfa_ext n m" "nfa_ext m l"
  shows "nfa_ext n l"
proof -
  have "nfa_accepting l s = None" if "nfa_size n \<le> s" for s
    using assms that by (cases "s < nfa_size m") (auto simp: nfa_ext_def)
  with assms show ?thesis by (auto simp: nfa_ext_def)
qed

lemma nfa_ext_path: "nfa_ext n m \<Longrightarrow> nfa_path n s w t \<Longrightarrow> nfa_path m s w t"
  by (erule nfa_path_mono) (auto simp: nfa_ext_def)

lemma residual_path: "nfa_path n s w t \<Longrightarrow> residual R n \<Longrightarrow> v \<in> R t \<Longrightarrow> w @ v \<in> R s"
proof (induction rule: nfa_path.induct)
  case (path_eps s t w u)
  then have "before None (R t) \<subseteq> R s" by (auto simp: residual_def)
  with path_eps show ?case by (auto simp: before_def)
next
  case (path_byte s c t w u)
  then have "before (Some c) (R t) \<subseteq> R s" by (auto simp: residual_def)
  with path_byte show ?case by (auto simp: before_def)
qed simp

lemma residual_agree:
  assumes "nfa_ok n" "residual R n" "\<And>s. s < nfa_size n \<Longrightarrow> R' s = R s"
  shows "residual R' n"
proof -
  have "R' s = R s \<and> R' t = R t" if "nfa_edge n s a t" for s a t
    using that assms(1,3) by (auto simp: nfa_ok_def nfa_edge_def)
  with assms(2) show ?thesis by (metis residual_def)
qed

lemma linkedI:
  assumes "\<lbrakk>nfa_ok n; p < nfa_size n; e < nfa_size n\<rbrakk> \<Longrightarrow> nfa_ext n n'"
    and "\<And>w. \<lbrakk>nfa_ok n; p < nfa_size n; e < nfa_size n; w \<in> D\<rbrakk> \<Longrightarrow> nfa_path n' p w e"
    and "\<And>w. \<lbrakk>nfa_ok n; p < nfa_size n; e < nfa_size n; w \<in> Q\<rbrakk> \<Longrightarrow> nfa_path n' e w e"
    and "\<And>R. \<lbrakk>nfa_ok n; p < nfa_size n; e < nfa_size n; residual R n; conc D (R e) \<subseteq> R p;
           conc Q (R e) \<subseteq> R e\<rbrakk> \<Longrightarrow> \<exists>R'. (\<forall>s < nfa_size n. R' s = R s) \<and> residual R' n'"
  shows "linked (D, Q) p e n n'"
  using assms by (simp add: linked_def)

lemma linkedD:
  assumes "linked (D, Q) p e n n'" "nfa_ok n" "p < nfa_size n" "e < nfa_size n"
  shows "nfa_ext n n'" "w \<in> D \<Longrightarrow> nfa_path n' p w e" "w \<in> Q \<Longrightarrow> nfa_path n' e w e"
    and "residual R n \<Longrightarrow> conc D (R e) \<subseteq> R p \<Longrightarrow> conc Q (R e) \<subseteq> R e \<Longrightarrow>
           \<exists>R'. (\<forall>s < nfa_size n. R' s = R s) \<and> residual R' n'"
  using assms by (simp_all add: linked_def)

section \<open>The links of the primitives\<close>

lemma nfa_accepting_beyond: "nfa_size n \<le> s \<Longrightarrow> nfa_accepting n s = None"
  by (simp add: nfa_accepting_def)

lemma nfa_ext_refl: "nfa_ok n \<Longrightarrow> nfa_ext n n"
  by (simp add: nfa_ext_def nfa_accepting_def)

lemma linked_none: "linked ({}, {}) p e n n"
  by (rule linkedI) (auto intro: nfa_ext_refl)

lemma linked_seq:
  assumes "linked (D1, Q1) p e n n1" "linked (D2, Q2) p e n1 n2"
  shows "linked (D1 \<union> D2, Q1 \<union> Q2) p e n n2"
proof (rule linkedI)
  assume pre: "nfa_ok n" "p < nfa_size n" "e < nfa_size n"
  note l1 = linkedD [OF assms(1) pre]
  from l1(1) pre have pre1: "nfa_ok n1" "p < nfa_size n1" "e < nfa_size n1"
    by (auto simp: nfa_ext_def)
  note l2 = linkedD [OF assms(2) pre1]
  show "nfa_ext n n2" using nfa_ext_trans l1(1) l2(1) by blast
  show "w \<in> D1 \<union> D2 \<Longrightarrow> nfa_path n2 p w e" "w \<in> Q1 \<union> Q2 \<Longrightarrow> nfa_path n2 e w e" for w
    using l1(2,3) l2(2,3) nfa_ext_path [OF l2(1)] by blast+
  fix R
  assume R: "residual R n" "conc (D1 \<union> D2) (R e) \<subseteq> R p" "conc (Q1 \<union> Q2) (R e) \<subseteq> R e"
  then obtain R1 where R1: "\<forall>s < nfa_size n. R1 s = R s" "residual R1 n1"
    using l1(4) [of R] by (auto simp: conc_Un)
  with R pre obtain R2 where "\<forall>s < nfa_size n1. R2 s = R1 s" "residual R2 n2"
    using l2(4) [of R1] by (auto simp: conc_Un)
  with R1 l1(1) show "\<exists>R'. (\<forall>s < nfa_size n. R' s = R s) \<and> residual R' n2"
    by (intro exI [of _ R2]) (auto simp: nfa_ext_def)
qed

lemma linked_loop:
  assumes "linked (D, Q) e e n n'"
  shows "linked ({}, D \<union> Q) p e n n'"
  by (rule linkedI) (use linkedD [OF assms] in \<open>auto simp: conc_Un\<close>)

text \<open>Emplacing a state.\<close>

lemma nfa_emplace_facts:
  assumes "nfa_emplace mk n = (p, n')"
  shows "p = nfa_size n" "nfa_size n' = Suc (nfa_size n)"
    "nfa_edge n' s a t \<longleftrightarrow>
       nfa_edge n s a t \<or> s = nfa_size n \<and> ns_edge (mk (nf_state_id_generator n)) a t"
    "nf_root n' = nf_root n"
    "nfa_accepting n' s = (if s = nfa_size n
       then (let new = mk (nf_state_id_generator n)
             in if ns_accepting new then Some (ns_matching_variable_id new) else None)
       else nfa_accepting n s)"
  using assms
  by (auto simp: nfa_emplace_def generate_id_def Let_def nfa_size_def nfa_edge_state nth_append
      nfa_accepting_def less_Suc_eq split: if_splits)

definition fresh_state :: "(nat \<Rightarrow> nfa_state) \<Rightarrow> bool" where
  "fresh_state mk \<longleftrightarrow> (\<forall>i. ns_id (mk i) = i)"

lemma fresh_state_simps [simp]:
  "fresh_state ns_new" "fresh_state (\<lambda>i. ns_new_accepting i v)"
  "fresh_state (\<lambda>i. ns_new_tagged i ty tags d mv)"
  by (simp_all add: fresh_state_def ns_new_def ns_new_accepting_def ns_new_tagged_def
      ns_add_tagged_transition_def Let_def)

lemma ns_accepting_simps [simp]:
  "\<not> ns_accepting (ns_new i)" "\<not> ns_accepting (ns_new_tagged i ty tags d mv)"
  "ns_accepting (ns_new_accepting i v)" "ns_matching_variable_id (ns_new_accepting i v) = v"
  by (simp_all add: ns_new_def ns_new_tagged_def ns_add_tagged_transition_def
      ns_new_accepting_def Let_def)

lemma nfa_emplace_ok:
  assumes "nfa_emplace mk n = (p, n')" "nfa_ok n" "fresh_state mk"
    and "\<And>i a t. ns_edge (mk i) a t \<Longrightarrow> t \<le> nfa_size n"
  shows "nfa_ok n'"
  unfolding nfa_ok_def
proof (intro conjI allI impI)
  note f = nfa_emplace_facts [OF assms(1)]
  show "t < nfa_size n'" if "nfa_edge n' s a t" for s a t
    using that assms(2,4) by (fastforce simp: f(2,3) nfa_ok_def less_Suc_eq_le)
  show "ns_id (nf_states n' ! s) = u32 s" if "s < nfa_size n'" for s
    using that assms(1-3)
    by (auto simp: nfa_emplace_def generate_id_def nfa_ok_def nfa_size_def nth_append
        fresh_state_def less_Suc_eq)
  show "nf_state_id_generator n' = u32 (nfa_size n')"
    using assms(1,2) by (auto simp: nfa_emplace_def generate_id_def nfa_ok_def nfa_size_def u32_def
        mod_Suc_eq)
qed

lemma nfa_emplace_ext:
  assumes "nfa_emplace mk n = (p, n')" "nfa_ok n" "fresh_state mk"
    and "\<And>i a t. ns_edge (mk i) a t \<Longrightarrow> t \<le> nfa_size n" "\<And>i. \<not> ns_accepting (mk i)"
  shows "nfa_ext n n'"
  using nfa_emplace_ok [OF assms(1-4)] assms(5) nfa_emplace_facts [OF assms(1)]
  by (auto simp: nfa_ext_def nfa_accepting_beyond Let_def)

text \<open>A link through a new state whose only edges lead on to the end state.\<close>

lemma linked_via:
  assumes "nfa_emplace mk n = (i, n1)" "fresh_state mk" "\<And>k. \<not> ns_accepting (mk k)"
    and edge: "\<And>k a t. ns_edge (mk k) a t \<longleftrightarrow> a = None \<and> t = e"
    and l: "linked (D, Q) p i n1 n2"
  shows "linked (conc D (star Q), {}) p e n n2"
proof (rule linkedI)
  assume pre: "nfa_ok n" "p < nfa_size n" "e < nfa_size n"
  note f = nfa_emplace_facts [OF assms(1)]
  have ext: "nfa_ext n n1"
    using nfa_emplace_ext [OF assms(1) pre(1) assms(2)] assms(3) edge pre(3) by auto
  then have "nfa_ok n1" "p < nfa_size n1" "i < nfa_size n1"
    using pre f by (auto simp: nfa_ext_def)
  note l = linkedD [OF l this]
  show "nfa_ext n n2" using nfa_ext_trans ext l(1) by blast
  have "nfa_edge n2 i None e"
    using l(1) f edge by (auto simp: nfa_ext_def)
  then have exit: "nfa_path n2 i [] e" by (rule nfa_path_edge)
  have loops: "w \<in> star Q \<Longrightarrow> nfa_path n2 i w i" for w
    by (induction rule: star.induct) (auto intro: l(3) nfa_path_append path_refl)
  show "w \<in> conc D (star Q) \<Longrightarrow> nfa_path n2 p w e" for w
    using nfa_path_append [OF nfa_path_append [OF l(2) loops] exit] by auto
  show "w \<in> {} \<Longrightarrow> nfa_path n2 e w e" for w by simp
  fix R
  assume R: "residual R n" "conc (conc D (star Q)) (R e) \<subseteq> R p"
  let ?R = "R(i := conc (star Q) (R e))"
  have "residual ?R n"
    by (rule residual_agree [OF pre(1) R(1)]) (simp add: f(1))
  moreover have "R e \<subseteq> conc (star Q) (R e)" by (rule star_base)
  ultimately have "residual ?R n1"
    using edge pre by (auto simp: residual_def f(1,3) before_def)
  moreover have "conc D (?R i) \<subseteq> ?R p"
    using R(2) pre f(1) by (simp add: conc_assoc)
  moreover have "conc Q (?R i) \<subseteq> ?R i" by (simp add: star_step)
  ultimately obtain R' where "\<forall>s < nfa_size n1. R' s = ?R s" "residual R' n2"
    using l(4) [of ?R] by auto
  then show "\<exists>R'. (\<forall>s < nfa_size n. R' s = R s) \<and> residual R' n2"
    by (intro exI [of _ R']) (simp add: f(1,2))
qed

lemma linked_cat:
  assumes new: "new_state n = (i, n1)"
    and "linked (D1, Q1) p i n1 n2" "linked (D2, Q2) i e n2 n3"
  shows "linked (conc (conc D1 (star Q1)) D2, Q2) p e n n3"
proof (rule linkedI)
  assume pre: "nfa_ok n" "p < nfa_size n" "e < nfa_size n"
  note f = nfa_emplace_facts [OF new [unfolded new_state_def]]
  have ext: "nfa_ext n n1"
    by (rule nfa_emplace_ext [OF new [unfolded new_state_def] pre(1)]) auto
  then have pre1: "nfa_ok n1" "p < nfa_size n1" "i < nfa_size n1" "e < nfa_size n1"
    using pre f by (auto simp: nfa_ext_def)
  note l1 = linkedD [OF assms(2) pre1(1-3)]
  have pre2: "nfa_ok n2" "i < nfa_size n2" "e < nfa_size n2"
    using l1(1) pre1 by (auto simp: nfa_ext_def)
  note l2 = linkedD [OF assms(3) pre2]
  show "nfa_ext n n3" using nfa_ext_trans ext l1(1) l2(1) by blast
  have loops: "w \<in> star Q1 \<Longrightarrow> nfa_path n2 i w i" for w
    by (induction rule: star.induct) (auto intro: l1(3) nfa_path_append path_refl)
  have "w \<in> conc D1 (star Q1) \<Longrightarrow> nfa_path n3 p w i" for w
    using nfa_ext_path [OF l2(1)] nfa_path_append [OF l1(2) loops] by auto
  then show "w \<in> conc (conc D1 (star Q1)) D2 \<Longrightarrow> nfa_path n3 p w e" for w
    using l2(2) by (auto intro: nfa_path_append)
  show "w \<in> Q2 \<Longrightarrow> nfa_path n3 e w e" for w by (rule l2(3))
  fix R
  assume R: "residual R n" "conc (conc (conc D1 (star Q1)) D2) (R e) \<subseteq> R p" "conc Q2 (R e) \<subseteq> R e"
  let ?R = "R(i := conc (star Q1) (conc D2 (R e)))"
  have "residual ?R n"
    by (rule residual_agree [OF pre(1) R(1)]) (simp add: f(1))
  then have "residual ?R n1" by (simp add: residual_def f(3))
  moreover have "conc D1 (?R i) \<subseteq> ?R p"
    using R(2) pre f(1) by (simp add: conc_assoc)
  moreover have "conc Q1 (?R i) \<subseteq> ?R i" by (simp add: star_step)
  ultimately obtain R1 where R1: "\<forall>s < nfa_size n1. R1 s = ?R s" "residual R1 n2"
    using l1(4) [of ?R] by auto
  then have eqs: "R1 e = R e" "R1 i = conc (star Q1) (conc D2 (R e))"
    using pre1 f(1) pre(3) by auto
  then obtain R2 where "\<forall>s < nfa_size n2. R2 s = R1 s" "residual R2 n3"
    using l2(4) [of R1] R1(2) R(3) star_base [of "conc D2 (R e)" Q1] by auto
  with R1(1) show "\<exists>R'. (\<forall>s < nfa_size n. R' s = R s) \<and> residual R' n3"
    using l1(1) f(1,2) by (intro exI [of _ R2]) (auto simp: nfa_ext_def)
qed

text \<open>New edges of an existing state.\<close>

lemma nfa_update_state_facts:
  assumes "p < nfa_size n"
  shows "nfa_size (nfa_update_state p f n) = nfa_size n"
    "nfa_edge (nfa_update_state p f n) s a t \<longleftrightarrow>
       (if s = p then ns_edge (f (nf_states n ! p)) a t else nfa_edge n s a t)"
    "nfa_accepting (nfa_update_state p f n) s =
       (if s = p \<and> ns_accepting (f (nf_states n ! p))
        then Some (ns_matching_variable_id (f (nf_states n ! p)))
        else if s = p then None else nfa_accepting n s)"
  using assms by (auto simp: nfa_update_state_def nfa_size_def nfa_edge_state nfa_accepting_def)

definition word_of :: "nat option \<Rightarrow> nat list" where
  "word_of a = (case a of None \<Rightarrow> [] | Some c \<Rightarrow> [c])"

lemma linked_update:
  assumes same: "\<And>s. same_state (f s) s"
    and edge: "\<And>s a t. ns_edge (f s) a t \<longleftrightarrow> ns_edge s a t \<or> a \<in> A \<and> t = e"
  shows "linked (word_of ` A, {}) p e n (nfa_update_state p f n)"
proof (rule linkedI)
  assume pre: "nfa_ok n" "p < nfa_size n" "e < nfa_size n"
  note f = nfa_update_state_facts [OF pre(2), of f]
  have edges: "nfa_edge (nfa_update_state p f n) s a t \<longleftrightarrow>
      nfa_edge n s a t \<or> s = p \<and> a \<in> A \<and> t = e" for s a t
    unfolding f(2) using pre by (auto simp: edge nfa_edge_state)
  have acc: "nfa_accepting (nfa_update_state p f n) s = nfa_accepting n s" for s
    unfolding f(3) using same [of "nf_states n ! p"] pre
    by (auto simp: same_state_def nfa_accepting_def)
  have "ns_id (nf_states (nfa_update_state p f n) ! s) = ns_id (nf_states n ! s)" if "s < nfa_size n" for s
    using that same [of "nf_states n ! p"]
    by (cases "s = p") (auto simp: nfa_update_state_def same_state_def nfa_size_def)
  then have ok: "nfa_ok (nfa_update_state p f n)"
    using pre edges f(1) unfolding nfa_ok_def by (auto simp: nfa_update_state_def)
  show "nfa_ext n (nfa_update_state p f n)"
    using ok f(1) acc edges nfa_ext_refl [OF pre(1)] by (simp add: nfa_ext_def)
  show "w \<in> word_of ` A \<Longrightarrow> nfa_path (nfa_update_state p f n) p w e" for w
    using edges [of p] by (auto simp: word_of_def intro!: nfa_path_edge split: option.splits)
  show "w \<in> {} \<Longrightarrow> nfa_path (nfa_update_state p f n) e w e" for w by simp
  fix R
  assume R: "residual R n" "conc (word_of ` A) (R e) \<subseteq> R p"
  have "before a (R e) \<subseteq> R p" if "a \<in> A" for a
  proof -
    have "conc {word_of a} (R e) \<subseteq> R p"
      using that R(2) conc_mono [of "{word_of a}" "word_of ` A" "R e" "R e"] by auto
    then show ?thesis by (auto simp: before_def word_of_def conc_def split: option.splits)
  qed
  with R(1) show "\<exists>R'. (\<forall>s < nfa_size n. R' s = R s) \<and> residual R' (nfa_update_state p f n)"
    by (intro exI [of _ R]) (auto simp: residual_def edges)
qed

lemma linked_eps:
  "linked ({[]}, {}) p e n (nfa_update_state p (ns_add_spontaneous_transition e) n)"
  "linked ({[]}, {}) p e n (nfa_update_state p (ns_add_tagged_transition ty tags e mv) n)"
  using linked_update [of "ns_add_spontaneous_transition e" "{None}" e]
    linked_update [of "ns_add_tagged_transition ty tags e mv" "{None}" e]
  by (simp_all add: word_of_def)

lemma linked_interval:
  "linked ({[c] |c. c < cSizeOfByte \<and> b \<le> c \<and> c \<le> d}, {}) p e n
     (nfa_update_state p (ns_add_interval (b, d) e) n)"
proof -
  have "linked (word_of ` {Some c |c. c < cSizeOfByte \<and> b \<le> c \<and> c \<le> d}, {}) p e n
      (nfa_update_state p (ns_add_interval (b, d) e) n)"
    by (rule linked_update) auto
  moreover have "word_of ` {Some c |c. c < cSizeOfByte \<and> b \<le> c \<and> c \<le> d} =
      {[c] |c. c < cSizeOfByte \<and> b \<le> c \<and> c \<le> d}"
    by (force simp: word_of_def image_iff)
  ultimately show ?thesis by simp
qed

section \<open>The links of the construction\<close>

text \<open>What a builder promises about the languages of the fragment it adds.\<close>

definition builds :: "build \<Rightarrow> (nat \<Rightarrow> nfa \<Rightarrow> nfa res) \<Rightarrow> bool" where
  "builds B f \<longleftrightarrow> (\<forall>n e n'. f e n = Inr n' \<longrightarrow>
     nf_root n' = nf_root n \<and> linked B (nf_root n) e n n')"

lemma buildsD:
  "builds B f \<Longrightarrow> f e n = Inr n' \<Longrightarrow> nf_root n' = nf_root n \<and> linked B (nf_root n) e n n'"
  by (simp add: builds_def)

lemma linked_set_root [simp]:
  "linked B p e (nfa_set_root r n) n' = linked B p e n n'"
  "linked B p e n (nfa_set_root r n') = linked B p e n n'"
  by (rule linked_cong; simp)+

lemma group_add_links:
  "nf_root (fold (\<lambda>i. add_root_interval i e) rs n) = nf_root n \<and>
   linked ({[c] |c. c < cSizeOfByte \<and> in_ranges c rs}, {}) (nf_root n) e n
     (fold (\<lambda>i. add_root_interval i e) rs n)"
proof (induction rs arbitrary: n)
  case Nil
  show ?case using linked_none by simp
next
  case (Cons r rs)
  obtain b d where r: "r = (b, d)" by (cases r)
  let ?n = "add_root_interval (b, d) e n"
  have root: "nf_root ?n = nf_root n" by (simp add: add_root_interval_def)
  have "linked ({[c] |c. c < cSizeOfByte \<and> b \<le> c \<and> c \<le> d}, {}) (nf_root n) e n ?n"
    by (simp add: add_root_interval_def linked_interval)
  from linked_seq [OF this] Cons.IH [of ?n] root
  have "linked ({[c] |c. c < cSizeOfByte \<and> b \<le> c \<and> c \<le> d} \<union>
      {[c] |c. c < cSizeOfByte \<and> in_ranges c rs}, {}) (nf_root n) e n
      (fold (\<lambda>i. add_root_interval i e) rs ?n)" by simp
  moreover have "{[c] |c. c < cSizeOfByte \<and> b \<le> c \<and> c \<le> d} \<union>
      {[c] |c. c < cSizeOfByte \<and> in_ranges c rs} =
      {[c] |c. c < cSizeOfByte \<and> in_ranges c (r # rs)}"
    by (auto simp: r)
  ultimately show ?case using Cons.IH [of ?n] root by (simp add: r)
qed

lemma linked_negatives:
  assumes "new_state_from_negative_captures cs e mv n = (s, n1)"
    and "linked B p s n1 n2"
  shows "linked (absorb_loops B) p e n n2" "nf_root n1 = nf_root n"
proof -
  obtain tags n0 where t: "tags_of_captures cs n = (tags, n0)" by (cases "tags_of_captures cs n")
  with assms(1) have e: "nfa_emplace (\<lambda>i. ns_new_tagged i TagNegate tags e mv) n0 = (s, n1)"
    by (simp add: new_state_from_negative_captures_def)
  have g: "nfa_graph n0 = nfa_graph n" "nf_root n0 = nf_root n"
    using tags_of_captures_graph [of cs n] t by auto
  have "linked (absorb_loops B) p e n0 n2"
    unfolding absorb_loops_def
    by (rule linked_via [OF e]) (use assms(2) in auto)
  then show "linked (absorb_loops B) p e n n2"
    using linked_cong [OF g(1) refl] by blast
  show "nf_root n1 = nf_root n" using nfa_emplace_facts(4) [OF e] g(2) by simp
qed

lemma builds_with_negatives:
  assumes "builds B (add d)"
  shows "builds (with_negatives r B) (add_with_negative_captures (get_negative_captures r) add d)"
  unfolding builds_def
proof (intro allI impI)
  fix n e n'
  assume a: "add_with_negative_captures (get_negative_captures r) add d e n = Inr n'"
  show "nf_root n' = nf_root n \<and> linked (with_negatives r B) (nf_root n) e n n'"
  proof (cases "get_negative_captures r = []")
    case True
    with a buildsD [OF assms] show ?thesis
      by (simp add: add_with_negative_captures_def with_negatives_def)
  next
    case False
    obtain s n1 where s: "new_state_from_negative_captures (get_negative_captures r) e d n = (s, n1)"
      by (cases "new_state_from_negative_captures (get_negative_captures r) e d n")
    with a False have "add d s n1 = Inr n'" by (simp add: add_with_negative_captures_def)
    from buildsD [OF assms this] have "nf_root n' = nf_root n1" "linked B (nf_root n1) s n1 n'"
      by simp_all
    with linked_negatives [OF s this(2)] False show ?thesis by (simp add: with_negatives_def)
  qed
qed

lemma builds_or:
  assumes "builds B f" "builds C g"
  shows "builds (fst B \<union> fst C, snd B \<union> snd C) (\<lambda>e n. rbind (f e n) (g e))"
  unfolding builds_def
proof (intro allI impI)
  fix n e n'
  assume "rbind (f e n) (g e) = Inr n'"
  then obtain n1 where "f e n = Inr n1" "g e n1 = Inr n'" by auto
  with buildsD [OF assms(1)] buildsD [OF assms(2)] linked_seq [of "fst B" "snd B" _ e n n1]
  show "nf_root n' = nf_root n \<and> linked (fst B \<union> fst C, snd B \<union> snd C) (nf_root n) e n n'"
    by (metis prod.collapse)
qed

lemma linked_cat_builds:
  assumes "builds B f" "new_state n = (i, n1)" "f i n1 = Inr n2" "linked (D, Q) i e n2 n3"
  shows "linked (conc (build_lang B) D, Q) (nf_root n) e n n3"
proof -
  have "nf_root n1 = nf_root n"
    using nfa_emplace_facts(4) [OF assms(2) [unfolded new_state_def]] .
  with buildsD [OF assms(1,3)] have "linked (fst B, snd B) (nf_root n) i n1 n2" by simp
  from linked_cat [OF assms(2) this assms(4)] show ?thesis by (simp add: build_lang_def)
qed

lemma builds_cat:
  assumes "builds B f" "builds C g"
  shows "builds (conc (build_lang B) (fst C), snd C) (\<lambda>e n.
      let saved_root = nf_root n; (i, n1) = new_state n
      in rbind (f i n1) (\<lambda>n2. rbind (g e (nfa_set_root i n2)) (\<lambda>n3.
           Inr (nfa_set_root saved_root n3))))"
  unfolding builds_def Let_def
proof (intro allI impI)
  fix n e n'
  assume a: "(case new_state n of (i, n1) \<Rightarrow> rbind (f i n1) (\<lambda>n2.
      rbind (g e (nfa_set_root i n2)) (\<lambda>n3. Inr (nfa_set_root (nf_root n) n3)))) = Inr n'"
  obtain i n1 where new: "new_state n = (i, n1)" by (cases "new_state n")
  with a obtain n2 n3 where n: "f i n1 = Inr n2" "g e (nfa_set_root i n2) = Inr n3"
    "n' = nfa_set_root (nf_root n) n3" by auto
  have "linked (fst C, snd C) i e n2 n3" using buildsD [OF assms(2) n(2)] by simp
  from linked_cat_builds [OF assms(1) new n(1) this] n(3)
  show "nf_root n' = nf_root n \<and> linked (conc (build_lang B) (fst C), snd C) (nf_root n) e n n'"
    by simp
qed

lemma mult_required_links:
  assumes "builds B f"
  shows "mult_required k f n = Inr n1 \<Longrightarrow> linked (D, Q) (nf_root n1) e n1 n2 \<Longrightarrow>
    linked ((conc (build_lang B) ^^ k) D, Q) (nf_root n) e n n2"
proof (induction k arbitrary: n)
  case 0
  then show ?case by simp
next
  case (Suc k)
  obtain i m where new: "new_state n = (i, m)" by (cases "new_state n")
  with Suc.prems(1) obtain m2 where m: "f i m = Inr m2"
    "mult_required k f (nfa_set_root i m2) = Inr n1" by auto
  from Suc.IH [OF m(2) Suc.prems(2)] have "linked ((conc (build_lang B) ^^ k) D, Q) i e m2 n2"
    by simp
  from linked_cat_builds [OF assms new m(1) this] show ?case by simp
qed

lemma mult_optional_links:
  assumes "builds B f"
  shows "mult_optional k f e n = Inr n1 \<Longrightarrow> f e n1 = Inr n2 \<Longrightarrow>
    linked (optional_copies B k, snd B) (nf_root n) e n n2"
proof (induction k arbitrary: n)
  case 0
  then show ?case using buildsD [OF assms] by simp
next
  case (Suc k)
  then obtain n0 where n0: "f e n = Inr n0" by auto
  obtain i m where new: "new_state n0 = (i, m)" by (cases "new_state n0")
  with Suc.prems(1) n0 obtain m2 where m: "f i m = Inr m2"
    "mult_optional k f e (nfa_set_root i m2) = Inr n1" by auto
  from Suc.IH [OF m(2) Suc.prems(2)] have "linked (optional_copies B k, snd B) i e m2 n2" by simp
  from linked_cat_builds [OF assms new m(1) this] buildsD [OF assms n0]
  have "linked (conc (build_lang B) (optional_copies B k), snd B) (nf_root n) e n0 n2" by simp
  with buildsD [OF assms n0] linked_seq [of "fst B" "snd B" "nf_root n" e n n0]
  show ?case by (metis Un_absorb optional_copies.simps(2) prod.collapse)
qed

lemma conc_pow_Un: "(conc A ^^ k) (X \<union> Y) = (conc A ^^ k) X \<union> (conc A ^^ k) Y"
  by (simp add: conc_pow conc_Un)

lemma conc_pow_pred: "0 < k \<Longrightarrow> (conc A ^^ (k - Suc 0)) (conc A X) = (conc A ^^ k) X"
  by (cases k) (simp_all add: funpow_swap1)

lemma linked_seq_to:
  "linked B p e n m \<Longrightarrow> linked C p e m l \<Longrightarrow> D = fst B \<union> fst C \<Longrightarrow> Q = snd B \<union> snd C \<Longrightarrow>
     linked (D, Q) p e n l"
  by (cases B; cases C) (auto intro: linked_seq)

lemma builds_mult_zero:
  assumes "builds B f" "mult_add_to_nfa 0 mx f e n = Inr n'"
  shows "linked (mult_build 0 mx B) (nf_root n) e n n'"
proof -
  let ?m = "nfa_update_state (nf_root n) (ns_add_spontaneous_transition e) n"
  have eps: "linked ({[]}, {}) (nf_root n) e n ?m" by (rule linked_eps)
  show ?thesis
  proof (cases "mx = 0")
    case True
    with assms(2) obtain n3 where n3: "f e (nfa_set_root e ?m) = Inr n3" "n' = nfa_set_root (nf_root n) n3"
      by (auto simp: mult_add_to_nfa_def is_infinite_def)
    from buildsD [OF assms(1) n3(1)] have "linked (fst B, snd B) e e ?m n3" by simp
    from linked_seq_to [OF eps linked_loop [OF this]] n3(2) True show ?thesis
      by (simp add: mult_build_def is_infinite_def)
  next
    case False
    with assms(2) obtain n2 n3 where n3: "mult_optional (mx - 1) f e ?m = Inr n2" "f e n2 = Inr n3"
      "n' = nfa_set_root (nf_root n) n3"
      by (auto simp: mult_add_to_nfa_def is_infinite_def Let_def)
    from mult_optional_links [OF assms(1) n3(1,2)]
    have "linked (optional_copies B (mx - 1), snd B) (nf_root n) e ?m n3" by simp
    from linked_seq_to [OF eps this refl refl] n3(3) False
    show ?thesis by (simp add: mult_build_def is_infinite_def)
  qed
qed

lemma builds_mult_pos:
  assumes B: "builds B f" and n': "mult_add_to_nfa mn mx f e n = Inr n'" and "0 < mn"
  shows "linked (mult_build mn mx B) (nf_root n) e n n'"
proof -
  from n' \<open>0 < mn\<close> obtain m n1 where m: "mult_required (mn - 1) f n = Inr m" "f e m = Inr n1"
    by (auto simp: mult_add_to_nfa_def Let_def)
  note req = mult_required_links [OF B m(1)]
  from buildsD [OF B m(2)] have l: "linked B (nf_root m) e m n1" "nf_root n1 = nf_root m" by simp_all
  consider (inf) "mx = 0" | (more) "mn < mx" | (none) "mx \<noteq> 0" "mx \<le> mn" by linarith
  then show ?thesis
  proof cases
    case inf
    with n' m \<open>0 < mn\<close> obtain n3 where n3: "f e (nfa_set_root e n1) = Inr n3"
      "n' = nfa_set_root (nf_root n) n3"
      by (auto simp: mult_add_to_nfa_def is_infinite_def Let_def)
    from buildsD [OF B n3(1)] have "linked (fst B, snd B) e e n1 n3" by simp
    from linked_seq_to [OF l(1) linked_loop [OF this], of "fst B" "fst B \<union> snd B"]
    have "linked (fst B, fst B \<union> snd B) (nf_root m) e m n3" by auto
    from req [OF this] n3(2) inf \<open>0 < mn\<close> show ?thesis by (simp add: mult_build_def is_infinite_def)
  next
    case more
    with n' m \<open>0 < mn\<close> obtain n2 n3 n4 where n: "mult_required 1 f n1 = Inr n2"
      "mult_optional (mx - (mn + 1)) f e n2 = Inr n3" "f e n3 = Inr n4"
      "n' = nfa_set_root (nf_root n) n4"
      by (auto simp: mult_add_to_nfa_def is_infinite_def Let_def simp del: mult_required.simps)
    let ?opt = "optional_copies B (mx - (mn + 1))"
    from mult_required_links [OF B n(1) mult_optional_links [OF B n(2,3)]] l(2)
    have "linked (conc (build_lang B) ?opt, snd B) (nf_root m) e n1 n4" by simp
    from linked_seq_to [OF l(1) this refl refl]
    have "linked (fst B \<union> conc (build_lang B) ?opt, snd B) (nf_root m) e m n4" by simp
    from req [OF this] n(4) more \<open>0 < mn\<close> show ?thesis
      by (simp add: mult_build_def is_infinite_def conc_pow_Un conc_pow_pred Let_def)
  next
    case none
    with n' m \<open>0 < mn\<close> have "n' = nfa_set_root (nf_root n) n1"
      by (auto simp: mult_add_to_nfa_def is_infinite_def Let_def)
    with req [of "fst B" "snd B"] l(1) none \<open>0 < mn\<close> show ?thesis
      by (simp add: mult_build_def is_infinite_def)
  qed
qed

lemma builds_mult:
  assumes "builds B f"
  shows "builds (mult_build mn mx B) (mult_add_to_nfa mn mx f)"
  unfolding builds_def
proof (intro allI impI)
  fix n e n'
  assume a: "mult_add_to_nfa mn mx f e n = Inr n'"
  then have "nf_root n' = nf_root n" by (auto simp: mult_add_to_nfa_def Let_def)
  with a show "nf_root n' = nf_root n \<and> linked (mult_build mn mx B) (nf_root n) e n n'"
    using builds_mult_zero [OF assms] builds_mult_pos [OF assms a] by (cases "mn = 0") auto
qed

lemma builds_capture:
  assumes "builds B f"
  shows "builds (absorb_loops B) (\<lambda>e n.
      let ((s, t), n1) = new_start_and_end_states_from_positive_capture c e mv n;
          initial_root = nf_root n1
      in rbind (f t (nfa_set_root s n1)) (\<lambda>n2. Inr (nfa_set_root initial_root n2)))"
  unfolding builds_def
proof (intro allI impI)
  fix n e n'
  assume a: "(let ((s, t), n1) = new_start_and_end_states_from_positive_capture c e mv n;
          initial_root = nf_root n1
      in rbind (f t (nfa_set_root s n1)) (\<lambda>n2. Inr (nfa_set_root initial_root n2))) = Inr n'"
  obtain st en n1 where tags: "get_or_create_capture_tag_pair c n = ((st, en), n1)"
    by (cases "get_or_create_capture_tag_pair c n") auto
  have g: "nfa_graph n1 = nfa_graph n" "nf_root n1 = nf_root n"
    using nfa_graph_simps(2) [of c n] nf_root_simps(4) [of c n] tags by simp_all
  obtain s n2 where s: "new_state n1 = (s, n2)" by (cases "new_state n1")
  have r2: "nf_root n2 = nf_root n" using nfa_emplace_facts(4) [OF s [unfolded new_state_def]] g by simp
  let ?n3 = "nfa_update_state (nf_root n2) (ns_add_tagged_transition TagSet [st] s mv) n2"
  obtain t n4 where t: "nfa_emplace (\<lambda>i. ns_new_tagged i TagSet [en] e mv) ?n3 = (t, n4)"
    by (cases "nfa_emplace (\<lambda>i. ns_new_tagged i TagSet [en] e mv) ?n3")
  have r4: "nf_root n4 = nf_root n" using nfa_emplace_facts(4) [OF t] r2 by simp
  from a r4 obtain n5 where n5: "f t (nfa_set_root s n4) = Inr n5" "n' = nfa_set_root (nf_root n) n5"
    by (auto simp: new_start_and_end_states_from_positive_capture_def tags s t Let_def)
  from buildsD [OF assms n5(1)] have "linked (fst B, snd B) s t n4 n5" by simp
  from linked_via [OF t _ _ _ this] have l2: "linked (build_lang B, {}) s e ?n3 n5"
    by (simp add: build_lang_def)
  have "linked ({[]}, {}) (nf_root n) s n2 ?n3" unfolding r2 by (rule linked_eps)
  from linked_cat [OF s this l2] have "linked (build_lang B, {}) (nf_root n) e n1 n5" by simp
  then show "nf_root n' = nf_root n \<and> linked (absorb_loops B) (nf_root n) e n n'"
    using n5(2) linked_cong [OF g(1) refl] by (simp add: absorb_loops_def build_lang_def)
qed

theorem add_to_nfa_builds: "builds (regex_build r) (add_to_nfa r d)"
proof (induction r arbitrary: d)
  case (ReEmpty b)
  show ?case by (simp add: builds_def linked_eps)
next
  case (ReLiteral b c)
  show ?case
    using linked_interval [of c c]
    by (auto simp: builds_def add_root_interval_def le_antisym cong: conj_cong)
next
  case (ReInteger b ds)
  show ?case by (simp add: builds_def)
next
  case (ReGroup b g)
  show ?case using group_add_links by (simp add: builds_def group_add_to_nfa_def)
next
  case (ReOr b l r)
  note l = builds_with_negatives [where add = "add_to_nfa l" and d = d and r = l, OF ReOr.IH(1)]
  note r = builds_with_negatives [where add = "add_to_nfa r" and d = d and r = r, OF ReOr.IH(2)]
  from builds_or [OF l r] show ?case by (simp add: builds_def Let_def)
next
  case (ReCat b l r)
  note l = builds_with_negatives [where add = "add_to_nfa l" and d = d and r = l, OF ReCat.IH(1)]
  note r = builds_with_negatives [where add = "add_to_nfa r" and d = d and r = r, OF ReCat.IH(2)]
  from builds_cat [OF l r] show ?case by (simp add: builds_def Let_def)
next
  case (ReMult b r mn mx)
  note l = builds_with_negatives [where add = "add_to_nfa r" and d = True and r = r, OF ReMult.IH]
  from builds_mult [OF l] show ?case by (simp add: builds_def)
next
  case (ReCapture b r c)
  note l = builds_with_negatives [where add = "add_to_nfa r" and d = d and r = r, OF ReCapture.IH]
  from builds_capture [OF l] show ?case by (simp add: builds_def capture_add_to_nfa_def)
qed

section \<open>The automaton of a list of rules\<close>

definition nfa_grows :: "nfa \<Rightarrow> nfa \<Rightarrow> bool" where
  "nfa_grows n n' \<longleftrightarrow> nfa_ok n' \<and> nf_root n' = nf_root n \<and> nfa_size n \<le> nfa_size n' \<and>
     (\<forall>s a t. nfa_edge n s a t \<longrightarrow> nfa_edge n' s a t) \<and>
     (\<forall>s < nfa_size n. nfa_accepting n' s = nfa_accepting n s)"

lemma nfa_grows_accepts:
  "nfa_grows n n' \<Longrightarrow> nfa_accepts n w v \<Longrightarrow> nfa_accepts n' w v"
  unfolding nfa_accepts_def nfa_grows_def
  by (metis nfa_accepting_beyond nfa_path_mono not_le_imp_less option.distinct(1))

lemma add_to_nfa_with_negative_captures_builds:
  "builds (rule_build r) (add_to_nfa_with_negative_captures r d)"
  using builds_with_negatives [where add = "add_to_nfa r" and d = d and r = r, OF add_to_nfa_builds]
  by (simp add: rule_build_def add_to_nfa_with_negative_captures_def)

lemma rule_step:
  assumes step: "lexical_rule_add_to_nfa rule n = Inr n'"
    and ok: "nfa_ok n" "nf_root n < nfa_size n"
  defines "B \<equiv> rule_build (lr_regex rule)"
  shows "nfa_grows n n'"
    and "w \<in> build_lang B \<Longrightarrow> nfa_accepts n' w (lr_variable_id rule)"
    and "residual R n \<Longrightarrow> (lr_variable_id rule = v \<Longrightarrow> build_lang B \<subseteq> R (nf_root n)) \<Longrightarrow>
      \<forall>s. nfa_accepting n s = Some v \<longrightarrow> [] \<in> R s \<Longrightarrow>
      \<exists>R'. residual R' n' \<and> R' (nf_root n') = R (nf_root n) \<and>
        (\<forall>s. nfa_accepting n' s = Some v \<longrightarrow> [] \<in> R' s)"
proof -
  obtain e n1 where new: "nfa_emplace (\<lambda>i. ns_new_accepting i (lr_variable_id rule)) n = (e, n1)"
    by (cases "nfa_emplace (\<lambda>i. ns_new_accepting i (lr_variable_id rule)) n")
  note f = nfa_emplace_facts [OF new]
  from step new have a: "add_to_nfa_with_negative_captures (lr_regex rule) False e n1 = Inr n'"
    by (simp add: lexical_rule_add_to_nfa_def new_accepting_state_def)
  have ok1: "nfa_ok n1" by (rule nfa_emplace_ok [OF new ok(1)]) auto
  have pre: "nf_root n1 < nfa_size n1" "e < nfa_size n1" using ok f by auto
  have root: "nf_root n' = nf_root n"
    using buildsD [OF add_to_nfa_with_negative_captures_builds a] f(4) by simp
  have "linked (fst B, snd B) (nf_root n1) e n1 n'"
    using buildsD [OF add_to_nfa_with_negative_captures_builds a] by (simp add: B_def)
  note l = linkedD [OF this ok1 pre]
  have acc: "nfa_accepting n' s =
      (if s = e then Some (lr_variable_id rule) else nfa_accepting n s)" for s
  proof (cases "s < nfa_size n1")
    case True
    with l(1) f(1,5) show ?thesis by (simp add: nfa_ext_def)
  next
    case False
    with l(1) f(1,2) show ?thesis by (auto simp: nfa_ext_def nfa_accepting_beyond)
  qed
  show "nfa_grows n n'"
    using l(1) f acc root by (auto simp: nfa_ext_def nfa_grows_def)
  have loops: "u \<in> star (snd B) \<Longrightarrow> nfa_path n' e u e" for u
    by (induction rule: star.induct) (auto intro: l(3) nfa_path_append path_refl)
  show "nfa_accepts n' w (lr_variable_id rule)" if "w \<in> build_lang B"
  proof -
    have "nfa_path n' (nf_root n') w e"
      using that nfa_path_append [OF l(2) loops] f(4) root by (auto simp: build_lang_def)
    then show ?thesis using acc [of e] by (auto simp: nfa_accepts_def)
  qed
  assume R: "residual R n" "lr_variable_id rule = v \<Longrightarrow> build_lang B \<subseteq> R (nf_root n)"
    "\<forall>s. nfa_accepting n s = Some v \<longrightarrow> [] \<in> R s"
  let ?R = "R(e := if lr_variable_id rule = v then star (snd B) else {})"
  have "residual ?R n"
    by (rule residual_agree [OF ok(1) R(1)]) (simp add: f(1))
  then have "residual ?R n1" by (simp add: residual_def f(3))
  moreover have "conc (fst B) (?R e) \<subseteq> ?R (nf_root n1)"
    using R(2) ok f(1,4) by (simp add: build_lang_def)
  moreover have "conc (snd B) (?R e) \<subseteq> ?R e"
    by (subst (2) star_unfold) auto
  ultimately obtain R' where R': "\<forall>s < nfa_size n1. R' s = ?R s" "residual R' n'"
    using l(4) [of ?R] by auto
  have "[] \<in> R' s" if "nfa_accepting n' s = Some v" for s
    using that acc R(3) R'(1) f(1,2) nfa_accepting_beyond [of n s]
    by (cases "s < nfa_size n") (auto split: if_splits)
  moreover have "R' (nf_root n') = R (nf_root n)"
    using R'(1) ok f(1,2) root by auto
  ultimately show "\<exists>R'. residual R' n' \<and> R' (nf_root n') = R (nf_root n) \<and>
      (\<forall>s. nfa_accepting n' s = Some v \<longrightarrow> [] \<in> R' s)"
    using R'(2) by blast
qed

lemma rules_complete:
  "rfold lexical_rule_add_to_nfa rules n = Inr n' \<Longrightarrow> nfa_ok n \<Longrightarrow> nf_root n < nfa_size n \<Longrightarrow>
     nfa_ok n' \<and> nf_root n' < nfa_size n' \<and>
     (\<forall>w v. nfa_accepts n w v \<longrightarrow> nfa_accepts n' w v) \<and>
     (\<forall>rule \<in> set rules. \<forall>w \<in> build_lang (rule_build (lr_regex rule)).
        nfa_accepts n' w (lr_variable_id rule))"
proof (induction rules arbitrary: n)
  case (Cons rule rules)
  then obtain m where m: "lexical_rule_add_to_nfa rule n = Inr m"
    "rfold lexical_rule_add_to_nfa rules m = Inr n'" by auto
  note s = rule_step(1,2) [OF m(1) Cons.prems(2,3)]
  then have "nfa_ok m" "nf_root m < nfa_size m"
    using Cons.prems(3) by (auto simp: nfa_grows_def)
  from Cons.IH [OF m(2) this] s nfa_grows_accepts show ?case by auto
qed simp

lemma rules_sound:
  assumes "rfold lexical_rule_add_to_nfa rules n = Inr n'" "nfa_ok n" "nf_root n < nfa_size n"
    and "residual R n" "\<forall>s. nfa_accepting n s = Some v \<longrightarrow> [] \<in> R s"
    and "\<And>rule. rule \<in> set rules \<Longrightarrow> lr_variable_id rule = v \<Longrightarrow>
           build_lang (rule_build (lr_regex rule)) \<subseteq> R (nf_root n)"
  shows "\<exists>R'. residual R' n' \<and> R' (nf_root n') = R (nf_root n) \<and>
           (\<forall>s. nfa_accepting n' s = Some v \<longrightarrow> [] \<in> R' s)"
  using assms
proof (induction rules arbitrary: n R)
  case (Cons rule rules)
  then obtain m where m: "lexical_rule_add_to_nfa rule n = Inr m"
    "rfold lexical_rule_add_to_nfa rules m = Inr n'" by auto
  note s = rule_step [OF m(1) Cons.prems(2,3)]
  from s(3) [OF Cons.prems(4) Cons.prems(6) [of rule] Cons.prems(5)] obtain R1 where
    R1: "residual R1 m" "R1 (nf_root m) = R (nf_root n)"
    "\<forall>s. nfa_accepting m s = Some v \<longrightarrow> [] \<in> R1 s" by auto
  from s(1) Cons.prems(3) have "nfa_ok m" "nf_root m < nfa_size m" by (auto simp: nfa_grows_def)
  from Cons.IH [OF m(2) this R1(1,3)] R1(2) Cons.prems(6) show ?case by auto
qed auto

lemma nfa_start:
  assumes "new_state nfa_empty = (root, n)"
  shows "nfa_ok (nfa_set_root root n)" "nf_root (nfa_set_root root n) < nfa_size (nfa_set_root root n)"
    "\<not> nfa_edge (nfa_set_root root n) s a t" "nfa_accepting (nfa_set_root root n) s = None"
proof -
  have e: "nfa_ok nfa_empty" "\<not> nfa_edge nfa_empty s a t" "nfa_accepting nfa_empty s = None" for s a t
    by (simp_all add: nfa_ok_def nfa_empty_def nfa_edge_def nfa_size_def nfa_accepting_def)
  note new = assms [unfolded new_state_def]
  note f = nfa_emplace_facts [OF new]
  note g = nfa_graph_simps(1)
  have "nfa_ok n" by (rule nfa_emplace_ok [OF new e(1)]) auto
  then show "nfa_ok (nfa_set_root root n)" by (simp add: nfa_graph_cong(2) [OF g])
  show "nf_root (nfa_set_root root n) < nfa_size (nfa_set_root root n)"
    using f by (simp add: nfa_graph_cong(1) [OF g])
  show "\<not> nfa_edge (nfa_set_root root n) s a t"
    using f(3) e by (simp add: nfa_edge_graph [OF g])
  show "nfa_accepting (nfa_set_root root n) s = None"
    using f(5) e by (simp add: nfa_graph_cong(4) [OF g])
qed

lemma nfa_of_rules_language:
  assumes "nfa_of_rules rules = Inr n"
  shows "nfa_wf n \<and> (\<forall>w v. nfa_accepts n w v \<longleftrightarrow>
    (\<exists>rule \<in> set rules. lr_variable_id rule = v \<and> w \<in> build_lang (rule_build (lr_regex rule))))"
proof -
  obtain root m where m: "new_state nfa_empty = (root, m)" by (cases "new_state nfa_empty")
  note s = nfa_start [OF m]
  from assms m have n: "rfold lexical_rule_add_to_nfa rules (nfa_set_root root m) = Inr n"
    by (simp add: nfa_of_rules_def)
  note c = rules_complete [OF n s(1,2)]
  have "\<exists>rule \<in> set rules. lr_variable_id rule = v \<and> w \<in> build_lang (rule_build (lr_regex rule))"
    if "nfa_accepts n w v" for w v
  proof -
    let ?L = "\<Union>rule \<in> {rule \<in> set rules. lr_variable_id rule = v}. build_lang (rule_build (lr_regex rule))"
    have "\<exists>R'. residual R' n \<and> R' (nf_root n) = (\<lambda>_. ?L) (nf_root (nfa_set_root root m)) \<and>
        (\<forall>s. nfa_accepting n s = Some v \<longrightarrow> [] \<in> R' s)"
      by (rule rules_sound [OF n s(1,2)]) (use s(3,4) in \<open>auto simp: residual_def\<close>)
    then obtain R where R: "residual R n" "R (nf_root n) = ?L"
      "\<forall>s. nfa_accepting n s = Some v \<longrightarrow> [] \<in> R s" by blast
    from that obtain t where "nfa_path n (nf_root n) w t" "nfa_accepting n t = Some v"
      by (auto simp: nfa_accepts_def)
    with residual_path [of n "nf_root n" w t R "[]"] R show ?thesis by auto
  qed
  with c show ?thesis by (auto simp: nfa_wf_def nfa_ok_def)
qed

section \<open>When the construction succeeds\<close>

fun has_integer :: "regex_ast \<Rightarrow> bool" where
  "has_integer (ReInteger b ds) \<longleftrightarrow> True"
| "has_integer (ReOr b l r) \<longleftrightarrow> has_integer l \<or> has_integer r"
| "has_integer (ReCat b l r) \<longleftrightarrow> has_integer l \<or> has_integer r"
| "has_integer (ReMult b r m n) \<longleftrightarrow> has_integer r"
| "has_integer (ReCapture b r c) \<longleftrightarrow> has_integer r"
| "has_integer r \<longleftrightarrow> False"

text \<open>A builder that always succeeds, or always throws.\<close>

definition answers :: "bool \<Rightarrow> (nat \<Rightarrow> nfa \<Rightarrow> nfa res) \<Rightarrow> bool" where
  "answers fails f \<longleftrightarrow>
     (\<forall>e n. if fails then f e n = Inl RuntimeError else (\<exists>n'. f e n = Inr n'))"

lemma answersD:
  "answers False f \<Longrightarrow> \<exists>n'. f e n = Inr n'" "answers True f \<Longrightarrow> f e n = Inl RuntimeError"
  by (simp_all add: answers_def)

lemma answers_with_negatives:
  "answers b (add d) \<Longrightarrow> answers b (add_with_negative_captures cs add d)"
  by (auto simp: answers_def add_with_negative_captures_def split: prod.splits)

lemma answers_rbind:
  assumes "if a then m = Inl RuntimeError else (\<exists>x. m = Inr x)"
    and "\<And>x. if b then f x = Inl RuntimeError else (\<exists>y. f x = Inr y)"
  shows "if a \<or> b then rbind m f = Inl RuntimeError else (\<exists>y. rbind m f = Inr y)"
  using assms(1) assms(2) by (cases m) (auto split: if_splits)

lemma mult_required_answers:
  "answers False f \<Longrightarrow> \<exists>n'. mult_required k f n = Inr n'"
proof (induction k arbitrary: n)
  case (Suc k)
  obtain i m where m: "new_state n = (i, m)" by (cases "new_state n")
  obtain m2 where m2: "f i m = Inr m2" using answersD(1) [OF Suc.prems] by blast
  with m Suc.IH [OF Suc.prems, of "nfa_set_root i m2"] show ?case by simp
qed simp

lemma mult_optional_answers:
  "answers False f \<Longrightarrow> \<exists>n'. mult_optional k f e n = Inr n'"
proof (induction k arbitrary: n)
  case (Suc k)
  obtain n0 where n0: "f e n = Inr n0" using answersD(1) [OF Suc.prems] by blast
  obtain i m where m: "new_state n0 = (i, m)" by (cases "new_state n0")
  obtain m2 where m2: "f i m = Inr m2" using answersD(1) [OF Suc.prems] by blast
  with n0 m Suc.IH [OF Suc.prems, of "nfa_set_root i m2"] show ?case by simp
qed simp

lemma mult_answers_True:
  assumes f: "answers True f"
  shows "mult_add_to_nfa mn mx f e n = Inl RuntimeError"
proof -
  note F = answersD(2) [OF f]
  have opt: "mult_optional k f e m = Inr m' \<Longrightarrow> k = 0 \<and> m' = m" for k m m'
    using F by (cases k) auto
  have req: "mult_required k f m = (if k = 0 then Inr m else Inl RuntimeError)" for k m
    using F by (cases k) (auto split: prod.splits)
  have opt': "mult_optional k f e m = (if k = 0 then Inr m else Inl RuntimeError)" for k m
    using F by (cases k) auto
  show ?thesis
    by (cases "mn = 0"; cases "mx = 0")
      (simp_all add: mult_add_to_nfa_def Let_def is_infinite_def F req opt' del: mult_required.simps
        mult_optional.simps)
qed

lemma mult_answers_False:
  assumes f: "answers False f"
  shows "\<exists>n'. mult_add_to_nfa mn mx f e n = Inr n'"
proof -
  obtain n1 where n1:
    "(if mn = 0 then Inr (nfa_update_state (nf_root n) (ns_add_spontaneous_transition e) n)
      else rbind (mult_required (mn - 1) f n) (f e)) = Inr n1"
  proof (cases "mn = 0")
    case False
    obtain m where m: "mult_required (mn - 1) f n = Inr m" using mult_required_answers [OF f] by blast
    obtain m' where "f e m = Inr m'" using answersD(1) [OF f] by blast
    with m False that show ?thesis by auto
  qed (use that in auto)
  obtain n2 where n2: "(if mn \<noteq> 0 then mult_required 1 f n1 else Inr n1) = Inr n2"
    using mult_required_answers [OF f, of 1 n1] by (cases "mn = 0") auto
  obtain n3 where n3: "mult_optional (mx - (mn + 1)) f e n2 = Inr n3"
    using mult_optional_answers [OF f] by blast
  obtain n4 where n4: "f e n3 = Inr n4" using answersD(1) [OF f] by blast
  obtain n5 where n5: "f e (nfa_set_root e n1) = Inr n5" using answersD(1) [OF f] by blast
  show ?thesis
    unfolding mult_add_to_nfa_def Let_def n1 rbind_simps n2 n3 n4 n5 by simp
qed

lemma mult_answers: "answers b f \<Longrightarrow> answers b (mult_add_to_nfa mn mx f)"
  using mult_answers_True mult_answers_False
  unfolding answers_def [of b "mult_add_to_nfa mn mx f"] by (cases b) auto

lemma add_to_nfa_answers: "answers (has_integer r) (add_to_nfa r d)"
proof (induction r arbitrary: d)
  case (ReOr b l r)
  have "answers (has_integer l) (add_with_negative_captures (get_negative_captures l) (add_to_nfa l) d)"
    "answers (has_integer r) (add_with_negative_captures (get_negative_captures r) (add_to_nfa r) d)"
    using ReOr answers_with_negatives [where add = "add_to_nfa l" and d = d]
      answers_with_negatives [where add = "add_to_nfa r" and d = d] by blast+
  then show ?case
    unfolding answers_def add_to_nfa.simps has_integer.simps by (blast intro: answers_rbind)
next
  case (ReCat b l r)
  have "answers (has_integer l) (add_with_negative_captures (get_negative_captures l) (add_to_nfa l) d)"
    "answers (has_integer r) (add_with_negative_captures (get_negative_captures r) (add_to_nfa r) d)"
    using ReCat answers_with_negatives [where add = "add_to_nfa l" and d = d]
      answers_with_negatives [where add = "add_to_nfa r" and d = d] by blast+
  note lr = this
  show ?case
    unfolding answers_def
  proof (intro allI)
    fix e n
    obtain i m where m: "new_state n = (i, m)" by (cases "new_state n")
    have "if has_integer r \<or> False
      then rbind (add_with_negative_captures (get_negative_captures r) (add_to_nfa r) d e x)
             (\<lambda>n3. Inr (nfa_set_root (nf_root n) n3)) = Inl RuntimeError
      else (\<exists>y. rbind (add_with_negative_captures (get_negative_captures r) (add_to_nfa r) d e x)
             (\<lambda>n3. Inr (nfa_set_root (nf_root n) n3)) = Inr y)" for x
      by (rule answers_rbind) (use lr(2) in \<open>simp_all add: answers_def\<close>)
    note rest = this
    have "if has_integer l \<or> (has_integer r \<or> False)
      then rbind (add_with_negative_captures (get_negative_captures l) (add_to_nfa l) d i m)
          (\<lambda>n2. rbind (add_with_negative_captures (get_negative_captures r) (add_to_nfa r) d e
             (nfa_set_root i n2)) (\<lambda>n3. Inr (nfa_set_root (nf_root n) n3))) = Inl RuntimeError
      else (\<exists>y. rbind (add_with_negative_captures (get_negative_captures l) (add_to_nfa l) d i m)
          (\<lambda>n2. rbind (add_with_negative_captures (get_negative_captures r) (add_to_nfa r) d e
             (nfa_set_root i n2)) (\<lambda>n3. Inr (nfa_set_root (nf_root n) n3))) = Inr y)"
      by (rule answers_rbind [OF _ rest]) (use lr(1) in \<open>simp add: answers_def\<close>)
    then show "if has_integer (ReCat b l r) then add_to_nfa (ReCat b l r) d e n = Inl RuntimeError
        else (\<exists>n'. add_to_nfa (ReCat b l r) d e n = Inr n')"
      by (simp add: m Let_def del: rbind_eq_Inr)
  qed
next
  case (ReMult b r mn mx)
  have "answers (has_integer r) (add_with_negative_captures (get_negative_captures r) (add_to_nfa r) True)"
    using ReMult answers_with_negatives [where add = "add_to_nfa r" and d = True] by blast
  from mult_answers [OF this] show ?case by (simp add: answers_def)
next
  case (ReCapture b r c)
  have "answers (has_integer r) (add_with_negative_captures (get_negative_captures r) (add_to_nfa r) d)"
    using ReCapture answers_with_negatives [where add = "add_to_nfa r" and d = d] by blast
  then show ?case
    by (cases "has_integer r") (fastforce simp: answers_def capture_add_to_nfa_def Let_def split: prod.splits)+
qed (simp_all add: answers_def)

lemma rule_answers:
  "if has_integer (lr_regex rule) then lexical_rule_add_to_nfa rule n = Inl RuntimeError
   else (\<exists>n'. lexical_rule_add_to_nfa rule n = Inr n')"
proof -
  have "answers (has_integer (lr_regex rule)) (add_to_nfa_with_negative_captures (lr_regex rule) False)"
    unfolding add_to_nfa_with_negative_captures_def
    using answers_with_negatives [where add = "add_to_nfa (lr_regex rule)" and d = False]
      add_to_nfa_answers by blast
  then show ?thesis
    by (auto simp: lexical_rule_add_to_nfa_def answers_def split: prod.splits)
qed

lemma rules_answer:
  "if \<exists>rule \<in> set rules. has_integer (lr_regex rule)
   then rfold lexical_rule_add_to_nfa rules n = Inl RuntimeError
   else (\<exists>n'. rfold lexical_rule_add_to_nfa rules n = Inr n')"
proof (induction rules arbitrary: n)
  case (Cons rule rules)
  show ?case
  proof (cases "has_integer (lr_regex rule)")
    case True
    with rule_answers [of rule n] show ?thesis by simp
  next
    case False
    with rule_answers [of rule n] obtain m where "lexical_rule_add_to_nfa rule n = Inr m" by auto
    with False Cons.IH [of m] show ?thesis by simp
  qed
qed simp

lemma nfa_of_rules_answers:
  "if \<exists>rule \<in> set rules. has_integer (lr_regex rule)
   then nfa_of_rules rules = Inl RuntimeError else (\<exists>n. nfa_of_rules rules = Inr n)"
  using rules_answer by (auto simp: nfa_of_rules_def split: prod.splits)

section \<open>Properties\<close>

text \<open>
  C21: the automaton of a list of rules accepts exactly the words of the rules' regexes, each for
  the variable id of its rule, when no end state is shared by a loop and another arm
  (\<open>exact_form\<close>); and it is well-formed.
\<close>

theorem nfa_accepts_regex_languages:
  assumes "nfa_of_rules rules = Inr n"
    and "\<forall>rule \<in> set rules. exact_form (lr_regex rule)"
  shows "nfa_wf n \<and> (\<forall>w v. nfa_accepts n w v \<longleftrightarrow>
    (\<exists>rule \<in> set rules. lr_variable_id rule = v \<and> w \<in> regex_lang (lr_regex rule)))"
  using nfa_of_rules_language [OF assms(1)] assms(2)
  by (auto simp: rule_build_def build_lang_exact)

text \<open>Two rules: \<open>ab*\<close> for the variable 5 and \<open>(c)\<close>, captured, for the variable 6.\<close>

definition demo_rules :: "lexical_rule list" where
  "demo_rules =
     [\<lparr>lr_variable_id = 5, lr_regex = mk_cat (mk_literal 97) (mk_mult (mk_literal 98) 0 0)\<rparr>,
      \<lparr>lr_variable_id = 6, lr_regex = (case mk_capture (Some (mk_literal 99)) (Some (Capture 1 ''x'')) of
         Inr r \<Rightarrow> r | Inl _ \<Rightarrow> mk_empty)\<rparr>]"

definition demo_nfa :: nfa where
  "demo_nfa = (case nfa_of_rules demo_rules of Inr n \<Rightarrow> n | Inl _ \<Rightarrow> nfa_empty)"

lemmas demo_rules_simps = demo_rules_def mk_defs mk_capture_def get_subtree_positive_captures_def
  get_negative_captures_def

lemma demo_nfa: "nfa_of_rules demo_rules = Inr demo_nfa"
proof -
  have "\<not> (\<exists>rule \<in> set demo_rules. has_integer (lr_regex rule))"
    by (simp add: demo_rules_simps)
  with nfa_of_rules_answers [of demo_rules] show ?thesis by (auto simp: demo_nfa_def)
qed

theorem nfa_accepts_regex_languages_witness:
  "nfa_wf demo_nfa \<and> (\<forall>w v. nfa_accepts demo_nfa w v \<longleftrightarrow>
    (\<exists>rule \<in> set demo_rules. lr_variable_id rule = v \<and> w \<in> regex_lang (lr_regex rule)))"
  by (rule nfa_accepts_regex_languages [OF demo_nfa])
    (simp add: demo_rules_simps shares_loop_def)

text \<open>
  Whatever the regexes, no match is lost: the automaton accepts every word of a rule's
  regex for the rule's variable id.
\<close>

theorem nfa_accepts_all_matches:
  assumes "nfa_of_rules rules = Inr n" "rule \<in> set rules" "w \<in> regex_lang (lr_regex rule)"
  shows "nfa_accepts n w (lr_variable_id rule)"
  using nfa_of_rules_language [OF assms(1)] assms(2,3) regex_lang_le_build
  by (fastforce simp: rule_build_def)

theorem nfa_accepts_all_matches_witness: "nfa_accepts demo_nfa [97] 5"
proof -
  have "nfa_accepts demo_nfa [97] (lr_variable_id (hd demo_rules))"
    by (rule nfa_accepts_all_matches [OF demo_nfa])
      (simp_all add: demo_rules_simps conc_def repeat_counts_def is_infinite_def cSizeOfByte_def
        exI [of _ "0::nat"])
  then show ?thesis by (simp add: demo_rules_def)
qed

text \<open>
  C22: for all regexes, what the automaton accepts is the language of the construction: entry
  words followed by any number of the loop words that end up on the rule's accepting state.
\<close>

theorem nfa_accepts_construction_language:
  assumes "nfa_of_rules rules = Inr n"
  shows "nfa_accepts n w v \<longleftrightarrow> (\<exists>rule \<in> set rules. lr_variable_id rule = v \<and>
    w \<in> conc (fst (rule_build (lr_regex rule))) (star (snd (rule_build (lr_regex rule)))))"
  using nfa_of_rules_language [OF assms] by (simp add: build_lang_def)

theorem nfa_accepts_construction_language_witness:
  "nfa_accepts demo_nfa [97] 5 \<longleftrightarrow> (\<exists>rule \<in> set demo_rules. lr_variable_id rule = 5 \<and>
    [97] \<in> conc (fst (rule_build (lr_regex rule))) (star (snd (rule_build (lr_regex rule)))))"
  by (rule nfa_accepts_construction_language [OF demo_nfa])

text \<open>
  C25: an unbounded repetition in an arm of an alternation loops on the end state that the other
  arm shares, so the automaton of the regex \<open>a+|b\<close> also accepts \<open>ba\<close>, which the regex does
  not match.
\<close>

definition loop_or_rule :: lexical_rule where
  "loop_or_rule =
     \<lparr>lr_variable_id = 7, lr_regex = mk_or (mk_mult (mk_literal 97) 1 0) (mk_literal 98)\<rparr>"

theorem alternation_shares_loops:
  "\<exists>n. nfa_of_rules [loop_or_rule] = Inr n \<and> nfa_accepts n [98, 97] 7 \<and>
     [98, 97] \<notin> regex_lang (lr_regex loop_or_rule)"
proof -
  have "\<not> (\<exists>rule \<in> set [loop_or_rule]. has_integer (lr_regex rule))"
    by (simp add: loop_or_rule_def mk_defs set_negative_captures_def get_subtree_positive_captures_def)
  with nfa_of_rules_answers [of "[loop_or_rule]"] obtain n where n: "nfa_of_rules [loop_or_rule] = Inr n"
    by auto
  have loop: "[97] \<in> star {[97::nat]}" by (rule star_single) simp
  have "[98] @ [97] \<in> conc {[97::nat], [98]} (star {[97]})" by (rule concI) (simp_all add: loop)
  moreover have "rule_build (lr_regex loop_or_rule) = ({[97], [98]}, {[97]})"
    by (auto simp: loop_or_rule_def mk_defs set_negative_captures_def rule_build_def
        get_subtree_positive_captures_def with_negatives_def get_negative_captures_def Let_def
        mult_build_def is_infinite_def cSizeOfByte_def)
  ultimately have "nfa_accepts n [98, 97] 7"
    using nfa_of_rules_language [OF n] by (simp add: build_lang_def loop_or_rule_def)
  moreover have "[98, 97] \<notin> regex_lang (lr_regex loop_or_rule)"
  proof
    assume "[98, 97] \<in> regex_lang (lr_regex loop_or_rule)"
    then obtain k where "[98, 97] \<in> power_lang {[97::nat]} k" "1 \<le> k"
      by (auto simp: loop_or_rule_def mk_defs set_negative_captures_def repeat_counts_def
          get_subtree_positive_captures_def is_infinite_def cSizeOfByte_def)
    then show False by (cases k) (auto simp: conc_def)
  qed
  ultimately show ?thesis using n by blast
qed

text \<open>
  C26: building the automaton ends with a value for every list of rules: it fails, with the
  \<^verbatim>\<open>runtime_error\<close> of \<^verbatim>\<open>RegexASTInteger\<close>, if and only if a rule contains
  such a node.
\<close>

theorem nfa_of_rules_total:
  "nfa_of_rules rules =
     (if \<exists>rule \<in> set rules. has_integer (lr_regex rule) then Inl RuntimeError
      else Inr (projr (nfa_of_rules rules)))"
  using nfa_of_rules_answers [of rules] by (auto split: if_splits)

end
