(* ===== verification/Nfa_Tags.thy ===== *)
theory Nfa_Tags
  imports Nfa_Construction
begin

text \<open>
  The tags of a constructed automaton: every capture of the rules gets a start and an end tag of
  its own, and the transitions use no other tags. The argument goes through an interface that
  lists what the construction does to an automaton, so that each invariant of the primitives is
  an invariant of the whole construction.
\<close>

section \<open>Invariants of the primitives are invariants of the construction\<close>

text \<open>The captures that a tree refers to, as capture nodes or as negative captures.\<close>

fun mentions :: "regex_ast \<Rightarrow> capture set" where
  "mentions (ReOr b l r) =
     mentions l \<union> mentions r \<union> set (get_negative_captures l) \<union> set (get_negative_captures r)"
| "mentions (ReCat b l r) =
     mentions l \<union> mentions r \<union> set (get_negative_captures l) \<union> set (get_negative_captures r)"
| "mentions (ReMult b r m n) = mentions r \<union> set (get_negative_captures r)"
| "mentions (ReCapture b r c) = mentions r \<union> set (get_negative_captures r) \<union> {c}"
| "mentions r = {}"

definition rule_mentions :: "lexical_rule \<Rightarrow> capture set" where
  "rule_mentions rule = mentions (lr_regex rule) \<union> set (get_negative_captures (lr_regex rule))"

locale nfa_invariant =
  fixes C :: "capture set" and P :: "nfa \<Rightarrow> bool"
  assumes root: "P n \<Longrightarrow> P (nfa_set_root p n)"
    and spontaneous: "P n \<Longrightarrow> P (nfa_update_state p (ns_add_spontaneous_transition e) n)"
    and interval: "P n \<Longrightarrow> P (nfa_update_state p (ns_add_interval i e) n)"
    and new: "P n \<Longrightarrow> P (snd (new_state n))"
    and accepting: "P n \<Longrightarrow> P (snd (new_accepting_state v n))"
    and negative: "set cs \<subseteq> C \<Longrightarrow> P n \<Longrightarrow> P (snd (new_state_from_negative_captures cs e mv n))"
    and positive: "c \<in> C \<Longrightarrow> P n \<Longrightarrow>
      P (snd (new_start_and_end_states_from_positive_capture c e mv n))"
begin

definition keeps :: "(nat \<Rightarrow> nfa \<Rightarrow> nfa res) \<Rightarrow> bool" where
  "keeps f \<longleftrightarrow> (\<forall>n e n'. P n \<longrightarrow> f e n = Inr n' \<longrightarrow> P n')"

lemma keepsD: "keeps f \<Longrightarrow> P n \<Longrightarrow> f e n = Inr n' \<Longrightarrow> P n'"
  by (auto simp: keeps_def)

lemma group_keeps: "P n \<Longrightarrow> P (group_add_to_nfa g e n)"
proof -
  have "P n \<Longrightarrow> P (fold (\<lambda>i. add_root_interval i e) rs n)" for rs
    by (induction rs arbitrary: n) (simp_all add: add_root_interval_def interval)
  then show "P n \<Longrightarrow> P (group_add_to_nfa g e n)" by (simp add: group_add_to_nfa_def)
qed

lemma with_negatives_keeps:
  assumes "keeps (add_to_nfa r d)" "set (get_negative_captures r) \<subseteq> C"
  shows "keeps (add_with_negative_captures (get_negative_captures r) (add_to_nfa r) d)"
  unfolding keeps_def
proof (intro allI impI)
  fix n e n'
  assume "P n" "add_with_negative_captures (get_negative_captures r) (add_to_nfa r) d e n = Inr n'"
  with assms negative [OF assms(2), of n e d] show "P n'"
    by (auto simp: add_with_negative_captures_def keeps_def split: if_splits prod.splits)
qed

lemma mult_required_keeps:
  assumes "keeps f"
  shows "P n \<Longrightarrow> mult_required k f n = Inr n' \<Longrightarrow> P n'"
proof (induction k arbitrary: n)
  case (Suc k)
  obtain i m where m: "new_state n = (i, m)" by (cases "new_state n")
  with Suc.prems obtain m2 where m2: "f i m = Inr m2"
    "mult_required k f (nfa_set_root i m2) = Inr n'" by auto
  have "P m" using new [OF Suc.prems(1)] m by simp
  with m2 keepsD [OF assms] root Suc.IH show ?case by blast
qed simp

lemma mult_optional_keeps:
  assumes "keeps f"
  shows "P n \<Longrightarrow> mult_optional k f e n = Inr n' \<Longrightarrow> P n'"
proof (induction k arbitrary: n)
  case (Suc k)
  then obtain n0 where n0: "f e n = Inr n0" by auto
  obtain i m where m: "new_state n0 = (i, m)" by (cases "new_state n0")
  with Suc.prems n0 obtain m2 where m2: "f i m = Inr m2"
    "mult_optional k f e (nfa_set_root i m2) = Inr n'" by auto
  have "P n0" using keepsD [OF assms Suc.prems(1) n0] .
  then have "P m" using new [of n0] m by simp
  with m2 keepsD [OF assms] root Suc.IH show ?case by blast
qed simp

lemma mult_keeps:
  assumes f: "keeps f"
  shows "keeps (mult_add_to_nfa mn mx f)"
  unfolding keeps_def
proof (intro allI impI)
  fix n e n'
  assume n: "P n" and a: "mult_add_to_nfa mn mx f e n = Inr n'"
  from a [unfolded mult_add_to_nfa_def Let_def, THEN rbind_eq_Inr [THEN iffD1]] obtain n1 where n1:
    "(if mn = 0 then Inr (nfa_update_state (nf_root n) (ns_add_spontaneous_transition e) n)
      else rbind (mult_required (mn - 1) f n) (f e)) = Inr n1"
    and rest: "rbind (if is_infinite mx then f e (nfa_set_root e n1)
           else if mn < mx then
             rbind (if mn \<noteq> 0 then mult_required 1 f n1 else Inr n1) (\<lambda>n2.
             rbind (mult_optional (mx - (mn + 1)) f e n2) (f e))
           else Inr n1) (\<lambda>n3. Inr (nfa_set_root (nf_root n) n3)) = Inr n'"
    by blast
  have P1: "P n1"
  proof (cases "mn = 0")
    case True
    with n1 spontaneous [OF n] show ?thesis by auto
  next
    case False
    with n1 obtain m where "mult_required (mn - 1) f n = Inr m" "f e m = Inr n1" by auto
    with n show ?thesis using keepsD [OF f] mult_required_keeps [OF f] by blast
  qed
  from rest obtain n3 where n3: "(if is_infinite mx then f e (nfa_set_root e n1)
           else if mn < mx then
             rbind (if mn \<noteq> 0 then mult_required 1 f n1 else Inr n1) (\<lambda>n2.
             rbind (mult_optional (mx - (mn + 1)) f e n2) (f e))
           else Inr n1) = Inr n3" "n' = nfa_set_root (nf_root n) n3"
    unfolding rbind_eq_Inr by blast
  have "P n3"
  proof (cases "is_infinite mx \<or> mx \<le> mn")
    case True
    with n3(1) P1 show ?thesis using keepsD [OF f root [OF P1]] by (auto split: if_splits)
  next
    case False
    with n3(1) obtain n2 m where m: "(if mn \<noteq> 0 then mult_required 1 f n1 else Inr n1) = Inr n2"
      "mult_optional (mx - (mn + 1)) f e n2 = Inr m" "f e m = Inr n3"
      by (auto simp del: mult_required.simps mult_optional.simps split del: if_split)
    have "P n2" using m(1) P1 mult_required_keeps [OF f P1] by (cases "mn = 0") (auto simp del: mult_required.simps)
    with m show ?thesis using keepsD [OF f] mult_optional_keeps [OF f] by blast
  qed
  with n3(2) root show "P n'" by simp
qed

lemma add_to_nfa_keeps: "mentions r \<subseteq> C \<Longrightarrow> keeps (add_to_nfa r d)"
proof (induction r arbitrary: d)
  case (ReOr b l r)
  then have l: "keeps (add_with_negative_captures (get_negative_captures l) (add_to_nfa l) d)"
    and r: "keeps (add_with_negative_captures (get_negative_captures r) (add_to_nfa r) d)"
    by (simp_all add: with_negatives_keeps)
  show ?case
    unfolding keeps_def
  proof (intro allI impI)
    fix n e n'
    assume n: "P n" and "add_to_nfa (ReOr b l r) d e n = Inr n'"
    then obtain m where m:
      "add_with_negative_captures (get_negative_captures l) (add_to_nfa l) d e n = Inr m"
      "add_with_negative_captures (get_negative_captures r) (add_to_nfa r) d e m = Inr n'" by auto
    from keepsD [OF r keepsD [OF l n m(1)] m(2)] show "P n'" .
  qed
next
  case (ReCat b l r)
  then have l: "keeps (add_with_negative_captures (get_negative_captures l) (add_to_nfa l) d)"
    and r: "keeps (add_with_negative_captures (get_negative_captures r) (add_to_nfa r) d)"
    by (simp_all add: with_negatives_keeps)
  show ?case
    unfolding keeps_def
  proof (intro allI impI)
    fix n e n'
    assume n: "P n" and a: "add_to_nfa (ReCat b l r) d e n = Inr n'"
    obtain i m where m: "new_state n = (i, m)" by (cases "new_state n")
    from new [OF n] m have "P m" by simp
    from a m obtain m2 m3 where m2:
      "add_with_negative_captures (get_negative_captures l) (add_to_nfa l) d i m = Inr m2"
      "add_with_negative_captures (get_negative_captures r) (add_to_nfa r) d e
         (nfa_set_root i m2) = Inr m3" "n' = nfa_set_root (nf_root n) m3"
      by (auto simp: Let_def)
    from keepsD [OF r root [OF keepsD [OF l \<open>P m\<close> m2(1)]] m2(2)] m2(3) root
    show "P n'" by simp
  qed
next
  case (ReMult b r mn mx)
  then have "keeps (add_with_negative_captures (get_negative_captures r) (add_to_nfa r) True)"
    by (simp_all add: with_negatives_keeps)
  from mult_keeps [OF this] show ?case by (simp add: keeps_def)
next
  case (ReCapture b r c)
  then have r: "keeps (add_with_negative_captures (get_negative_captures r) (add_to_nfa r) d)"
    by (simp_all add: with_negatives_keeps)
  show ?case
    unfolding keeps_def
  proof (intro allI impI)
    fix n e n'
    assume n: "P n" and a: "add_to_nfa (ReCapture b r c) d e n = Inr n'"
    obtain s t m where m: "new_start_and_end_states_from_positive_capture c e d n = ((s, t), m)"
      by (metis prod.collapse)
    from positive [OF _ n] m ReCapture.prems have "P m" by (metis UnCI insertI1 mentions.simps(4) snd_conv subsetD)
    from a m obtain m2 where m2: "add_with_negative_captures (get_negative_captures r) (add_to_nfa r) d t
        (nfa_set_root s m) = Inr m2" "n' = nfa_set_root (nf_root m) m2"
      by (auto simp: capture_add_to_nfa_def Let_def)
    from keepsD [OF r root [OF \<open>P m\<close>] m2(1)] m2(2) root show "P n'" by simp
  qed
qed (auto simp: keeps_def spontaneous add_root_interval_def interval group_keeps)

lemma rule_keeps:
  assumes "rule_mentions rule \<subseteq> C" "P n" "lexical_rule_add_to_nfa rule n = Inr n'"
  shows "P n'"
proof -
  obtain e m where m: "new_accepting_state (lr_variable_id rule) n = (e, m)"
    by (cases "new_accepting_state (lr_variable_id rule) n")
  with accepting [OF assms(2)] have "P m" by (metis snd_conv)
  moreover have "keeps (add_with_negative_captures (get_negative_captures (lr_regex rule))
      (add_to_nfa (lr_regex rule)) False)"
    using assms(1) by (auto simp: rule_mentions_def intro!: with_negatives_keeps add_to_nfa_keeps)
  ultimately show ?thesis
    using assms(3) m keepsD
    by (auto simp: lexical_rule_add_to_nfa_def add_to_nfa_with_negative_captures_def)
qed

end

section \<open>Tags are allotted to captures\<close>

definition state_ops_below :: "nat \<Rightarrow> nfa_state \<Rightarrow> bool" where
  "state_ops_below k s \<longleftrightarrow>
     (\<forall>t \<in> set (ns_spontaneous_transitions s). \<forall>x \<in> set (sp_tag_ops t). to_tag_id x < k)"

definition ops_below :: "nat \<Rightarrow> nfa \<Rightarrow> bool" where
  "ops_below k n \<longleftrightarrow> (\<forall>s \<in> set (nf_states n). state_ops_below k s)"

text \<open>
  The \<open>i\<close>-th capture that was seen has the tags \<open>2 i\<close> and \<open>2 i + 1\<close>, and all operations are
  on allotted tags.
\<close>

definition tags_allotted :: "nat list \<Rightarrow> nfa \<Rightarrow> bool" where
  "tags_allotted as n \<longleftrightarrow> distinct as \<and> dom (nf_capture_to_tag_id_pair n) = set as \<and>
     nf_tag_id_generator n = 2 * length as \<and>
     (\<forall>i < length as. nf_capture_to_tag_id_pair n (as ! i) = Some (2 * i, 2 * i + 1)) \<and>
     ops_below (2 * length as) n"

text \<open>The number of captures stays within the range of a tag id.\<close>

definition tags_ok :: "capture set \<Rightarrow> nfa \<Rightarrow> bool" where
  "tags_ok C n \<longleftrightarrow> finite (cap_addr ` C) \<and> 2 * card (cap_addr ` C) < 2 ^ 32 \<and>
     (\<exists>as. set as \<subseteq> cap_addr ` C \<and> tags_allotted as n)"

lemma state_ops_below_simps [simp]:
  "state_ops_below k (ns_new i)"
  "state_ops_below k (ns_new_accepting i v)"
  "state_ops_below k (ns_add_spontaneous_transition e s) = state_ops_below k s"
  "state_ops_below k (ns_add_tagged_transition ty tags e mv s) \<longleftrightarrow>
     state_ops_below k s \<and> (\<forall>t \<in> set tags. t < k)"
  "state_ops_below k (ns_new_tagged i ty tags e mv) \<longleftrightarrow> (\<forall>t \<in> set tags. t < k)"
  by (auto simp: state_ops_below_def ns_new_def ns_new_accepting_def ns_new_tagged_def Let_def
      ns_add_spontaneous_transition_def ns_add_tagged_transition_def)

lemma ns_spontaneous_add_bytes:
  "ns_spontaneous_transitions (fold (\<lambda>i. ns_add_byte_transition i d) cs s) =
     ns_spontaneous_transitions s"
  by (induction cs arbitrary: s) (simp_all add: ns_add_byte_transition_def)

lemma state_ops_below_interval [simp]:
  "state_ops_below k (ns_add_interval i d s) = state_ops_below k s"
  by (simp add: state_ops_below_def ns_add_interval_def Let_def ns_spontaneous_add_bytes)

lemma ops_below_update:
  "ops_below k n \<Longrightarrow> (\<And>s. state_ops_below k s \<Longrightarrow> state_ops_below k (f s)) \<Longrightarrow>
     ops_below k (nfa_update_state p f n)"
proof -
  assume a: "ops_below k n" "\<And>s. state_ops_below k s \<Longrightarrow> state_ops_below k (f s)"
  show ?thesis
  proof (cases "p < length (nf_states n)")
    case True
    then have "set ((nf_states n)[p := f (nf_states n ! p)]) \<subseteq> insert (f (nf_states n ! p)) (set (nf_states n))"
      by (simp add: set_update_subset_insert)
    with a True show ?thesis by (auto simp: ops_below_def nfa_update_state_def)
  next
    case False
    with a show ?thesis by (simp add: ops_below_def nfa_update_state_def list_update_beyond)
  qed
qed

lemma ops_below_mono: "ops_below k n \<Longrightarrow> k \<le> l \<Longrightarrow> ops_below l n"
  by (fastforce simp: ops_below_def state_ops_below_def)

lemma tags_allotted_root: "tags_allotted as n \<Longrightarrow> tags_allotted as (nfa_set_root p n)"
  by (simp add: tags_allotted_def nfa_set_root_def ops_below_def)

lemma tags_allotted_update:
  "tags_allotted as n \<Longrightarrow> (\<And>s. state_ops_below (2 * length as) s \<Longrightarrow> state_ops_below (2 * length as) (f s)) \<Longrightarrow>
     tags_allotted as (nfa_update_state p f n)"
  using ops_below_update [of "2 * length as" n f p]
  by (simp add: tags_allotted_def nfa_update_state_def)

lemma tags_allotted_emplace:
  "tags_allotted as n \<Longrightarrow> (\<And>i. state_ops_below (2 * length as) (mk i)) \<Longrightarrow>
     tags_allotted as (snd (nfa_emplace mk n))"
  by (auto simp: tags_allotted_def nfa_emplace_def ops_below_def split: prod.splits)

lemma tag_pair_allotted:
  assumes "tags_allotted as n" "set as \<subseteq> cap_addr ` C" "c \<in> C"
    and "finite (cap_addr ` C)" "2 * card (cap_addr ` C) < 2 ^ 32"
    and get: "get_or_create_capture_tag_pair c n = ((st, en), n')"
  shows "\<exists>as'. set as' \<subseteq> cap_addr ` C \<and> tags_allotted as' n' \<and> length as \<le> length as' \<and>
    st < 2 * length as' \<and> en < 2 * length as'"
proof (cases "nf_capture_to_tag_id_pair n (cap_addr c)")
  case None
  let ?as = "as @ [cap_addr c]"
  have new: "cap_addr c \<notin> set as" using assms(1) None by (auto simp: tags_allotted_def)
  then have "distinct ?as" "set ?as \<subseteq> cap_addr ` C"
    using assms(1-3) by (auto simp: tags_allotted_def)
  then have "length ?as \<le> card (cap_addr ` C)"
    using assms(4) by (metis card_mono distinct_card)
  then have small: "2 * length as + 2 < 2 ^ 32" using assms(5) by simp
  have gen: "nf_tag_id_generator n = 2 * length as" using assms(1) by (simp add: tags_allotted_def)
  then have n': "n' = n\<lparr>nf_tag_id_generator := 2 * length as + 2, nf_capture_to_tag_id_pair :=
      (nf_capture_to_tag_id_pair n)(cap_addr c \<mapsto> (2 * length as, 2 * length as + 1))\<rparr>"
    and ids: "st = 2 * length as" "en = 2 * length as + 1"
    using get None small by (auto simp: get_or_create_capture_tag_pair_def generate_id_def)
  have "ops_below (2 * length as) n" using assms(1) by (simp add: tags_allotted_def)
  then have "ops_below (2 * length ?as) n'"
    using ops_below_mono [of "2 * length as" n "2 * length ?as"] by (simp add: n' ops_below_def)
  moreover have "nf_capture_to_tag_id_pair n' (?as ! i) = Some (2 * i, 2 * i + 1)"
    if "i < length ?as" for i
  proof (cases "i < length as")
    case True
    then have "as ! i \<noteq> cap_addr c" using new nth_mem by metis
    with True assms(1) show ?thesis by (simp add: n' nth_append tags_allotted_def)
  next
    case False
    with that have "i = length as" by simp
    then show ?thesis by (simp add: n')
  qed
  moreover have "dom (nf_capture_to_tag_id_pair n') = set ?as"
    using assms(1) by (simp add: n' tags_allotted_def)
  ultimately have "tags_allotted ?as n'"
    using \<open>distinct ?as\<close> by (simp add: tags_allotted_def n')
  with ids show ?thesis using \<open>set ?as \<subseteq> cap_addr ` C\<close> by (intro exI [of _ ?as]) simp
next
  case (Some p)
  then have "cap_addr c \<in> set as" using assms(1) by (auto simp: tags_allotted_def)
  then obtain i where "i < length as" "as ! i = cap_addr c" by (auto simp: in_set_conv_nth)
  then have "st = 2 * i" "en = 2 * i + 1" "n' = n"
    using assms(1) get Some by (auto simp: get_or_create_capture_tag_pair_def tags_allotted_def)
  then show ?thesis using assms(1,2) \<open>i < length as\<close> by (intro exI [of _ as]) simp
qed

lemma tags_of_captures_allotted:
  "tags_allotted as n \<Longrightarrow> set as \<subseteq> cap_addr ` C \<Longrightarrow> set cs \<subseteq> C \<Longrightarrow>
   finite (cap_addr ` C) \<Longrightarrow> 2 * card (cap_addr ` C) < 2 ^ 32 \<Longrightarrow>
   tags_of_captures cs n = (tags, n') \<Longrightarrow>
   \<exists>as'. set as' \<subseteq> cap_addr ` C \<and> tags_allotted as' n' \<and> length as \<le> length as' \<and>
     (\<forall>t \<in> set tags. t < 2 * length as')"
proof (induction cs arbitrary: n as tags)
  case Nil
  then show ?case by auto
next
  case (Cons c cs)
  obtain st en m where m: "get_or_create_capture_tag_pair c n = ((st, en), m)"
    by (metis prod.collapse)
  with Cons.prems(6) obtain ts where ts: "tags_of_captures cs m = (ts, n')" "tags = st # en # ts"
    by (auto split: prod.splits)
  obtain as1 where as1: "set as1 \<subseteq> cap_addr ` C" "tags_allotted as1 m" "length as \<le> length as1"
    "st < 2 * length as1" "en < 2 * length as1"
    using tag_pair_allotted [OF Cons.prems(1,2) _ Cons.prems(4,5) m] Cons.prems(3) by auto
  from Cons.IH [OF as1(2,1) _ Cons.prems(4,5) ts(1)] Cons.prems(3) obtain as2 where
    "set as2 \<subseteq> cap_addr ` C" "tags_allotted as2 n'" "length as1 \<le> length as2"
    "\<forall>t \<in> set ts. t < 2 * length as2" by auto
  with as1 ts(2) show ?case by (intro exI [of _ as2]) auto
qed

interpretation tags: nfa_invariant C "tags_ok C" for C
proof
  fix n p e i v cs mv and c
  assume n: "tags_ok C n"
  then obtain as where as: "set as \<subseteq> cap_addr ` C" "tags_allotted as n" "finite (cap_addr ` C)"
    "2 * card (cap_addr ` C) < 2 ^ 32" by (auto simp: tags_ok_def)
  show "tags_ok C (nfa_set_root p n)"
    using as tags_allotted_root by (auto simp: tags_ok_def)
  show "tags_ok C (nfa_update_state p (ns_add_spontaneous_transition e) n)"
    "tags_ok C (nfa_update_state p (ns_add_interval i e) n)"
    using as tags_allotted_update [OF as(2)] by (auto simp: tags_ok_def)
  show "tags_ok C (snd (new_state n))" "tags_ok C (snd (new_accepting_state v n))"
    using as tags_allotted_emplace [OF as(2)]
    by (auto simp: tags_ok_def new_state_def new_accepting_state_def)
  show "tags_ok C (snd (new_state_from_negative_captures cs e mv n))" if "set cs \<subseteq> C"
  proof -
    obtain ts m where m: "tags_of_captures cs n = (ts, m)" by (metis prod.collapse)
    from tags_of_captures_allotted [OF as(2,1) that as(3,4) m] obtain as' where
      as': "set as' \<subseteq> cap_addr ` C" "tags_allotted as' m" "\<forall>t \<in> set ts. t < 2 * length as'" by auto
    with as tags_allotted_emplace [OF as'(2)] m show ?thesis
      by (auto simp: tags_ok_def new_state_from_negative_captures_def)
  qed
  show "tags_ok C (snd (new_start_and_end_states_from_positive_capture c e mv n))" if c: "c \<in> C"
  proof -
    obtain st en m where m: "get_or_create_capture_tag_pair c n = ((st, en), m)" by (metis prod.collapse)
    obtain as' where as': "set as' \<subseteq> cap_addr ` C" "tags_allotted as' m"
      "st < 2 * length as'" "en < 2 * length as'"
      using tag_pair_allotted [OF as(2,1) c as(3,4) m] by auto
    obtain s m2 where m2: "new_state m = (s, m2)" by (cases "new_state m")
    let ?m3 = "nfa_update_state (nf_root m2) (ns_add_tagged_transition TagSet [st] s mv) m2"
    have "tags_allotted as' m2"
      using tags_allotted_emplace [OF as'(2), of ns_new] m2 by (simp add: new_state_def)
    then have "tags_allotted as' ?m3" using as'(3) by (intro tags_allotted_update) auto
    from tags_allotted_emplace [OF this, of "\<lambda>i. ns_new_tagged i TagSet [en] e mv"] as m as' m2
    show ?thesis
      by (auto simp: tags_ok_def new_start_and_end_states_from_positive_capture_def Let_def
          split: prod.splits)
  qed
qed

lemma tag_pair_dom:
  assumes "get_or_create_capture_tag_pair c n = (p, n')"
  shows "dom (nf_capture_to_tag_id_pair n') = insert (cap_addr c) (dom (nf_capture_to_tag_id_pair n))"
  using assms by (auto simp: get_or_create_capture_tag_pair_def Let_def generate_id_def split: option.splits)

lemma tags_of_captures_dom:
  "tags_of_captures cs n = (ts, n') \<Longrightarrow>
     dom (nf_capture_to_tag_id_pair n') = cap_addr ` set cs \<union> dom (nf_capture_to_tag_id_pair n)"
proof (induction cs arbitrary: n ts)
  case (Cons c cs)
  obtain p m where m: "get_or_create_capture_tag_pair c n = (p, m)"
    by (cases "get_or_create_capture_tag_pair c n")
  with Cons.prems obtain ts' where "tags_of_captures cs m = (ts', n')" by (auto split: prod.splits)
  with Cons.IH tag_pair_dom [OF m] show ?case by auto
qed simp

lemma positive_dom:
  "dom (nf_capture_to_tag_id_pair (snd (new_start_and_end_states_from_positive_capture c e mv n))) =
     insert (cap_addr c) (dom (nf_capture_to_tag_id_pair n))"
proof -
  obtain p m where m: "get_or_create_capture_tag_pair c n = (p, m)"
    by (cases "get_or_create_capture_tag_pair c n")
  then show ?thesis
    using tag_pair_dom [OF m]
    by (simp add: new_start_and_end_states_from_positive_capture_def new_state_def nfa_emplace_def
        nfa_update_state_def Let_def split: prod.splits)
qed

text \<open>Captures that have tags keep them.\<close>

interpretation tagged: nfa_invariant UNIV "\<lambda>n. K \<subseteq> dom (nf_capture_to_tag_id_pair n)" for K
proof
  fix n :: nfa and p e i v cs mv and c
  assume n: "K \<subseteq> dom (nf_capture_to_tag_id_pair n)"
  then show "K \<subseteq> dom (nf_capture_to_tag_id_pair (nfa_set_root p n))"
    "K \<subseteq> dom (nf_capture_to_tag_id_pair (nfa_update_state p (ns_add_spontaneous_transition e) n))"
    "K \<subseteq> dom (nf_capture_to_tag_id_pair (nfa_update_state p (ns_add_interval i e) n))"
    "K \<subseteq> dom (nf_capture_to_tag_id_pair (snd (new_state n)))"
    "K \<subseteq> dom (nf_capture_to_tag_id_pair (snd (new_accepting_state v n)))"
    by (simp_all add: nfa_set_root_def nfa_update_state_def new_state_def new_accepting_state_def
        nfa_emplace_def split: prod.splits)
  obtain ts m where m: "tags_of_captures cs n = (ts, m)" by (metis prod.collapse)
  from tags_of_captures_dom [OF m] n m
  show "K \<subseteq> dom (nf_capture_to_tag_id_pair (snd (new_state_from_negative_captures cs e mv n)))"
    by (auto simp: new_state_from_negative_captures_def nfa_emplace_def split: prod.splits)
  show "K \<subseteq> dom (nf_capture_to_tag_id_pair
      (snd (new_start_and_end_states_from_positive_capture c e mv n)))"
    using n by (simp only: positive_dom) blast
qed

section \<open>Every capture gets its tags\<close>

lemma negatives_keep_tags:
  assumes "add_with_negative_captures cs (add_to_nfa r) d e n = Inr n'"
    and "\<And>m e m'. add_to_nfa r d e m = Inr m' \<Longrightarrow> K \<subseteq> dom (nf_capture_to_tag_id_pair m')"
  shows "K \<subseteq> dom (nf_capture_to_tag_id_pair n')"
  using assms by (auto simp: add_with_negative_captures_def split: if_splits prod.splits)

lemma mult_runs_operand:
  assumes "mult_add_to_nfa mn mx f e n = Inr n'"
    and "\<And>m e m'. f e m = Inr m' \<Longrightarrow> K \<subseteq> dom (nf_capture_to_tag_id_pair m')"
  shows "K \<subseteq> dom (nf_capture_to_tag_id_pair n')"
proof -
  have root: "K \<subseteq> dom (nf_capture_to_tag_id_pair (nfa_set_root p m))"
    if "K \<subseteq> dom (nf_capture_to_tag_id_pair m)" for p m
    using that by (simp add: nfa_set_root_def)
  from assms(1) [unfolded mult_add_to_nfa_def Let_def, THEN rbind_eq_Inr [THEN iffD1]] obtain n1 where n1:
    "(if mn = 0 then Inr (nfa_update_state (nf_root n) (ns_add_spontaneous_transition e) n)
      else rbind (mult_required (mn - 1) f n) (f e)) = Inr n1"
    and rest: "rbind (if is_infinite mx then f e (nfa_set_root e n1)
           else if mn < mx then
             rbind (if mn \<noteq> 0 then mult_required 1 f n1 else Inr n1) (\<lambda>n2.
             rbind (mult_optional (mx - (mn + 1)) f e n2) (f e))
           else Inr n1) (\<lambda>n3. Inr (nfa_set_root (nf_root n) n3)) = Inr n'"
    by blast
  have n1K: "K \<subseteq> dom (nf_capture_to_tag_id_pair n1)" if "mn \<noteq> 0"
  proof -
    from n1 that obtain m where "f e m = Inr n1" by auto
    then show ?thesis by (rule assms(2))
  qed
  from rest obtain n3 where n3: "(if is_infinite mx then f e (nfa_set_root e n1)
           else if mn < mx then
             rbind (if mn \<noteq> 0 then mult_required 1 f n1 else Inr n1) (\<lambda>n2.
             rbind (mult_optional (mx - (mn + 1)) f e n2) (f e))
           else Inr n1) = Inr n3" "n' = nfa_set_root (nf_root n) n3"
    unfolding rbind_eq_Inr by blast
  have "K \<subseteq> dom (nf_capture_to_tag_id_pair n3)"
  proof (cases "is_infinite mx \<or> mn < mx")
    case True
    with n3(1) have "\<exists>m. f e m = Inr n3"
      by (cases "is_infinite mx")
        (auto simp del: mult_required.simps mult_optional.simps split del: if_split)
    with assms(2) show ?thesis by blast
  next
    case False
    then have "mn \<noteq> 0" by (simp add: is_infinite_def)
    with False n3(1) n1K show ?thesis by simp
  qed
  with n3(2) root show ?thesis by simp
qed

lemma add_to_nfa_tags_captures:
  "add_to_nfa r d e n = Inr n' \<Longrightarrow> cap_addr ` set (captures_of r) \<subseteq> dom (nf_capture_to_tag_id_pair n')"
proof (induction r arbitrary: d e n n')
  case (ReOr b l r)
  then obtain m where m:
    "add_with_negative_captures (get_negative_captures l) (add_to_nfa l) d e n = Inr m"
    "add_with_negative_captures (get_negative_captures r) (add_to_nfa r) d e m = Inr n'" by auto
  have "cap_addr ` set (captures_of l) \<subseteq> dom (nf_capture_to_tag_id_pair m)"
    by (rule negatives_keep_tags [OF m(1)]) (rule ReOr.IH(1))
  moreover note tagged.keepsD [OF tagged.with_negatives_keeps [OF tagged.add_to_nfa_keeps] this m(2)]
  moreover have "cap_addr ` set (captures_of r) \<subseteq> dom (nf_capture_to_tag_id_pair n')"
    by (rule negatives_keep_tags [OF m(2)]) (rule ReOr.IH(2))
  ultimately show ?case by (simp add: image_Un)
next
  case (ReCat b l r)
  obtain i n1 where new: "new_state n = (i, n1)" by (cases "new_state n")
  with ReCat.prems obtain m m' where m:
    "add_with_negative_captures (get_negative_captures l) (add_to_nfa l) d i n1 = Inr m"
    "add_with_negative_captures (get_negative_captures r) (add_to_nfa r) d e (nfa_set_root i m) = Inr m'"
    "n' = nfa_set_root (nf_root n) m'" by (auto simp: Let_def)
  have "cap_addr ` set (captures_of l) \<subseteq> dom (nf_capture_to_tag_id_pair m)"
    by (rule negatives_keep_tags [OF m(1)]) (rule ReCat.IH(1))
  moreover note tagged.keepsD
    [OF tagged.with_negatives_keeps [OF tagged.add_to_nfa_keeps] tagged.root [OF this] m(2)]
  moreover have "cap_addr ` set (captures_of r) \<subseteq> dom (nf_capture_to_tag_id_pair m')"
    by (rule negatives_keep_tags [OF m(2)]) (rule ReCat.IH(2))
  ultimately show ?case using m(3) by (simp add: nfa_set_root_def image_Un)
next
  case (ReMult b r mn mx)
  have "cap_addr ` set (captures_of r) \<subseteq> dom (nf_capture_to_tag_id_pair n')"
    by (rule mult_runs_operand [OF ReMult.prems [unfolded add_to_nfa.simps]])
      (erule negatives_keep_tags, rule ReMult.IH)
  then show ?case by simp
next
  case (ReCapture b r c)
  obtain s t m where m: "new_start_and_end_states_from_positive_capture c e d n = ((s, t), m)"
    by (metis prod.collapse)
  with ReCapture.prems obtain m2 where m2:
    "add_with_negative_captures (get_negative_captures r) (add_to_nfa r) d t (nfa_set_root s m) = Inr m2"
    "n' = nfa_set_root (nf_root m) m2" by (auto simp: capture_add_to_nfa_def Let_def)
  have "{cap_addr c} \<subseteq> dom (nf_capture_to_tag_id_pair m)"
    using positive_dom [of c e d n] m by simp
  from tagged.keepsD [OF tagged.with_negatives_keeps [OF tagged.add_to_nfa_keeps]
      tagged.root [OF this] m2(1)]
  have "cap_addr c \<in> dom (nf_capture_to_tag_id_pair m2)" by simp
  moreover have "cap_addr ` set (captures_of r) \<subseteq> dom (nf_capture_to_tag_id_pair m2)"
    by (rule negatives_keep_tags [OF m2(1)]) (rule ReCapture.IH)
  ultimately show ?case using m2(2) by (simp add: nfa_set_root_def)
qed simp_all

lemma rule_tags_captures:
  assumes "lexical_rule_add_to_nfa rule n = Inr n'"
  shows "cap_addr ` set (captures_of (lr_regex rule)) \<subseteq> dom (nf_capture_to_tag_id_pair n')"
proof -
  obtain e m where m: "new_accepting_state (lr_variable_id rule) n = (e, m)"
    by (cases "new_accepting_state (lr_variable_id rule) n")
  with assms have "add_with_negative_captures (get_negative_captures (lr_regex rule))
      (add_to_nfa (lr_regex rule)) False e m = Inr n'"
    by (simp add: lexical_rule_add_to_nfa_def add_to_nfa_with_negative_captures_def)
  then show ?thesis by (rule negatives_keep_tags) (rule add_to_nfa_tags_captures)
qed

lemma rules_tags:
  assumes "rfold lexical_rule_add_to_nfa rules n = Inr n'" "tags_ok C n"
    and "\<forall>rule \<in> set rules. rule_mentions rule \<subseteq> C" "K \<subseteq> dom (nf_capture_to_tag_id_pair n)"
  shows "tags_ok C n' \<and> K \<subseteq> dom (nf_capture_to_tag_id_pair n') \<and>
    (\<forall>rule \<in> set rules. cap_addr ` set (captures_of (lr_regex rule)) \<subseteq> dom (nf_capture_to_tag_id_pair n'))"
  using assms
proof (induction rules arbitrary: n K)
  case (Cons rule rules)
  then obtain m where m: "lexical_rule_add_to_nfa rule n = Inr m"
    "rfold lexical_rule_add_to_nfa rules m = Inr n'" by auto
  have "tags_ok C m" by (rule tags.rule_keeps [OF _ Cons.prems(2) m(1)]) (use Cons.prems(3) in simp)
  moreover have "K \<subseteq> dom (nf_capture_to_tag_id_pair m)"
    by (rule tagged.rule_keeps [OF _ Cons.prems(4) m(1)]) simp
  moreover note rule_tags_captures [OF m(1)]
  ultimately show ?case using Cons.IH [OF m(2)] Cons.prems(3)
    by (metis (no_types, lifting) list.set_intros(2) set_ConsD)
qed simp

lemma mentions_fresh: "ast_captures_wf r \<Longrightarrow> mentions r \<subseteq> set (captures_of r)"
  by (induction r) auto

lemma tags_allotted_distinct:
  assumes "tags_allotted as n" "nf_capture_to_tag_id_pair n a = Some p"
  obtains i where "i < length as" "as ! i = a" "p = (2 * i, 2 * i + 1)"
proof -
  from assms have "a \<in> set as" by (auto simp: tags_allotted_def)
  then obtain i where "i < length as" "as ! i = a" by (auto simp: in_set_conv_nth)
  with assms that show ?thesis by (auto simp: tags_allotted_def)
qed

definition get_num_tags :: "nfa \<Rightarrow> nat" where
  "get_num_tags n = nf_tag_id_generator n"

text \<open>The captures of the rules, by address.\<close>

definition rules_captures :: "lexical_rule list \<Rightarrow> nat set" where
  "rules_captures rules = cap_addr ` (\<Union>rule \<in> set rules. set (lexical_rule_get_captures rule))"

lemma nfa_of_rules_tags:
  assumes n: "nfa_of_rules rules = Inr n" and fresh: "\<forall>rule \<in> set rules. ast_fresh (lr_regex rule)"
    and small: "2 * card (rules_captures rules) < 2 ^ 32"
  obtains as where "set as = rules_captures rules" "tags_allotted as n"
proof -
  let ?C = "\<Union>rule \<in> set rules. set (captures_of (lr_regex rule))"
  have caps: "lexical_rule_get_captures rule = captures_of (lr_regex rule)" if "rule \<in> set rules" for rule
    using that fresh by (simp add: lexical_rule_get_captures_def ast_fresh_def ast_captures_wf_positive)
  then have C: "rules_captures rules = cap_addr ` ?C" by (simp add: rules_captures_def)
  obtain root m where m: "new_state nfa_empty = (root, m)" by (cases "new_state nfa_empty")
  have run: "rfold lexical_rule_add_to_nfa rules (nfa_set_root root m) = Inr n"
    using n m by (simp add: nfa_of_rules_def)
  have "tags_allotted [] (nfa_set_root root m)"
    using m by (auto simp: tags_allotted_def nfa_set_root_def new_state_def nfa_emplace_def
        generate_id_def nfa_empty_def ops_below_def)
  then have "tags_ok ?C (nfa_set_root root m)"
    using small C by (auto simp: tags_ok_def intro!: exI [of _ "[]"])
  moreover have "\<forall>rule \<in> set rules. rule_mentions rule \<subseteq> ?C"
    using fresh mentions_fresh by (fastforce simp: rule_mentions_def ast_fresh_def)
  ultimately have t: "tags_ok ?C n"
    "\<forall>rule \<in> set rules. cap_addr ` set (captures_of (lr_regex rule)) \<subseteq> dom (nf_capture_to_tag_id_pair n)"
    using rules_tags [OF run, of ?C "{}"] by auto
  then obtain as where as: "set as \<subseteq> cap_addr ` ?C" "tags_allotted as n" by (auto simp: tags_ok_def)
  have "cap_addr ` ?C \<subseteq> set as" using t(2) as(2) unfolding tags_allotted_def by blast
  with as C that show ?thesis by auto
qed

section \<open>Properties\<close>

text \<open>
  C23: in the automaton of a list of rules the captures that have tags are exactly the captures of
  the rules; the tags of different captures differ, there are two per capture, and every tag
  operation of every transition is on one of them.
\<close>

theorem captures_get_distinct_tags:
  assumes "nfa_of_rules rules = Inr n" "\<forall>rule \<in> set rules. ast_fresh (lr_regex rule)"
    and "2 * card (rules_captures rules) < 2 ^ 32"
  shows "dom (nf_capture_to_tag_id_pair n) = rules_captures rules \<and>
    get_num_tags n = 2 * card (rules_captures rules) \<and>
    (\<forall>a b p q. nf_capture_to_tag_id_pair n a = Some p \<and> nf_capture_to_tag_id_pair n b = Some q \<longrightarrow>
       fst p < snd p \<and> snd p < get_num_tags n \<and> (a \<noteq> b \<longrightarrow> {fst p, snd p} \<inter> {fst q, snd q} = {})) \<and>
    (\<forall>s \<in> set (nf_states n). \<forall>t \<in> set (ns_spontaneous_transitions s).
       \<forall>x \<in> set (sp_tag_ops t). to_tag_id x < get_num_tags n)"
proof -
  from nfa_of_rules_tags [OF assms] obtain as where
    as: "set as = rules_captures rules" "tags_allotted as n" .
  have "dom (nf_capture_to_tag_id_pair n) = set as" "distinct as" "ops_below (2 * length as) n"
    and num: "get_num_tags n = 2 * length as"
    using as(2) by (simp_all add: tags_allotted_def get_num_tags_def)
  moreover have "card (rules_captures rules) = length as"
    using distinct_card [OF \<open>distinct as\<close>] as(1) by simp
  moreover have "fst p < snd p \<and> snd p < 2 * length as \<and> (a \<noteq> b \<longrightarrow> {fst p, snd p} \<inter> {fst q, snd q} = {})"
    if p: "nf_capture_to_tag_id_pair n a = Some p" and q: "nf_capture_to_tag_id_pair n b = Some q"
    for a b p q
  proof -
    from tags_allotted_distinct [OF as(2) p] obtain i where
      i: "i < length as" "as ! i = a" "p = (2 * i, 2 * i + 1)" .
    from tags_allotted_distinct [OF as(2) q] obtain j where
      j: "j < length as" "as ! j = b" "q = (2 * j, 2 * j + 1)" .
    from i j have "a \<noteq> b \<longrightarrow> i \<noteq> j" by auto
    with i j show ?thesis by auto
  qed
  ultimately show ?thesis using as(1) unfolding ops_below_def state_ops_below_def
    by (intro conjI allI impI ballI) metis+
qed

theorem captures_get_distinct_tags_witness:
  "dom (nf_capture_to_tag_id_pair demo_nfa) = rules_captures demo_rules \<and>
    get_num_tags demo_nfa = 2 * card (rules_captures demo_rules)"
  using captures_get_distinct_tags [OF demo_nfa]
  by (simp add: demo_rules_simps ast_fresh_def rules_captures_def lexical_rule_get_captures_def)

end
