(* ===== verification/Ordered_Containers.thy ===== *)
theory Ordered_Containers
  imports LS_Prelude "HOL-Library.List_Lexorder" "HOL-Library.Product_Lexorder"
begin

text \<open>
  The ordered containers of the C++ standard library that the code uses: a
  \<^verbatim>\<open>std::set\<close> is the list of its elements in ascending order of the comparison it
  was given, a \<^verbatim>\<open>std::map\<close> the list of its entries in ascending order of the keys.
  Two elements are the same when neither is less than the other.
\<close>

section \<open>Operations\<close>

type_synonym 'a less = "'a \<Rightarrow> 'a \<Rightarrow> bool"

definition sset_contains :: "'a less \<Rightarrow> 'a \<Rightarrow> 'a list \<Rightarrow> bool" where
  "sset_contains lt x xs \<longleftrightarrow> (\<exists>y \<in> set xs. \<not> lt x y \<and> \<not> lt y x)"

fun sset_insert :: "'a less \<Rightarrow> 'a \<Rightarrow> 'a list \<Rightarrow> 'a list" where
  "sset_insert lt x [] = [x]"
| "sset_insert lt x (y # ys) =
     (if lt x y then x # y # ys else if lt y x then y # sset_insert lt x ys else y # ys)"

definition sset_insert_all :: "'a less \<Rightarrow> 'a list \<Rightarrow> 'a list \<Rightarrow> 'a list" where
  "sset_insert_all lt xs s = fold (sset_insert lt) xs s"

definition sset_erase :: "'a less \<Rightarrow> 'a \<Rightarrow> 'a list \<Rightarrow> 'a list" where
  "sset_erase lt x xs = filter (\<lambda>y. lt x y \<or> lt y x) xs"

text \<open>The comparison of two containers, \<^verbatim>\<open>std::lexicographical_compare\<close>.\<close>

fun lex_less :: "'a less \<Rightarrow> 'a list less" where
  "lex_less lt xs [] = False"
| "lex_less lt [] (y # ys) = True"
| "lex_less lt (x # xs) (y # ys) =
     (if lt x y then True else if lt y x then False else lex_less lt xs ys)"

fun smap_find :: "'k less \<Rightarrow> 'k \<Rightarrow> ('k \<times> 'v) list \<Rightarrow> 'v option" where
  "smap_find lt k [] = None"
| "smap_find lt k ((l, v) # m) =
     (if \<not> lt k l \<and> \<not> lt l k then Some v else smap_find lt k m)"

definition smap_at :: "'k less \<Rightarrow> 'k \<Rightarrow> ('k \<times> 'v) list \<Rightarrow> 'v res" where
  "smap_at lt k m = (case smap_find lt k m of None \<Rightarrow> Inl OutOfRange | Some v \<Rightarrow> Inr v)"

text \<open>\<^verbatim>\<open>insert\<close> keeps an existing entry, \<^verbatim>\<open>insert_or_assign\<close> replaces it.\<close>

fun smap_insert :: "'k less \<Rightarrow> 'k \<Rightarrow> 'v \<Rightarrow> ('k \<times> 'v) list \<Rightarrow> ('k \<times> 'v) list" where
  "smap_insert lt k v [] = [(k, v)]"
| "smap_insert lt k v ((l, u) # m) =
     (if lt k l then (k, v) # (l, u) # m
      else if lt l k then (l, u) # smap_insert lt k v m else (l, u) # m)"

fun smap_assign :: "'k less \<Rightarrow> 'k \<Rightarrow> 'v \<Rightarrow> ('k \<times> 'v) list \<Rightarrow> ('k \<times> 'v) list" where
  "smap_assign lt k v [] = [(k, v)]"
| "smap_assign lt k v ((l, u) # m) =
     (if lt k l then (k, v) # (l, u) # m
      else if lt l k then (l, u) # smap_assign lt k v m else (l, v) # m)"

section \<open>Orders given by a key\<close>

text \<open>
  What the containers rely on: the comparison is that of a key in a linear order. Elements with
  the same key are the same element.
\<close>

locale keyed_order =
  fixes lt :: "'a less" and key :: "'a \<Rightarrow> 'k::linorder"
  assumes less_key: "lt x y \<longleftrightarrow> key x < key y"
begin

definition ordered :: "'a list \<Rightarrow> bool" where
  "ordered xs \<longleftrightarrow> sorted_wrt (<) (map key xs)"

lemma ordered_simps [simp]:
  "ordered []"
  "ordered (x # xs) \<longleftrightarrow> (\<forall>y \<in> set xs. key x < key y) \<and> ordered xs"
  by (auto simp: ordered_def)

lemma ordered_distinct: "ordered xs \<Longrightarrow> distinct (map key xs)"
  by (induction xs) auto

lemma lt_simps:
  "key x < key y \<Longrightarrow> lt x y" "key x < key y \<Longrightarrow> \<not> lt y x" "key x = key y \<Longrightarrow> \<not> lt x y"
  using less_key [of x y] less_key [of y x] by auto

lemma same_iff: "\<not> lt x y \<and> \<not> lt y x \<longleftrightarrow> key x = key y"
  using less_key [of x y] less_key [of y x] by auto

lemma contains_iff: "sset_contains lt x xs \<longleftrightarrow> key x \<in> key ` set xs"
  unfolding sset_contains_def same_iff by blast

lemma insert_keys: "key ` set (sset_insert lt x xs) = insert (key x) (key ` set xs)"
proof (induction xs)
  case (Cons y ys)
  show ?case by (rule linorder_cases [of "key x" "key y"]) (use Cons in \<open>auto simp: lt_simps\<close>)
qed simp

lemma insert_set: "set (sset_insert lt x xs) \<subseteq> insert x (set xs)"
  by (induction xs) (auto split: if_splits)

lemma insert_superset: "set xs \<subseteq> set (sset_insert lt x xs)"
  by (induction xs) auto

lemma insert_ordered: "ordered xs \<Longrightarrow> ordered (sset_insert lt x xs)"
proof (induction xs)
  case (Cons y ys)
  have above: "\<forall>z \<in> set (sset_insert lt x ys). key y < key z" if "key y < key x"
    using Cons.prems that insert_set [of x ys] by auto
  show ?case
    by (rule linorder_cases [of "key x" "key y"])
      (use Cons above in \<open>auto simp: lt_simps intro: order.strict_trans\<close>)
qed simp

lemma insert_all_keys: "key ` set (sset_insert_all lt xs s) = key ` set xs \<union> key ` set s"
  by (induction xs arbitrary: s) (simp_all add: sset_insert_all_def insert_keys)

lemma insert_all_set: "set (sset_insert_all lt xs s) \<subseteq> set xs \<union> set s"
proof (induction xs arbitrary: s)
  case (Cons x xs)
  from Cons.IH [of "sset_insert lt x s"] insert_set [of x s]
  show ?case by (auto simp: sset_insert_all_def)
qed (simp add: sset_insert_all_def)

lemma insert_all_ordered: "ordered s \<Longrightarrow> ordered (sset_insert_all lt xs s)"
  by (induction xs arbitrary: s) (simp_all add: sset_insert_all_def insert_ordered)

lemma contains_inj: "inj key \<Longrightarrow> sset_contains lt x xs \<longleftrightarrow> x \<in> set xs"
  by (simp add: contains_iff inj_image_mem_iff)

lemma insert_inj: "inj key \<Longrightarrow> set (sset_insert lt x xs) = insert x (set xs)"
  using insert_keys [of x xs] by (simp flip: image_insert add: inj_image_eq_iff)

lemma erase_inj:
  assumes "inj key"
  shows "set (sset_erase lt x xs) = set xs - {x}"
proof -
  have "lt x y \<or> lt y x \<longleftrightarrow> y \<noteq> x" for y
    using same_iff [of x y] assms by (auto simp: inj_eq)
  then show ?thesis by (auto simp: sset_erase_def)
qed

lemma ordered_keys_unique:
  "ordered xs \<Longrightarrow> ordered ys \<Longrightarrow> key ` set xs = key ` set ys \<Longrightarrow> map key xs = map key ys"
  by (rule sorted_distinct_set_unique)
    (auto simp: ordered_def strict_sorted_iff)

lemma find_None: "smap_find lt k m = None \<longleftrightarrow> key k \<notin> key ` fst ` set m"
proof (induction m)
  case (Cons e m)
  obtain l u where e: "e = (l, u)" by (cases e)
  show ?case by (cases "key k = key l") (use Cons e same_iff [of k l] in \<open>auto simp: lt_simps\<close>)
qed simp

lemma find_mem: "smap_find lt k m = Some v \<Longrightarrow> \<exists>l. (l, v) \<in> set m \<and> key l = key k"
proof (induction m)
  case (Cons e m)
  obtain l u where e: "e = (l, u)" by (cases e)
  show ?case by (cases "key k = key l") (use Cons e same_iff [of k l] in \<open>auto simp: lt_simps\<close>)
qed simp

lemma find_iff:
  assumes "ordered (map fst m)"
  shows "smap_find lt k m = Some v \<longleftrightarrow> (\<exists>l. (l, v) \<in> set m \<and> key l = key k)"
  using assms
proof (induction m)
  case (Cons e m)
  obtain l u where e: "e = (l, u)" by (cases e)
  show ?case by (cases "key k = key l") (use Cons e same_iff [of k l] in \<open>force simp: lt_simps\<close>)+
qed simp

lemma find_insert:
  "ordered (map fst m) \<Longrightarrow> smap_find lt j (smap_insert lt k v m) =
     (if key j = key k \<and> smap_find lt k m = None then Some v else smap_find lt j m)"
proof (induction m)
  case Nil
  show ?case using same_iff [of j k] by auto
next
  case (Cons e m)
  obtain l u where e: "e = (l, u)" by (cases e)
  have none: "smap_find lt k m = None" if "key k < key l"
    using that Cons.prems e by (auto simp: find_None)
  show ?case
    by (rule linorder_cases [of "key k" "key l"]; cases "key j = key k"; cases "key j = key l")
      (use Cons e none same_iff [of j k] same_iff [of j l] same_iff [of k l] in \<open>auto simp: find_None lt_simps\<close>)
qed

lemma find_assign:
  "ordered (map fst m) \<Longrightarrow> smap_find lt j (smap_assign lt k v m) =
     (if key j = key k then Some v else smap_find lt j m)"
proof (induction m)
  case Nil
  show ?case using same_iff [of j k] by auto
next
  case (Cons e m)
  obtain l u where e: "e = (l, u)" by (cases e)
  show ?case
    by (rule linorder_cases [of "key k" "key l"]; cases "key j = key k"; cases "key j = key l")
      (use Cons e same_iff [of j k] same_iff [of j l] same_iff [of k l] in \<open>auto simp: lt_simps\<close>)
qed

lemma insert_map_set: "set (smap_insert lt k v m) \<subseteq> insert (k, v) (set m)"
  by (induction m) (auto split: if_splits)

lemma insert_map_new:
  "key k \<notin> key ` fst ` set m \<Longrightarrow> set (smap_insert lt k v m) = insert (k, v) (set m)"
proof (induction m)
  case (Cons e m)
  obtain l u where e: "e = (l, u)" by (cases e)
  show ?case by (rule linorder_cases [of "key k" "key l"]) (use Cons e in \<open>auto simp: lt_simps\<close>)
qed simp

lemma insert_map_keys: "key ` fst ` set (smap_insert lt k v m) = insert (key k) (key ` fst ` set m)"
proof (induction m)
  case (Cons e m)
  obtain l u where e: "e = (l, u)" by (cases e)
  show ?case by (rule linorder_cases [of "key k" "key l"]) (use Cons e in \<open>auto simp: lt_simps\<close>)
qed simp

lemma insert_map_ordered:
  "ordered (map fst m) \<Longrightarrow> ordered (map fst (smap_insert lt k v m))"
proof (induction m)
  case (Cons e m)
  obtain l u where e: "e = (l, u)" by (cases e)
  have above: "\<forall>z \<in> set (smap_insert lt k v m). key l < key (fst z)" if "key l < key k"
    using Cons.prems that insert_map_set [of k v m] e by auto
  show ?case
    by (rule linorder_cases [of "key k" "key l"])
      (use Cons e above in \<open>auto simp: lt_simps intro: order.strict_trans\<close>)
qed simp

lemma assign_map_set: "set (smap_assign lt k v m) \<subseteq> {(l, v) |l. key l = key k} \<union> set m"
proof (induction m)
  case (Cons e m)
  obtain l u where e: "e = (l, u)" by (cases e)
  show ?case by (rule linorder_cases [of "key k" "key l"]) (use Cons e in \<open>auto simp: lt_simps\<close>)
qed simp

lemma assign_map_keys: "key ` fst ` set (smap_assign lt k v m) = insert (key k) (key ` fst ` set m)"
proof (induction m)
  case (Cons e m)
  obtain l u where e: "e = (l, u)" by (cases e)
  show ?case by (rule linorder_cases [of "key k" "key l"]) (use Cons e in \<open>auto simp: lt_simps\<close>)
qed simp

lemma assign_map_ordered:
  "ordered (map fst m) \<Longrightarrow> ordered (map fst (smap_assign lt k v m))"
proof (induction m)
  case (Cons e m)
  obtain l u where e: "e = (l, u)" by (cases e)
  have above: "\<forall>z \<in> set (smap_assign lt k v m). key l < key (fst z)" if "key l < key k"
    using Cons.prems that assign_map_set [of k v m] e by fastforce
  show ?case
    by (rule linorder_cases [of "key k" "key l"])
      (use Cons e above in \<open>auto simp: lt_simps intro: order.strict_trans\<close>)
qed simp

lemma lex_less_key: "lex_less lt xs ys \<longleftrightarrow> map key xs < map key ys"
proof (induction xs arbitrary: ys)
  case Nil
  show ?case by (cases ys) simp_all
next
  case (Cons x xs)
  note IH = this
  show ?case
  proof (cases ys)
    case Nil
    then show ?thesis by simp
  next
    case ys: (Cons y ys')
    show ?thesis
      by (cases rule: linorder_cases [of "key x" "key y"])
        (auto simp: ys IH lt_simps)
  qed
qed

end

text \<open>Numbers compare as they are.\<close>

interpretation num: keyed_order "(<)" "\<lambda>k :: nat. k"
  by unfold_locales simp

end
