(* ===== verification/Determinization.thy ===== *)
theory Determinization
  imports Nfa Ordered_Containers
begin

text \<open>
  \<^verbatim>\<open>finite_automata/DeterminizationConfiguration.hpp\<close>: configurations (an NFA state
  with registers, history and lookahead of tag operations), their order, and the closure of a
  configuration under spontaneous transitions, with what it contains and when it is finite.
\<close>

section \<open>Configurations\<close>

text \<open>
  The map from tags to registers is the list of its entries in ascending order of the tags.
\<close>

record config =
  dc_nfa_state :: nat
  dc_tag_id_to_reg_ids :: "(nat \<times> nat) list"
  dc_history :: "tag_operation list"
  dc_lookahead :: "tag_operation list"

definition config_new ::
  "nat option \<Rightarrow> (nat \<times> nat) list \<Rightarrow> tag_operation list \<Rightarrow> tag_operation list \<Rightarrow> config res" where
  "config_new nfa_state regs history lookahead =
     (case nfa_state of
        None \<Rightarrow> Inl InvalidArgument
      | Some s \<Rightarrow> Inr \<lparr>dc_nfa_state = s, dc_tag_id_to_reg_ids = regs, dc_history = history,
                        dc_lookahead = lookahead\<rparr>)"

text \<open>Vectors of tag operations compare element by element.\<close>

definition tag_ops_eq :: "tag_operation list \<Rightarrow> tag_operation list \<Rightarrow> bool" where
  "tag_ops_eq xs ys = list_all2 tag_operation_eq xs ys"

definition regs_less :: "(nat \<times> nat) list less" where
  "regs_less = lex_less (\<lambda>(a, b) (c, d). a < c \<or> a = c \<and> b < d)"

definition config_less :: "nfa \<Rightarrow> config less" where
  "config_less n lhs rhs =
     (let lid = ns_id (nf_states n ! dc_nfa_state lhs); rid = ns_id (nf_states n ! dc_nfa_state rhs)
      in if lid \<noteq> rid then lid < rid
         else if dc_tag_id_to_reg_ids lhs \<noteq> dc_tag_id_to_reg_ids rhs
         then regs_less (dc_tag_id_to_reg_ids lhs) (dc_tag_id_to_reg_ids rhs)
         else if \<not> tag_ops_eq (dc_history lhs) (dc_history rhs)
         then lex_less tag_operation_less (dc_history lhs) (dc_history rhs)
         else lex_less tag_operation_less (dc_lookahead lhs) (dc_lookahead rhs))"

definition child_configuration_with_new_state :: "nat \<Rightarrow> config \<Rightarrow> config" where
  "child_configuration_with_new_state s c = c\<lparr>dc_nfa_state := s\<rparr>"

definition child_configuration_with_new_state_and_tag :: "nat \<Rightarrow> tag_operation \<Rightarrow> config \<Rightarrow> config" where
  "child_configuration_with_new_state_and_tag s tag_op c =
     c\<lparr>dc_nfa_state := s, dc_lookahead := dc_lookahead c @ [tag_op]\<rparr>"

definition config_set_reg_id :: "nat \<Rightarrow> nat \<Rightarrow> config \<Rightarrow> config" where
  "config_set_reg_id tag_id reg_id c =
     c\<lparr>dc_tag_id_to_reg_ids := smap_assign (<) tag_id reg_id (dc_tag_id_to_reg_ids c)\<rparr>"

definition get_tag_history :: "nat \<Rightarrow> config \<Rightarrow> tag_operation option" where
  "get_tag_history tag_id c = find (\<lambda>x. to_tag_id x = tag_id) (dc_history c)"

definition get_tag_lookahead :: "nat \<Rightarrow> config \<Rightarrow> tag_operation option" where
  "get_tag_lookahead tag_id c = find (\<lambda>x. to_tag_id x = tag_id) (dc_lookahead c)"

section \<open>The spontaneous closure\<close>

definition spontaneous_child :: "config \<Rightarrow> nfa_spontaneous_transition \<Rightarrow> config" where
  "spontaneous_child c t =
     fold (child_configuration_with_new_state_and_tag (sp_dest_state t)) (sp_tag_ops t)
       (child_configuration_with_new_state (sp_dest_state t) c)"

text \<open>A stack is a list with its top first.\<close>

definition update_reachable_configs :: "nfa \<Rightarrow> config \<Rightarrow> config list \<Rightarrow> config list" where
  "update_reachable_configs n c unexplored_stack =
     fold (\<lambda>t stack. spontaneous_child c t # stack)
       (ns_spontaneous_transitions (nf_states n ! dc_nfa_state c)) unexplored_stack"

partial_function (option) closure_loop :: "nfa \<Rightarrow> config list \<Rightarrow> config list \<Rightarrow> config list option" where
  "closure_loop n unexplored_stack reachable_set =
     (case unexplored_stack of
        [] \<Rightarrow> Some reachable_set
      | current # rest \<Rightarrow>
          if sset_contains (config_less n) current reachable_set
          then closure_loop n rest reachable_set
          else closure_loop n (update_reachable_configs n current rest)
                 (sset_insert (config_less n) current reachable_set))"

definition spontaneous_closure :: "nfa \<Rightarrow> config \<Rightarrow> config list option" where
  "spontaneous_closure n c = closure_loop n [c] []"

section \<open>The order of configurations\<close>

type_synonym config_key = "nat \<times> (nat \<times> nat) list \<times> (nat \<times> nat) list \<times> (nat \<times> nat) list"

definition config_key :: "nfa \<Rightarrow> config \<Rightarrow> config_key" where
  "config_key n c = (ns_id (nf_states n ! dc_nfa_state c), dc_tag_id_to_reg_ids c,
     map tag_key (dc_history c), map tag_key (dc_lookahead c))"

interpretation tag_order: keyed_order tag_operation_less tag_key
  by unfold_locales (simp add: tag_operation_less_key)

interpretation entry_order: keyed_order "\<lambda>(a, b) (c, d). a < c \<or> a = c \<and> b < d" "\<lambda>p :: nat \<times> nat. p"
  by unfold_locales auto

lemma tag_ops_eq_key: "tag_ops_eq xs ys \<longleftrightarrow> map tag_key xs = map tag_key ys"
  by (simp add: tag_ops_eq_def list_all2_conv_all_nth list_eq_iff_nth_eq tag_operation_eq_key
      cong: conj_cong)

interpretation config_order: keyed_order "config_less n" "config_key n" for n
proof
  fix x y :: config
  let ?i = "\<lambda>c. ns_id (nf_states n ! dc_nfa_state c)"
  have regs: "regs_less (dc_tag_id_to_reg_ids x) (dc_tag_id_to_reg_ids y) \<longleftrightarrow>
      dc_tag_id_to_reg_ids x < dc_tag_id_to_reg_ids y"
    using entry_order.lex_less_key by (simp add: regs_less_def)
  show "config_less n x y \<longleftrightarrow> config_key n x < config_key n y"
    by (cases "?i x = ?i y"; cases "dc_tag_id_to_reg_ids x = dc_tag_id_to_reg_ids y";
        cases "map tag_key (dc_history x) = map tag_key (dc_history y)")
      (auto simp: config_less_def config_key_def Let_def tag_ops_eq_key tag_order.lex_less_key
        regs order.order_iff_strict)
qed

interpretation config_set_order: keyed_order "lex_less (config_less n)" "map (config_key n)" for n
  by unfold_locales (rule config_order.lex_less_key)

section \<open>What the closure contains\<close>

definition config_step :: "nfa \<Rightarrow> (config \<times> config) set" where
  "config_step n = {(c, spontaneous_child c t) |c t.
     t \<in> set (ns_spontaneous_transitions (nf_states n ! dc_nfa_state c))}"

lemma spontaneous_child_eq:
  "spontaneous_child c t =
     c\<lparr>dc_nfa_state := sp_dest_state t, dc_lookahead := dc_lookahead c @ sp_tag_ops t\<rparr>"
proof -
  have *: "fold (child_configuration_with_new_state_and_tag s) ops d =
      d\<lparr>dc_lookahead := dc_lookahead d @ ops\<rparr>" if "dc_nfa_state d = s" for s ops and d :: config
    using that
  proof (induction ops arbitrary: d)
    case (Cons x ops)
    have "child_configuration_with_new_state_and_tag s x d = d\<lparr>dc_lookahead := dc_lookahead d @ [x]\<rparr>"
      using Cons.prems by (cases d) (simp add: child_configuration_with_new_state_and_tag_def)
    with Cons show ?case by simp
  qed simp
  show ?thesis by (simp add: spontaneous_child_def child_configuration_with_new_state_def *)
qed

lemma update_reachable_set:
  "set (update_reachable_configs n c stack) = config_step n `` {c} \<union> set stack"
proof -
  have "set (fold (\<lambda>t stack. f t # stack) ts st) = f ` set ts \<union> set st" for ts st
    and f :: "nfa_spontaneous_transition \<Rightarrow> config"
    by (induction ts arbitrary: st) auto
  then show ?thesis by (auto simp: update_reachable_configs_def config_step_def)
qed

text \<open>Configurations that the containers cannot tell apart step to such configurations.\<close>

definition config_ok :: "nfa \<Rightarrow> config \<Rightarrow> bool" where
  "config_ok n c \<longleftrightarrow> dc_nfa_state c < nfa_size n"

definition nfa_small :: "nfa \<Rightarrow> bool" where
  "nfa_small n \<longleftrightarrow> nfa_wf n \<and> nfa_size n \<le> 2 ^ 32"

lemma nfa_small_id: "nfa_small n \<Longrightarrow> s < nfa_size n \<Longrightarrow> ns_id (nf_states n ! s) = s"
  by (simp add: nfa_small_def nfa_wf_def)

lemma same_key_state:
  "nfa_small n \<Longrightarrow> config_ok n c \<Longrightarrow> config_ok n d \<Longrightarrow> config_key n c = config_key n d \<Longrightarrow>
     dc_nfa_state c = dc_nfa_state d"
  by (simp add: config_key_def config_ok_def nfa_small_id)

lemma step_edge:
  "config_ok n c \<Longrightarrow> (c, d) \<in> config_step n \<Longrightarrow> nfa_edge n (dc_nfa_state c) None (dc_nfa_state d)"
  by (auto simp: config_step_def spontaneous_child_eq nfa_edge_def config_ok_def)

lemma edge_step:
  "nfa_edge n (dc_nfa_state c) None t \<Longrightarrow> \<exists>d. (c, d) \<in> config_step n \<and> dc_nfa_state d = t"
  by (force simp: config_step_def spontaneous_child_eq nfa_edge_def)

lemma step_ok: "nfa_wf n \<Longrightarrow> config_ok n c \<Longrightarrow> (c, d) \<in> config_step n \<Longrightarrow> config_ok n d"
  using step_edge [of n c d] by (auto simp: config_ok_def nfa_wf_def)

lemma steps_ok: "(c, d) \<in> (config_step n)\<^sup>* \<Longrightarrow> nfa_wf n \<Longrightarrow> config_ok n c \<Longrightarrow> config_ok n d"
  by (induction rule: rtrancl_induct) (auto intro: step_ok)

lemma steps_fixed:
  "(c, d) \<in> (config_step n)\<^sup>* \<Longrightarrow>
     dc_tag_id_to_reg_ids d = dc_tag_id_to_reg_ids c \<and> dc_history d = dc_history c"
  by (induction rule: rtrancl_induct) (auto simp: config_step_def spontaneous_child_eq)

lemma same_key_step:
  assumes "nfa_small n" "config_ok n c" "config_ok n d" "config_key n c = config_key n d"
    and "(c, c') \<in> config_step n"
  shows "\<exists>d'. (d, d') \<in> config_step n \<and> config_key n c' = config_key n d'"
proof -
  have s: "dc_nfa_state c = dc_nfa_state d" by (rule same_key_state [OF assms(1-4)])
  from assms(5) obtain t where t: "c' = spontaneous_child c t"
    "t \<in> set (ns_spontaneous_transitions (nf_states n ! dc_nfa_state c))"
    by (auto simp: config_step_def)
  then have "(d, spontaneous_child d t) \<in> config_step n" using s by (auto simp: config_step_def)
  moreover have "config_key n c' = config_key n (spontaneous_child d t)"
    using assms(4) t(1) by (simp add: config_key_def spontaneous_child_eq)
  ultimately show ?thesis by blast
qed

definition closure_inv :: "nfa \<Rightarrow> config set \<Rightarrow> config list \<Rightarrow> config list \<Rightarrow> bool" where
  "closure_inv n start stack reach \<longleftrightarrow>
     config_order.ordered n reach \<and>
     set reach \<union> set stack \<subseteq> (config_step n)\<^sup>* `` start \<and>
     config_key n ` start \<subseteq> config_key n ` (set reach \<union> set stack) \<and>
     (\<forall>c \<in> set reach. config_key n ` (config_step n `` {c}) \<subseteq> config_key n ` (set reach \<union> set stack))"

lemma closure_inv_skip:
  assumes "closure_inv n start (c # rest) reach" "config_key n c \<in> config_key n ` set reach"
  shows "closure_inv n start rest reach"
proof -
  have "config_key n ` (set reach \<union> set (c # rest)) = config_key n ` (set reach \<union> set rest)"
    using assms(2) by auto
  with assms(1) show ?thesis by (auto simp: closure_inv_def)
qed

lemma closure_inv_visit:
  assumes inv: "closure_inv n start (c # rest) reach"
    and new: "config_key n c \<notin> config_key n ` set reach"
  shows "closure_inv n start (update_reachable_configs n c rest)
    (sset_insert (config_less n) c reach)"
proof -
  let ?R = "sset_insert (config_less n) c reach"
  let ?S = "update_reachable_configs n c rest"
  have R: "set ?R \<subseteq> insert c (set reach)" "set reach \<subseteq> set ?R"
    "config_key n ` set ?R = insert (config_key n c) (config_key n ` set reach)"
    by (rule config_order.insert_set config_order.insert_superset config_order.insert_keys)+
  have S: "set ?S = config_step n `` {c} \<union> set rest" by (rule update_reachable_set)
  have c: "c \<in> (config_step n)\<^sup>* `` start" using inv by (auto simp: closure_inv_def)
  have keys: "config_key n ` (set reach \<union> set (c # rest)) \<subseteq> config_key n ` (set ?R \<union> set ?S)"
    using R(3) S by auto
  have "config_step n `` {c} \<subseteq> (config_step n)\<^sup>* `` start"
    using c by (auto intro: rtrancl_into_rtrancl)
  moreover have "set reach \<union> set (c # rest) \<subseteq> (config_step n)\<^sup>* `` start"
    using inv by (simp add: closure_inv_def)
  ultimately have "set ?R \<union> set ?S \<subseteq> (config_step n)\<^sup>* `` start"
    using R(1) c unfolding S by auto
  note reachable = this
  have closed: "config_key n ` (config_step n `` {d}) \<subseteq> config_key n ` (set ?R \<union> set ?S)"
    if "d \<in> set ?R" for d
  proof (cases "d \<in> set reach")
    case True
    with inv have "config_key n ` (config_step n `` {d}) \<subseteq> config_key n ` (set reach \<union> set (c # rest))"
      unfolding closure_inv_def by blast
    with keys show ?thesis by blast
  next
    case False
    with that R(1) have "d = c" by auto
    with S show ?thesis by auto
  qed
  have "config_key n ` start \<subseteq> config_key n ` (set ?R \<union> set ?S)"
    using inv keys unfolding closure_inv_def by (meson order.trans)
  moreover have "config_order.ordered n ?R"
    by (rule config_order.insert_ordered) (use inv in \<open>simp add: closure_inv_def\<close>)
  ultimately show ?thesis unfolding closure_inv_def using reachable closed
    by (intro conjI ballI) assumption+
qed

text \<open>Partial correctness, for the loop whether or not it ends.\<close>

lemma closure_loop_inv:
  assumes "closure_loop n stack reach = Some S" "closure_inv n start stack reach"
  shows "closure_inv n start [] S"
proof -
  have "closure_inv n start stack reach \<longrightarrow> closure_inv n start [] S"
  proof (rule closure_loop.raw_induct [OF _ assms(1),
        where P = "\<lambda>n st r S. closure_inv n start st r \<longrightarrow> closure_inv n start [] S"])
    fix loop n stack reach S
    assume IH: "\<And>n st r S. loop n st r = Some S \<Longrightarrow> closure_inv n start st r \<longrightarrow> closure_inv n start [] S"
      and run: "(case stack of [] \<Rightarrow> Some reach
        | current # rest \<Rightarrow>
          if sset_contains (config_less n) current reach then loop n rest reach
          else loop n (update_reachable_configs n current rest)
                 (sset_insert (config_less n) current reach)) = Some S"
    show "closure_inv n start stack reach \<longrightarrow> closure_inv n start [] S"
    proof
      assume inv: "closure_inv n start stack reach"
      show "closure_inv n start [] S"
      proof (cases stack)
        case Nil
        with run inv show ?thesis by simp
      next
        case (Cons c rest)
        show ?thesis
        proof (cases "config_key n c \<in> config_key n ` set reach")
          case True
          then have "closure_inv n start rest reach" using inv Cons by (blast intro: closure_inv_skip)
          with True run IH Cons show ?thesis by (simp add: config_order.contains_iff)
        next
          case False
          then have "closure_inv n start (update_reachable_configs n c rest)
              (sset_insert (config_less n) c reach)" using inv Cons by (blast intro: closure_inv_visit)
          with False run IH Cons show ?thesis by (simp add: config_order.contains_iff)
        qed
      qed
    qed
  qed
  with assms(2) show ?thesis by blast
qed

definition reachable_configs :: "nfa \<Rightarrow> config \<Rightarrow> config set" where
  "reachable_configs n c = (config_step n)\<^sup>* `` {c}"

lemma reachable_self [simp]: "c \<in> reachable_configs n c"
  by (simp add: reachable_configs_def)

lemma closure_inv_start: "closure_inv n {c} [c] []"
  by (simp add: closure_inv_def)

lemma closure_spec:
  assumes S: "spontaneous_closure n c = Some S" and n: "nfa_small n" and c: "config_ok n c"
  shows "config_order.ordered n S" "set S \<subseteq> reachable_configs n c"
    "config_key n ` set S = config_key n ` reachable_configs n c"
proof -
  have inv: "closure_inv n {c} [] S"
    using closure_loop_inv [OF S [unfolded spontaneous_closure_def] closure_inv_start] .
  show "config_order.ordered n S" and sub: "set S \<subseteq> reachable_configs n c"
    using inv by (auto simp: closure_inv_def reachable_configs_def)
  have wf: "nfa_wf n" using n by (simp add: nfa_small_def)
  have "config_key n d \<in> config_key n ` set S" if "(c, d) \<in> (config_step n)\<^sup>*" for d
    using that
  proof (induction rule: rtrancl_induct)
    case base
    show ?case using inv by (auto simp: closure_inv_def)
  next
    case (step d d')
    then obtain e where e: "e \<in> set S" "config_key n d = config_key n e" by auto
    have ok: "config_ok n d" "config_ok n e"
      using steps_ok [OF step(1) wf c] sub e(1) steps_ok [of c e n] wf c
      by (auto simp: reachable_configs_def)
    from same_key_step [OF n ok e(2) step(2)] obtain e' where
      e': "(e, e') \<in> config_step n" "config_key n d' = config_key n e'" by blast
    have "config_key n ` (config_step n `` {e}) \<subseteq> config_key n ` set S"
      using inv e(1) by (simp add: closure_inv_def)
    then have "config_key n e' \<in> config_key n ` set S" using e'(1) by blast
    with e'(2) show ?case by simp
  qed
  with sub show "config_key n ` set S = config_key n ` reachable_configs n c"
    by (auto simp: reachable_configs_def)
qed

text \<open>The loop ends when the reachable configurations are finite in number.\<close>

lemma closure_loop_total:
  assumes K: "finite K" "config_key n ` ((config_step n)\<^sup>* `` start) \<subseteq> K"
  shows "closure_inv n start stack reach \<Longrightarrow> \<exists>S. closure_loop n stack reach = Some S"
proof (induction "(card (K - config_key n ` set reach), length stack)" arbitrary: stack reach
    rule: wf_induct [OF wf_lex_prod [OF wf_less_than wf_less_than], case_names less])
  case less
  note IH = less(1) and inv = less(2)
  show ?case
  proof (cases stack)
    case Nil
    then show ?thesis by (subst closure_loop.simps) simp
  next
    case (Cons c rest)
    show ?thesis
    proof (cases "config_key n c \<in> config_key n ` set reach")
      case True
      have "\<exists>S. closure_loop n rest reach = Some S"
        by (rule IH [rule_format, OF _ refl])
          (use Cons inv True in \<open>auto intro: closure_inv_skip\<close>)
      with True Cons show ?thesis by (subst closure_loop.simps) (simp add: config_order.contains_iff)
    next
      case False
      let ?R = "sset_insert (config_less n) c reach"
      have "config_key n c \<in> K" using inv K(2) Cons by (auto simp: closure_inv_def)
      then have "card (K - config_key n ` set ?R) < card (K - config_key n ` set reach)"
        using False K(1) by (intro psubset_card_mono) (auto simp: config_order.insert_keys)
      then have "\<exists>S. closure_loop n (update_reachable_configs n c rest) ?R = Some S"
        by (intro IH [rule_format, OF _ refl])
          (use Cons inv False in \<open>auto intro: closure_inv_visit\<close>)
      with False Cons show ?thesis by (subst closure_loop.simps) (simp add: config_order.contains_iff)
    qed
  qed
qed

definition nfa_tag_ops :: "nfa \<Rightarrow> tag_operation set" where
  "nfa_tag_ops n = (\<Union>s \<in> set (nf_states n). \<Union>t \<in> set (ns_spontaneous_transitions s). set (sp_tag_ops t))"

lemma steps_lookahead:
  assumes "(c, d) \<in> (config_step n)\<^sup>*" "nfa_wf n" "config_ok n c"
  shows "set (dc_lookahead d) \<subseteq> set (dc_lookahead c) \<union> nfa_tag_ops n"
  using assms
proof (induction rule: rtrancl_induct)
  case (step d d')
  then have "config_ok n d" using steps_ok by blast
  then have "nf_states n ! dc_nfa_state d \<in> set (nf_states n)"
    by (simp add: config_ok_def nfa_size_def)
  with step show ?case
    by (auto simp: config_step_def spontaneous_child_eq nfa_tag_ops_def)
qed simp

lemma finite_config_keys:
  assumes n: "nfa_wf n" and c: "config_ok n c"
    and k: "\<And>d. d \<in> reachable_configs n c \<Longrightarrow> length (dc_lookahead d) \<le> k"
  shows "finite (config_key n ` reachable_configs n c)"
proof -
  let ?A = "tag_key ` (set (dc_lookahead c) \<union> nfa_tag_ops n)"
  let ?ids = "(\<lambda>s. ns_id (nf_states n ! s)) ` {..<nfa_size n}"
  let ?T = "?ids \<times> {dc_tag_id_to_reg_ids c} \<times> {map tag_key (dc_history c)}
      \<times> {xs. set xs \<subseteq> ?A \<and> length xs \<le> k}"
  have "finite ?A" by (auto simp: nfa_tag_ops_def)
  then have "finite ?T" by (auto intro: finite_lists_length_le)
  moreover have "config_key n d \<in> ?T" if "d \<in> reachable_configs n c" for d
  proof -
    from that have st: "(c, d) \<in> (config_step n)\<^sup>*" by (simp add: reachable_configs_def)
    with steps_ok [OF st n c] steps_fixed [OF st] steps_lookahead [OF st n c] k [OF that]
    show ?thesis by (auto simp: config_key_def config_ok_def)
  qed
  ultimately show ?thesis by (meson finite_subset image_subsetI)
qed

lemma closure_total:
  assumes "nfa_wf n" "config_ok n c"
    and "\<And>d. d \<in> reachable_configs n c \<Longrightarrow> length (dc_lookahead d) \<le> k"
  shows "\<exists>S. spontaneous_closure n c = Some S"
  unfolding spontaneous_closure_def
  by (rule closure_loop_total [OF finite_config_keys [OF assms] _ closure_inv_start])
    (simp_all add: reachable_configs_def)

text \<open>The states of the closure are those that spontaneous transitions reach.\<close>

definition eps_reach :: "nfa \<Rightarrow> nat \<Rightarrow> nat set" where
  "eps_reach n s = {(s, t). nfa_edge n s None t}\<^sup>* `` {s}"

lemma reachable_states:
  assumes "nfa_wf n" "config_ok n c"
  shows "dc_nfa_state ` reachable_configs n c = eps_reach n (dc_nfa_state c)"
proof
  have "(dc_nfa_state c, dc_nfa_state d) \<in> {(s, t). nfa_edge n s None t}\<^sup>*"
    if "(c, d) \<in> (config_step n)\<^sup>*" for d
    using that
  proof (induction rule: rtrancl_induct)
    case (step d e)
    have "config_ok n d" using steps_ok [OF step(1) assms] .
    with step step_edge [of n d e] show ?case by (auto intro: rtrancl_into_rtrancl)
  qed simp
  then show "dc_nfa_state ` reachable_configs n c \<subseteq> eps_reach n (dc_nfa_state c)"
    by (auto simp: reachable_configs_def eps_reach_def)
  have "\<exists>d. (c, d) \<in> (config_step n)\<^sup>* \<and> dc_nfa_state d = t"
    if "(dc_nfa_state c, t) \<in> {(s, t). nfa_edge n s None t}\<^sup>*" for t
    using that
  proof (induction rule: rtrancl_induct)
    case (step t u)
    then obtain d where "(c, d) \<in> (config_step n)\<^sup>*" "dc_nfa_state d = t" by blast
    with edge_step [of n d u] step(2) show ?case by (auto intro: rtrancl_into_rtrancl)
  qed auto
  then show "eps_reach n (dc_nfa_state c) \<subseteq> dc_nfa_state ` reachable_configs n c"
    by (auto simp: reachable_configs_def eps_reach_def image_iff)
qed

lemma closure_states:
  assumes "spontaneous_closure n c = Some S" "nfa_small n" "config_ok n c"
  shows "dc_nfa_state ` set S = eps_reach n (dc_nfa_state c)"
proof -
  note spec = closure_spec [OF assms]
  have wf: "nfa_wf n" using assms(2) by (simp add: nfa_small_def)
  have ok: "config_ok n d" if "d \<in> reachable_configs n c" for d
    using that steps_ok [OF _ wf assms(3)] by (auto simp: reachable_configs_def)
  have "\<exists>e \<in> set S. dc_nfa_state e = dc_nfa_state d" if d: "d \<in> reachable_configs n c" for d
  proof -
    from d spec(3) obtain e where e: "e \<in> set S" "config_key n d = config_key n e" by blast
    with spec(2) ok d same_key_state [OF assms(2), of d e] show ?thesis by (metis subsetD)
  qed
  then have "dc_nfa_state ` reachable_configs n c \<subseteq> dc_nfa_state ` set S"
    by (metis image_eqI image_subsetI)
  moreover have "dc_nfa_state ` set S \<subseteq> dc_nfa_state ` reachable_configs n c"
    using spec(2) by (rule image_mono)
  ultimately have "dc_nfa_state ` set S = dc_nfa_state ` reachable_configs n c" by (rule equalityI [rotated])
  with reachable_states [OF wf assms(3)] show ?thesis by simp
qed

section \<open>Tagged cycles\<close>

lemma steps_translate:
  assumes "(c, d) \<in> (config_step n)\<^sup>*"
  shows "\<exists>ops. dc_lookahead d = dc_lookahead c @ ops \<and>
    (\<forall>c'. dc_nfa_state c' = dc_nfa_state c \<longrightarrow>
      (\<exists>d'. (c', d') \<in> (config_step n)\<^sup>* \<and> dc_nfa_state d' = dc_nfa_state d \<and>
        dc_lookahead d' = dc_lookahead c' @ ops))"
  using assms
proof (induction rule: rtrancl_induct)
  case base
  show ?case by (intro exI [of _ "[]"]) auto
next
  case (step d e)
  then obtain ops where ops: "dc_lookahead d = dc_lookahead c @ ops"
    "\<And>c'. dc_nfa_state c' = dc_nfa_state c \<Longrightarrow>
      \<exists>d'. (c', d') \<in> (config_step n)\<^sup>* \<and> dc_nfa_state d' = dc_nfa_state d \<and>
        dc_lookahead d' = dc_lookahead c' @ ops" by blast
  from step(2) obtain t where t: "e = spontaneous_child d t"
    "t \<in> set (ns_spontaneous_transitions (nf_states n ! dc_nfa_state d))"
    by (auto simp: config_step_def)
  have "\<exists>e'. (c', e') \<in> (config_step n)\<^sup>* \<and> dc_nfa_state e' = dc_nfa_state e \<and>
      dc_lookahead e' = dc_lookahead c' @ ops @ sp_tag_ops t" if eq: "dc_nfa_state c' = dc_nfa_state c" for c'
  proof -
    from ops(2) [OF eq] obtain d' where d': "(c', d') \<in> (config_step n)\<^sup>*"
      "dc_nfa_state d' = dc_nfa_state d" "dc_lookahead d' = dc_lookahead c' @ ops" by blast
    then have "(d', spontaneous_child d' t) \<in> config_step n" using t(2) by (auto simp: config_step_def)
    with d' t(1) show ?thesis
      by (intro exI [of _ "spontaneous_child d' t"])
        (auto simp: spontaneous_child_eq intro: rtrancl_into_rtrancl)
  qed
  with t(1) ops(1) show ?case
    by (intro exI [of _ "ops @ sp_tag_ops t"]) (simp add: spontaneous_child_eq)
qed

lemma tagged_cycle_unbounded:
  assumes d: "d \<in> reachable_configs n c" and e: "(d, e) \<in> (config_step n)\<^sup>*"
    and cycle: "dc_nfa_state e = dc_nfa_state d" "dc_lookahead e \<noteq> dc_lookahead d"
  shows "\<exists>f \<in> reachable_configs n c. k \<le> length (dc_lookahead f) \<and> dc_nfa_state f = dc_nfa_state d"
proof (induction k)
  case 0
  show ?case using d by blast
next
  case (Suc k)
  then obtain f where f: "f \<in> reachable_configs n c" "k \<le> length (dc_lookahead f)"
    "dc_nfa_state f = dc_nfa_state d" by blast
  from steps_translate [OF e] f(3) cycle obtain ops g where
    g: "dc_lookahead e = dc_lookahead d @ ops" "(f, g) \<in> (config_step n)\<^sup>*"
    "dc_nfa_state g = dc_nfa_state d" "dc_lookahead g = dc_lookahead f @ ops" by metis
  moreover have "ops \<noteq> []" using g(1) cycle(2) by auto
  then have "1 \<le> length ops" by (cases ops) auto
  moreover have "g \<in> reachable_configs n c"
    using f(1) g(2) by (auto simp: reachable_configs_def)
  ultimately show ?case using f(2) by (intro bexI [of _ g]) auto
qed

section \<open>Properties\<close>

text \<open>
  C33: the closure of a configuration, when the loop ends, is an ordered set of configurations
  reachable by spontaneous transitions that represents all of them (no reachable configuration
  differs from all its elements in the order), so its NFA states are exactly the states that
  spontaneous transitions reach.
\<close>

theorem spontaneous_closure_exact:
  assumes "spontaneous_closure n c = Some S" "nfa_small n" "config_ok n c"
  shows "sorted_wrt (config_less n) S \<and> set S \<subseteq> reachable_configs n c \<and>
    (\<forall>d \<in> reachable_configs n c. sset_contains (config_less n) d S) \<and>
    dc_nfa_state ` set S = eps_reach n (dc_nfa_state c)"
proof -
  note spec = closure_spec [OF assms]
  have "config_less n = (\<lambda>x y. config_key n x < config_key n y)"
    by (intro ext) (rule config_order.less_key)
  then have "sorted_wrt (config_less n) S"
    using spec(1) by (simp add: config_order.ordered_def sorted_wrt_map)
  then show ?thesis
    using spec closure_states [OF assms] by (simp add: config_order.contains_iff)
qed

definition demo_config :: config where
  "demo_config = \<lparr>dc_nfa_state = 0, dc_tag_id_to_reg_ids = [], dc_history = [], dc_lookahead = []\<rparr>"

definition demo_closure :: "config list" where
  "demo_closure = [demo_config, demo_config\<lparr>dc_nfa_state := 1\<rparr>]"

lemma demo_graph_small: "nfa_small demo_graph" "config_ok demo_graph demo_config"
  using demo_graph_wf
  by (simp_all add: nfa_small_def demo_graph_def nfa_size_def config_ok_def demo_config_def)

lemma demo_closure: "spontaneous_closure demo_graph demo_config = Some demo_closure"
  unfolding spontaneous_closure_def demo_config_def demo_closure_def
  by (simp add: closure_loop.simps demo_graph_def sset_contains_def update_reachable_configs_def
      ns_add_spontaneous_transition_def ns_new_def ns_new_accepting_def spontaneous_child_eq
      config_less_def Let_def regs_less_def tag_ops_eq_def)

theorem spontaneous_closure_exact_witness:
  "set demo_closure \<subseteq> reachable_configs demo_graph demo_config \<and>
    dc_nfa_state ` set demo_closure = eps_reach demo_graph (dc_nfa_state demo_config)"
  using spontaneous_closure_exact [OF demo_closure demo_graph_small] by blast

text \<open>
  C34: the closure loop ends if and only if the tag operations collected along spontaneous
  transitions are bounded: with a bound it returns a set, and on a cycle of spontaneous
  transitions that carries a tag operation it never returns.
\<close>

theorem spontaneous_closure_ends_iff_bounded:
  assumes "nfa_small n" "config_ok n c"
  shows "((\<exists>S. spontaneous_closure n c = Some S) \<longleftrightarrow>
      (\<exists>k. \<forall>d \<in> reachable_configs n c. length (dc_lookahead d) \<le> k)) \<and>
    (\<forall>d e. d \<in> reachable_configs n c \<and> (d, e) \<in> (config_step n)\<^sup>* \<and>
       dc_nfa_state e = dc_nfa_state d \<and> dc_lookahead e \<noteq> dc_lookahead d \<longrightarrow>
       spontaneous_closure n c = None)"
proof -
  have wf: "nfa_wf n" using assms(1) by (simp add: nfa_small_def)
  have bounded: "\<exists>k. \<forall>d \<in> reachable_configs n c. length (dc_lookahead d) \<le> k"
    if S: "spontaneous_closure n c = Some S" for S
  proof -
    let ?len = "\<lambda>k :: config_key. length (snd (snd (snd k)))"
    have "finite (?len ` config_key n ` set S)" by simp
    then obtain k where k: "\<forall>l \<in> ?len ` config_key n ` set S. l \<le> k"
      by (meson finite_nat_set_iff_bounded_le)
    have "length (dc_lookahead d) \<le> k" if "d \<in> reachable_configs n c" for d
    proof -
      have "?len (config_key n d) \<in> ?len ` config_key n ` set S"
        using closure_spec(3) [OF S assms] that by blast
      with k have "?len (config_key n d) \<le> k" by blast
      then show ?thesis by (simp add: config_key_def)
    qed
    then show ?thesis by blast
  qed
  then have iff: "(\<exists>S. spontaneous_closure n c = Some S) \<longleftrightarrow>
      (\<exists>k. \<forall>d \<in> reachable_configs n c. length (dc_lookahead d) \<le> k)"
    using closure_total [OF wf assms(2)] by blast
  have "spontaneous_closure n c = None"
    if "d \<in> reachable_configs n c" "(d, e) \<in> (config_step n)\<^sup>*"
      "dc_nfa_state e = dc_nfa_state d" "dc_lookahead e \<noteq> dc_lookahead d" for d e
  proof (cases "spontaneous_closure n c")
    case (Some S)
    with bounded obtain k where "\<forall>d \<in> reachable_configs n c. length (dc_lookahead d) \<le> k" by blast
    with tagged_cycle_unbounded [OF that, of "Suc k"] show ?thesis by fastforce
  qed simp
  with iff show ?thesis by blast
qed

text \<open>A state with a spontaneous transition to itself that sets a tag.\<close>

definition demo_cycle :: nfa where
  "demo_cycle = \<lparr>nf_states = [ns_new_tagged 0 TagSet [3] 0 False],
     nf_capture_to_tag_id_pair = (\<lambda>_. None), nf_root = 0, nf_state_id_generator = 1,
     nf_tag_id_generator = 4\<rparr>"

lemma demo_cycle_small: "nfa_small demo_cycle" "config_ok demo_cycle demo_config"
  by (auto simp: nfa_small_def nfa_wf_def demo_cycle_def nfa_size_def nfa_edge_def ns_new_tagged_def
      ns_add_tagged_transition_def ns_new_def config_ok_def demo_config_def split: option.splits)

theorem spontaneous_closure_ends_iff_bounded_witness:
  "spontaneous_closure demo_cycle demo_config = None"
proof -
  let ?e = "demo_config\<lparr>dc_lookahead := [\<lparr>to_tag_id = 3, to_type = TagSet, to_multi_valued = False\<rparr>]\<rparr>"
  have "(demo_config, ?e) \<in> config_step demo_cycle"
    by (auto simp: config_step_def demo_cycle_def demo_config_def spontaneous_child_eq
        ns_new_tagged_def ns_add_tagged_transition_def ns_new_def)
  then have "(demo_config, ?e) \<in> (config_step demo_cycle)\<^sup>*" by blast
  moreover have "dc_nfa_state ?e = dc_nfa_state demo_config" "dc_lookahead ?e \<noteq> dc_lookahead demo_config"
    by (simp_all add: demo_config_def)
  ultimately show ?thesis
    using spontaneous_closure_ends_iff_bounded [OF demo_cycle_small] reachable_self by blast
qed

end
