(* ===== verification/Dfa.thy ===== *)
theory Dfa
  imports Determinization
begin

text \<open>
  \<^verbatim>\<open>finite_automata/Dfa.hpp\<close>, \<^verbatim>\<open>DfaState.hpp\<close> (byte states) and
  \<^verbatim>\<open>DfaTransition.hpp\<close>: the determinization of a tagged NFA with its registers, the
  traversal and the text form. A state pointer is the state's position in
  \<^verbatim>\<open>m_states\<close>. A result is \<open>None\<close> when a loop does not end, and otherwise a value
  or the exception that was thrown.
\<close>

section \<open>States and transitions\<close>

record dfa_transition =
  dt_reg_ops :: "reg_op list"
  dt_dest_state :: nat

record dfa_state =
  ds_matching_variable_ids :: "nat list"
  ds_accepting_ops :: "reg_op list"
  ds_bytes_transition :: "nat \<Rightarrow> dfa_transition option"

definition ds_new :: dfa_state where
  "ds_new = \<lparr>ds_matching_variable_ids = [], ds_accepting_ops = [], ds_bytes_transition = (\<lambda>_. None)\<rparr>"

definition ds_add_matching_variable_id :: "nat \<Rightarrow> dfa_state \<Rightarrow> dfa_state" where
  "ds_add_matching_variable_id v s =
     s\<lparr>ds_matching_variable_ids := ds_matching_variable_ids s @ [v]\<rparr>"

definition ds_is_accepting :: "dfa_state \<Rightarrow> bool" where
  "ds_is_accepting s \<longleftrightarrow> ds_matching_variable_ids s \<noteq> []"

definition ds_add_byte_transition :: "nat \<Rightarrow> dfa_transition \<Rightarrow> dfa_state \<Rightarrow> dfa_state" where
  "ds_add_byte_transition byte t s =
     s\<lparr>ds_bytes_transition := (ds_bytes_transition s)(byte \<mapsto> t)\<rparr>"

definition ds_add_accepting_op :: "reg_op \<Rightarrow> dfa_state \<Rightarrow> dfa_state" where
  "ds_add_accepting_op r s = s\<lparr>ds_accepting_ops := ds_accepting_ops s @ [r]\<rparr>"

definition ds_get_transition :: "nat \<Rightarrow> dfa_state \<Rightarrow> dfa_transition option" where
  "ds_get_transition character s = ds_bytes_transition s character"

definition dt_serialize :: "(nat \<rightharpoonup> nat) \<Rightarrow> dfa_transition \<Rightarrow> string option" where
  "dt_serialize state_ids t =
     (case state_ids (dt_dest_state t) of
        None \<Rightarrow> None
      | Some i \<Rightarrow>
          (case those (map reg_op_serialize (dt_reg_ops t)) of
             None \<Rightarrow> None
           | Some transformed_ops \<Rightarrow> Some (''-('' @ join '','' transformed_ops @ '')->'' @ dec i)))"

definition ds_serialize :: "(nat \<rightharpoonup> nat) \<Rightarrow> nat \<Rightarrow> dfa_state \<Rightarrow> string option res" where
  "ds_serialize state_ids this s =
     (let accepting_tags_string =
            (if ds_is_accepting s
             then ''accepting_tags={'' @ join '','' (map dec (ds_matching_variable_ids s)) @ ''},''
             else '''');
          accepting_op_strings =
            map the (filter (\<lambda>r. r \<noteq> None) (map reg_op_serialize (ds_accepting_ops s)));
          accepting_ops_string =
            (if ds_is_accepting s
             then ''accepting_operations={'' @ join '','' accepting_op_strings @ ''},'' else '''')
      in case those (map (\<lambda>idx. map_option (\<lambda>str. char_of idx # str)
                (dt_serialize state_ids (the (ds_bytes_transition s idx))))
              (filter (\<lambda>idx. ds_bytes_transition s idx \<noteq> None) [0..<cSizeOfByte])) of
           None \<Rightarrow> Inr None
         | Some transition_strings \<Rightarrow>
             rbind (map_at state_ids this) (\<lambda>i.
               Inr (Some (dec i @ '':'' @ accepting_tags_string @ accepting_ops_string
                 @ ''byte_transitions={'' @ join '','' transition_strings @ ''}''))))"

section \<open>The automaton\<close>

record dfa =
  df_states :: "dfa_state list"
  df_tag_id_to_final_reg_id :: "(nat \<times> nat) list"
  df_reg_handler :: register_handler
  df_num_regs :: nat

definition dfa_empty :: dfa where
  "dfa_empty = \<lparr>df_states = [], df_tag_id_to_final_reg_id = [], df_reg_handler = rh_new,
     df_num_regs = 0\<rparr>"

definition dfa_get_root :: "dfa \<Rightarrow> nat res" where
  "dfa_get_root d = (if df_states d = [] then Inl OutOfRange else Inr 0)"

definition release_reg_handler :: "dfa \<Rightarrow> register_handler \<times> dfa" where
  "release_reg_handler d =
     (df_reg_handler d,
      d\<lparr>df_reg_handler := fst (rh_add_registers rh_new (u32 (df_num_regs d)))\<rparr>)"

definition dfa_process_reg_ops :: "reg_op list \<Rightarrow> nat \<Rightarrow> dfa \<Rightarrow> dfa res" where
  "dfa_process_reg_ops reg_ops curr_pos d =
     rbind (process_reg_ops (df_reg_handler d) reg_ops curr_pos) (\<lambda>h. Inr (d\<lparr>df_reg_handler := h\<rparr>))"

definition initialize_registers ::
  "nat \<Rightarrow> register_handler \<Rightarrow> register_handler \<times> (nat \<times> nat) list \<times> (nat \<times> nat) list" where
  "initialize_registers num_tags h =
     (fst (rh_add_registers h (u32 (2 * num_tags))),
      fold (\<lambda>i. smap_insert (<) i i) [0..<num_tags] [],
      fold (\<lambda>i. smap_insert (<) i (u32 (num_tags + i))) [0..<num_tags] [])"

section \<open>Mapping a set of configurations to another\<close>

text \<open>
  A pair of register maps, from the left to the right registers and back; \<open>None\<close> is the
  \<^verbatim>\<open>nullopt\<close> of a conflict.
\<close>

type_synonym reg_maps = "(nat \<times> nat) list \<times> (nat \<times> nat) list"

definition map_register :: "nat \<Rightarrow> nat \<Rightarrow> reg_maps \<Rightarrow> reg_maps option" where
  "map_register lhs_reg_id rhs_reg_id maps =
     (case maps of (lr, rl) \<Rightarrow>
       case (map_of lr lhs_reg_id, map_of rl rhs_reg_id) of
         (None, None) \<Rightarrow> Some ((lhs_reg_id, rhs_reg_id) # lr, (rhs_reg_id, lhs_reg_id) # rl)
       | (Some r, Some l) \<Rightarrow> if r \<noteq> rhs_reg_id \<or> l \<noteq> lhs_reg_id then None else Some maps
       | _ \<Rightarrow> None)"

fun map_config_registers ::
  "config \<Rightarrow> config \<Rightarrow> (nat \<times> nat) list \<Rightarrow> reg_maps \<Rightarrow> reg_maps option res" where
  "map_config_registers config_lhs config_rhs [] maps = Inr (Some maps)"
| "map_config_registers config_lhs config_rhs ((tag_id, lhs_reg_id) # regs) maps =
     (if get_tag_lookahead tag_id config_lhs \<noteq> None
      then map_config_registers config_lhs config_rhs regs maps
      else rbind (smap_at (<) tag_id (dc_tag_id_to_reg_ids config_rhs)) (\<lambda>rhs_reg_id.
        case map_register lhs_reg_id rhs_reg_id maps of
          None \<Rightarrow> Inr None
        | Some maps' \<Rightarrow> map_config_registers config_lhs config_rhs regs maps'))"

text \<open>The loop over the left configurations; each takes the first right one that agrees with it.\<close>

definition configs_agree :: "config \<Rightarrow> config \<Rightarrow> bool" where
  "configs_agree config_lhs config_rhs \<longleftrightarrow> dc_nfa_state config_lhs = dc_nfa_state config_rhs \<and>
     tag_ops_eq (dc_lookahead config_lhs) (dc_lookahead config_rhs)"

fun map_configs :: "config list \<Rightarrow> config list \<Rightarrow> reg_maps \<Rightarrow> reg_maps option res" where
  "map_configs [] rhs maps = Inr (Some maps)"
| "map_configs (config_lhs # lhs) rhs maps =
     (case find (configs_agree config_lhs) rhs of
        None \<Rightarrow> Inr None
      | Some config_rhs \<Rightarrow>
          rbind (map_config_registers config_lhs config_rhs (dc_tag_id_to_reg_ids config_lhs) maps)
            (\<lambda>r. case r of None \<Rightarrow> Inr None | Some maps' \<Rightarrow> map_configs lhs rhs maps'))"

definition try_get_mapping :: "config list \<Rightarrow> config list \<Rightarrow> (nat \<times> nat) list option res" where
  "try_get_mapping lhs rhs =
     (if length lhs \<noteq> length rhs then Inr None
      else rbind (map_configs lhs rhs ([], [])) (\<lambda>r. Inr (map_option fst r)))"

section \<open>Creating states\<close>

definition accepting_op_of :: "config \<Rightarrow> nat \<times> nat \<Rightarrow> reg_op res" where
  "accepting_op_of c = (\<lambda>(tag_id, final_reg_id).
     case get_tag_lookahead tag_id c of
       Some tag_op \<Rightarrow>
         Inr (case to_type tag_op of TagSet \<Rightarrow> create_set_operation final_reg_id
              | TagNegate \<Rightarrow> create_negate_operation final_reg_id)
     | None \<Rightarrow> rbind (smap_at (<) tag_id (dc_tag_id_to_reg_ids c))
                 (\<lambda>prev_reg_id. Inr (create_copy_operation final_reg_id prev_reg_id)))"

definition dfa_state_add_config ::
  "nfa \<Rightarrow> (nat \<times> nat) list \<Rightarrow> config \<Rightarrow> dfa_state \<Rightarrow> dfa_state res" where
  "dfa_state_add_config n tag_id_to_final_reg_id c s =
     (let nfa_state = nf_states n ! dc_nfa_state c
      in if ns_accepting nfa_state
         then rfold (\<lambda>entry s. rbind (accepting_op_of c entry) (\<lambda>r. Inr (ds_add_accepting_op r s)))
                tag_id_to_final_reg_id
                (ds_add_matching_variable_id (ns_matching_variable_id nfa_state) s)
         else Inr s)"

definition dfa_new_state :: "nfa \<Rightarrow> config list \<Rightarrow> (nat \<times> nat) list \<Rightarrow> dfa \<Rightarrow> (nat \<times> dfa) res" where
  "dfa_new_state n config_set tag_id_to_final_reg_id d =
     rbind (rfold (dfa_state_add_config n tag_id_to_final_reg_id) config_set ds_new) (\<lambda>s.
       Inr (length (df_states d), d\<lparr>df_states := df_states d @ [s]\<rparr>))"

text \<open>
  The determinization state: the automaton so far, the map from configuration sets to states (in
  the order of the sets) and the queue.
\<close>

type_synonym det_state = "dfa \<times> (config list \<times> nat) list \<times> config list list"

fun find_mapping ::
  "config list \<Rightarrow> (config list \<times> nat) list \<Rightarrow> (nat \<times> (nat \<times> nat) list) option res" where
  "find_mapping config_set [] = Inr None"
| "find_mapping config_set ((config_set_in_map, dfa_state) # rest) =
     rbind (try_get_mapping config_set config_set_in_map) (\<lambda>r.
       case r of
         Some reg_map \<Rightarrow> Inr (Some (dfa_state, reg_map))
       | None \<Rightarrow> find_mapping config_set rest)"

definition create_or_get_dfa_state ::
  "nfa \<Rightarrow> config list \<Rightarrow> det_state \<Rightarrow> ((nat \<times> (nat \<times> nat) list option) \<times> det_state) res" where
  "create_or_get_dfa_state n config_set st =
     (case st of (d, dfa_states, unexplored_sets) \<Rightarrow>
       case smap_find (lex_less (config_less n)) config_set dfa_states of
         Some q \<Rightarrow> Inr ((q, None), st)
       | None \<Rightarrow>
           rbind (find_mapping config_set dfa_states) (\<lambda>r.
             case r of
               Some (q, reg_map) \<Rightarrow> Inr ((q, Some reg_map), st)
             | None \<Rightarrow>
                 rbind (dfa_new_state n config_set (df_tag_id_to_final_reg_id d) d) (\<lambda>(q, d').
                   Inr ((q, None),
                     (d', smap_insert (lex_less (config_less n)) config_set q dfa_states,
                      unexplored_sets @ [config_set])))))"

section \<open>Transitions\<close>

text \<open>The state of \<^verbatim>\<open>assign_transition_reg_ops\<close> within one configuration.\<close>

type_synonym assign_state = "register_handler \<times> (nat \<times> nat) list \<times> reg_op list"

definition assign_tag :: "nat \<Rightarrow> assign_state \<times> config \<Rightarrow> assign_state \<times> config" where
  "assign_tag tag_id = (\<lambda>((h, tag_id_with_op_to_reg_id, reg_ops), c).
     case get_tag_history tag_id c of
       None \<Rightarrow> ((h, tag_id_with_op_to_reg_id, reg_ops), c)
     | Some tag_op \<Rightarrow>
         (let (h', m', reg_id) =
                (case smap_find (<) tag_id tag_id_with_op_to_reg_id of
                   Some r \<Rightarrow> (h, tag_id_with_op_to_reg_id, r)
                 | None \<Rightarrow> let (h1, r) = rh_add_register h
                           in (h1, smap_insert (<) tag_id r tag_id_with_op_to_reg_id, r));
              reg_ops' =
                (if \<forall>r \<in> set reg_ops. ro_reg_id r \<noteq> reg_id
                 then reg_ops @ [case to_type tag_op of
                        TagSet \<Rightarrow> create_set_operation reg_id
                      | TagNegate \<Rightarrow> create_negate_operation reg_id]
                 else reg_ops)
          in ((h', m', reg_ops'), config_set_reg_id tag_id reg_id c)))"

fun assign_transition_reg_ops ::
  "nfa \<Rightarrow> nat \<Rightarrow> config list \<Rightarrow> assign_state \<Rightarrow> config list \<Rightarrow> assign_state \<times> config list" where
  "assign_transition_reg_ops n num_tags [] st new_closure = (st, new_closure)"
| "assign_transition_reg_ops n num_tags (c # closure) st new_closure =
     (let (st', c') = fold assign_tag [0..<num_tags] (st, c)
      in assign_transition_reg_ops n num_tags closure st'
           (sset_insert (config_less n) c' new_closure))"

type_synonym transitions = "(nat \<times> reg_op list \<times> config list) list"

definition merge_transition ::
  "nfa \<Rightarrow> nat \<Rightarrow> reg_op list \<Rightarrow> config list \<Rightarrow> transitions \<Rightarrow> transitions" where
  "merge_transition n i new_reg_ops closure m =
     (case smap_find (<) i m of
        Some (byte_reg_ops, dest) \<Rightarrow>
          smap_assign (<) i
            (fold (\<lambda>r ops. if r \<in> set ops then ops else ops @ [r]) new_reg_ops byte_reg_ops,
             sset_insert_all (config_less n) closure dest) m
      | None \<Rightarrow> smap_insert (<) i (new_reg_ops, closure) m)"

text \<open>The three nested loops of \<^verbatim>\<open>get_transitions\<close>, as the list of their iterations.\<close>

definition transition_triples :: "nfa \<Rightarrow> config list \<Rightarrow> (config \<times> nat \<times> nat) list" where
  "transition_triples n config_set =
     [(c, i, next). c \<leftarrow> config_set, i \<leftarrow> [0..<cSizeOfByte],
        next \<leftarrow> ns_bytes_transitions (nf_states n ! dc_nfa_state c) i]"

fun transitions_loop ::
  "nfa \<Rightarrow> nat \<Rightarrow> (config \<times> nat \<times> nat) list \<Rightarrow> register_handler \<Rightarrow> (nat \<times> nat) list \<Rightarrow> transitions \<Rightarrow>
     (register_handler \<times> (nat \<times> nat) list \<times> transitions) option" where
  "transitions_loop n num_tags [] h tags ascii_transitions_map =
     Some (h, tags, ascii_transitions_map)"
| "transitions_loop n num_tags ((c, i, next_nfa_state) # rest) h tags ascii_transitions_map =
     (case spontaneous_closure n
             \<lparr>dc_nfa_state = next_nfa_state, dc_tag_id_to_reg_ids = dc_tag_id_to_reg_ids c,
              dc_history = dc_lookahead c, dc_lookahead = []\<rparr> of
        None \<Rightarrow> None
      | Some closure \<Rightarrow>
          (let ((h', tags', new_reg_ops), closure') =
                 assign_transition_reg_ops n num_tags closure (h, tags, []) []
           in transitions_loop n num_tags rest h' tags'
                (merge_transition n i new_reg_ops closure' ascii_transitions_map)))"

definition get_transitions ::
  "nfa \<Rightarrow> nat \<Rightarrow> config list \<Rightarrow> register_handler \<Rightarrow> (register_handler \<times> transitions) option" where
  "get_transitions n num_tags config_set h =
     map_option (\<lambda>(h', tags, m). (h', m))
       (transitions_loop n num_tags (transition_triples n config_set) h [] [])"

text \<open>
  \<^verbatim>\<open>reassign_transition_reg_ops\<close> iterates over an \<^verbatim>\<open>unordered_map\<close>, whose
  order the standard leaves open: \<open>ord\<close> gives the order of its entries.
\<close>

fun renumber_first :: "nat \<Rightarrow> nat \<Rightarrow> reg_op list \<Rightarrow> reg_op list option" where
  "renumber_first old_reg_id new_reg_id [] = None"
| "renumber_first old_reg_id new_reg_id (r # ops) =
     (if ro_reg_id r = old_reg_id then Some (r\<lparr>ro_reg_id := new_reg_id\<rparr> # ops)
      else map_option (Cons r) (renumber_first old_reg_id new_reg_id ops))"

definition reassign_reg :: "nat \<times> nat \<Rightarrow> reg_op list \<Rightarrow> reg_op list" where
  "reassign_reg = (\<lambda>(old_reg_id, new_reg_id) reg_ops.
     if old_reg_id = new_reg_id then reg_ops
     else case renumber_first old_reg_id new_reg_id reg_ops of
            Some reg_ops' \<Rightarrow> reg_ops'
          | None \<Rightarrow> reg_ops @ [create_copy_operation new_reg_id old_reg_id])"

definition reassign_transition_reg_ops ::
  "((nat \<times> nat) list \<Rightarrow> (nat \<times> nat) list) \<Rightarrow> (nat \<times> nat) list \<Rightarrow> reg_op list \<Rightarrow> reg_op list" where
  "reassign_transition_reg_ops ord reg_map reg_ops = fold reassign_reg (ord reg_map) reg_ops"

section \<open>Determinization\<close>

definition dfa_add_byte_transition :: "nat \<Rightarrow> nat \<Rightarrow> dfa_transition \<Rightarrow> dfa \<Rightarrow> dfa" where
  "dfa_add_byte_transition q byte t d =
     d\<lparr>df_states := (df_states d)[q := ds_add_byte_transition byte t (df_states d ! q)]\<rparr>"

definition add_dfa_transition ::
  "nfa \<Rightarrow> ((nat \<times> nat) list \<Rightarrow> (nat \<times> nat) list) \<Rightarrow> nat \<Rightarrow> nat \<times> reg_op list \<times> config list \<Rightarrow>
     det_state \<Rightarrow> det_state res" where
  "add_dfa_transition n ord dfa_state = (\<lambda>(ascii_value, reg_ops, dest_config_set) st.
     rbind (create_or_get_dfa_state n dest_config_set st)
       (\<lambda>((dest_state, optional_reg_map), d, dfa_states, unexplored_sets).
         let reg_ops' = (case optional_reg_map of
                None \<Rightarrow> reg_ops
              | Some reg_map \<Rightarrow> reassign_transition_reg_ops ord reg_map reg_ops)
         in Inr (dfa_add_byte_transition dfa_state ascii_value
                   \<lparr>dt_reg_ops = reg_ops', dt_dest_state = dest_state\<rparr> d,
                 dfa_states, unexplored_sets)))"

partial_function (option) generate_loop ::
  "nfa \<Rightarrow> ((nat \<times> nat) list \<Rightarrow> (nat \<times> nat) list) \<Rightarrow> det_state \<Rightarrow> dfa res option" where
  "generate_loop n ord st =
     (case st of (d, dfa_states, unexplored_sets) \<Rightarrow>
       case unexplored_sets of
         [] \<Rightarrow> Some (Inr d)
       | config_set # rest \<Rightarrow>
           (case smap_at (lex_less (config_less n)) config_set dfa_states of
              Inl e \<Rightarrow> Some (Inl e)
            | Inr dfa_state \<Rightarrow>
                (case get_transitions n (nf_tag_id_generator n) config_set (df_reg_handler d) of
                   None \<Rightarrow> None
                 | Some (h, transitions) \<Rightarrow>
                     (case rfold (add_dfa_transition n ord dfa_state) transitions
                             (d\<lparr>df_reg_handler := h\<rparr>, dfa_states, rest) of
                        Inl e \<Rightarrow> Some (Inl e)
                      | Inr st' \<Rightarrow> generate_loop n ord st'))))"

definition dfa_generate ::
  "((nat \<times> nat) list \<Rightarrow> (nat \<times> nat) list) \<Rightarrow> nfa \<Rightarrow> dfa res option" where
  "dfa_generate ord n =
     (let (h, tag_id_to_initial_reg_id, tag_id_to_final_reg_id) =
            initialize_registers (nf_tag_id_generator n) rh_new;
          d0 = dfa_empty\<lparr>df_reg_handler := h, df_tag_id_to_final_reg_id := tag_id_to_final_reg_id\<rparr>
      in case spontaneous_closure n
                \<lparr>dc_nfa_state = nf_root n, dc_tag_id_to_reg_ids = tag_id_to_initial_reg_id,
                 dc_history = [], dc_lookahead = []\<rparr> of
           None \<Rightarrow> None
         | Some closure \<Rightarrow>
             (case create_or_get_dfa_state n closure (d0, [], []) of
                Inl e \<Rightarrow> Some (Inl e)
              | Inr (q, st) \<Rightarrow>
                  map_option (\<lambda>r. rbind r (\<lambda>d.
                      Inr (d\<lparr>df_num_regs := rh_get_num_regs (df_reg_handler d)\<rparr>)))
                    (generate_loop n ord st)))"

section \<open>Traversal and text form\<close>

definition dfa_successors :: "dfa \<Rightarrow> nat \<Rightarrow> nat list" where
  "dfa_successors d q =
     [dt_dest_state t. idx \<leftarrow> [0..<cSizeOfByte],
        t \<leftarrow> (case ds_get_transition idx (df_states d ! q) of None \<Rightarrow> [] | Some t \<Rightarrow> [t])]"

definition dfa_get_bfs_traversal_order :: "dfa \<Rightarrow> nat list res option" where
  "dfa_get_bfs_traversal_order d =
     (case dfa_get_root d of
        Inl e \<Rightarrow> Some (Inl e)
      | Inr root \<Rightarrow>
          map_option Inr (bfs_loop (dfa_successors d) (add_to_queue_and_visited root ([], [])) []))"

definition dfa_serialize :: "dfa \<Rightarrow> string option res option" where
  "dfa_serialize d =
     map_option (\<lambda>r. rbind r (\<lambda>traversal_order.
       let state_ids = number_states traversal_order
       in rbind (rfold (\<lambda>q acc.
             case acc of
               None \<Rightarrow> Inr None
             | Some strs \<Rightarrow> rbind (ds_serialize state_ids q (df_states d ! q))
                 (\<lambda>r. Inr (map_option (\<lambda>str. strs @ [str]) r)))
           traversal_order (Some []))
         (\<lambda>r. Inr (map_option (\<lambda>strs. join [CHR 0x0A] strs @ [CHR 0x0A]) r))))
       (dfa_get_bfs_traversal_order d)"

end
