(* ===== verification/Dfa_Correct.thy ===== *)
theory Dfa_Correct
  imports Dfa Nfa_Tags
begin

text \<open>
  Correctness of the determinization: the automaton of \<^verbatim>\<open>Dfa::generate\<close> accepts
  whatever the NFA accepts, whether or not its states were merged by register mappings, no
  exception is thrown on the way, and for automata without tags it always ends and accepts nothing
  else.
\<close>

section \<open>Runs\<close>

fun dfa_run :: "dfa \<Rightarrow> nat \<Rightarrow> nat list \<Rightarrow> nat option" where
  "dfa_run d q [] = Some q"
| "dfa_run d q (c # w) =
     (if c < cSizeOfByte
      then case ds_get_transition c (df_states d ! q) of
             None \<Rightarrow> None
           | Some t \<Rightarrow> dfa_run d (dt_dest_state t) w
      else None)"

definition dfa_accepts :: "dfa \<Rightarrow> nat list \<Rightarrow> nat \<Rightarrow> bool" where
  "dfa_accepts d w v \<longleftrightarrow>
     (\<exists>q. dfa_run d 0 w = Some q \<and> v \<in> set (ds_matching_variable_ids (df_states d ! q)))"

section \<open>Sets of NFA states\<close>

text \<open>The NFA states a byte leads to from a set of states, with spontaneous transitions after it.\<close>

definition succ_states :: "nfa \<Rightarrow> nat set \<Rightarrow> nat \<Rightarrow> nat set" where
  "succ_states n X i = (\<Union>s \<in> X. \<Union>t \<in> {t. nfa_edge n s (Some i) t}. eps_reach n t)"

fun nfa_run_set :: "nfa \<Rightarrow> nat set \<Rightarrow> nat list \<Rightarrow> nat set" where
  "nfa_run_set n X [] = X"
| "nfa_run_set n X (c # w) = nfa_run_set n (succ_states n X c) w"

definition eps_closed :: "nfa \<Rightarrow> nat set \<Rightarrow> bool" where
  "eps_closed n X \<longleftrightarrow> (\<forall>s \<in> X. eps_reach n s \<subseteq> X)"

lemma eps_reach_self [simp]: "s \<in> eps_reach n s"
  by (simp add: eps_reach_def)

lemma eps_reach_trans: "t \<in> eps_reach n s \<Longrightarrow> eps_reach n t \<subseteq> eps_reach n s"
  by (auto simp: eps_reach_def)

lemma eps_reach_bound: "nfa_wf n \<Longrightarrow> s < nfa_size n \<Longrightarrow> t \<in> eps_reach n s \<Longrightarrow> t < nfa_size n"
proof -
  assume n: "nfa_wf n" "s < nfa_size n" and "t \<in> eps_reach n s"
  then have "(s, t) \<in> {(s, t). nfa_edge n s None t}\<^sup>*" by (simp add: eps_reach_def)
  then show ?thesis by induction (use n in \<open>auto simp: nfa_wf_def\<close>)
qed

lemma eps_closed_reach [simp]: "eps_closed n (eps_reach n s)"
  using eps_reach_trans by (auto simp: eps_closed_def)

lemma eps_closed_succ [simp]: "eps_closed n (succ_states n X i)"
  unfolding eps_closed_def
proof
  fix s
  assume "s \<in> succ_states n X i"
  then obtain r t where "r \<in> X" "nfa_edge n r (Some i) t" "s \<in> eps_reach n t"
    by (auto simp: succ_states_def)
  with eps_reach_trans [of s n t] show "eps_reach n s \<subseteq> succ_states n X i"
    unfolding succ_states_def by blast
qed

lemma eps_closed_Un: "eps_closed n X \<Longrightarrow> eps_closed n Y \<Longrightarrow> eps_closed n (X \<union> Y)"
  by (auto simp: eps_closed_def)

lemma eps_step_closed: "eps_closed n X \<Longrightarrow> s \<in> X \<Longrightarrow> nfa_edge n s None t \<Longrightarrow> t \<in> X"
  unfolding eps_closed_def eps_reach_def by blast

lemma nfa_run_set_mono: "X \<subseteq> Y \<Longrightarrow> nfa_run_set n X w \<subseteq> nfa_run_set n Y w"
proof (induction w arbitrary: X Y)
  case (Cons c w)
  then have "succ_states n X c \<subseteq> succ_states n Y c" by (auto simp: succ_states_def)
  with Cons show ?case by simp
qed simp

lemma path_run_set:
  "nfa_path n s w t \<Longrightarrow> eps_closed n X \<Longrightarrow> s \<in> X \<Longrightarrow> t \<in> nfa_run_set n X w"
proof (induction arbitrary: X rule: nfa_path.induct)
  case (path_eps s t w u)
  then show ?case using eps_step_closed by blast
next
  case (path_byte s c t w u)
  have "t \<in> succ_states n X c" using path_byte eps_reach_self unfolding succ_states_def by blast
  with path_byte show ?case by simp
qed simp

lemma eps_path: "t \<in> eps_reach n s \<Longrightarrow> nfa_path n s [] t"
proof -
  assume "t \<in> eps_reach n s"
  then have "(s, t) \<in> {(s, t). nfa_edge n s None t}\<^sup>*" by (simp add: eps_reach_def)
  then show ?thesis
    by (induction rule: converse_rtrancl_induct) (auto intro: nfa_path.intros)
qed

lemma run_set_path: "t \<in> nfa_run_set n X w \<Longrightarrow> \<exists>s \<in> X. nfa_path n s w t"
proof (induction w arbitrary: X)
  case Nil
  then show ?case by (auto intro: path_refl)
next
  case (Cons c w)
  then obtain u where u: "u \<in> succ_states n X c" "nfa_path n u w t" by auto
  then obtain s r where s: "s \<in> X" "nfa_edge n s (Some c) r" "u \<in> eps_reach n r"
    by (auto simp: succ_states_def)
  with nfa_path_append [OF eps_path [OF s(3)] u(2)] show ?case by (auto intro: path_byte)
qed

lemma nfa_accepts_run_set:
  "nfa_accepts n w v \<longleftrightarrow>
     (\<exists>t \<in> nfa_run_set n (eps_reach n (nf_root n)) w. nfa_accepting n t = Some v)"
proof
  assume "nfa_accepts n w v"
  then show "\<exists>t \<in> nfa_run_set n (eps_reach n (nf_root n)) w. nfa_accepting n t = Some v"
    using path_run_set [where X = "eps_reach n (nf_root n)"] by (auto simp: nfa_accepts_def)
next
  assume "\<exists>t \<in> nfa_run_set n (eps_reach n (nf_root n)) w. nfa_accepting n t = Some v"
  then obtain s t where "s \<in> eps_reach n (nf_root n)" "nfa_path n s w t" "nfa_accepting n t = Some v"
    using run_set_path by blast
  then show "nfa_accepts n w v"
    using nfa_path_append [OF eps_path] by (fastforce simp: nfa_accepts_def)
qed

section \<open>Configurations that occur\<close>

definition untagged :: "nfa \<Rightarrow> bool" where
  "untagged n \<longleftrightarrow> nfa_tag_ops n = {} \<and> nf_tag_id_generator n = 0"

text \<open>Every tag has a register, and without tags there are no tag operations.\<close>

definition config_valid :: "nfa \<Rightarrow> config \<Rightarrow> bool" where
  "config_valid n c \<longleftrightarrow> config_ok n c \<and>
     fst ` set (dc_tag_id_to_reg_ids c) = {..<nf_tag_id_generator n} \<and>
     (untagged n \<longrightarrow> dc_history c = [] \<and> dc_lookahead c = [])"

definition states_of :: "config list \<Rightarrow> nat set" where
  "states_of S = dc_nfa_state ` set S"

definition set_valid :: "nfa \<Rightarrow> config list \<Rightarrow> bool" where
  "set_valid n S \<longleftrightarrow> config_order.ordered n S \<and> (\<forall>c \<in> set S. config_valid n c)"

lemma states_of_keys:
  assumes "nfa_small n" "\<forall>c \<in> set S. config_ok n c"
  shows "states_of S = fst ` config_key n ` set S"
proof -
  have "dc_nfa_state c = fst (config_key n c)" if "c \<in> set S" for c
    using that assms by (simp add: config_key_def config_ok_def nfa_small_id)
  then show ?thesis by (force simp: states_of_def image_image)
qed

lemma set_valid_ok: "set_valid n S \<Longrightarrow> \<forall>c \<in> set S. config_ok n c"
  by (simp add: set_valid_def config_valid_def)

lemma set_valid_insert:
  assumes "nfa_small n" "set_valid n S" "config_valid n c"
  shows "set_valid n (sset_insert (config_less n) c S)"
    "states_of (sset_insert (config_less n) c S) = insert (dc_nfa_state c) (states_of S)"
proof -
  show v: "set_valid n (sset_insert (config_less n) c S)"
    using assms config_order.insert_ordered config_order.insert_set [of n c S]
    by (auto simp: set_valid_def)
  have "dc_nfa_state c = fst (config_key n c)"
    using assms by (simp add: config_key_def config_valid_def config_ok_def nfa_small_id)
  then show "states_of (sset_insert (config_less n) c S) = insert (dc_nfa_state c) (states_of S)"
    using states_of_keys [OF assms(1) set_valid_ok [OF v]]
      states_of_keys [OF assms(1) set_valid_ok [OF assms(2)]]
    by (simp add: config_order.insert_keys)
qed

lemma set_valid_insert_all:
  assumes "nfa_small n"
  shows "set_valid n S \<Longrightarrow> \<forall>c \<in> set cs. config_valid n c \<Longrightarrow>
    set_valid n (sset_insert_all (config_less n) cs S) \<and>
    states_of (sset_insert_all (config_less n) cs S) = states_of cs \<union> states_of S"
proof (induction cs arbitrary: S)
  case Nil
  then show ?case by (simp add: sset_insert_all_def states_of_def)
next
  case (Cons c cs)
  with set_valid_insert [OF assms Cons.prems(1), of c] show ?case
    by (auto simp: sset_insert_all_def states_of_def)
qed

lemma closure_valid:
  assumes n: "nfa_small n" and c: "config_valid n c" and S: "spontaneous_closure n c = Some S"
  shows "set_valid n S" "states_of S = eps_reach n (dc_nfa_state c)" "S \<noteq> []"
proof -
  have ok: "config_ok n c" and wf: "nfa_wf n" using c n by (auto simp: config_valid_def nfa_small_def)
  note spec = closure_spec [OF S n ok]
  have "config_valid n d" if "(c, d) \<in> (config_step n)\<^sup>*" for d
    using steps_ok [OF that wf ok] steps_fixed [OF that] steps_lookahead [OF that wf ok] c
    by (auto simp: config_valid_def untagged_def)
  with spec(1,2) show "set_valid n S" by (auto simp: set_valid_def reachable_configs_def)
  show st: "states_of S = eps_reach n (dc_nfa_state c)"
    unfolding states_of_def by (rule closure_states [OF S n ok])
  show "S \<noteq> []" using st by (auto simp: states_of_def) (metis empty_iff eps_reach_self)
qed

section \<open>The transitions of a set of configurations\<close>

lemma assign_tag_keeps:
  assumes "assign_tag tag_id (st, c) = (st', c')" "tag_id < nf_tag_id_generator n" "config_valid n c"
  shows "dc_nfa_state c' = dc_nfa_state c \<and> config_valid n c'"
proof (cases "get_tag_history tag_id c")
  case None
  with assms show ?thesis by (cases st) (simp add: assign_tag_def)
next
  case (Some x)
  then obtain r where "c' = config_set_reg_id tag_id r c"
    using assms(1) by (cases st) (auto simp: assign_tag_def Let_def split: prod.splits)
  then have "dc_nfa_state c' = dc_nfa_state c" "dc_history c' = dc_history c"
    "dc_lookahead c' = dc_lookahead c"
    "fst ` set (dc_tag_id_to_reg_ids c') = insert tag_id (fst ` set (dc_tag_id_to_reg_ids c))"
    using num.assign_map_keys [of tag_id r "dc_tag_id_to_reg_ids c"]
    by (simp_all add: config_set_reg_id_def)
  with assms(2,3) show ?thesis by (auto simp: config_valid_def config_ok_def)
qed

lemma assign_tags_keep:
  "fold assign_tag tags (st, c) = (st', c') \<Longrightarrow> \<forall>t \<in> set tags. t < nf_tag_id_generator n \<Longrightarrow>
     config_valid n c \<Longrightarrow> dc_nfa_state c' = dc_nfa_state c \<and> config_valid n c'"
proof (induction tags arbitrary: st c)
  case (Cons t tags)
  obtain st1 c1 where 1: "assign_tag t (st, c) = (st1, c1)" by (cases "assign_tag t (st, c)")
  with assign_tag_keeps [OF 1, of n] Cons show ?case by auto
qed auto

lemma assign_transition_keeps:
  assumes "nfa_small n"
  shows "assign_transition_reg_ops n (nf_tag_id_generator n) closure st acc = (st', acc') \<Longrightarrow>
    \<forall>c \<in> set closure. config_valid n c \<Longrightarrow> set_valid n acc \<Longrightarrow>
    set_valid n acc' \<and> states_of acc' = states_of closure \<union> states_of acc"
proof (induction closure arbitrary: st acc)
  case Nil
  then show ?case by (simp add: states_of_def)
next
  case (Cons c closure)
  obtain st1 c1 where 1: "fold assign_tag [0..<nf_tag_id_generator n] (st, c) = (st1, c1)"
    by (cases "fold assign_tag [0..<nf_tag_id_generator n] (st, c)")
  have c1: "dc_nfa_state c1 = dc_nfa_state c" "config_valid n c1"
    using assign_tags_keep [OF 1, of n] Cons.prems(2) by auto
  note ins = set_valid_insert [OF assms Cons.prems(3) c1(2)]
  from Cons.IH [of st1 "sset_insert (config_less n) c1 acc"] Cons.prems 1 ins c1(1)
  show ?case by (simp add: states_of_def)
qed

definition transitions_ok :: "nfa \<Rightarrow> transitions \<Rightarrow> bool" where
  "transitions_ok n m \<longleftrightarrow> num.ordered (map fst m) \<and>
     (\<forall>(i, ops, D) \<in> set m. set_valid n D \<and> D \<noteq> [])"

definition states_at :: "transitions \<Rightarrow> nat \<Rightarrow> nat set" where
  "states_at m i = (case smap_find (<) i m of None \<Rightarrow> {} | Some (ops, D) \<Rightarrow> states_of D)"

lemma merge_transition_ok:
  assumes n: "nfa_small n" and m: "transitions_ok n m" and D: "set_valid n D" "D \<noteq> []"
  shows "transitions_ok n (merge_transition n i ops D m)"
    "states_at (merge_transition n i ops D m) j =
       (if j = i then states_of D \<union> states_at m i else states_at m j)"
proof -
  have ord: "num.ordered (map fst m)" using m by (simp add: transitions_ok_def)
  have "transitions_ok n (merge_transition n i ops D m) \<and>
    states_at (merge_transition n i ops D m) j =
       (if j = i then states_of D \<union> states_at m i else states_at m j)"
  proof (cases "smap_find (<) i m")
    case None
    have "transitions_ok n (smap_insert (<) i (ops, D) m)"
      using m D num.insert_map_ordered [OF ord] num.insert_map_set [of i "(ops, D)" m]
      by (auto simp: transitions_ok_def)
    with None show ?thesis
      using num.find_insert [OF ord, of j i] by (auto simp: merge_transition_def states_at_def)
  next
    case (Some e)
    obtain ops' D' where e: "e = (ops', D')" by (cases e)
    with Some have "(i, ops', D') \<in> set m" using num.find_mem [of i m "(ops', D')"] by simp
    with m have D': "set_valid n D'" by (auto simp: transitions_ok_def)
    have "\<forall>c \<in> set D. config_valid n c" using D by (simp add: set_valid_def)
    note all = set_valid_insert_all [OF n D' this]
    then have ne: "sset_insert_all (config_less n) D D' \<noteq> []"
      using D(2) by (auto simp: states_of_def)
    let ?v = "(fold (\<lambda>r ops. if r \<in> set ops then ops else ops @ [r]) ops ops',
        sset_insert_all (config_less n) D D')"
    have "transitions_ok n (smap_assign (<) i ?v m)"
      using m all ne num.assign_map_ordered [OF ord] num.assign_map_set [of i ?v m]
      by (fastforce simp: transitions_ok_def)
    with Some e all show ?thesis
      using num.find_assign [OF ord, of j i]
      by (auto simp: merge_transition_def states_at_def)
  qed
  then show "transitions_ok n (merge_transition n i ops D m)"
    "states_at (merge_transition n i ops D m) j =
       (if j = i then states_of D \<union> states_at m i else states_at m j)" by blast+
qed

lemma transitions_loop_ok:
  assumes n: "nfa_small n"
  shows "transitions_loop n (nf_tag_id_generator n) ts h tags m = Some (h', tags', m') \<Longrightarrow>
    transitions_ok n m \<Longrightarrow> \<forall>(c, i, s) \<in> set ts. config_valid n c \<and> s < nfa_size n \<Longrightarrow>
    transitions_ok n m' \<and>
    (\<forall>j. states_at m' j = states_at m j \<union> (\<Union>(c, i, s) \<in> {x \<in> set ts. fst (snd x) = j}. eps_reach n s))"
proof (induction ts arbitrary: h tags m)
  case Nil
  then show ?case by auto
next
  case (Cons e ts)
  obtain c i s where e: "e = (c, i, s)" by (cases e) auto
  let ?c = "\<lparr>dc_nfa_state = s, dc_tag_id_to_reg_ids = dc_tag_id_to_reg_ids c,
    dc_history = dc_lookahead c, dc_lookahead = []\<rparr>"
  have c: "config_valid n ?c"
    using Cons.prems(3) e by (auto simp: config_valid_def config_ok_def)
  from Cons.prems(1) e obtain D where D: "spontaneous_closure n ?c = Some D"
    by (auto split: option.splits)
  note cl = closure_valid [OF n c D]
  obtain h1 tags1 ops D' where a: "assign_transition_reg_ops n (nf_tag_id_generator n) D (h, tags, []) []
      = ((h1, tags1, ops), D')" by (metis prod.collapse)
  have D': "set_valid n D'" "states_of D' = eps_reach n s" "D' \<noteq> []"
    using assign_transition_keeps [OF n a] cl
    by (auto simp: set_valid_def states_of_def)
  note mt = merge_transition_ok [OF n Cons.prems(2) D'(1,3), of i ops]
  from Cons.prems(1) e D a have
    "transitions_loop n (nf_tag_id_generator n) ts h1 tags1 (merge_transition n i ops D' m) = Some (h', tags', m')"
    by simp
  from Cons.IH [OF this mt(1)] Cons.prems(3) have IH: "transitions_ok n m'"
    "\<And>j. states_at m' j = states_at (merge_transition n i ops D' m) j \<union>
       (\<Union>(c, i, s) \<in> {x \<in> set ts. fst (snd x) = j}. eps_reach n s)" by auto
  have "states_at m' j = states_at m j \<union> (\<Union>(c, i, s) \<in> {x \<in> set (e # ts). fst (snd x) = j}. eps_reach n s)" for j
    using IH(2) [of j] mt(2) [of j] D'(2) e by (cases "j = i") auto
  with IH(1) show ?case by blast
qed

lemma get_transitions_ok:
  assumes n: "nfa_small n" and S: "set_valid n S"
    and m: "get_transitions n (nf_tag_id_generator n) S h = Some (h', m)"
  shows "transitions_ok n m" "states_at m j = succ_states n (states_of S) j"
proof -
  from m obtain tags where run: "transitions_loop n (nf_tag_id_generator n) (transition_triples n S) h [] []
      = Some (h', tags, m)" by (auto simp: get_transitions_def)
  have wf: "nfa_wf n" using n by (simp add: nfa_small_def)
  have triples: "(c, i, s) \<in> set (transition_triples n S) \<longleftrightarrow>
      c \<in> set S \<and> nfa_edge n (dc_nfa_state c) (Some i) s" for c i s
  proof (cases "c \<in> set S")
    case True
    then have "dc_nfa_state c < nfa_size n" using set_valid_ok [OF S] by (auto simp: config_ok_def)
    with True show ?thesis by (force simp: transition_triples_def nfa_edge_def)
  qed (auto simp: transition_triples_def)
  have "\<forall>(c, i, s) \<in> set (transition_triples n S). config_valid n c \<and> s < nfa_size n"
    using triples S wf by (auto simp: set_valid_def nfa_wf_def)
  from transitions_loop_ok [OF n run _ this] have r: "transitions_ok n m"
    "\<And>j. states_at m j = (\<Union>(c, i, s) \<in> {x \<in> set (transition_triples n S). fst (snd x) = j}. eps_reach n s)"
    by (auto simp: transitions_ok_def states_at_def)
  show "transitions_ok n m" by (rule r(1))
  have "(\<Union>(c, i, s) \<in> {x \<in> set (transition_triples n S). fst (snd x) = j}. eps_reach n s) =
      succ_states n (states_of S) j"
  proof (intro equalityI subsetI)
    fix t
    assume "t \<in> (\<Union>(c, i, s) \<in> {x \<in> set (transition_triples n S). fst (snd x) = j}. eps_reach n s)"
    then obtain c s where "(c, j, s) \<in> set (transition_triples n S)" "t \<in> eps_reach n s" by auto
    with triples show "t \<in> succ_states n (states_of S) j" by (auto simp: succ_states_def states_of_def)
  next
    fix t
    assume "t \<in> succ_states n (states_of S) j"
    then obtain c s where "c \<in> set S" "nfa_edge n (dc_nfa_state c) (Some j) s" "t \<in> eps_reach n s"
      by (auto simp: succ_states_def states_of_def)
    with triples show "t \<in> (\<Union>(c, i, s) \<in> {x \<in> set (transition_triples n S). fst (snd x) = j}. eps_reach n s)"
      by force
  qed
  with r(2) show "states_at m j = succ_states n (states_of S) j" by simp
qed

section \<open>Mapping and creating states\<close>

lemma map_config_registers_total:
  "fst ` set regs \<subseteq> fst ` set (dc_tag_id_to_reg_ids r) \<Longrightarrow>
     \<exists>x. map_config_registers l r regs maps = Inr x"
proof (induction regs arbitrary: maps)
  case (Cons e regs)
  obtain t k where e: "e = (t, k)" by (cases e)
  have "smap_find (<) t (dc_tag_id_to_reg_ids r) \<noteq> None"
    using num.find_None [of t "dc_tag_id_to_reg_ids r"] Cons.prems e by auto
  then obtain x where "smap_at (<) t (dc_tag_id_to_reg_ids r) = Inr x" by (auto simp: smap_at_def)
  with Cons e show ?case by (auto split: option.splits)
qed simp

lemma map_configs_total:
  "\<forall>c \<in> set lhs. config_valid n c \<Longrightarrow> \<forall>c \<in> set rhs. config_valid n c \<Longrightarrow>
     \<exists>x. map_configs lhs rhs maps = Inr x \<and> (x \<noteq> None \<longrightarrow> states_of lhs \<subseteq> states_of rhs)"
proof (induction lhs arbitrary: maps)
  case Nil
  then show ?case by (simp add: states_of_def)
next
  case (Cons l lhs)
  show ?case
  proof (cases "find (configs_agree l) rhs")
    case (Some r)
    then have r: "r \<in> set rhs" "configs_agree l r" by (auto simp: find_Some_iff)
    with Cons.prems have "fst ` set (dc_tag_id_to_reg_ids l) \<subseteq> fst ` set (dc_tag_id_to_reg_ids r)"
      by (auto simp: config_valid_def)
    from map_config_registers_total [OF this] obtain x where
      x: "map_config_registers l r (dc_tag_id_to_reg_ids l) maps = Inr x" by blast
    show ?thesis
    proof (cases x)
      case None
      with Some x show ?thesis by simp
    next
      case maps': (Some maps')
      obtain y where "map_configs lhs rhs maps' = Inr y" "y \<noteq> None \<longrightarrow> states_of lhs \<subseteq> states_of rhs"
        using Cons by fastforce
      with Some x maps' r show ?thesis by (auto simp: states_of_def configs_agree_def)
    qed
  qed simp
qed

lemma try_get_mapping_total:
  assumes "set_valid n lhs" "set_valid n rhs"
  shows "\<exists>x. try_get_mapping lhs rhs = Inr x \<and>
    (x \<noteq> None \<longrightarrow> states_of lhs \<subseteq> states_of rhs \<and> length lhs = length rhs)"
proof (cases "length lhs = length rhs")
  case True
  obtain x where "map_configs lhs rhs ([], []) = Inr x" "x \<noteq> None \<longrightarrow> states_of lhs \<subseteq> states_of rhs"
    using map_configs_total [of lhs n rhs "([], [])"] assms by (auto simp: set_valid_def)
  with True show ?thesis by (auto simp: try_get_mapping_def)
qed (simp add: try_get_mapping_def)

lemma untagged_states_distinct:
  assumes "nfa_small n" "set_valid n S" "untagged n"
  shows "card (states_of S) = length S"
proof -
  have "dc_tag_id_to_reg_ids c = []" if "c \<in> set S" for c
    using that assms by (auto simp: set_valid_def config_valid_def untagged_def)
  then have "config_key n c = (dc_nfa_state c, [], [], [])" if "c \<in> set S" for c
    using that assms by (auto simp: set_valid_def config_valid_def config_key_def config_ok_def nfa_small_id)
  moreover have "distinct (map (config_key n) S)"
    using assms(2) config_order.ordered_distinct by (simp add: set_valid_def)
  ultimately have "inj_on dc_nfa_state (set S)" "distinct S"
    by (auto simp: distinct_map inj_on_def)
  then show ?thesis by (simp add: states_of_def card_image distinct_card)
qed

lemma find_mapping_total:
  assumes n: "nfa_small n" and S: "set_valid n S"
  shows "\<forall>(S', q) \<in> set M. set_valid n S' \<Longrightarrow>
    \<exists>x. find_mapping S M = Inr x \<and> (\<forall>q reg_map. x = Some (q, reg_map) \<longrightarrow>
      (\<exists>S'. (S', q) \<in> set M \<and> states_of S \<subseteq> states_of S' \<and> (untagged n \<longrightarrow> states_of S' \<subseteq> states_of S)))"
proof (induction M)
  case (Cons e M)
  obtain S' q where e: "e = (S', q)" by (cases e)
  from Cons.prems e have S': "set_valid n S'" by simp
  obtain x where x: "try_get_mapping S S' = Inr x"
    "x \<noteq> None \<longrightarrow> states_of S \<subseteq> states_of S' \<and> length S = length S'"
    using try_get_mapping_total [OF S S'] by blast
  show ?case
  proof (cases x)
    case None
    with x(1) e Cons show ?thesis by fastforce
  next
    case (Some reg_map)
    have "states_of S' \<subseteq> states_of S" if "untagged n"
    proof -
      have "card (states_of S) = card (states_of S')"
        using untagged_states_distinct [OF n S that] untagged_states_distinct [OF n S' that] x(2) Some
        by simp
      then show ?thesis
        using card_subset_eq [of "states_of S'" "states_of S"] x(2) Some by (simp add: states_of_def)
    qed
    with x Some e show ?thesis by auto
  qed
qed simp

definition matching_ids :: "nfa \<Rightarrow> config list \<Rightarrow> nat list" where
  "matching_ids n S = map (\<lambda>c. ns_matching_variable_id (nf_states n ! dc_nfa_state c))
     (filter (\<lambda>c. ns_accepting (nf_states n ! dc_nfa_state c)) S)"

lemma accepting_ops_total:
  assumes "\<forall>e \<in> set finals. fst e \<in> fst ` set (dc_tag_id_to_reg_ids c)"
  shows "\<exists>s'. rfold (\<lambda>entry s. rbind (accepting_op_of c entry) (\<lambda>r. Inr (ds_add_accepting_op r s)))
      finals s = Inr s' \<and> (ds_matching_variable_ids s' = ds_matching_variable_ids s \<and>
      ds_bytes_transition s' = ds_bytes_transition s)"
proof (rule rfold_total)
  fix e and t :: dfa_state
  assume "e \<in> set finals"
  and t: "ds_matching_variable_ids t = ds_matching_variable_ids s \<and> ds_bytes_transition t = ds_bytes_transition s"
  then have "smap_find (<) (fst e) (dc_tag_id_to_reg_ids c) \<noteq> None"
    using assms num.find_None [of "fst e" "dc_tag_id_to_reg_ids c"] by simp
  then have "\<exists>r. accepting_op_of c e = Inr r"
    by (cases e; cases "get_tag_lookahead (fst e) c") (auto simp: accepting_op_of_def smap_at_def)
  then obtain r where "accepting_op_of c e = Inr r" by blast
  with t show "\<exists>s'. rbind (accepting_op_of c e) (\<lambda>r. Inr (ds_add_accepting_op r t)) = Inr s' \<and>
      ds_matching_variable_ids s' = ds_matching_variable_ids s \<and> ds_bytes_transition s' = ds_bytes_transition s"
    by (simp add: ds_add_accepting_op_def)
qed simp

lemma add_configs_total:
  assumes "\<forall>e \<in> set finals. fst e < nf_tag_id_generator n"
  shows "\<forall>c \<in> set S. config_valid n c \<Longrightarrow>
    \<exists>s'. rfold (dfa_state_add_config n finals) S s = Inr s' \<and>
      ds_matching_variable_ids s' = ds_matching_variable_ids s @ matching_ids n S \<and>
      ds_bytes_transition s' = ds_bytes_transition s"
proof (induction S arbitrary: s)
  case Nil
  then show ?case by (simp add: matching_ids_def)
next
  case (Cons c S)
  let ?ns = "nf_states n ! dc_nfa_state c"
  have "\<forall>e \<in> set finals. fst e \<in> fst ` set (dc_tag_id_to_reg_ids c)"
    using assms Cons.prems by (auto simp: config_valid_def)
  from accepting_ops_total [OF this, of "ds_add_matching_variable_id (ns_matching_variable_id ?ns) s"]
  obtain s1 where s1: "dfa_state_add_config n finals c s = Inr s1"
    "ds_matching_variable_ids s1 = ds_matching_variable_ids s @ matching_ids n [c]"
    "ds_bytes_transition s1 = ds_bytes_transition s"
    by (cases "ns_accepting ?ns")
      (auto simp: dfa_state_add_config_def ds_add_matching_variable_id_def matching_ids_def Let_def)
  with Cons.IH [of s1] Cons.prems show ?case by (auto simp: matching_ids_def)
qed

section \<open>The invariant of the determinization\<close>

definition det_inv :: "nfa \<Rightarrow> det_state \<Rightarrow> bool" where
  "det_inv n = (\<lambda>(d, M, Q). config_set_order.ordered n (map fst M) \<and> distinct (map snd M) \<and>
     snd ` set M = {..<length (df_states d)} \<and>
     (\<forall>(S, q) \<in> set M. set_valid n S \<and> eps_closed n (states_of S) \<and>
        ds_matching_variable_ids (df_states d ! q) = matching_ids n S) \<and>
     set Q \<subseteq> fst ` set M \<and> distinct Q \<and>
     (\<forall>e \<in> set (df_tag_id_to_final_reg_id d). fst e < nf_tag_id_generator n))"

lemma det_inv_bound:
  assumes "det_inv n (d, M, Q)" "(S, q) \<in> set M"
  shows "q < length (df_states d)"
proof -
  have "q \<in> snd ` set M" using assms(2) by (rule image_eqI [rotated]) simp
  with assms(1) show ?thesis by (simp add: det_inv_def)
qed

text \<open>Where the transition on a byte leads, for the NFA states it should lead to.\<close>

definition link_at :: "nfa \<Rightarrow> (config list \<times> nat) list \<Rightarrow> nat set \<Rightarrow> dfa_transition option \<Rightarrow> bool" where
  "link_at n M X t \<longleftrightarrow>
     (case t of
        None \<Rightarrow> X = {}
      | Some t \<Rightarrow> \<exists>S. (S, dt_dest_state t) \<in> set M \<and> X \<subseteq> states_of S \<and>
                   (untagged n \<longrightarrow> states_of S \<subseteq> X))"

definition dfa_trans :: "dfa \<Rightarrow> nat \<Rightarrow> nat \<Rightarrow> dfa_transition option" where
  "dfa_trans d q i = ds_get_transition i (df_states d ! q)"

lemma link_at_mono: "link_at n M X t \<Longrightarrow> set M \<subseteq> set M' \<Longrightarrow> link_at n M' X t"
  by (auto simp: link_at_def split: option.splits)

lemma new_state_total:
  assumes "det_inv n (d, M, Q)" "set_valid n S"
  shows "\<exists>s. dfa_new_state n S (df_tag_id_to_final_reg_id d) d =
      Inr (length (df_states d), d\<lparr>df_states := df_states d @ [s]\<rparr>) \<and>
    ds_matching_variable_ids s = matching_ids n S \<and> (\<forall>i. ds_get_transition i s = None)"
proof -
  from assms add_configs_total [of "df_tag_id_to_final_reg_id d" n S ds_new] obtain s where
    "rfold (dfa_state_add_config n (df_tag_id_to_final_reg_id d)) S ds_new = Inr s"
    "ds_matching_variable_ids s = matching_ids n S" "ds_bytes_transition s = ds_bytes_transition ds_new"
    by (auto simp: det_inv_def set_valid_def ds_new_def)
  then show ?thesis by (auto simp: dfa_new_state_def ds_get_transition_def ds_new_def)
qed

text \<open>Either an existing state is returned and nothing changes, or a state is created and queued.\<close>

definition created :: "config list \<Rightarrow> det_state \<Rightarrow> det_state \<Rightarrow> bool" where
  "created S = (\<lambda>(d, M, Q) (d', M', Q').
     (\<exists>s. (\<forall>i. ds_get_transition i s = None) \<and> d' = d\<lparr>df_states := df_states d @ [s]\<rparr> \<and>
       set M' = insert (S, length (df_states d)) (set M) \<and> Q' = Q @ [S] \<and> S \<notin> fst ` set M))"

lemma create_or_get_total:
  assumes n: "nfa_small n" and inv: "det_inv n (d, M, Q)"
    and S: "set_valid n S" "eps_closed n (states_of S)"
  shows "\<exists>q reg_map d' M' Q'. create_or_get_dfa_state n S (d, M, Q) = Inr ((q, reg_map), (d', M', Q')) \<and>
    det_inv n (d', M', Q') \<and> ((d', M', Q') = (d, M, Q) \<or> created S (d, M, Q) (d', M', Q')) \<and>
    (\<exists>S'. (S', q) \<in> set M' \<and> states_of S \<subseteq> states_of S' \<and> (untagged n \<longrightarrow> states_of S' \<subseteq> states_of S))"
proof (cases "smap_find (lex_less (config_less n)) S M")
  case (Some q)
  from config_set_order.find_mem [OF Some] obtain S' where
    S': "(S', q) \<in> set M" "map (config_key n) S' = map (config_key n) S" by (elim exE conjE)
  then have "set_valid n S'" using inv by (auto simp: det_inv_def)
  then have "states_of S' = states_of S"
    using states_of_keys [OF n set_valid_ok] S(1) arg_cong [OF S'(2), of set] by simp
  with Some S' inv show ?thesis by (auto simp: create_or_get_dfa_state_def)
next
  case none: None
  have "\<forall>(S', q) \<in> set M. set_valid n S'" using inv by (auto simp: det_inv_def)
  from find_mapping_total [OF n S(1) this] obtain x where x: "find_mapping S M = Inr x"
    "\<And>q reg_map. x = Some (q, reg_map) \<Longrightarrow> \<exists>S'. (S', q) \<in> set M \<and> states_of S \<subseteq> states_of S' \<and>
      (untagged n \<longrightarrow> states_of S' \<subseteq> states_of S)" by blast
  show ?thesis
  proof (cases x)
    case (Some y)
    obtain q reg_map where y: "y = (q, reg_map)" by (cases y)
    with x(1) Some none
    have "create_or_get_dfa_state n S (d, M, Q) = Inr ((q, Some reg_map), (d, M, Q))"
      by (simp add: create_or_get_dfa_state_def)
    with inv x(2) [OF Some [unfolded y]] show ?thesis by blast
  next
    case None
    from new_state_total [OF inv S(1)] obtain s where s:
      "dfa_new_state n S (df_tag_id_to_final_reg_id d) d =
        Inr (length (df_states d), d\<lparr>df_states := df_states d @ [s]\<rparr>)"
      "ds_matching_variable_ids s = matching_ids n S" "\<forall>i. ds_get_transition i s = None" by blast
    let ?d = "d\<lparr>df_states := df_states d @ [s]\<rparr>"
    let ?M = "smap_insert (lex_less (config_less n)) S (length (df_states d)) M"
    have new: "map (config_key n) S \<notin> map (config_key n) ` fst ` set M"
      using none by (simp only: config_set_order.find_None) simp
    have setM: "set ?M = insert (S, length (df_states d)) (set M)"
      by (rule config_set_order.insert_map_new [OF new])
    have old: "q < length (df_states d)" if "(S', q) \<in> set M" for S' q
      using inv that by (rule det_inv_bound)
    have ordM: "config_set_order.ordered n (map fst ?M)"
      by (rule config_set_order.insert_map_ordered) (use inv in \<open>simp add: det_inv_def\<close>)
    have "distinct ?M" using config_set_order.ordered_distinct [OF ordM] by (simp add: distinct_map)
    moreover have "inj_on snd (set ?M)"
    proof -
      have "inj_on snd (set M)" using inv by (simp add: det_inv_def distinct_map)
      then show ?thesis unfolding setM by (auto simp: inj_on_def dest: old)
    qed
    ultimately have "distinct (map snd ?M)" by (simp add: distinct_map)
    moreover have "S \<notin> fst ` set M" using new by blast
    moreover have "snd ` set ?M = {..<length (df_states ?d)}"
      using inv by (auto simp: setM det_inv_def less_Suc_eq)
    moreover have "\<forall>(S', q) \<in> set ?M. set_valid n S' \<and> eps_closed n (states_of S') \<and>
        ds_matching_variable_ids (df_states ?d ! q) = matching_ids n S'"
      unfolding setM using inv old S s(2) by (auto simp: det_inv_def nth_append)
    ultimately have "det_inv n (?d, ?M, Q @ [S])"
      using inv ordM by (auto simp: det_inv_def setM)
    moreover have "created S (d, M, Q) (?d, ?M, Q @ [S])"
      using s(3) setM \<open>S \<notin> fst ` set M\<close> by (auto simp: created_def)
    moreover have "create_or_get_dfa_state n S (d, M, Q) =
        Inr ((length (df_states d), None), (?d, ?M, Q @ [S]))"
      using none None x(1) s(1) by (simp add: create_or_get_dfa_state_def)
    ultimately show ?thesis using setM by blast
  qed
qed

text \<open>
  The invariant of the loop: states of queued sets have no transitions yet, the transitions of
  the others lead where they should.
\<close>

definition explored :: "nfa \<Rightarrow> dfa \<Rightarrow> (config list \<times> nat) list \<Rightarrow> config list \<times> nat \<Rightarrow> bool" where
  "explored n d M = (\<lambda>(S, q). \<forall>i. link_at n M (succ_states n (states_of S) i) (dfa_trans d q i))"

definition loop_inv :: "nfa \<Rightarrow> det_state \<Rightarrow> bool" where
  "loop_inv n = (\<lambda>(d, M, Q). det_inv n (d, M, Q) \<and>
     (\<forall>(S, q) \<in> set M. if S \<in> set Q then \<forall>i. dfa_trans d q i = None else explored n d M (S, q)))"

text \<open>
  The same while the transitions of the state \<open>q0\<close> of the set \<open>S0\<close> are being added; those on
  the bytes of \<open>seen\<close> have been.
\<close>

definition mid_inv :: "nfa \<Rightarrow> config list \<Rightarrow> nat \<Rightarrow> nat set \<Rightarrow> det_state \<Rightarrow> bool" where
  "mid_inv n S0 q0 seen = (\<lambda>(d, M, Q). det_inv n (d, M, Q) \<and> (S0, q0) \<in> set M \<and> S0 \<notin> set Q \<and>
     (\<forall>(S, q) \<in> set M. q \<noteq> q0 \<longrightarrow>
        (if S \<in> set Q then \<forall>i. dfa_trans d q i = None else explored n d M (S, q))) \<and>
     (\<forall>i. if i \<in> seen then link_at n M (succ_states n (states_of S0) i) (dfa_trans d q0 i)
          else dfa_trans d q0 i = None))"

lemma dfa_trans_add:
  "q0 < length (df_states d) \<Longrightarrow>
     dfa_trans (dfa_add_byte_transition q0 i t d) q j = (if q = q0 \<and> j = i then Some t else dfa_trans d q j)"
  by (auto simp: dfa_trans_def dfa_add_byte_transition_def ds_get_transition_def ds_add_byte_transition_def
      nth_list_update)

lemma det_inv_add:
  assumes "det_inv n (d, M, Q)"
  shows "det_inv n (dfa_add_byte_transition q0 i t d, M, Q)"
proof -
  have "ds_matching_variable_ids (df_states (dfa_add_byte_transition q0 i t d) ! q) =
      ds_matching_variable_ids (df_states d ! q)" if "q < length (df_states d)" for q
    using that
    by (cases "q = q0") (simp_all add: dfa_add_byte_transition_def ds_add_byte_transition_def)
  moreover have "q < length (df_states d)" if "(S, q) \<in> set M" for S q
    using assms that by (rule det_inv_bound)
  ultimately show ?thesis
    using assms by (auto simp: det_inv_def dfa_add_byte_transition_def)
qed

lemma created_trans:
  "created S (d, M, Q) (d', M', Q') \<Longrightarrow>
     (q < length (df_states d) \<longrightarrow> dfa_trans d' q i = dfa_trans d q i) \<and> dfa_trans d' (length (df_states d)) i = None"
  by (auto simp: created_def dfa_trans_def nth_append)

lemma mid_inv_create:
  assumes mid: "mid_inv n S0 q0 seen (d, M, Q)"
    and c: "(d', M', Q') = (d, M, Q) \<or> created S (d, M, Q) (d', M', Q')"
    and inv': "det_inv n (d', M', Q')"
  shows "mid_inv n S0 q0 seen (d', M', Q')" "set M \<subseteq> set M'"
proof -
  have "mid_inv n S0 q0 seen (d', M', Q') \<and> set M \<subseteq> set M'"
  proof (cases "(d', M', Q') = (d, M, Q)")
    case True
    with mid show ?thesis by simp
  next
    case False
    with c have cr: "created S (d, M, Q) (d', M', Q')" by blast
    then have M': "set M' = insert (S, length (df_states d)) (set M)" and Q': "Q' = Q @ [S]"
      and new: "S \<notin> fst ` set M" by (auto simp: created_def)
    have old: "q < length (df_states d)" if "(T, q) \<in> set M" for T q
      using mid that by (auto simp: mid_inv_def intro: det_inv_bound)
    have same: "dfa_trans d' q i = dfa_trans d q i" if "(T, q) \<in> set M" for T q i
      using created_trans [OF cr] old [OF that] by blast
    have notS: "T \<noteq> S" if "(T, q) \<in> set M" for T q using new that by force
    have sub: "set M \<subseteq> set M'" using M' by blast
    have "explored n d' M' (T, q)" if "(T, q) \<in> set M" "explored n d M (T, q)" for T q
      using that same [OF that(1)] link_at_mono [OF _ sub] by (simp add: explored_def)
    moreover have "dfa_trans d' (length (df_states d)) i = None" for i using created_trans [OF cr] by blast
    ultimately have others: "\<forall>(T, q) \<in> set M'. q \<noteq> q0 \<longrightarrow>
        (if T \<in> set Q' then \<forall>i. dfa_trans d' q i = None else explored n d' M' (T, q))"
      using mid same unfolding M' Q' by (auto simp: mid_inv_def dest: notS split: if_splits)
    have "(S0, q0) \<in> set M" "S0 \<notin> set Q" using mid by (auto simp: mid_inv_def)
    note S0 = this
    have "if i \<in> seen then link_at n M' (succ_states n (states_of S0) i) (dfa_trans d' q0 i)
        else dfa_trans d' q0 i = None" for i
    proof -
      have "if i \<in> seen then link_at n M (succ_states n (states_of S0) i) (dfa_trans d q0 i)
        else dfa_trans d q0 i = None" using mid by (simp add: mid_inv_def)
      then show ?thesis
        using same [OF S0(1)] link_at_mono [OF _ sub] by (simp split: if_splits)
    qed
    moreover have "(S0, q0) \<in> set M'" "S0 \<notin> set Q'"
      using S0 sub notS [OF S0(1)] Q' by auto
    ultimately show ?thesis using inv' others sub by (simp add: mid_inv_def)
  qed
  then show "mid_inv n S0 q0 seen (d', M', Q')" "set M \<subseteq> set M'" by blast+
qed

lemma add_dfa_transition_total:
  assumes n: "nfa_small n" and mid: "mid_inv n S0 q0 seen (d, M, Q)"
    and D: "set_valid n D" "states_of D = succ_states n (states_of S0) i" and i: "i \<notin> seen"
  shows "\<exists>st'. add_dfa_transition n ord q0 (i, ops, D) (d, M, Q) = Inr st' \<and>
    mid_inv n S0 q0 (insert i seen) st' \<and>
    (\<exists>d1 M1 Q1. st' = (d1, M1, Q1) \<and> set M \<subseteq> set M1 \<and> (set M1 = set M \<longrightarrow> Q1 = Q))"
proof -
  have inv: "det_inv n (d, M, Q)" using mid by (simp add: mid_inv_def)
  have "eps_closed n (states_of D)" by (simp add: D(2))
  from create_or_get_total [OF n inv D(1) this] obtain q reg_map d1 M1 Q1 where
    cr: "create_or_get_dfa_state n D (d, M, Q) = Inr ((q, reg_map), (d1, M1, Q1))"
    and inv1: "det_inv n (d1, M1, Q1)"
    and step: "(d1, M1, Q1) = (d, M, Q) \<or> created D (d, M, Q) (d1, M1, Q1)"
    and link: "\<exists>S'. (S', q) \<in> set M1 \<and> states_of D \<subseteq> states_of S' \<and>
      (untagged n \<longrightarrow> states_of S' \<subseteq> states_of D)" by blast
  note mid1 = mid_inv_create [OF mid step inv1]
  let ?t = "\<lparr>dt_reg_ops = (case reg_map of None \<Rightarrow> ops
      | Some reg_map \<Rightarrow> reassign_transition_reg_ops ord reg_map ops), dt_dest_state = q\<rparr>"
  let ?d = "dfa_add_byte_transition q0 i ?t d1"
  have run: "add_dfa_transition n ord q0 (i, ops, D) (d, M, Q) = Inr (?d, M1, Q1)"
    using cr by (simp add: add_dfa_transition_def Let_def)
  have q0: "q0 < length (df_states d1)" using mid1(1) by (auto simp: mid_inv_def intro: det_inv_bound)
  have tr: "dfa_trans ?d p j = (if p = q0 \<and> j = i then Some ?t else dfa_trans d1 p j)" for p j
    by (rule dfa_trans_add [OF q0])
  have "link_at n M1 (succ_states n (states_of S0) i) (Some ?t)"
    using link by (simp add: link_at_def D(2))
  moreover have "if j \<in> seen then link_at n M1 (succ_states n (states_of S0) j) (dfa_trans d1 q0 j)
      else dfa_trans d1 q0 j = None" for j
    using mid1(1) by (simp add: mid_inv_def)
  ultimately have "\<forall>j. if j \<in> insert i seen
      then link_at n M1 (succ_states n (states_of S0) j) (dfa_trans ?d q0 j) else dfa_trans ?d q0 j = None"
    using i by (simp add: tr)
  moreover have "\<forall>(S, q) \<in> set M1. q \<noteq> q0 \<longrightarrow>
      (if S \<in> set Q1 then \<forall>i. dfa_trans ?d q i = None else explored n ?d M1 (S, q))"
    using mid1(1) by (auto simp: mid_inv_def explored_def tr split: if_splits)
  ultimately have "mid_inv n S0 q0 (insert i seen) (?d, M1, Q1)"
    using mid1(1) det_inv_add [OF inv1] by (simp add: mid_inv_def)
  moreover have "set M1 = set M \<longrightarrow> Q1 = Q"
    using step by (auto simp: created_def) (metis fst_conv image_eqI insertI1)
  ultimately show ?thesis using run mid1(2) by blast
qed

lemma add_transitions_total:
  assumes n: "nfa_small n"
  shows "num.ordered (map fst m) \<Longrightarrow> \<forall>(i, ops, D) \<in> set m. set_valid n D \<and> i \<notin> seen \<and>
      states_of D = succ_states n (states_of S0) i \<Longrightarrow> mid_inv n S0 q0 seen (d, M, Q) \<Longrightarrow>
    \<exists>d' M' Q'. rfold (add_dfa_transition n ord q0) m (d, M, Q) = Inr (d', M', Q') \<and>
      mid_inv n S0 q0 (seen \<union> fst ` set m) (d', M', Q') \<and> set M \<subseteq> set M' \<and> (set M' = set M \<longrightarrow> Q' = Q)"
proof (induction m arbitrary: seen d M Q)
  case Nil
  then show ?case by simp
next
  case (Cons e m)
  obtain i ops D where e: "e = (i, ops, D)" by (cases e) auto
  from add_dfa_transition_total [OF n Cons.prems(3), of D i ord ops] Cons.prems(2) e
  obtain d1 M1 Q1 where s1: "add_dfa_transition n ord q0 e (d, M, Q) = Inr (d1, M1, Q1)"
    "mid_inv n S0 q0 (insert i seen) (d1, M1, Q1)" "set M \<subseteq> set M1" "set M1 = set M \<longrightarrow> Q1 = Q"
    by auto
  have "\<forall>(j, ops, D) \<in> set m. set_valid n D \<and> j \<notin> insert i seen \<and>
      states_of D = succ_states n (states_of S0) j"
    using Cons.prems(1,2) e by force
  with Cons.IH [of "insert i seen" d1 M1 Q1] Cons.prems(1) s1(2) e obtain d' M' Q' where
    "rfold (add_dfa_transition n ord q0) m (d1, M1, Q1) = Inr (d', M', Q')"
    "mid_inv n S0 q0 (insert i seen \<union> fst ` set m) (d', M', Q')" "set M1 \<subseteq> set M'"
    "set M' = set M1 \<longrightarrow> Q' = Q1" by auto
  with s1 e show ?case by (intro exI [of _ d'] exI [of _ M'] exI [of _ Q']) auto
qed

lemma set_handler_inv [simp]:
  "loop_inv n (d\<lparr>df_reg_handler := h\<rparr>, M, Q) = loop_inv n (d, M, Q)"
  "mid_inv n S q seen (d\<lparr>df_reg_handler := h\<rparr>, M, Q) = mid_inv n S q seen (d, M, Q)"
  by (simp_all add: loop_inv_def mid_inv_def det_inv_def explored_def dfa_trans_def)

text \<open>One round of the loop.\<close>

lemma loop_round:
  assumes n: "nfa_small n" and inv: "loop_inv n (d, M, S # Q)"
  obtains q where "smap_at (lex_less (config_less n)) S M = Inr q"
    "\<forall>h m. get_transitions n (nf_tag_id_generator n) S (df_reg_handler d) = Some (h, m) \<longrightarrow>
      (\<exists>d' M' Q'. rfold (add_dfa_transition n ord q) m (d\<lparr>df_reg_handler := h\<rparr>, M, Q) = Inr (d', M', Q') \<and>
        loop_inv n (d', M', Q') \<and> set M \<subseteq> set M' \<and> (set M' = set M \<longrightarrow> Q' = Q))"
proof -
  have det: "det_inv n (d, M, S # Q)" using inv by (simp add: loop_inv_def)
  then have "S \<in> fst ` set M" by (auto simp: det_inv_def)
  then obtain q where q: "(S, q) \<in> set M" by (auto simp only: image_iff prod.collapse fst_conv)
  have "smap_find (lex_less (config_less n)) S M = Some q"
    using det q config_set_order.find_iff [of n M S q] by (auto simp only: det_inv_def split_conv)
  then have at: "smap_at (lex_less (config_less n)) S M = Inr q" by (simp add: smap_at_def)
  have valid: "set_valid n S" using det q by (auto simp: det_inv_def)
  have others: "p \<noteq> q \<Longrightarrow> (if T \<in> set Q then \<forall>i. dfa_trans d p i = None else explored n d M (T, p))"
    and none: "dfa_trans d q i = None" if "(T, p) \<in> set M" for T p i
  proof -
    have ord: "config_set_order.ordered n (map fst M)" using det by (simp add: det_inv_def)
    have "distinct (map fst M)"
      using config_set_order.ordered_distinct [OF ord] unfolding distinct_map by (rule conjunct1)
    then have inj: "inj_on fst (set M)" by (simp add: distinct_map)
    show "dfa_trans d q i = None" using inv q by (auto simp: loop_inv_def)
    assume "p \<noteq> q"
    then have "T \<noteq> S" using inj_onD [OF inj, of "(T, p)" "(S, q)"] that q by auto
    then show "if T \<in> set Q then \<forall>i. dfa_trans d p i = None else explored n d M (T, p)"
      using inv that by (auto simp: loop_inv_def)
  qed
  have "mid_inv n S q {} (d, M, Q)"
    using det q others none [OF q] by (auto simp: mid_inv_def det_inv_def)
  then have mid: "mid_inv n S q {} (d\<lparr>df_reg_handler := h\<rparr>, M, Q)" for h by simp
  show thesis
  proof (rule that [OF at], intro allI impI)
    fix h m
    assume m: "get_transitions n (nf_tag_id_generator n) S (df_reg_handler d) = Some (h, m)"
    note ok = get_transitions_ok [OF n valid m]
    have ord: "num.ordered (map fst m)" using ok(1) by (simp add: transitions_ok_def)
    have D: "states_of D = succ_states n (states_of S) i" "set_valid n D" if "(i, ops, D) \<in> set m" for i ops D
    proof -
      have "smap_find (<) i m = Some (ops, D)" using num.find_iff [OF ord, of i "(ops, D)"] that by auto
      then show "states_of D = succ_states n (states_of S) i"
        using ok(2) [of i] by (simp add: states_at_def)
      show "set_valid n D" using ok(1) that by (auto simp: transitions_ok_def)
    qed
    from add_transitions_total [OF n ord _ mid [of h], of ord] D obtain d' M' Q' where
      r: "rfold (add_dfa_transition n ord q) m (d\<lparr>df_reg_handler := h\<rparr>, M, Q) = Inr (d', M', Q')"
      "mid_inv n S q (fst ` set m) (d', M', Q')" "set M \<subseteq> set M'" "set M' = set M \<longrightarrow> Q' = Q"
      by fastforce
    have "link_at n M' (succ_states n (states_of S) i) (dfa_trans d' q i)" for i
    proof (cases "i \<in> fst ` set m")
      case True
      with r(2) show ?thesis by (auto simp: mid_inv_def)
    next
      case False
      then have "smap_find (<) i m = None" using num.find_None [of i m] by simp
      then have "succ_states n (states_of S) i = {}" using ok(2) [of i] by (simp add: states_at_def)
      moreover have "dfa_trans d' q i = None" using r(2) False by (auto simp: mid_inv_def)
      ultimately show ?thesis by (simp add: link_at_def)
    qed
    then have new: "explored n d' M' (S, q)" by (simp add: explored_def)
    have "inj_on snd (set M')" using r(2) by (simp add: mid_inv_def det_inv_def distinct_map)
    note snd_inj = inj_onD [OF this]
    have "if T \<in> set Q' then \<forall>i. dfa_trans d' p i = None else explored n d' M' (T, p)"
      if "(T, p) \<in> set M'" for T p
    proof (cases "p = q")
      case True
      have "(S, q) \<in> set M'" "S \<notin> set Q'" using r(2) by (auto simp: mid_inv_def)
      with snd_inj [of "(T, p)" "(S, q)"] that True new show ?thesis by simp
    next
      case False
      with r(2) that show ?thesis by (auto simp: mid_inv_def)
    qed
    then have "loop_inv n (d', M', Q')"
      using r(2) by (auto simp: mid_inv_def loop_inv_def)
    with r show "\<exists>d' M' Q'. rfold (add_dfa_transition n ord q) m (d\<lparr>df_reg_handler := h\<rparr>, M, Q) =
        Inr (d', M', Q') \<and> loop_inv n (d', M', Q') \<and> set M \<subseteq> set M' \<and> (set M' = set M \<longrightarrow> Q' = Q)"
      by blast
  qed
qed

section \<open>The whole determinization\<close>

lemma generate_loop_inv:
  assumes "generate_loop n ord st = Some r" "nfa_small n" "loop_inv n st"
  shows "\<exists>d M. r = Inr d \<and> loop_inv n (d, M, []) \<and> set (fst (snd st)) \<subseteq> set M"
proof -
  have "nfa_small n \<and> loop_inv n st \<longrightarrow>
      (\<exists>d M. r = Inr d \<and> loop_inv n (d, M, []) \<and> set (fst (snd st)) \<subseteq> set M)"
  proof (rule generate_loop.raw_induct [OF _ assms(1),
        where P = "\<lambda>n ord st r. nfa_small n \<and> loop_inv n st \<longrightarrow>
          (\<exists>d M. r = Inr d \<and> loop_inv n (d, M, []) \<and> set (fst (snd st)) \<subseteq> set M)"])
    fix loop n ord st r
    assume IH: "\<And>n ord st r. loop n ord st = Some r \<Longrightarrow> nfa_small n \<and> loop_inv n st \<longrightarrow>
        (\<exists>d M. r = Inr d \<and> loop_inv n (d, M, []) \<and> set (fst (snd st)) \<subseteq> set M)"
      and run: "(case st of (d, dfa_states, unexplored_sets) \<Rightarrow>
       case unexplored_sets of
         [] \<Rightarrow> Some (Inr d)
       | config_set # rest \<Rightarrow>
           (case smap_at (lex_less (config_less n)) config_set dfa_states of
              Inl e \<Rightarrow> Some (Inl e)
            | Inr dfa_state \<Rightarrow>
                (case get_transitions n (nf_tag_id_generator n) config_set (df_reg_handler d) of
                   None \<Rightarrow> None
                 | Some (h, transitions) \<Rightarrow>
                     (case rfold (add_dfa_transition n ord dfa_state) transitions
                             (d\<lparr>df_reg_handler := h\<rparr>, dfa_states, rest) of
                        Inl e \<Rightarrow> Some (Inl e)
                      | Inr st' \<Rightarrow> loop n ord st')))) = Some r"
    show "nfa_small n \<and> loop_inv n st \<longrightarrow>
        (\<exists>d M. r = Inr d \<and> loop_inv n (d, M, []) \<and> set (fst (snd st)) \<subseteq> set M)"
    proof
      assume n: "nfa_small n \<and> loop_inv n st"
      obtain d M Q where st: "st = (d, M, Q)" by (cases st) auto
      show "\<exists>d M. r = Inr d \<and> loop_inv n (d, M, []) \<and> set (fst (snd st)) \<subseteq> set M"
      proof (cases Q)
        case Nil
        with run n st show ?thesis by auto
      next
        case (Cons S rest)
        with n st have "nfa_small n" "loop_inv n (d, M, S # rest)" by simp_all
        then obtain q where q: "smap_at (lex_less (config_less n)) S M = Inr q"
          "\<forall>h m. get_transitions n (nf_tag_id_generator n) S (df_reg_handler d) = Some (h, m) \<longrightarrow>
            (\<exists>d' M' Q'. rfold (add_dfa_transition n ord q) m (d\<lparr>df_reg_handler := h\<rparr>, M, rest) =
                Inr (d', M', Q') \<and> loop_inv n (d', M', Q') \<and> set M \<subseteq> set M' \<and>
              (set M' = set M \<longrightarrow> Q' = rest))"
          by (rule loop_round [where ord = ord])
        from run st Cons q(1) obtain h m where
          g: "get_transitions n (nf_tag_id_generator n) S (df_reg_handler d) = Some (h, m)"
          by (auto split: option.splits)
        from q(2) [rule_format, OF g] obtain d' M' Q' where
          r: "rfold (add_dfa_transition n ord q) m (d\<lparr>df_reg_handler := h\<rparr>, M, rest) = Inr (d', M', Q')"
          "loop_inv n (d', M', Q')" "set M \<subseteq> set M'" by blast
        from run st Cons q(1) g r(1) have "loop n ord (d', M', Q') = Some r" by simp
        from IH [OF this] n r st show ?thesis by fastforce
      qed
    qed
  qed
  with assms show ?thesis by blast
qed

lemma tag_register_map_keys:
  "fst ` set (fold (\<lambda>i. smap_insert (<) i (f i)) ks m) = set ks \<union> fst ` set (m :: (nat \<times> 'v) list)"
  by (induction ks arbitrary: m) (simp_all add: num.insert_map_keys [simplified])

lemma start_state:
  assumes n: "nfa_small n"
    and init: "initialize_registers (nf_tag_id_generator n) rh_new = (h, initial, final)"
    and S: "spontaneous_closure n \<lparr>dc_nfa_state = nf_root n, dc_tag_id_to_reg_ids = initial,
              dc_history = [], dc_lookahead = []\<rparr> = Some S"
  shows "\<exists>q d M. create_or_get_dfa_state n S
      (dfa_empty\<lparr>df_reg_handler := h, df_tag_id_to_final_reg_id := final\<rparr>, [], []) = Inr (q, d, M, [S]) \<and>
    loop_inv n (d, M, [S]) \<and> set M = {(S, 0)} \<and> set_valid n S \<and> states_of S = eps_reach n (nf_root n)"
proof -
  let ?c = "\<lparr>dc_nfa_state = nf_root n, dc_tag_id_to_reg_ids = initial, dc_history = [], dc_lookahead = []\<rparr>"
  let ?d = "dfa_empty\<lparr>df_reg_handler := h, df_tag_id_to_final_reg_id := final\<rparr>"
  note keys = tag_register_map_keys [where m = "[] :: (nat \<times> nat) list"]
  have "initial = fold (\<lambda>i. smap_insert (<) i i) [0..<nf_tag_id_generator n] []"
    "final = fold (\<lambda>i. smap_insert (<) i (u32 (nf_tag_id_generator n + i))) [0..<nf_tag_id_generator n] []"
    using init by (simp_all add: initialize_registers_def)
  then have regs: "fst ` set initial = {..<nf_tag_id_generator n}"
    "fst ` set final = {..<nf_tag_id_generator n}"
    by (simp_all only: keys) (simp_all add: lessThan_atLeast0)
  have "config_valid n ?c"
    using n regs by (auto simp: config_valid_def config_ok_def nfa_small_def nfa_wf_def)
  note cl = closure_valid [OF n this S]
  have inv: "det_inv n (?d, [], [])"
    using regs(2) by (auto simp: det_inv_def dfa_empty_def)
  have "eps_closed n (states_of S)" using cl(2) by simp
  from create_or_get_total [OF n inv cl(1) this] obtain q reg_map d' M' Q' where
    c: "create_or_get_dfa_state n S (?d, [], []) = Inr ((q, reg_map), (d', M', Q'))"
    "det_inv n (d', M', Q')" "(d', M', Q') = (?d, [], []) \<or> created S (?d, [], []) (d', M', Q')"
    "\<exists>S'. (S', q) \<in> set M'" by blast
  then have cr: "created S (?d, [], []) (d', M', Q')" by auto
  then have M': "set M' = {(S, 0)}" "Q' = [S]" by (auto simp: created_def dfa_empty_def)
  have "dfa_trans d' 0 i = None" for i using created_trans [OF cr] by (simp add: dfa_empty_def)
  then have "loop_inv n (d', M', Q')" using c(2) M' by (simp add: loop_inv_def)
  with c(1) M' cl(1,2) show ?thesis by auto
qed

lemma loop_inv_num_regs [simp]:
  "loop_inv n (d\<lparr>df_num_regs := k\<rparr>, M, Q) = loop_inv n (d, M, Q)"
  by (simp add: loop_inv_def det_inv_def explored_def dfa_trans_def)

lemma dfa_generate_result:
  assumes "dfa_generate ord n = Some r" "nfa_small n"
  shows "\<exists>d M S. r = Inr d \<and> loop_inv n (d, M, []) \<and> (S, 0) \<in> set M \<and>
    states_of S = eps_reach n (nf_root n)"
proof -
  obtain h initial final where
    init: "initialize_registers (nf_tag_id_generator n) rh_new = (h, initial, final)"
    by (cases "initialize_registers (nf_tag_id_generator n) rh_new") auto
  from assms(1) init obtain S where
    S: "spontaneous_closure n \<lparr>dc_nfa_state = nf_root n, dc_tag_id_to_reg_ids = initial,
          dc_history = [], dc_lookahead = []\<rparr> = Some S"
    by (auto simp: dfa_generate_def Let_def split: option.splits)
  from start_state [OF assms(2) init S] obtain q d0 M0 where
    s0: "create_or_get_dfa_state n S (dfa_empty\<lparr>df_reg_handler := h,
        df_tag_id_to_final_reg_id := final\<rparr>, [], []) = Inr (q, d0, M0, [S])"
    "loop_inv n (d0, M0, [S])" "set M0 = {(S, 0)}" "states_of S = eps_reach n (nf_root n)" by blast
  from assms(1) init S s0(1) obtain r' where
    r': "generate_loop n ord (d0, M0, [S]) = Some r'"
    "r = rbind r' (\<lambda>d. Inr (d\<lparr>df_num_regs := rh_get_num_regs (df_reg_handler d)\<rparr>))"
    by (auto simp: dfa_generate_def Let_def)
  from generate_loop_inv [OF r'(1) assms(2) s0(2)] obtain d M where
    "r' = Inr d" "loop_inv n (d, M, [])" "set M0 \<subseteq> set M" by auto
  with r'(2) s0(3,4) show ?thesis by (intro exI) auto
qed

section \<open>Runs of the result\<close>

lemma run_simulates:
  assumes inv: "loop_inv n (d, M, [])"
  shows "(S, q) \<in> set M \<Longrightarrow> X \<subseteq> states_of S \<Longrightarrow> nfa_run_set n X w \<noteq> {} \<Longrightarrow>
    \<exists>q' S'. dfa_run d q w = Some q' \<and> (S', q') \<in> set M \<and> nfa_run_set n X w \<subseteq> states_of S'"
proof (induction w arbitrary: S q X)
  case Nil
  then show ?case by auto
next
  case (Cons c w)
  have mono: "nfa_run_set n {} w = {}" for w by (induction w) (simp_all add: succ_states_def)
  have "succ_states n X c \<noteq> {}" using Cons.prems(3) mono by auto
  moreover have sub: "succ_states n X c \<subseteq> succ_states n (states_of S) c"
    using Cons.prems(2) by (auto simp: succ_states_def)
  moreover have "link_at n M (succ_states n (states_of S) c) (dfa_trans d q c)"
    using inv Cons.prems(1) by (auto simp: loop_inv_def explored_def)
  ultimately obtain t S' where t: "ds_get_transition c (df_states d ! q) = Some t"
    "(S', dt_dest_state t) \<in> set M" "succ_states n X c \<subseteq> states_of S'"
    by (auto simp: link_at_def dfa_trans_def split: option.splits)
  have "c < cSizeOfByte" using \<open>succ_states n X c \<noteq> {}\<close> by (auto simp: succ_states_def nfa_edge_def)
  with Cons.IH [OF t(2,3)] Cons.prems(3) t(1) show ?case by simp
qed

lemma untagged_run:
  assumes inv: "loop_inv n (d, M, [])" and n: "untagged n"
  shows "(S, q) \<in> set M \<Longrightarrow> dfa_run d q w = Some q' \<Longrightarrow>
    \<exists>S'. (S', q') \<in> set M \<and> states_of S' = nfa_run_set n (states_of S) w"
proof (induction w arbitrary: S q)
  case Nil
  then show ?case by auto
next
  case (Cons c w)
  then obtain t where t: "ds_get_transition c (df_states d ! q) = Some t"
    "dfa_run d (dt_dest_state t) w = Some q'" by (auto split: option.splits if_splits)
  have "link_at n M (succ_states n (states_of S) c) (dfa_trans d q c)"
    using inv Cons.prems(1) by (auto simp: loop_inv_def explored_def)
  then have "link_at n M (succ_states n (states_of S) c) (Some t)" using t(1) by (simp add: dfa_trans_def)
  then obtain S1 where S1: "(S1, dt_dest_state t) \<in> set M" "states_of S1 = succ_states n (states_of S) c"
    using n by (auto simp: link_at_def)
  from Cons.IH [OF S1(1) t(2)] S1(2) show ?case by simp
qed

lemma matching_iff:
  assumes inv: "loop_inv n (d, M, [])" and S: "(S, q) \<in> set M"
  shows "v \<in> set (ds_matching_variable_ids (df_states d ! q)) \<longleftrightarrow>
    (\<exists>t \<in> states_of S. nfa_accepting n t = Some v)"
proof -
  have "set_valid n S" "ds_matching_variable_ids (df_states d ! q) = matching_ids n S"
    using inv S by (auto simp: loop_inv_def det_inv_def)
  then show ?thesis using set_valid_ok [of n S]
    by (auto simp: matching_ids_def states_of_def nfa_accepting_def config_ok_def)
qed

section \<open>Automata without tags\<close>

lemma untagged_closure_total:
  assumes n: "nfa_small n" "untagged n" and c: "config_valid n c"
  shows "\<exists>S. spontaneous_closure n c = Some S"
proof -
  have wf: "nfa_wf n" and ok: "config_ok n c" using n c by (auto simp: nfa_small_def config_valid_def)
  show ?thesis
  proof (rule closure_total [OF wf ok])
    fix d
    assume "d \<in> reachable_configs n c"
    then have "set (dc_lookahead d) \<subseteq> set (dc_lookahead c) \<union> nfa_tag_ops n"
      using steps_lookahead wf ok by (simp add: reachable_configs_def)
    then show "length (dc_lookahead d) \<le> 0"
      using n(2) c by (simp add: untagged_def config_valid_def)
  qed
qed

lemma untagged_transitions_total:
  assumes n: "nfa_small n" "untagged n"
  shows "\<forall>(c, i, s) \<in> set ts. config_valid n c \<and> s < nfa_size n \<Longrightarrow>
    \<exists>r. transitions_loop n k ts h tags m = Some r"
proof (induction ts arbitrary: h tags m)
  case Nil
  then show ?case by simp
next
  case (Cons e ts)
  obtain c i s where e: "e = (c, i, s)" by (cases e)
  let ?c = "\<lparr>dc_nfa_state = s, dc_tag_id_to_reg_ids = dc_tag_id_to_reg_ids c,
    dc_history = dc_lookahead c, dc_lookahead = []\<rparr>"
  have "config_valid n ?c" using Cons.prems e by (auto simp: config_valid_def config_ok_def)
  with untagged_closure_total [OF n] obtain cl where "spontaneous_closure n ?c = Some cl" by blast
  with Cons.IH Cons.prems e show ?case by (simp split: prod.split)
qed

lemma untagged_get_transitions:
  assumes n: "nfa_small n" "untagged n" and S: "set_valid n S"
  shows "\<exists>h' m. get_transitions n k S h = Some (h', m)"
proof -
  have "config_valid n c \<and> s < nfa_size n" if "(c, i, s) \<in> set (transition_triples n S)" for c i s
  proof -
    from that have c: "c \<in> set S" "i < cSizeOfByte"
      "s \<in> set (ns_bytes_transitions (nf_states n ! dc_nfa_state c) i)"
      by (auto simp: transition_triples_def)
    moreover have v: "config_valid n c" using S c by (simp add: set_valid_def)
    ultimately have "nfa_edge n (dc_nfa_state c) (Some i) s"
      by (auto simp: nfa_edge_def config_valid_def config_ok_def)
    then show ?thesis using v n(1) by (auto simp: nfa_small_def nfa_wf_def)
  qed
  then show ?thesis
    using untagged_transitions_total [OF n, of "transition_triples n S" k h "[]" "[]"]
    by (fastforce simp: get_transitions_def)
qed

text \<open>The sets that can occur are finite in number.\<close>

definition set_keys :: "nfa \<Rightarrow> config_key list set" where
  "set_keys n = {ks. set ks \<subseteq> (\<lambda>i. (i, [], [], [])) ` {..<nfa_size n} \<and> distinct ks}"

lemma finite_set_keys: "finite (set_keys n)"
  unfolding set_keys_def by (rule finite_subset_distinct) simp

lemma untagged_keys:
  assumes n: "nfa_small n" "untagged n" and S: "set_valid n S"
  shows "map (config_key n) S \<in> set_keys n"
proof -
  have "distinct (map (config_key n) S)"
    using S config_order.ordered_distinct by (simp add: set_valid_def)
  moreover have "config_key n c \<in> (\<lambda>i. (i, [], [], [])) ` {..<nfa_size n}" if "c \<in> set S" for c
    using S n that nfa_small_id [OF n(1)]
    by (auto simp: set_valid_def config_valid_def config_ok_def untagged_def config_key_def)
  ultimately show ?thesis by (auto simp: set_keys_def)
qed

definition keys_of :: "nfa \<Rightarrow> (config list \<times> nat) list \<Rightarrow> config_key list set" where
  "keys_of n M = (\<lambda>(S, q). map (config_key n) S) ` set M"

lemma keys_of_strict:
  assumes "det_inv n (d, M', Q)" "set M \<subset> set M'"
  shows "keys_of n M \<subset> keys_of n M'"
proof -
  have ord: "config_set_order.ordered n (map fst M')" using assms(1) by (simp add: det_inv_def)
  have "map (map (config_key n)) (map fst M') = map (\<lambda>(S, q). map (config_key n) S) M'"
    by auto
  with config_set_order.ordered_distinct [OF ord]
  have "distinct (map (\<lambda>(S, q). map (config_key n) S) M')" by (simp only:)
  then have "inj_on (\<lambda>(S, q). map (config_key n) S) (set M')" unfolding distinct_map by blast
  with assms(2) show ?thesis unfolding keys_of_def by (simp add: image_strict_mono)
qed

lemma untagged_loop_total:
  assumes n: "nfa_small n" "untagged n"
  shows "loop_inv n (d, M, Q) \<Longrightarrow> \<exists>r. generate_loop n ord (d, M, Q) = Some r"
proof (induction "(card (set_keys n - keys_of n M), length Q)" arbitrary: d M Q
    rule: wf_induct [OF wf_lex_prod [OF wf_less_than wf_less_than], case_names less])
  case less
  note IH = less(1) and inv = less(2)
  show ?case
  proof (cases Q)
    case Nil
    then show ?thesis by (subst generate_loop.simps) simp
  next
    case (Cons S rest)
    with inv have inv': "loop_inv n (d, M, S # rest)" by simp
    then obtain q where q: "smap_at (lex_less (config_less n)) S M = Inr q"
      "\<forall>h m. get_transitions n (nf_tag_id_generator n) S (df_reg_handler d) = Some (h, m) \<longrightarrow>
        (\<exists>d' M' Q'. rfold (add_dfa_transition n ord q) m (d\<lparr>df_reg_handler := h\<rparr>, M, rest) =
            Inr (d', M', Q') \<and> loop_inv n (d', M', Q') \<and> set M \<subseteq> set M' \<and>
          (set M' = set M \<longrightarrow> Q' = rest))"
      by (rule loop_round [OF n(1), where ord = ord])
    have "set_valid n S" using inv' by (auto simp: loop_inv_def det_inv_def)
    from untagged_get_transitions [OF n this] obtain h m where
      g: "get_transitions n (nf_tag_id_generator n) S (df_reg_handler d) = Some (h, m)" by blast
    with q(2) obtain d' M' Q' where
      r: "rfold (add_dfa_transition n ord q) m (d\<lparr>df_reg_handler := h\<rparr>, M, rest) = Inr (d', M', Q')"
      "loop_inv n (d', M', Q')" "set M \<subseteq> set M'" "set M' = set M \<longrightarrow> Q' = rest" by blast
    have "((card (set_keys n - keys_of n M'), length Q'), (card (set_keys n - keys_of n M), length Q))
        \<in> less_than <*lex*> less_than"
    proof (cases "set M' = set M")
      case True
      with r(4) Cons show ?thesis by (simp add: keys_of_def)
    next
      case False
      have det: "det_inv n (d', M', Q')" using r(2) by (simp add: loop_inv_def)
      then have "keys_of n M' \<subseteq> set_keys n"
        using untagged_keys [OF n] by (auto simp: keys_of_def det_inv_def)
      moreover have "keys_of n M \<subset> keys_of n M'"
        using False r(3) by (intro keys_of_strict [OF det]) blast
      ultimately have "card (set_keys n - keys_of n M') < card (set_keys n - keys_of n M)"
        by (intro psubset_card_mono) (auto simp: finite_set_keys)
      then show ?thesis by simp
    qed
    from IH [rule_format, OF this refl r(2)] obtain res where
      "generate_loop n ord (d', M', Q') = Some res" by blast
    with Cons q(1) g r(1) show ?thesis by (subst generate_loop.simps) simp
  qed
qed

lemma untagged_generate_total:
  assumes n: "nfa_small n" "untagged n"
  shows "\<exists>d. dfa_generate ord n = Some (Inr d)"
proof -
  obtain h initial final where
    init: "initialize_registers (nf_tag_id_generator n) rh_new = (h, initial, final)"
    by (cases "initialize_registers (nf_tag_id_generator n) rh_new") auto
  let ?c = "\<lparr>dc_nfa_state = nf_root n, dc_tag_id_to_reg_ids = initial, dc_history = [], dc_lookahead = []\<rparr>"
  have "initial = []" using init n(2) by (simp add: initialize_registers_def untagged_def)
  then have "config_valid n ?c"
    using n by (auto simp: config_valid_def config_ok_def nfa_small_def nfa_wf_def untagged_def)
  with untagged_closure_total [OF n] obtain S where S: "spontaneous_closure n ?c = Some S" by blast
  from start_state [OF n(1) init S] obtain q d0 M0 where
    s0: "create_or_get_dfa_state n S (dfa_empty\<lparr>df_reg_handler := h,
        df_tag_id_to_final_reg_id := final\<rparr>, [], []) = Inr (q, d0, M0, [S])"
    "loop_inv n (d0, M0, [S])" by blast
  from untagged_loop_total [OF n s0(2)] obtain r where "generate_loop n ord (d0, M0, [S]) = Some r" by blast
  with init S s0(1) have "\<exists>r. dfa_generate ord n = Some r" by (simp add: dfa_generate_def Let_def)
  with dfa_generate_result [OF _ n(1)] show ?thesis by blast
qed

section \<open>Determinized automata\<close>

text \<open>Transitions stay inside the automaton.\<close>

definition dfa_wf :: "dfa \<Rightarrow> bool" where
  "dfa_wf d \<longleftrightarrow> df_states d \<noteq> [] \<and> (\<forall>q < length (df_states d). \<forall>i t.
     ds_get_transition i (df_states d ! q) = Some t \<longrightarrow> dt_dest_state t < length (df_states d))"

lemma loop_inv_wf:
  assumes "loop_inv n (d, M, [])" "(S, q0) \<in> set M"
  shows "dfa_wf d"
proof -
  have inv: "det_inv n (d, M, [])" using assms(1) by (simp add: loop_inv_def)
  have "dt_dest_state t < length (df_states d)"
    if q: "q < length (df_states d)" "ds_get_transition i (df_states d ! q) = Some t" for q i t
  proof -
    from q(1) inv have "q \<in> snd ` set M" by (simp add: det_inv_def)
    then obtain T where "(T, q) \<in> set M" by (auto simp only: image_iff prod.collapse snd_conv)
    with assms(1) have "link_at n M (succ_states n (states_of T) i) (dfa_trans d q i)"
      by (auto simp: loop_inv_def explored_def)
    with q(2) obtain S' where "(S', dt_dest_state t) \<in> set M" by (auto simp: link_at_def dfa_trans_def)
    with inv show ?thesis by (rule det_inv_bound)
  qed
  moreover have "df_states d \<noteq> []" using det_inv_bound [OF inv assms(2)] by auto
  ultimately show ?thesis by (auto simp: dfa_wf_def)
qed

lemma determinized:
  assumes "dfa_generate ord n = Some r" "nfa_small n"
  obtains d where "r = Inr d" "dfa_wf d" "\<And>w v. nfa_accepts n w v \<Longrightarrow> dfa_accepts d w v"
    "\<And>w v. untagged n \<Longrightarrow> dfa_accepts d w v \<Longrightarrow> nfa_accepts n w v"
proof -
  from dfa_generate_result [OF assms] obtain d M S where
    d: "r = Inr d" "loop_inv n (d, M, [])" "(S, 0) \<in> set M" "states_of S = eps_reach n (nf_root n)"
    by blast
  show thesis
  proof (rule that [OF d(1) loop_inv_wf [OF d(2,3)]])
    fix w v
    assume "nfa_accepts n w v"
    then obtain t where t: "t \<in> nfa_run_set n (states_of S) w" "nfa_accepting n t = Some v"
      by (auto simp: nfa_accepts_run_set d(4))
    with run_simulates [OF d(2,3) order_refl, of w] obtain q' S' where
      "dfa_run d 0 w = Some q'" "(S', q') \<in> set M" "t \<in> states_of S'" by blast
    with matching_iff [OF d(2)] t(2) show "dfa_accepts d w v" by (auto simp: dfa_accepts_def)
  next
    fix w v
    assume n: "untagged n" and "dfa_accepts d w v"
    then obtain q where q: "dfa_run d 0 w = Some q" "v \<in> set (ds_matching_variable_ids (df_states d ! q))"
      by (auto simp: dfa_accepts_def)
    from untagged_run [OF d(2) n d(3) q(1)] obtain S' where
      "(S', q) \<in> set M" "states_of S' = nfa_run_set n (states_of S) w" by blast
    with matching_iff [OF d(2)] q(2) d(4) show "nfa_accepts n w v" by (auto simp: nfa_accepts_run_set)
  qed
qed

lemma untagged_determinized:
  assumes "nfa_small n" "untagged n"
  shows "\<exists>d. dfa_generate ord n = Some (Inr d) \<and> dfa_wf d \<and> (\<forall>w v. dfa_accepts d w v \<longleftrightarrow> nfa_accepts n w v)"
proof -
  from untagged_generate_total [OF assms] obtain d where d: "dfa_generate ord n = Some (Inr d)" by blast
  from determinized [OF d assms(1)] assms(2) d show ?thesis by (metis sum.inject(2))
qed

text \<open>The automata of lists of lexical rules.\<close>

lemma capture_free_untagged:
  assumes n: "nfa_of_rules rules = Inr n" and fresh: "\<forall>rule \<in> set rules. ast_fresh (lr_regex rule)"
    and free: "rules_captures rules = {}"
  shows "untagged n"
proof -
  from nfa_of_rules_tags [OF n fresh] free obtain as where "set as = {}" "tags_allotted as n" by auto
  then have "nf_tag_id_generator n = 0" "ops_below 0 n" by (auto simp: tags_allotted_def)
  then show ?thesis
    by (fastforce simp: untagged_def nfa_tag_ops_def ops_below_def state_ops_below_def)
qed

lemma rules_nfa_small:
  assumes "nfa_of_rules rules = Inr n" "nfa_size n \<le> 2 ^ 32"
  shows "nfa_small n"
  using nfa_of_rules_language [OF assms(1)] assms(2) by (simp add: nfa_small_def)

section \<open>Properties\<close>

text \<open>
  Determinization loses no match: whenever it returns, whatever tags the NFA has and however
  states were merged by mapping their registers, the DFA accepts every word the NFA accepts, for
  the same variable id.
\<close>

theorem dfa_accepts_nfa_matches:
  assumes "dfa_generate ord n = Some r" "nfa_small n"
  shows "\<exists>d. r = Inr d \<and> (\<forall>w v. nfa_accepts n w v \<longrightarrow> dfa_accepts d w v)"
  by (rule determinized [OF assms]) blast

text \<open>
  Determinization throws no exception (no register, tag or configuration is missing from the
  maps it looks them up in), gives the result a root, and every transition of the result leads to
  one of its states.
\<close>

theorem dfa_generate_well_formed:
  assumes "dfa_generate ord n = Some r" "nfa_small n"
  shows "\<exists>d. r = Inr d \<and> dfa_get_root d = Inr 0 \<and>
    (\<forall>q < length (df_states d). \<forall>i t. ds_get_transition i (df_states d ! q) = Some t \<longrightarrow>
       dt_dest_state t < length (df_states d))"
  by (rule determinized [OF assms]) (simp add: dfa_wf_def dfa_get_root_def)

text \<open>
  For an NFA without tags determinization always returns, and the DFA accepts exactly the
  words the NFA accepts, for the same variable ids.
\<close>

theorem dfa_generate_untagged_exact:
  assumes "nfa_small n" "untagged n"
  shows "\<exists>d. dfa_generate ord n = Some (Inr d) \<and> (\<forall>w v. dfa_accepts d w v \<longleftrightarrow> nfa_accepts n w v)"
  using untagged_determinized [OF assms, of ord] by blast

lemma demo_graph_untagged: "untagged demo_graph"
  by (auto simp: untagged_def nfa_tag_ops_def demo_graph_def ns_add_spontaneous_transition_def
      ns_new_def ns_new_accepting_def)

theorem dfa_generate_untagged_exact_witness:
  "\<exists>d. dfa_generate id demo_graph = Some (Inr d) \<and>
     (\<forall>w v. dfa_accepts d w v \<longleftrightarrow> nfa_accepts demo_graph w v)"
  by (rule dfa_generate_untagged_exact [OF demo_graph_small(1) demo_graph_untagged])

definition demo_dfa :: dfa where
  "demo_dfa = (case dfa_generate id demo_graph of Some (Inr d) \<Rightarrow> d | _ \<Rightarrow> dfa_empty)"

lemma demo_dfa: "dfa_generate id demo_graph = Some (Inr demo_dfa)"
  using untagged_generate_total [OF demo_graph_small(1) demo_graph_untagged, of id]
  by (auto simp: demo_dfa_def)

lemma demo_graph_accepts: "nfa_accepts demo_graph [] 7"
proof -
  have "nfa_edge demo_graph 0 None 1"
    by (simp add: nfa_edge_def demo_graph_def nfa_size_def ns_add_spontaneous_transition_def ns_new_def)
  from path_eps [OF this path_refl] have "nfa_path demo_graph 0 [] 1" .
  then show ?thesis unfolding nfa_accepts_def
    by (intro exI [of _ 1])
      (simp add: nfa_accepting_def demo_graph_def nfa_size_def ns_new_accepting_def ns_new_def)
qed

theorem dfa_accepts_nfa_matches_witness: "dfa_accepts demo_dfa [] 7"
  using dfa_accepts_nfa_matches [OF demo_dfa demo_graph_small(1)] demo_graph_accepts by auto

theorem dfa_generate_well_formed_witness: "dfa_get_root demo_dfa = Inr 0"
  using dfa_generate_well_formed [OF demo_dfa demo_graph_small(1)] by auto

end
