(* ===== verification/Dfa_Intersect.thy ===== *)
theory Dfa_Intersect
  imports Dfa_Correct
begin

text \<open>
  \<^verbatim>\<open>Dfa::get_intersect\<close> and \<^verbatim>\<open>finite_automata/DfaStatePair.hpp\<close>: the
  variable ids of one automaton that a word accepted by another can have. Pairs of states are
  ordered by the addresses of the states, which the standard leaves open: \<open>a1\<close> and \<open>a2\<close>
  give the address of each state of the two automata.
\<close>

section \<open>Pairs of states\<close>

type_synonym dfa_state_pair = "nat \<times> nat"

definition pair_less :: "(nat \<Rightarrow> nat) \<Rightarrow> (nat \<Rightarrow> nat) \<Rightarrow> dfa_state_pair less" where
  "pair_less a1 a2 = (\<lambda>(p1, p2) (q1, q2). if a1 p1 = a1 q1 then a2 p2 < a2 q2 else a1 p1 < a1 q1)"

definition pair_is_accepting :: "dfa \<Rightarrow> dfa \<Rightarrow> dfa_state_pair \<Rightarrow> bool" where
  "pair_is_accepting d1 d2 = (\<lambda>(p1, p2).
     ds_is_accepting (df_states d1 ! p1) \<and> ds_is_accepting (df_states d2 ! p2))"

definition pair_matching_variable_ids :: "dfa \<Rightarrow> dfa_state_pair \<Rightarrow> nat list" where
  "pair_matching_variable_ids d1 = (\<lambda>(p1, p2). ds_matching_variable_ids (df_states d1 ! p1))"

definition pair_step :: "dfa \<Rightarrow> dfa \<Rightarrow> dfa_state_pair \<Rightarrow> nat \<Rightarrow> dfa_state_pair option" where
  "pair_step d1 d2 = (\<lambda>(p1, p2) i.
     case (ds_get_transition i (df_states d1 ! p1), ds_get_transition i (df_states d2 ! p2)) of
       (Some t1, Some t2) \<Rightarrow> Some (dt_dest_state t1, dt_dest_state t2)
     | _ \<Rightarrow> None)"

definition get_reachable_pairs ::
  "dfa \<Rightarrow> dfa \<Rightarrow> dfa_state_pair less \<Rightarrow> dfa_state_pair \<Rightarrow> dfa_state_pair list \<Rightarrow> dfa_state_pair list \<Rightarrow>
     dfa_state_pair list" where
  "get_reachable_pairs d1 d2 lt p visited_pairs unvisited_pairs =
     fold (\<lambda>i unvisited.
         case pair_step d1 d2 p i of
           None \<Rightarrow> unvisited
         | Some reachable_pair \<Rightarrow>
             if sset_contains lt reachable_pair visited_pairs then unvisited
             else sset_insert lt reachable_pair unvisited)
       [0..<cSizeOfByte] unvisited_pairs"

section \<open>The intersection\<close>

partial_function (option) intersect_loop ::
  "dfa \<Rightarrow> dfa \<Rightarrow> dfa_state_pair less \<Rightarrow> dfa_state_pair list \<Rightarrow> dfa_state_pair list \<Rightarrow> nat list \<Rightarrow>
     nat list option" where
  "intersect_loop d1 d2 lt visited_pairs unvisited_pairs schema_types =
     (case unvisited_pairs of
        [] \<Rightarrow> Some schema_types
      | current_pair # _ \<Rightarrow>
          let schema_types' =
                (if pair_is_accepting d1 d2 current_pair
                 then sset_insert_all (<) (pair_matching_variable_ids d1 current_pair) schema_types
                 else schema_types);
              visited' = sset_insert lt current_pair visited_pairs;
              unvisited' = get_reachable_pairs d1 d2 lt current_pair visited' unvisited_pairs
          in intersect_loop d1 d2 lt visited' (sset_erase lt current_pair unvisited') schema_types')"

definition dfa_get_intersect ::
  "(nat \<Rightarrow> nat) \<Rightarrow> (nat \<Rightarrow> nat) \<Rightarrow> dfa \<Rightarrow> dfa \<Rightarrow> nat list res option" where
  "dfa_get_intersect a1 a2 d1 d2 =
     (case rbind (dfa_get_root d1) (\<lambda>p1. rbind (dfa_get_root d2) (\<lambda>p2. Inr (p1, p2))) of
        Inl e \<Rightarrow> Some (Inl e)
      | Inr root_pair \<Rightarrow>
          map_option Inr (intersect_loop d1 d2 (pair_less a1 a2) []
            (sset_insert (pair_less a1 a2) root_pair []) []))"

section \<open>Correctness\<close>

interpretation pair_order: keyed_order "pair_less a1 a2" "\<lambda>p. (a1 (fst p), a2 (snd p))" for a1 a2
  by unfold_locales (auto simp: pair_less_def)

lemma inj_pair_key: "inj a1 \<Longrightarrow> inj a2 \<Longrightarrow> inj (\<lambda>p. (a1 (fst p), a2 (snd p)))"
  by (auto simp: inj_def)

definition pair_succ :: "dfa \<Rightarrow> dfa \<Rightarrow> dfa_state_pair \<Rightarrow> dfa_state_pair set" where
  "pair_succ d1 d2 p = {r. \<exists>i < cSizeOfByte. pair_step d1 d2 p i = Some r}"

lemma get_reachable_pairs_set:
  assumes "inj a1" "inj a2"
  shows "set (get_reachable_pairs d1 d2 (pair_less a1 a2) p visited unvisited) =
    set unvisited \<union> (pair_succ d1 d2 p - set visited)"
proof -
  note inj = inj_pair_key [OF assms]
  let ?f = "\<lambda>i unvisited. case pair_step d1 d2 p i of None \<Rightarrow> unvisited
    | Some r \<Rightarrow> if sset_contains (pair_less a1 a2) r visited then unvisited
        else sset_insert (pair_less a1 a2) r unvisited"
  have "set (fold ?f is u) = set u \<union> ({r. \<exists>i \<in> set is. pair_step d1 d2 p i = Some r} - set visited)" for "is" u
  proof (induction "is" arbitrary: u)
    case (Cons i js)
    then show ?case
      by (cases "pair_step d1 d2 p i")
        (auto simp: pair_order.contains_inj [OF inj] pair_order.insert_inj [OF inj])
  qed simp
  then show ?thesis by (auto simp: get_reachable_pairs_def pair_succ_def)
qed

inductive_set reachable_pairs :: "dfa \<Rightarrow> dfa \<Rightarrow> dfa_state_pair set" for d1 d2 where
  root: "(0, 0) \<in> reachable_pairs d1 d2"
| step: "p \<in> reachable_pairs d1 d2 \<Longrightarrow> r \<in> pair_succ d1 d2 p \<Longrightarrow> r \<in> reachable_pairs d1 d2"

lemma pair_succ_cases:
  "(r1, r2) \<in> pair_succ d1 d2 (p1, p2) \<longleftrightarrow> (\<exists>i < cSizeOfByte. \<exists>t1 t2.
     ds_get_transition i (df_states d1 ! p1) = Some t1 \<and> ds_get_transition i (df_states d2 ! p2) = Some t2 \<and>
     r1 = dt_dest_state t1 \<and> r2 = dt_dest_state t2)"
  by (force simp: pair_succ_def pair_step_def split: option.splits)

lemma reachable_pairs_bound:
  assumes "dfa_wf d1" "dfa_wf d2"
  shows "reachable_pairs d1 d2 \<subseteq> {..<length (df_states d1)} \<times> {..<length (df_states d2)}"
proof
  fix p
  assume "p \<in> reachable_pairs d1 d2"
  then show "p \<in> {..<length (df_states d1)} \<times> {..<length (df_states d2)}"
  proof induction
    case (step p r)
    then show ?case using assms by (cases p; cases r) (auto simp: pair_succ_cases dfa_wf_def)
  qed (use assms in \<open>auto simp: dfa_wf_def\<close>)
qed

definition pair_ids :: "dfa \<Rightarrow> dfa \<Rightarrow> dfa_state_pair \<Rightarrow> nat set" where
  "pair_ids d1 d2 p = (if pair_is_accepting d1 d2 p then set (pair_matching_variable_ids d1 p) else {})"

lemma pair_ids_iff:
  "v \<in> pair_ids d1 d2 (q1, q2) \<longleftrightarrow> v \<in> set (ds_matching_variable_ids (df_states d1 ! q1)) \<and>
     (\<exists>u. u \<in> set (ds_matching_variable_ids (df_states d2 ! q2)))"
  by (cases "ds_matching_variable_ids (df_states d1 ! q1)"; cases "ds_matching_variable_ids (df_states d2 ! q2)")
    (auto simp: pair_ids_def pair_is_accepting_def pair_matching_variable_ids_def ds_is_accepting_def)

definition intersect_inv ::
  "dfa \<Rightarrow> dfa \<Rightarrow> dfa_state_pair list \<Rightarrow> dfa_state_pair list \<Rightarrow> nat list \<Rightarrow> bool" where
  "intersect_inv d1 d2 visited unvisited types \<longleftrightarrow>
     set visited \<union> set unvisited \<subseteq> reachable_pairs d1 d2 \<and> (0, 0) \<in> set visited \<union> set unvisited \<and>
     (\<forall>p \<in> set visited. pair_succ d1 d2 p \<subseteq> set visited \<union> set unvisited) \<and>
     set visited \<inter> set unvisited = {} \<and>
     set types = (\<Union>p \<in> set visited. pair_ids d1 d2 p) \<and> num.ordered types"

lemma intersect_loop_total:
  assumes inj: "inj a1" "inj a2" and wf: "dfa_wf d1" "dfa_wf d2"
  shows "intersect_inv d1 d2 visited unvisited types \<Longrightarrow>
    \<exists>types'. intersect_loop d1 d2 (pair_less a1 a2) visited unvisited types = Some types' \<and>
      num.ordered types' \<and> set types' = (\<Union>p \<in> reachable_pairs d1 d2. pair_ids d1 d2 p)"
proof (induction "card (reachable_pairs d1 d2 - set visited)" arbitrary: visited unvisited types rule: less_induct)
  case less
  note inv = less.prems
  show ?case
  proof (cases unvisited)
    case Nil
    have "p \<in> set visited" if "p \<in> reachable_pairs d1 d2" for p
      using that inv Nil by induction (auto simp: intersect_inv_def)
    then have "set visited = reachable_pairs d1 d2" using inv Nil by (auto simp: intersect_inv_def)
    with inv Nil show ?thesis by (subst intersect_loop.simps) (simp add: intersect_inv_def)
  next
    case (Cons p rest)
    let ?lt = "pair_less a1 a2"
    let ?v = "sset_insert ?lt p visited"
    let ?u = "sset_erase ?lt p (get_reachable_pairs d1 d2 ?lt p ?v unvisited)"
    let ?t = "if pair_is_accepting d1 d2 p
      then sset_insert_all (<) (pair_matching_variable_ids d1 p) types else types"
    note key = inj_pair_key [OF inj]
    have v: "set ?v = insert p (set visited)" by (rule pair_order.insert_inj [OF key])
    have u: "set ?u = (set unvisited \<union> (pair_succ d1 d2 p - set ?v)) - {p}"
      by (simp only: pair_order.erase_inj [OF key] get_reachable_pairs_set [OF inj])
    have t: "set ?t = pair_ids d1 d2 p \<union> set types" "num.ordered ?t"
      using inv num.insert_all_keys [of "pair_matching_variable_ids d1 p" types] num.insert_all_ordered
      by (auto simp: pair_ids_def intersect_inv_def)
    have p: "p \<in> reachable_pairs d1 d2" "p \<notin> set visited" using inv Cons by (auto simp: intersect_inv_def)
    then have succ: "pair_succ d1 d2 p \<subseteq> reachable_pairs d1 d2" by (auto intro: reachable_pairs.step)
    have "intersect_inv d1 d2 ?v ?u ?t"
      using inv p succ Cons unfolding intersect_inv_def u v t(1) by (auto simp: t(2))
    moreover have "finite (reachable_pairs d1 d2)"
      using reachable_pairs_bound [OF wf] by (rule finite_subset) simp
    then have "card (reachable_pairs d1 d2 - set ?v) < card (reachable_pairs d1 d2 - set visited)"
      using p v by (intro psubset_card_mono) auto
    ultimately show ?thesis
      using less.hyps Cons by (subst intersect_loop.simps) (simp add: Let_def)
  qed
qed

lemma reachable_pairs_runs:
  "(q1, q2) \<in> reachable_pairs d1 d2 \<longleftrightarrow> (\<exists>w. dfa_run d1 0 w = Some q1 \<and> dfa_run d2 0 w = Some q2)"
proof
  have run: "dfa_run d p (w @ [i]) = Some q \<longleftrightarrow> (\<exists>r t. dfa_run d p w = Some r \<and> i < cSizeOfByte \<and>
      ds_get_transition i (df_states d ! r) = Some t \<and> dt_dest_state t = q)" for d p w i q
    by (induction w arbitrary: p) (auto split: option.splits)
  show "\<exists>w. dfa_run d1 0 w = Some q1 \<and> dfa_run d2 0 w = Some q2" if "(q1, q2) \<in> reachable_pairs d1 d2"
    using that
  proof (induction "(q1, q2)" arbitrary: q1 q2)
    case root
    show ?case by (rule exI [of _ "[]"]) simp
  next
    case (step p)
    obtain p1 p2 where p: "p = (p1, p2)" by (cases p)
    with step obtain w where w: "dfa_run d1 0 w = Some p1" "dfa_run d2 0 w = Some p2" by blast
    from step(3) p obtain i where "dfa_run d1 0 (w @ [i]) = Some q1" "dfa_run d2 0 (w @ [i]) = Some q2"
      using w by (auto simp: run pair_succ_cases)
    then show ?case by blast
  qed
  show "(q1, q2) \<in> reachable_pairs d1 d2"
    if "\<exists>w. dfa_run d1 0 w = Some q1 \<and> dfa_run d2 0 w = Some q2"
  proof -
    from that obtain w where "dfa_run d1 0 w = Some q1" "dfa_run d2 0 w = Some q2" by blast
    then show ?thesis
    proof (induction w arbitrary: q1 q2 rule: rev_induct)
      case Nil
      then show ?case by (simp add: reachable_pairs.root)
    next
      case (snoc i w)
      from snoc.prems obtain p1 p2 t1 t2 where p: "dfa_run d1 0 w = Some p1" "dfa_run d2 0 w = Some p2"
        "i < cSizeOfByte" "ds_get_transition i (df_states d1 ! p1) = Some t1" "dt_dest_state t1 = q1"
        "ds_get_transition i (df_states d2 ! p2) = Some t2" "dt_dest_state t2 = q2"
        unfolding run by blast
      then have "(q1, q2) \<in> pair_succ d1 d2 (p1, p2)" by (auto simp: pair_succ_cases)
      with snoc.IH [OF p(1,2)] show ?case by (rule reachable_pairs.step)
    qed
  qed
qed

lemma intersection_exact:
  assumes "dfa_wf d1" "dfa_wf d2" "inj a1" "inj a2"
  shows "\<exists>types. dfa_get_intersect a1 a2 d1 d2 = Some (Inr types) \<and> sorted_wrt (<) types \<and>
    (\<forall>v. v \<in> set types \<longleftrightarrow> (\<exists>w. dfa_accepts d1 w v \<and> (\<exists>u. dfa_accepts d2 w u)))"
proof -
  let ?u = "sset_insert (pair_less a1 a2) (0, 0) []"
  have inv: "intersect_inv d1 d2 [] ?u []"
    by (simp add: intersect_inv_def reachable_pairs.root)
  from intersect_loop_total [OF assms(3,4,1,2) inv] obtain types where
    t: "intersect_loop d1 d2 (pair_less a1 a2) [] ?u [] = Some types" "num.ordered types"
    "set types = (\<Union>p \<in> reachable_pairs d1 d2. pair_ids d1 d2 p)" by blast
  have roots: "dfa_get_root d1 = Inr 0" "dfa_get_root d2 = Inr 0"
    using assms(1,2) by (auto simp: dfa_get_root_def dfa_wf_def)
  show ?thesis
  proof (intro exI conjI allI)
    show "dfa_get_intersect a1 a2 d1 d2 = Some (Inr types)" "sorted_wrt (<) types"
      using t roots by (auto simp: dfa_get_intersect_def num.ordered_def)
    fix v
    have "v \<in> set types \<longleftrightarrow> (\<exists>q1 q2. (q1, q2) \<in> reachable_pairs d1 d2 \<and> v \<in> pair_ids d1 d2 (q1, q2))"
      by (auto simp: t(3))
    also have "\<dots> \<longleftrightarrow> (\<exists>w. dfa_accepts d1 w v \<and> (\<exists>u. dfa_accepts d2 w u))"
      unfolding reachable_pairs_runs pair_ids_iff dfa_accepts_def by blast
    finally show "v \<in> set types \<longleftrightarrow> (\<exists>w. dfa_accepts d1 w v \<and> (\<exists>u. dfa_accepts d2 w u))" .
  qed
qed

section \<open>Properties\<close>

text \<open>
  C32: the intersection of two automata is computed in a finite number of steps, whatever the
  addresses of the states, and is the ascending list of the variable ids for which there is a word
  that the first automaton accepts for that id and the second accepts for any.
\<close>

theorem dfa_get_intersect_exact:
  assumes "dfa_wf d1" "dfa_wf d2" "inj a1" "inj a2"
  shows "\<exists>types. dfa_get_intersect a1 a2 d1 d2 = Some (Inr types) \<and> sorted_wrt (<) types \<and>
    (\<forall>v. v \<in> set types \<longleftrightarrow> (\<exists>w. dfa_accepts d1 w v \<and> (\<exists>u. dfa_accepts d2 w u)))"
  using intersection_exact [OF assms] .

text \<open>The automata with two states, one word each.\<close>

definition demo_pair_dfa :: "nat \<Rightarrow> nat list \<Rightarrow> dfa" where
  "demo_pair_dfa c ids = dfa_empty\<lparr>df_states :=
     [ds_add_byte_transition c \<lparr>dt_reg_ops = [], dt_dest_state = 1\<rparr> ds_new,
      ds_new\<lparr>ds_matching_variable_ids := ids\<rparr>]\<rparr>"

lemma demo_pair_dfa_wf: "dfa_wf (demo_pair_dfa c ids)"
  by (auto simp: dfa_wf_def demo_pair_dfa_def ds_get_transition_def ds_add_byte_transition_def ds_new_def
      less_Suc_eq split: if_splits)

theorem dfa_get_intersect_exact_witness:
  "\<exists>types. dfa_get_intersect id (\<lambda>q. q + 100) (demo_pair_dfa 97 [3, 1]) (demo_pair_dfa 97 [2]) =
     Some (Inr types) \<and> sorted_wrt (<) types"
  using dfa_get_intersect_exact [OF demo_pair_dfa_wf demo_pair_dfa_wf,
      of id "\<lambda>q. q + 100" 97 "[3, 1]" 97 "[2]"] by (auto simp: inj_def)

end
