(* ===== verification/Wildcard_Expression.thy ===== *)
theory Wildcard_Expression
  imports LS_Prelude
begin

text \<open>
  \<^verbatim>\<open>wildcard_query_parser/Expression\<close>, \<^verbatim>\<open>ExpressionCharacter\<close> and
  \<^verbatim>\<open>ExpressionView\<close>, and the constructor of \<^verbatim>\<open>Query\<close>: search strings
  with wildcards and escapes, views of a range of an expression, the regex text of a view, and
  the strings an expression matches.
\<close>

section \<open>Expressions\<close>

datatype ec_type = Normal | GreedyWildcard | NonGreedyWildcard | Escape

record expression_character =
  ec_value :: char
  ec_type :: ec_type

definition is_greedy_wildcard :: "expression_character \<Rightarrow> bool" where
  "is_greedy_wildcard c \<longleftrightarrow> ec_type c = GreedyWildcard"

definition is_non_greedy_wildcard :: "expression_character \<Rightarrow> bool" where
  "is_non_greedy_wildcard c \<longleftrightarrow> ec_type c = NonGreedyWildcard"

definition is_wildcard :: "expression_character \<Rightarrow> bool" where
  "is_wildcard c \<longleftrightarrow> ec_type c = GreedyWildcard \<or> ec_type c = NonGreedyWildcard"

definition is_delim :: "(nat \<Rightarrow> bool) \<Rightarrow> expression_character \<Rightarrow> bool" where
  "is_delim delim_table c \<longleftrightarrow> delim_table (of_char (ec_value c))"

definition is_delim_or_wildcard :: "(nat \<Rightarrow> bool) \<Rightarrow> expression_character \<Rightarrow> bool" where
  "is_delim_or_wildcard delim_table c \<longleftrightarrow> is_delim delim_table c \<or> is_wildcard c"

definition is_escape :: "expression_character \<Rightarrow> bool" where
  "is_escape c \<longleftrightarrow> ec_type c = Escape"

record expression =
  ex_chars :: "expression_character list"
  ex_search_string :: string

text \<open>The type the constructor gives a character, after an escape character or not.\<close>

definition char_type :: "bool \<Rightarrow> char \<Rightarrow> ec_type" where
  "char_type escaped c =
     (if escaped then Normal
      else if c = CHR ''*'' then GreedyWildcard
      else if c = CHR ''?'' then NonGreedyWildcard
      else if c = CHR 0x5C then Escape else Normal)"

definition add_expression_char :: "char \<Rightarrow> expression_character list \<Rightarrow> expression_character list" where
  "add_expression_char c chars =
     chars @ [\<lparr>ec_value = c, ec_type = char_type (chars \<noteq> [] \<and> is_escape (last chars)) c\<rparr>]"

definition expression_new :: "string \<Rightarrow> expression" where
  "expression_new search_string =
     \<lparr>ex_chars = fold add_expression_char search_string [], ex_search_string = search_string\<rparr>"

definition expression_length :: "expression \<Rightarrow> nat" where
  "expression_length e = length (ex_search_string e)"

section \<open>The query string\<close>

text \<open>The loop of the constructor of \<^verbatim>\<open>Query\<close>, which drops repeated greedy wildcards.\<close>

definition query_add_char :: "expression_character \<Rightarrow> string \<times> bool \<Rightarrow> string \<times> bool" where
  "query_add_char c = (\<lambda>(processed, prev_is_greedy_wildcard).
     if is_greedy_wildcard c
     then (if \<not> prev_is_greedy_wildcard then processed @ [ec_value c] else processed, True)
     else (processed @ [ec_value c], False))"

definition query_new :: "string \<Rightarrow> string" where
  "query_new query_string =
     fst (fold query_add_char (ex_chars (expression_new query_string)) ([], False))"

section \<open>Views\<close>

text \<open>A view has the position of its first character; the span is the characters from there.\<close>

record expression_view =
  ev_expression :: expression
  ev_begin :: nat
  ev_chars :: "expression_character list"
  ev_search_string :: string

definition view_new :: "expression \<Rightarrow> nat \<Rightarrow> nat \<Rightarrow> expression_view" where
  "view_new e begin_idx end_idx =
     (let end_idx = min end_idx (length (ex_chars e));
          begin_idx = min begin_idx end_idx
      in \<lparr>ev_expression = e, ev_begin = begin_idx,
          ev_chars = take (end_idx - begin_idx) (drop begin_idx (ex_chars e)),
          ev_search_string = take (end_idx - begin_idx) (drop begin_idx (ex_search_string e))\<rparr>)"

definition get_indices :: "expression_view \<Rightarrow> nat \<times> nat" where
  "get_indices v = (ev_begin v, ev_begin v + length (ev_chars v))"

definition extend_to_adjacent_greedy_wildcards :: "expression_view \<Rightarrow> bool \<times> expression_view" where
  "extend_to_adjacent_greedy_wildcards v =
     (let (begin_idx, end_idx) = get_indices v;
          full = ex_chars (ev_expression v);
          left = begin_idx > 0 \<and> is_greedy_wildcard (full ! (begin_idx - 1));
          right = end_idx < length full \<and> is_greedy_wildcard (full ! end_idx)
      in (left \<or> right,
          view_new (ev_expression v) (if left then begin_idx - 1 else begin_idx)
            (if right then end_idx + 1 else end_idx)))"

definition starts_or_ends_with_greedy_wildcard :: "expression_view \<Rightarrow> bool" where
  "starts_or_ends_with_greedy_wildcard v \<longleftrightarrow> ev_chars v \<noteq> [] \<and>
     (is_greedy_wildcard (hd (ev_chars v)) \<or> is_greedy_wildcard (last (ev_chars v)))"

definition is_surrounded_by_delims_or_wildcards :: "(nat \<Rightarrow> bool) \<Rightarrow> expression_view \<Rightarrow> bool" where
  "is_surrounded_by_delims_or_wildcards delim_table v =
     (let (begin_idx, end_idx) = get_indices v;
          e = ev_expression v;
          has_left_boundary =
            (if begin_idx = 0 then True
             else is_delim_or_wildcard delim_table (ex_chars e ! (begin_idx - 1)));
          has_right_boundary =
            (if expression_length e = end_idx then True
             else if is_escape (ex_chars e ! end_idx)
             then (if expression_length e > end_idx + 1
                   then is_delim delim_table (ex_chars e ! (end_idx + 1)) else False)
             else is_delim_or_wildcard delim_table (ex_chars e ! end_idx))
      in has_left_boundary \<and> has_right_boundary)"

definition is_well_formed :: "expression_view \<Rightarrow> bool" where
  "is_well_formed v =
     (if ev_chars v = [] then True
      else let (begin_idx, end_idx) = get_indices v
           in if begin_idx > 0 \<and> is_escape (ex_chars (ev_expression v) ! (begin_idx - 1)) then False
              else if is_escape (last (ev_chars v)) then False else True)"

text \<open>
  The characters that \<^verbatim>\<open>SchemaParser\<close> puts into the map of special characters; the map
  is empty until the first schema parser is made, so it is an argument.
\<close>

definition special_regex_characters :: "char list" where
  "special_regex_characters = [CHR ''('', CHR '')'', CHR ''*'', CHR ''+'', CHR ''-'', CHR ''.'',
     CHR ''['', CHR '']'', CHR 0x5C, CHR ''^'', CHR ''{'', CHR ''}'', CHR ''|'', CHR ''<'',
     CHR ''>'', CHR ''?'']"

definition regex_add_char :: "char list \<Rightarrow> expression_character \<Rightarrow> string \<times> bool \<Rightarrow> string \<times> bool" where
  "regex_add_char special c = (\<lambda>(regex_string, regex_contains_wildcard).
     if is_escape c then (regex_string, regex_contains_wildcard)
     else if is_greedy_wildcard c then (regex_string @ ''.*'', True)
     else if is_non_greedy_wildcard c then (regex_string @ ''.'', True)
     else if ec_value c \<in> set special
     then (regex_string @ [CHR 0x5C, ec_value c], regex_contains_wildcard)
     else (regex_string @ [ec_value c], regex_contains_wildcard))"

definition generate_regex_string :: "char list \<Rightarrow> expression_view \<Rightarrow> string \<times> bool" where
  "generate_regex_string special v = fold (regex_add_char special) (ev_chars v) ([], False)"

section \<open>What an expression matches\<close>

fun chars_match :: "expression_character list \<Rightarrow> string \<Rightarrow> bool" where
  "chars_match [] s \<longleftrightarrow> s = []"
| "chars_match (c # cs) s \<longleftrightarrow>
     (case ec_type c of
        GreedyWildcard \<Rightarrow> chars_match cs s \<or> (case s of [] \<Rightarrow> False | _ # t \<Rightarrow> chars_match (c # cs) t)
      | NonGreedyWildcard \<Rightarrow> (case s of [] \<Rightarrow> False | _ # t \<Rightarrow> chars_match cs t)
      | Escape \<Rightarrow> chars_match cs s
      | Normal \<Rightarrow> (case s of [] \<Rightarrow> False | x # t \<Rightarrow> x = ec_value c \<and> chars_match cs t))"

definition expression_matches :: "string \<Rightarrow> string \<Rightarrow> bool" where
  "expression_matches search_string s \<longleftrightarrow> chars_match (ex_chars (expression_new search_string)) s"

lemma chars_match_greedy:
  assumes "is_greedy_wildcard c"
  shows "chars_match (c # cs) s \<longleftrightarrow> (\<exists>u v. s = u @ v \<and> chars_match cs v)"
proof (induction s)
  case Nil
  then show ?case using assms by (simp add: is_greedy_wildcard_def)
next
  case (Cons x s)
  have "chars_match (c # cs) (x # s) \<longleftrightarrow> chars_match cs (x # s) \<or> chars_match (c # cs) s"
    using assms by (simp add: is_greedy_wildcard_def)
  also have "\<dots> \<longleftrightarrow> (\<exists>u v. x # s = u @ v \<and> chars_match cs v)"
    unfolding Cons.IH by (auto simp: Cons_eq_append_conv)
  finally show ?case .
qed

lemma chars_match_cong: "(\<And>s. chars_match xs s \<longleftrightarrow> chars_match ys s) \<Longrightarrow>
    chars_match (c # xs) s \<longleftrightarrow> chars_match (c # ys) s"
  by (cases "is_greedy_wildcard c")
    (simp_all only: chars_match_greedy, auto simp: is_greedy_wildcard_def split: ec_type.splits list.splits)

declare chars_match.simps(2) [simp del]

section \<open>Reading characters\<close>

text \<open>The constructor as a recursion with the flag for a preceding escape.\<close>

fun lex_chars :: "bool \<Rightarrow> string \<Rightarrow> expression_character list" where
  "lex_chars escaped [] = []"
| "lex_chars escaped (c # s) =
     \<lparr>ec_value = c, ec_type = char_type escaped c\<rparr> # lex_chars (char_type escaped c = Escape) s"

lemma fold_lex_chars:
  "fold add_expression_char s chars = chars @ lex_chars (chars \<noteq> [] \<and> is_escape (last chars)) s"
  by (induction s arbitrary: chars) (auto simp: add_expression_char_def is_escape_def)

lemma expression_chars [simp]: "ex_chars (expression_new s) = lex_chars False s"
  and expression_string [simp]: "ex_search_string (expression_new s) = s"
  by (simp_all add: expression_new_def fold_lex_chars)

lemma length_lex_chars [simp]: "length (lex_chars b s) = length s"
  by (induction s arbitrary: b) auto

lemma values_lex_chars [simp]: "map ec_value (lex_chars b s) = s"
  by (induction s arbitrary: b) auto

lemma lex_chars_nil [simp]: "lex_chars b s = [] \<longleftrightarrow> s = []"
  by (cases s) auto

lemma lex_chars_append:
  "lex_chars b (s @ t) = lex_chars b s @
     lex_chars (if s = [] then b else is_escape (last (lex_chars b s))) t"
  by (induction s arbitrary: b) (auto simp: is_escape_def)

lemma take_lex_chars: "take n (lex_chars b s) = lex_chars b (take n s)"
  by (induction s arbitrary: b n) (auto simp: take_Cons split: nat.split)

lemma drop_lex_chars:
  "n \<le> length s \<Longrightarrow> drop n (lex_chars b s) =
     lex_chars (if n = 0 then b else is_escape (lex_chars b s ! (n - 1))) (drop n s)"
proof (induction s arbitrary: b n)
  case (Cons c s)
  then show ?case by (cases n) (auto simp: is_escape_def nth_Cons' split: if_splits)
qed simp

text \<open>A greedy wildcard is always the character \<open>*\<close>.\<close>

definition star_char :: expression_character where
  "star_char = \<lparr>ec_value = CHR ''*'', ec_type = GreedyWildcard\<rparr>"

lemma lex_chars_greedy: "c \<in> set (lex_chars b s) \<Longrightarrow> is_greedy_wildcard c \<longleftrightarrow> c = star_char"
  by (induction s arbitrary: b)
    (auto simp: is_greedy_wildcard_def star_char_def char_type_def split: if_splits)

section \<open>Dropping repeated wildcards\<close>

fun collapse :: "bool \<Rightarrow> expression_character list \<Rightarrow> expression_character list" where
  "collapse prev [] = []"
| "collapse prev (c # cs) =
     (if is_greedy_wildcard c then (if prev then [] else [c]) @ collapse True cs
      else c # collapse False cs)"

lemma query_fold:
  "fst (fold query_add_char cs (processed, prev)) = processed @ map ec_value (collapse prev cs)"
  by (induction cs arbitrary: processed prev) (auto simp: query_add_char_def)

lemma query_new_collapse: "query_new q = map ec_value (collapse False (lex_chars False q))"
  by (simp add: query_new_def query_fold)

lemma lex_collapse:
  "lex_chars b (map ec_value (collapse prev (lex_chars b s))) = collapse prev (lex_chars b s)"
proof (induction s arbitrary: b prev)
  case (Cons c s)
  let ?t = "char_type b c"
  show ?case
  proof (cases "?t = GreedyWildcard")
    case True
    then have "b = False" by (auto simp: char_type_def split: if_splits)
    with True Cons.IH [of False True] show ?thesis by (auto simp: is_greedy_wildcard_def)
  next
    case False
    with Cons.IH [of "?t = Escape" False] show ?thesis by (auto simp: is_greedy_wildcard_def)
  qed
qed simp

lemma lex_query: "lex_chars False (query_new q) = collapse False (lex_chars False q)"
  by (simp add: query_new_collapse lex_collapse)

lemma collapse_match:
  "chars_match (collapse False cs) s \<longleftrightarrow> chars_match cs s"
  "is_greedy_wildcard g \<Longrightarrow> chars_match (g # collapse True cs) s \<longleftrightarrow> chars_match (g # cs) s"
proof -
  have "(\<forall>s. chars_match (collapse False cs) s \<longleftrightarrow> chars_match cs s) \<and>
    (\<forall>g s. is_greedy_wildcard g \<longrightarrow> (chars_match (g # collapse True cs) s \<longleftrightarrow> chars_match (g # cs) s))"
  proof (induction cs)
    case (Cons c cs)
    show ?case
    proof (cases "is_greedy_wildcard c")
      case True
      have twice: "chars_match (g # c # xs) s \<longleftrightarrow> chars_match (g # xs) s" if "is_greedy_wildcard g" for g xs s
        unfolding chars_match_greedy [OF that] chars_match_greedy [OF True]
        by (metis append_assoc append_Nil)
      show ?thesis using Cons True by (simp add: twice)
    next
      case False
      have "chars_match (c # collapse False cs) s \<longleftrightarrow> chars_match (c # cs) s" for s
        by (rule chars_match_cong) (use Cons in blast)
      then have "chars_match (g # c # collapse False cs) s \<longleftrightarrow> chars_match (g # c # cs) s" for g s
        by (rule chars_match_cong)
      with \<open>\<And>s. chars_match (c # collapse False cs) s \<longleftrightarrow> chars_match (c # cs) s\<close> False show ?thesis
        by simp
    qed
  qed simp
  then show "chars_match (collapse False cs) s \<longleftrightarrow> chars_match cs s"
    "is_greedy_wildcard g \<Longrightarrow> chars_match (g # collapse True cs) s \<longleftrightarrow> chars_match (g # cs) s" by blast+
qed

text \<open>Dropping repeated wildcards respects concatenation.\<close>

definition ends_greedy :: "bool \<Rightarrow> expression_character list \<Rightarrow> bool" where
  "ends_greedy prev cs = (if cs = [] then prev else is_greedy_wildcard (last cs))"

lemma collapse_append:
  "collapse prev (xs @ ys) = collapse prev xs @ collapse (ends_greedy prev xs) ys"
  by (induction xs arbitrary: prev) (auto simp: ends_greedy_def)

lemma collapse_nil [simp]: "collapse False cs = [] \<longleftrightarrow> cs = []"
  by (cases cs) auto

lemma collapse_ends: "ends_greedy prev (collapse prev cs) = ends_greedy prev cs"
proof (induction cs arbitrary: prev)
  case (Cons c cs)
  then show ?case
    using Cons.IH [of True] Cons.IH [of False]
    by (cases "collapse True cs"; cases "collapse False cs") (auto simp: ends_greedy_def split: if_splits)
qed simp

lemma collapse_True: "collapse True cs =
    (case collapse False cs of [] \<Rightarrow> [] | d # ds \<Rightarrow> if is_greedy_wildcard d then ds else d # ds)"
  by (cases cs) auto

lemma collapse_cong:
  assumes "collapse False xs = collapse False xs'" "collapse False ys = collapse False ys'"
  shows "collapse False (xs @ ys) = collapse False (xs' @ ys')"
proof -
  have "ends_greedy False xs = ends_greedy False xs'" by (metis assms(1) collapse_ends)
  moreover have "collapse b ys = collapse b ys'" for b
    using assms(2) by (cases b) (simp_all add: collapse_True)
  ultimately show ?thesis using assms(1) by (simp add: collapse_append)
qed

text \<open>No two greedy wildcards in a row.\<close>

fun no_double_star :: "expression_character list \<Rightarrow> bool" where
  "no_double_star (c # d # cs) \<longleftrightarrow>
     \<not> (is_greedy_wildcard c \<and> is_greedy_wildcard d) \<and> no_double_star (d # cs)"
| "no_double_star cs \<longleftrightarrow> True"

lemma no_double_star_Cons:
  "no_double_star (c # cs) \<longleftrightarrow>
     no_double_star cs \<and> (cs \<noteq> [] \<longrightarrow> \<not> (is_greedy_wildcard c \<and> is_greedy_wildcard (hd cs)))"
  by (cases cs) auto

lemma collapse_no_double_star:
  "no_double_star (collapse prev cs) \<and>
     (prev \<and> collapse prev cs \<noteq> [] \<longrightarrow> \<not> is_greedy_wildcard (hd (collapse prev cs)))"
  by (induction cs arbitrary: prev) (auto simp: no_double_star_Cons)

lemma collapse_id:
  "no_double_star cs \<Longrightarrow> \<not> (prev \<and> cs \<noteq> [] \<and> is_greedy_wildcard (hd cs)) \<Longrightarrow> collapse prev cs = cs"
proof (induction cs arbitrary: prev)
  case (Cons c cs)
  then show ?case using Cons.IH [of True] Cons.IH [of False] by (auto simp: no_double_star_Cons)
qed simp

lemma no_double_star_nth:
  "no_double_star cs \<Longrightarrow> Suc i < length cs \<Longrightarrow> \<not> (is_greedy_wildcard (cs ! i) \<and> is_greedy_wildcard (cs ! Suc i))"
proof (induction cs arbitrary: i rule: no_double_star.induct)
  case (1 c d cs)
  then show ?case by (cases i) auto
qed auto

section \<open>Views of an expression\<close>

lemma view_chars:
  "ev_chars (view_new (expression_new s) b e) = take (e - b) (drop b (lex_chars False s))"
proof (cases "b \<le> length s")
  case True
  then show ?thesis
    by (cases "e \<le> length s") (simp_all add: view_new_def Let_def min_def)
next
  case False
  then show ?thesis by (cases "e \<le> length s") (simp_all add: view_new_def Let_def min_def)
qed

lemma view_fields:
  assumes "b \<le> e" "e \<le> length s"
  shows "ev_expression (view_new (expression_new s) b e) = expression_new s"
    "get_indices (view_new (expression_new s) b e) = (b, e)"
    "ev_begin (view_new (expression_new s) b e) = b"
    "ev_search_string (view_new (expression_new s) b e) = take (e - b) (drop b s)"
  using assms by (auto simp: view_new_def get_indices_def Let_def min_absorb1 min_absorb2)

lemma view_values:
  "map ec_value (ev_chars (view_new (expression_new s) b e)) =
     ev_search_string (view_new (expression_new s) b e)"
  by (simp add: view_new_def Let_def flip: take_map drop_map)

text \<open>The view that a view of arbitrary indices really is.\<close>

lemma view_clamped:
  "\<exists>b' e'. b' \<le> e' \<and> e' \<le> length s \<and> view_new (expression_new s) b e = view_new (expression_new s) b' e'"
  by (rule exI [of _ "min b (min e (length s))"], rule exI [of _ "min e (length s)"])
    (auto simp: view_new_def Let_def min_def)

lemma well_formed_chars:
  assumes "b \<le> e" "e \<le> length s" "is_well_formed (view_new (expression_new s) b e)"
  shows "lex_chars False (take (e - b) (drop b s)) = take (e - b) (drop b (lex_chars False s))"
    "b < e \<Longrightarrow> \<not> is_escape (lex_chars False s ! (e - 1))"
proof -
  let ?v = "view_new (expression_new s) b e"
  note v = view_fields [OF assms(1,2)] view_chars [of s b e]
  have start: "b = 0 \<or> \<not> is_escape (lex_chars False s ! (b - 1))" if "b < e"
    using assms that v by (auto simp: is_well_formed_def split: if_splits)
  show "lex_chars False (take (e - b) (drop b s)) = take (e - b) (drop b (lex_chars False s))"
  proof (cases "b = e")
    case False
    with start assms(1) have "(if b = 0 then False else is_escape (lex_chars False s ! (b - 1))) = False"
      by auto
    with drop_lex_chars [of b s False] assms(1,2) show ?thesis by (simp only: take_lex_chars le_trans)
  qed simp
  assume "b < e"
  then have "last (ev_chars ?v) = lex_chars False s ! (e - 1)"
    using assms(2) by (simp add: v(5) last_conv_nth)
  moreover have "ev_chars ?v \<noteq> []" using \<open>b < e\<close> assms(2) by (simp add: v(5))
  ultimately show "\<not> is_escape (lex_chars False s ! (e - 1))"
    using assms(3) by (auto simp: is_well_formed_def split: if_splits prod.splits)
qed

section \<open>Reading regex text\<close>

text \<open>How the regex text of a view is read: a reader of the wildcards and escapes in it.\<close>

definition one_char :: expression_character where
  "one_char = \<lparr>ec_value = CHR ''?'', ec_type = NonGreedyWildcard\<rparr>"

definition literal_char :: "char \<Rightarrow> expression_character" where
  "literal_char c = \<lparr>ec_value = c, ec_type = Normal\<rparr>"

lemma lex_chars_one: "c \<in> set (lex_chars b s) \<Longrightarrow> is_non_greedy_wildcard c \<Longrightarrow> c = one_char"
  by (induction s arbitrary: b)
    (auto simp: is_non_greedy_wildcard_def one_char_def char_type_def split: if_splits)

fun read_regex :: "string \<Rightarrow> expression_character list" where
  "read_regex [] = []"
| "read_regex [c] = [if c = CHR ''.'' then one_char else literal_char c]"
| "read_regex (c # d # s) =
     (if c = CHR 0x5C then literal_char d # read_regex s
      else if c = CHR ''.'' \<and> d = CHR ''*'' then star_char # read_regex s
      else (if c = CHR ''.'' then one_char else literal_char c) # read_regex (d # s))"

definition regex_char :: "expression_character \<Rightarrow> string" where
  "regex_char c =
     (if is_escape c then [] else if is_greedy_wildcard c then ''.*''
      else if is_non_greedy_wildcard c then ''.''
      else if ec_value c \<in> set special_regex_characters then [CHR 0x5C, ec_value c] else [ec_value c])"

lemma generate_regex_chars:
  "fold (regex_add_char special_regex_characters) cs (r, w) =
     (r @ concat (map regex_char cs), w \<or> (\<exists>c \<in> set cs. is_wildcard c))"
  by (induction cs arbitrary: r w)
    (auto simp: regex_add_char_def regex_char_def is_wildcard_def is_escape_def is_greedy_wildcard_def
      is_non_greedy_wildcard_def)

lemma regex_char_not_star: "concat (map regex_char cs) = c # r \<Longrightarrow> c \<noteq> CHR ''*''"
proof (induction cs)
  case (Cons a cs)
  then show ?case
    by (auto simp: regex_char_def special_regex_characters_def split: if_splits)
qed simp

lemma read_dot: "(\<And>c r'. r = c # r' \<Longrightarrow> c \<noteq> CHR ''*'') \<Longrightarrow> read_regex (CHR ''.'' # r) = one_char # read_regex r"
  by (cases r) auto

lemma read_literal:
  "c \<noteq> CHR ''.'' \<Longrightarrow> c \<noteq> CHR 0x5C \<Longrightarrow> read_regex (c # r) = literal_char c # read_regex r"
  by (cases r) auto

lemma read_regex_chars:
  "set cs \<subseteq> set (lex_chars b s) \<Longrightarrow>
     read_regex (concat (map regex_char cs)) = filter (\<lambda>c. \<not> is_escape c) cs"
proof (induction cs)
  case (Cons c cs)
  have kinds: "is_greedy_wildcard c \<Longrightarrow> c = star_char" "is_non_greedy_wildcard c \<Longrightarrow> c = one_char"
    "ec_type c = Normal \<Longrightarrow> c = literal_char (ec_value c)"
    using Cons.prems lex_chars_greedy [of c b s] lex_chars_one [of c b s]
    by (auto simp: literal_char_def)
  show ?case
  proof (cases "ec_type c")
    case Normal
    then have c: "\<not> is_escape c" "\<not> is_greedy_wildcard c" "\<not> is_non_greedy_wildcard c"
      by (simp_all add: is_escape_def is_greedy_wildcard_def is_non_greedy_wildcard_def)
    show ?thesis
    proof (cases "ec_value c \<in> set special_regex_characters")
      case True
      then show ?thesis using Cons kinds(3) [OF Normal] c by (simp add: regex_char_def)
    next
      case False
      then have "ec_value c \<noteq> CHR ''.''" "ec_value c \<noteq> CHR 0x5C"
        by (auto simp: special_regex_characters_def)
      then show ?thesis using Cons kinds(3) [OF Normal] c False
        by (simp add: regex_char_def read_literal)
    qed
  next
    case GreedyWildcard
    then show ?thesis using Cons kinds(1)
      by (simp add: regex_char_def is_escape_def is_greedy_wildcard_def)
  next
    case NonGreedyWildcard
    then have c: "is_non_greedy_wildcard c" "\<not> is_escape c" "\<not> is_greedy_wildcard c"
      by (simp_all add: is_non_greedy_wildcard_def is_escape_def is_greedy_wildcard_def)
    then have "regex_char c = ''.''" by (simp add: regex_char_def)
    with Cons kinds(2) [OF c(1)] c(2) show ?thesis
      by (simp add: read_dot [OF regex_char_not_star])
  next
    case Escape
    then show ?thesis using Cons by (simp add: regex_char_def is_escape_def)
  qed
qed simp

lemma match_without_escapes: "chars_match (filter (\<lambda>c. \<not> is_escape c) cs) s \<longleftrightarrow> chars_match cs s"
proof (induction cs arbitrary: s)
  case (Cons c cs)
  show ?case
  proof (cases "is_escape c")
    case True
    then show ?thesis using Cons by (simp add: chars_match.simps(2) is_escape_def)
  next
    case False
    then show ?thesis using chars_match_cong [OF Cons.IH] by simp
  qed
qed simp

section \<open>Properties\<close>

text \<open>
  C37: the query keeps its meaning when repeated wildcards are dropped: the processed query
  string matches the same strings as the one given, has no two greedy wildcards in a row, and is
  left as it is when it is processed again.
\<close>

theorem query_new_equivalent:
  "(\<forall>s. expression_matches (query_new q) s \<longleftrightarrow> expression_matches q s) \<and>
    no_double_star (ex_chars (expression_new (query_new q))) \<and> query_new (query_new q) = query_new q"
proof (intro conjI allI)
  show "expression_matches (query_new q) s \<longleftrightarrow> expression_matches q s" for s
    by (simp add: expression_matches_def lex_query collapse_match)
  show star: "no_double_star (ex_chars (expression_new (query_new q)))"
    using collapse_no_double_star by (simp add: lex_query)
  then show "query_new (query_new q) = query_new q"
    by (subst query_new_collapse) (simp add: collapse_id)
qed

text \<open>
  C38: a well-formed view means on its own what it means inside the expression: reading its
  search string as an expression gives the characters of the view, with the same types, and it
  does not end in the middle of an escape sequence.
\<close>

theorem well_formed_view_reads_back:
  assumes "is_well_formed (view_new (expression_new s) b e)"
  shows "ex_chars (expression_new (ev_search_string (view_new (expression_new s) b e))) =
      ev_chars (view_new (expression_new s) b e) \<and>
    (ev_chars (view_new (expression_new s) b e) = [] \<or>
      ec_type (last (ev_chars (view_new (expression_new s) b e))) \<noteq> Escape)"
proof -
  from view_clamped [of s b e] obtain b' e' where
    v: "b' \<le> e'" "e' \<le> length s" "view_new (expression_new s) b e = view_new (expression_new s) b' e'"
    by blast
  with assms have wf: "is_well_formed (view_new (expression_new s) b' e')" by simp
  from well_formed_chars(1) [OF v(1,2) wf] view_fields(4) [OF v(1,2)] wf show ?thesis
    unfolding v(3) by (auto simp: view_chars is_well_formed_def is_escape_def split: if_splits prod.splits)
qed

text \<open>The view \<^verbatim>\<open>\*t\<close> of \<^verbatim>\<open>*\*t?\<close>.\<close>

theorem well_formed_view_reads_back_witness:
  "ex_chars (expression_new (ev_search_string (view_new (expression_new [CHR ''*'', CHR 0x5C, CHR ''*'', CHR ''t'', CHR ''?'']) 1 4))) =
    ev_chars (view_new (expression_new [CHR ''*'', CHR 0x5C, CHR ''*'', CHR ''t'', CHR ''?'']) 1 4)"
  using well_formed_view_reads_back [of "[CHR ''*'', CHR 0x5C, CHR ''*'', CHR ''t'', CHR ''?'']" 1 4]
  by (simp add: is_well_formed_def view_new_def get_indices_def is_escape_def char_type_def)

text \<open>
  The regex text of a view can be read back unambiguously: with the special characters of
  the schema parser escaped it reads as the characters of the view without the escapes, so it
  matches what the view matches, and the flag says whether there is a wildcard among them.
\<close>

theorem regex_string_reads_back:
  "read_regex (fst (generate_regex_string special_regex_characters (view_new (expression_new s) b e))) =
      filter (\<lambda>c. \<not> is_escape c) (ev_chars (view_new (expression_new s) b e)) \<and>
    (\<forall>t. chars_match (read_regex (fst (generate_regex_string special_regex_characters
          (view_new (expression_new s) b e)))) t \<longleftrightarrow>
       chars_match (ev_chars (view_new (expression_new s) b e)) t) \<and>
    (snd (generate_regex_string special_regex_characters (view_new (expression_new s) b e)) \<longleftrightarrow>
       (\<exists>c \<in> set (ev_chars (view_new (expression_new s) b e)). is_wildcard c))"
proof -
  let ?cs = "ev_chars (view_new (expression_new s) b e)"
  have "set ?cs \<subseteq> set (lex_chars False s)"
    unfolding view_chars by (meson order_trans set_drop_subset set_take_subset)
  note read = read_regex_chars [OF this]
  show ?thesis
    using read by (simp add: generate_regex_string_def generate_regex_chars match_without_escapes)
qed

end
