(* ===== verification/Query_Interpretation.thy ===== *)
theory Query_Interpretation
  imports Ordered_Containers "HOL-Library.Char_ord"
begin

text \<open>
  \<^verbatim>\<open>wildcard_query_parser/QueryInterpretation\<close>,
  \<^verbatim>\<open>StaticQueryToken\<close> and \<^verbatim>\<open>VariableQueryToken\<close>: a query as a
  sequence of static and variable tokens, kept in a canonical form, with the three-way comparison
  that orders the sets of interpretations.
\<close>

section \<open>Tokens and their order\<close>

datatype query_token =
    StaticQueryToken string
  | VariableQueryToken nat string bool

type_synonym query_interpretation = "query_token list"

text \<open>\<^verbatim>\<open>std::strong_ordering\<close>, and the built-in comparison of numbers and strings.\<close>

datatype ordering = Less | Equal | Greater

definition three_way :: "'a::linorder \<Rightarrow> 'a \<Rightarrow> ordering" where
  "three_way x y = (if x < y then Less else if x = y then Equal else Greater)"

definition static_token_cmp :: "string \<Rightarrow> string \<Rightarrow> ordering" where
  "static_token_cmp s t = three_way s t"

definition variable_token_cmp :: "nat \<times> string \<times> bool \<Rightarrow> nat \<times> string \<times> bool \<Rightarrow> ordering" where
  "variable_token_cmp = (\<lambda>(v, s, w) (v', s', w').
     if three_way v v' \<noteq> Equal then three_way v v'
     else if three_way s s' \<noteq> Equal then three_way s s'
     else three_way (if w then 1 else 0 :: int) (if w' then 1 else 0))"

text \<open>A \<^verbatim>\<open>variant\<close> compares by the alternative it holds first.\<close>

fun token_cmp :: "query_token \<Rightarrow> query_token \<Rightarrow> ordering" where
  "token_cmp (StaticQueryToken s) (StaticQueryToken t) = static_token_cmp s t"
| "token_cmp (StaticQueryToken s) (VariableQueryToken v t w) = Less"
| "token_cmp (VariableQueryToken v s w) (StaticQueryToken t) = Greater"
| "token_cmp (VariableQueryToken v s w) (VariableQueryToken v' s' w') =
     variable_token_cmp (v, s, w) (v', s', w')"

fun tokens_cmp :: "query_token list \<Rightarrow> query_token list \<Rightarrow> ordering" where
  "tokens_cmp [] [] = Equal"
| "tokens_cmp [] (y # ys) = Less"
| "tokens_cmp (x # xs) [] = Greater"
| "tokens_cmp (x # xs) (y # ys) = (if token_cmp x y \<noteq> Equal then token_cmp x y else tokens_cmp xs ys)"

definition qi_cmp :: "query_interpretation \<Rightarrow> query_interpretation \<Rightarrow> ordering" where
  "qi_cmp p q =
     (case tokens_cmp p q of Less \<Rightarrow> Less | Greater \<Rightarrow> Greater | Equal \<Rightarrow> Equal)"

definition qi_eq :: "query_interpretation \<Rightarrow> query_interpretation \<Rightarrow> bool" where
  "qi_eq p q \<longleftrightarrow> qi_cmp p q = Equal"

definition qi_less :: "query_interpretation less" where
  "qi_less p q \<longleftrightarrow> qi_cmp p q = Less"

section \<open>Building interpretations\<close>

definition static_token_append :: "string \<Rightarrow> string \<Rightarrow> string" where
  "static_token_append query_substring rhs = query_substring @ rhs"

definition append_static_token :: "string \<Rightarrow> query_interpretation \<Rightarrow> query_interpretation" where
  "append_static_token query_substring tokens =
     (if query_substring = [] then tokens
      else if tokens = [] then [StaticQueryToken query_substring]
      else case last tokens of
             StaticQueryToken s \<Rightarrow>
               butlast tokens @ [StaticQueryToken (static_token_append s query_substring)]
           | VariableQueryToken v s w \<Rightarrow> tokens @ [StaticQueryToken query_substring])"

definition append_variable_token ::
  "nat \<Rightarrow> string \<Rightarrow> bool \<Rightarrow> query_interpretation \<Rightarrow> query_interpretation" where
  "append_variable_token variable_type query_substring contains_wildcard tokens =
     tokens @ [VariableQueryToken variable_type query_substring contains_wildcard]"

definition append_query_interpretation ::
  "query_interpretation \<Rightarrow> query_interpretation \<Rightarrow> query_interpretation" where
  "append_query_interpretation tokens rest =
     (if rest = [] then tokens
      else if tokens = [] then rest
      else case (last tokens, hd rest) of
             (StaticQueryToken s, StaticQueryToken t) \<Rightarrow>
               butlast tokens @ [StaticQueryToken (static_token_append s t)] @ tl rest
           | _ \<Rightarrow> tokens @ rest)"

definition qi_static :: "string \<Rightarrow> query_interpretation" where
  "qi_static query_substring = append_static_token query_substring []"

definition qi_variable :: "nat \<Rightarrow> string \<Rightarrow> bool \<Rightarrow> query_interpretation" where
  "qi_variable variable_type query_substring contains_wildcard =
     append_variable_token variable_type query_substring contains_wildcard []"

definition qi_clear :: "query_interpretation \<Rightarrow> query_interpretation" where
  "qi_clear tokens = []"

definition token_string :: "query_token \<Rightarrow> string" where
  "token_string t =
     (case t of
        StaticQueryToken s \<Rightarrow> s
      | VariableQueryToken v s w \<Rightarrow> ''<'' @ dec v @ ''>('' @ s @ '')'')"

definition token_wildcard_string :: "query_token \<Rightarrow> string" where
  "token_wildcard_string t =
     (case t of StaticQueryToken s \<Rightarrow> ''0''
      | VariableQueryToken v s w \<Rightarrow> if w then ''1'' else ''0'')"

definition qi_serialize :: "query_interpretation \<Rightarrow> string" where
  "qi_serialize tokens =
     ''logtype='' @ [CHR 0x27] @ join '''' (map token_string tokens) @ [CHR 0x27] @ '', contains_wildcard='' @
     [CHR 0x27] @ join '''' (map token_wildcard_string tokens) @ [CHR 0x27]"

section \<open>The order is a linear order\<close>

type_synonym token_key = "nat \<times> nat \<times> string \<times> bool"

fun token_key :: "query_token \<Rightarrow> token_key" where
  "token_key (StaticQueryToken s) = (0, 0, s, False)"
| "token_key (VariableQueryToken v s w) = (1, v, s, w)"

lemma token_key_inj: "token_key x = token_key y \<longleftrightarrow> x = y"
  by (cases x; cases y) auto

lemma token_cmp_key: "token_cmp x y = three_way (token_key x) (token_key y)"
  by (cases x; cases y)
    (auto simp: static_token_cmp_def variable_token_cmp_def three_way_def split: if_splits)

instantiation query_token :: linorder
begin

definition less_query_token :: "query_token \<Rightarrow> query_token \<Rightarrow> bool" where
  "x < y \<longleftrightarrow> token_cmp x y = Less"

definition less_eq_query_token :: "query_token \<Rightarrow> query_token \<Rightarrow> bool" where
  "x \<le> y \<longleftrightarrow> token_cmp x y \<noteq> Greater"

instance
proof
  fix x y z :: query_token
  have less: "a < b \<longleftrightarrow> token_key a < token_key b" for a b
    by (simp add: less_query_token_def token_cmp_key three_way_def)
  have le: "a \<le> b \<longleftrightarrow> token_key a \<le> token_key b" for a b
    by (auto simp: less_eq_query_token_def token_cmp_key three_way_def)
  show "(x < y) = (x \<le> y \<and> \<not> y \<le> x)" by (auto simp: less le)
  show "x \<le> x" by (simp add: le)
  show "x \<le> z" if "x \<le> y" "y \<le> z" using that unfolding le by (rule order_trans)
  show "x = y" if "x \<le> y" "y \<le> x" using that unfolding le by (metis antisym token_key_inj)
  show "x \<le> y \<or> y \<le> x" unfolding le by (rule linear)
qed

end

lemma token_cmp_three_way: "token_cmp x y = three_way x y"
proof -
  have "x < y \<longleftrightarrow> token_cmp x y = Less" by (simp add: less_query_token_def)
  moreover have "token_cmp x y = Equal \<longleftrightarrow> x = y"
    by (simp add: token_cmp_key three_way_def token_key_inj)
  ultimately show ?thesis by (cases "token_cmp x y") (auto simp: three_way_def)
qed

lemma qi_cmp_three_way: "qi_cmp p q = three_way p q"
proof -
  have "tokens_cmp p q = three_way p q"
    by (induction p q rule: tokens_cmp.induct)
      (auto simp: token_cmp_three_way three_way_def split: if_splits)
  then show ?thesis by (simp add: qi_cmp_def split: ordering.split)
qed

interpretation qi_order: keyed_order qi_less "\<lambda>q. q"
  by unfold_locales (auto simp: qi_less_def qi_cmp_three_way three_way_def)

section \<open>The canonical form\<close>

fun is_static :: "query_token \<Rightarrow> bool" where
  "is_static (StaticQueryToken s) = True"
| "is_static (VariableQueryToken v s w) = False"

fun qi_canonical :: "query_interpretation \<Rightarrow> bool" where
  "qi_canonical [] = True"
| "qi_canonical (t # ts) \<longleftrightarrow>
     t \<noteq> StaticQueryToken [] \<and> (ts \<noteq> [] \<longrightarrow> \<not> (is_static t \<and> is_static (hd ts))) \<and> qi_canonical ts"

text \<open>What a sequence of tokens stands for: static characters and variables.\<close>

fun token_atoms :: "query_token \<Rightarrow> (char + nat \<times> string \<times> bool) list" where
  "token_atoms (StaticQueryToken s) = map Inl s"
| "token_atoms (VariableQueryToken v s w) = [Inr (v, s, w)]"

definition qi_atoms :: "query_interpretation \<Rightarrow> (char + nat \<times> string \<times> bool) list" where
  "qi_atoms q = concat (map token_atoms q)"

lemma qi_atoms_simps [simp]:
  "qi_atoms [] = []"
  "qi_atoms (t # q) = token_atoms t @ qi_atoms q"
  "qi_atoms (p @ q) = qi_atoms p @ qi_atoms q"
  by (simp_all add: qi_atoms_def)

lemma qi_canonical_append:
  "qi_canonical (p @ q) \<longleftrightarrow> qi_canonical p \<and> qi_canonical q \<and>
     (p \<noteq> [] \<and> q \<noteq> [] \<longrightarrow> \<not> (is_static (last p) \<and> is_static (hd q)))"
  by (induction p) (auto simp: hd_append)

lemma append_cases:
  obtains (empty_rest) "rest = []" "append_query_interpretation tokens rest = tokens"
  | (empty) "tokens = []" "append_query_interpretation tokens rest = rest"
  | (merge) p s t q where "tokens = p @ [StaticQueryToken s]" "rest = StaticQueryToken t # q"
      "append_query_interpretation tokens rest = p @ StaticQueryToken (s @ t) # q"
  | (both) "tokens \<noteq> []" "rest \<noteq> []" "\<not> (is_static (last tokens) \<and> is_static (hd rest))"
      "append_query_interpretation tokens rest = tokens @ rest"
proof (cases tokens rule: rev_cases)
  case Nil
  with empty_rest empty show ?thesis by (cases rest) (auto simp: append_query_interpretation_def)
next
  case (snoc p x)
  show ?thesis
  proof (cases rest)
    case Nil
    with empty_rest show ?thesis by (simp add: append_query_interpretation_def)
  next
    case (Cons y q)
    with snoc merge both show ?thesis
      by (cases x; cases y) (auto simp: append_query_interpretation_def static_token_append_def)
  qed
qed

lemma append_atoms [simp]: "qi_atoms (append_query_interpretation p q) = qi_atoms p @ qi_atoms q"
  by (rule append_cases [of q p]) auto

lemma append_canonical:
  assumes "qi_canonical p" "qi_canonical q"
  shows "qi_canonical (append_query_interpretation p q)"
  by (rule append_cases [of q p]) (use assms in \<open>auto simp: qi_canonical_append\<close>)

lemma append_static_as_append:
  "append_static_token s q = append_query_interpretation q (if s = [] then [] else [StaticQueryToken s])"
  by (cases "last q") (auto simp: append_static_token_def append_query_interpretation_def)

lemma static_variable_simps [simp]:
  "qi_static s = (if s = [] then [] else [StaticQueryToken s])"
  "qi_variable v s w = [VariableQueryToken v s w]"
  by (simp_all add: qi_static_def qi_variable_def append_static_token_def append_variable_token_def)

text \<open>A canonical sequence is determined by what it stands for.\<close>

lemma canonical_unique:
  "qi_canonical p \<Longrightarrow> qi_canonical q \<Longrightarrow> qi_atoms p = qi_atoms q \<Longrightarrow> p = q"
proof (induction p arbitrary: q)
  case Nil
  then show ?case by (cases q; cases "hd q") auto
next
  case (Cons t p)
  from Cons.prems obtain u q' where q: "q = u # q'" by (cases q; cases t) auto
  have static: "s = s' \<and> qi_atoms p' = qi_atoms q''"
    if "map Inl s @ qi_atoms p' = map Inl s' @ qi_atoms q''" "qi_canonical (StaticQueryToken s # p')"
      "qi_canonical (StaticQueryToken s' # q'')" for s s' p' q''
  proof -
    have next_var: "qi_atoms r = [] \<or> \<not> isl (hd (qi_atoms r))" if "qi_canonical (StaticQueryToken x # r)" for x r
      using that by (cases r; cases "hd r") auto
    have "takeWhile isl (map Inl x @ qi_atoms r) = map Inl x" if "qi_canonical (StaticQueryToken x # r)" for x r
    proof -
      have "takeWhile isl (qi_atoms r) = []"
        using next_var [OF that] by (cases "qi_atoms r") auto
      then show ?thesis by (simp add: takeWhile_append)
    qed
    with that have "map Inl s = (map Inl s' :: (char + nat \<times> string \<times> bool) list)" by metis
    then have "s = s'" by (simp add: inj_map_eq_map)
    with that(1) show ?thesis by simp
  qed
  have "t = u \<and> qi_atoms p = qi_atoms q'"
  proof (cases t)
    case t: (StaticQueryToken s)
    show ?thesis
    proof (cases u)
      case (StaticQueryToken s')
      with static [of s p s' q'] Cons.prems q t show ?thesis by simp
    next
      case (VariableQueryToken v s' w)
      with Cons.prems q t show ?thesis by (cases s) auto
    qed
  next
    case t: (VariableQueryToken v s w)
    with Cons.prems q show ?thesis by (cases u; cases "case u of StaticQueryToken s \<Rightarrow> s | _ \<Rightarrow> []") auto
  qed
  with Cons.IH [of q'] Cons.prems q show ?case by simp
qed

section \<open>Properties\<close>

text \<open>
  Interpretations are kept in a canonical form: built from canonical ones, the result of
  every appending operation has no empty static token and no two static tokens in a row, and
  stands for the static characters and variables of its parts in order.
\<close>

theorem interpretations_stay_canonical:
  assumes "qi_canonical p" "qi_canonical q"
  shows "qi_canonical (append_query_interpretation p q) \<and> qi_canonical (append_static_token s p) \<and>
    qi_canonical (append_variable_token v s w p) \<and> qi_canonical (qi_static s) \<and>
    qi_canonical (qi_variable v s w) \<and>
    qi_atoms (append_query_interpretation p q) = qi_atoms p @ qi_atoms q \<and>
    qi_atoms (append_static_token s p) = qi_atoms p @ map Inl s \<and>
    qi_atoms (append_variable_token v s w p) = qi_atoms p @ [Inr (v, s, w)]"
  using assms append_canonical
  by (auto simp: append_static_as_append append_variable_token_def qi_canonical_append)

theorem interpretations_stay_canonical_witness:
  "append_query_interpretation [VariableQueryToken 3 ''1'' False, StaticQueryToken '' a''] [StaticQueryToken ''b'']
     = [VariableQueryToken 3 ''1'' False, StaticQueryToken '' ab''] \<and>
   qi_canonical (append_query_interpretation [VariableQueryToken 3 ''1'' False, StaticQueryToken '' a'']
     [StaticQueryToken ''b''])"
  using interpretations_stay_canonical
    [of "[VariableQueryToken 3 ''1'' False, StaticQueryToken '' a'']" "[StaticQueryToken ''b'']"]
  by (simp add: append_query_interpretation_def static_token_append_def)

text \<open>
  C39: comparing interpretations is a strong order that agrees with what they stand for: exactly
  one of less, equal and greater holds, exchanging the arguments exchanges less and greater, less
  is transitive, and canonical interpretations that stand for the same text and variables compare
  equal.
\<close>

theorem interpretation_order:
  "(qi_eq p q \<longleftrightarrow> p = q) \<and> (qi_cmp p q = Less \<longleftrightarrow> qi_cmp q p = Greater) \<and>
    \<not> (qi_less p q \<and> qi_less q r \<and> \<not> qi_less p r) \<and>
    \<not> (qi_canonical p \<and> qi_canonical q \<and> qi_atoms p = qi_atoms q \<and> \<not> qi_eq p q)"
  using canonical_unique [of p q]
  by (auto simp: qi_eq_def qi_less_def qi_cmp_three_way three_way_def split: if_splits)

end
