(* ===== verification/Wildcard_Query.thy ===== *)
theory Wildcard_Query
  imports Dfa_Intersect Wildcard_Expression Query_Interpretation
begin

text \<open>
  \<^verbatim>\<open>wildcard_query_parser/Query.cpp\<close>: all interpretations of a wildcard query as a
  sequence of static text and variables. Of the lexer the query uses the table of delimiters and
  the automaton. The schema parser that turns the regex text of a view into a syntax tree is an
  argument, as are the addresses of the automaton's states and the order of an unordered map.
\<close>

section \<open>Single tokens\<close>

record query_env =
  qe_delim_table :: "nat \<Rightarrow> bool"
  qe_lexer_dfa :: dfa
  qe_parse_schema :: "string \<Rightarrow> regex_ast res"
  qe_special :: "char list"
  qe_ord :: "(nat \<times> nat) list \<Rightarrow> (nat \<times> nat) list"
  qe_lexer_addr :: "nat \<Rightarrow> nat"
  qe_query_addr :: "nat \<Rightarrow> nat"

definition get_matching_variable_types :: "query_env \<Rightarrow> string \<Rightarrow> nat list res option" where
  "get_matching_variable_types env regex_string =
     (case rbind (qe_parse_schema env (''search:'' @ regex_string))
             (\<lambda>rule_ast. nfa_of_rules [\<lparr>lr_variable_id = 0, lr_regex = rule_ast\<rparr>]) of
        Inl e \<Rightarrow> Some (Inl e)
      | Inr nfa \<Rightarrow>
          cbind (dfa_generate (qe_ord env) nfa)
            (dfa_get_intersect (qe_lexer_addr env) (qe_query_addr env) (qe_lexer_dfa env)))"

definition get_all_single_token_interpretations ::
  "query_env \<Rightarrow> expression_view \<Rightarrow> query_interpretation list res option" where
  "get_all_single_token_interpretations env original_view =
     (let extended_view = snd (extend_to_adjacent_greedy_wildcards original_view);
          text = ev_search_string extended_view
      in if \<not> is_well_formed original_view then Some (Inr [])
         else if ev_search_string original_view = ''*'' then Some (Inr [qi_static ''*''])
         else if \<not> is_surrounded_by_delims_or_wildcards (qe_delim_table env) original_view
         then Some (Inr [qi_static text])
         else let (regex_string, contains_wildcard) = generate_regex_string (qe_special env) extended_view
              in cbind (get_matching_variable_types env regex_string) (\<lambda>matching_var_type_ids.
                   Some (Inr
                     ((if matching_var_type_ids = [] \<or> contains_wildcard then [qi_static text] else []) @
                      map (\<lambda>variable_type_id. qi_variable variable_type_id text contains_wildcard)
                        (if contains_wildcard then matching_var_type_ids
                         else take 1 matching_var_type_ids)))))"

section \<open>All interpretations\<close>

definition skipped_view :: "expression_view \<Rightarrow> bool" where
  "skipped_view v \<longleftrightarrow> ev_search_string v \<noteq> ''*'' \<and> starts_or_ends_with_greedy_wildcard v"

definition add_interpretations ::
  "nat \<Rightarrow> nat \<Rightarrow> query_interpretation list \<Rightarrow> query_interpretation list list \<Rightarrow>
     query_interpretation list list" where
  "add_interpretations begin_idx end_idx singles table =
     table[end_idx - 1 :=
       (if begin_idx = 0 then sset_insert_all qi_less singles (table ! (end_idx - 1))
        else fold (\<lambda>prefix acc. fold (\<lambda>single acc.
                 sset_insert qi_less (append_query_interpretation prefix single) acc) singles acc)
               (table ! (begin_idx - 1)) (table ! (end_idx - 1)))]"

definition query_step ::
  "query_env \<Rightarrow> expression \<Rightarrow> nat \<Rightarrow> nat \<Rightarrow> query_interpretation list list \<Rightarrow>
     query_interpretation list list res option" where
  "query_step env e end_idx begin_idx table =
     (let v = view_new e begin_idx end_idx
      in if skipped_view v then Some (Inr table)
         else cbind (get_all_single_token_interpretations env v) (\<lambda>singles.
                Some (Inr (if singles = [] then table
                           else add_interpretations begin_idx end_idx singles table))))"

definition get_all_multi_token_interpretations ::
  "query_env \<Rightarrow> string \<Rightarrow> query_interpretation list res option" where
  "get_all_multi_token_interpretations env processed_query_string =
     (if processed_query_string = [] then Some (Inr [])
      else let e = expression_new processed_query_string
           in cbind (cfold (\<lambda>end_idx. cfold (query_step env e end_idx) [0..<end_idx])
                      [1..<Suc (expression_length e)] (replicate (expression_length e) []))
                (\<lambda>table. Some (Inr (last table))))"

section \<open>The specification of the table\<close>

text \<open>
  The interpretations of a range as one token, and by recursion those of a prefix: those of a
  shorter prefix continued by one token.
\<close>

definition single_set :: "query_env \<Rightarrow> string \<Rightarrow> nat \<Rightarrow> nat \<Rightarrow> query_interpretation set" where
  "single_set env q b e =
     (let v = view_new (expression_new q) b e
      in if skipped_view v then {}
         else {i. \<exists>s. get_all_single_token_interpretations env v = Some (Inr s) \<and> i \<in> set s})"

inductive interprets :: "(nat \<Rightarrow> nat \<Rightarrow> query_interpretation set) \<Rightarrow> nat \<Rightarrow> query_interpretation \<Rightarrow> bool"
  for T where
  first: "0 < e \<Longrightarrow> i \<in> T 0 e \<Longrightarrow> interprets T e i"
| more: "interprets T b p \<Longrightarrow> b < e \<Longrightarrow> i \<in> T b e \<Longrightarrow> interprets T e (append_query_interpretation p i)"

inductive_cases interpretsE: "interprets T e i"

lemma interprets_pos: "interprets T e i \<Longrightarrow> 0 < e"
  by (induction rule: interprets.induct) auto

lemma interprets_iff:
  "interprets T e i \<longleftrightarrow> 0 < e \<and> (i \<in> T 0 e \<or>
     (\<exists>b p s. 0 < b \<and> b < e \<and> interprets T b p \<and> s \<in> T b e \<and> i = append_query_interpretation p s))"
proof
  assume "interprets T e i"
  then show "0 < e \<and> (i \<in> T 0 e \<or>
     (\<exists>b p s. 0 < b \<and> b < e \<and> interprets T b p \<and> s \<in> T b e \<and> i = append_query_interpretation p s))"
  proof (rule interpretsE)
    fix b p s
    assume "i = append_query_interpretation p s" "interprets T b p" "b < e" "s \<in> T b e"
    with interprets_pos [of T b p] show ?thesis by auto
  qed simp
next
  assume "0 < e \<and> (i \<in> T 0 e \<or>
     (\<exists>b p s. 0 < b \<and> b < e \<and> interprets T b p \<and> s \<in> T b e \<and> i = append_query_interpretation p s))"
  then show "interprets T e i" using first [of e i T] more [of T] by blast
qed

text \<open>The calls that the query makes return.\<close>

definition query_returns :: "query_env \<Rightarrow> string \<Rightarrow> bool" where
  "query_returns env q \<longleftrightarrow> (\<forall>e \<le> length q. \<forall>b < e. skipped_view (view_new (expression_new q) b e) \<or>
     (\<exists>s. get_all_single_token_interpretations env (view_new (expression_new q) b e) = Some (Inr s)))"

definition row_upto ::
  "(nat \<Rightarrow> nat \<Rightarrow> query_interpretation set) \<Rightarrow> nat \<Rightarrow> nat \<Rightarrow> query_interpretation set" where
  "row_upto T e m = {i. 0 < m \<and> i \<in> T 0 e} \<union>
     {append_query_interpretation p s |b p s. 0 < b \<and> b < m \<and> interprets T b p \<and> s \<in> T b e}"

lemma row_upto_Suc:
  "row_upto T e (Suc m) = row_upto T e m \<union>
     (if m = 0 then T 0 e
      else {append_query_interpretation p s |p s. interprets T m p \<and> s \<in> T m e})"
  by (auto simp: row_upto_def less_Suc_eq)

lemma row_upto_full: "0 < e \<Longrightarrow> row_upto T e e = {i. interprets T e i}"
  by (auto simp: row_upto_def interprets_iff [of T e])

definition table_ok ::
  "(nat \<Rightarrow> nat \<Rightarrow> query_interpretation set) \<Rightarrow> nat \<Rightarrow> nat \<Rightarrow> nat \<Rightarrow> query_interpretation list list \<Rightarrow> bool" where
  "table_ok T n e m table \<longleftrightarrow> length table = n \<and> (\<forall>j < n. qi_order.ordered (table ! j) \<and>
     set (table ! j) = (if Suc j < e then {i. interprets T (Suc j) i}
                        else if Suc j = e then row_upto T e m else {}))"

lemma table_ok_next: "0 < e \<Longrightarrow> table_ok T n e e table \<Longrightarrow> table_ok T n (Suc e) 0 table"
  by (auto simp: table_ok_def row_upto_full less_Suc_eq) (auto simp: row_upto_def)

lemma set_insert_products:
  "set (fold (\<lambda>p acc. fold (\<lambda>s acc. sset_insert qi_less (f p s) acc) ss acc) ps acc) =
     {f p s |p s. p \<in> set ps \<and> s \<in> set ss} \<union> set acc"
  "qi_order.ordered acc \<Longrightarrow>
     qi_order.ordered (fold (\<lambda>p acc. fold (\<lambda>s acc. sset_insert qi_less (f p s) acc) ss acc) ps acc)"
proof -
  have inj: "inj (\<lambda>q :: query_interpretation. q)" by (simp add: inj_def)
  have row: "set (fold (\<lambda>s acc. sset_insert qi_less (f p s) acc) ss acc) = f p ` set ss \<union> set acc" for p ss acc
    by (induction ss arbitrary: acc) (auto simp: qi_order.insert_inj [OF inj])
  have ord: "qi_order.ordered acc \<Longrightarrow>
      qi_order.ordered (fold (\<lambda>s acc. sset_insert qi_less (f p s) acc) ss acc)" for p ss acc
    by (induction ss arbitrary: acc) (simp_all add: qi_order.insert_ordered)
  show "set (fold (\<lambda>p acc. fold (\<lambda>s acc. sset_insert qi_less (f p s) acc) ss acc) ps acc) =
     {f p s |p s. p \<in> set ps \<and> s \<in> set ss} \<union> set acc"
    by (induction ps arbitrary: acc) (auto simp: row)
  show "qi_order.ordered acc \<Longrightarrow>
     qi_order.ordered (fold (\<lambda>p acc. fold (\<lambda>s acc. sset_insert qi_less (f p s) acc) ss acc) ps acc)"
    by (induction ps arbitrary: acc) (simp_all add: ord)
qed

lemma add_interpretations_ok:
  assumes ok: "table_ok T n e m table" and m: "m < e" "e \<le> n" and s: "set singles = T m e"
  shows "table_ok T n e (Suc m) (add_interpretations m e singles table)"
proof -
  let ?new = "add_interpretations m e singles table ! (e - 1)"
  have old: "length table = n" "qi_order.ordered (table ! (e - 1))" "set (table ! (e - 1)) = row_upto T e m"
    using ok m by (auto simp: table_ok_def)
  have new: "?new = (if m = 0 then sset_insert_all qi_less singles (table ! (e - 1))
      else fold (\<lambda>p acc. fold (\<lambda>s acc. sset_insert qi_less (append_query_interpretation p s) acc) singles acc)
        (table ! (m - 1)) (table ! (e - 1)))"
    using m old(1) by (simp add: add_interpretations_def)
  have "set ?new = row_upto T e (Suc m) \<and> qi_order.ordered ?new"
  proof (cases "m = 0")
    case True
    with new old s qi_order.insert_all_keys [of singles "table ! (e - 1)"]
      qi_order.insert_all_ordered [OF old(2), of singles]
    show ?thesis by (auto simp: row_upto_Suc)
  next
    case False
    with ok m have "set (table ! (m - 1)) = {i. interprets T m i}" by (auto simp: table_ok_def)
    with False new old s show ?thesis by (auto simp: row_upto_Suc set_insert_products)
  qed
  moreover have "add_interpretations m e singles table ! j = table ! j" if "j \<noteq> e - 1" for j
    using that by (simp add: add_interpretations_def)
  moreover have "length (add_interpretations m e singles table) = n"
    by (simp add: add_interpretations_def old(1))
  moreover have "e - 1 < n" "Suc (e - 1) = e" using m by simp_all
  ultimately show ?thesis
    using ok unfolding table_ok_def by (metis (no_types, lifting) less_irrefl diff_Suc_1)
qed

lemma query_step_ok:
  assumes ret: "query_returns env q" and m: "m < e" "e \<le> length q"
    and ok: "table_ok (single_set env q) (length q) e m table"
  shows "\<exists>table'. query_step env (expression_new q) e m table = Some (Inr table') \<and>
    table_ok (single_set env q) (length q) e (Suc m) table'"
proof -
  let ?v = "view_new (expression_new q) m e"
  let ?T = "single_set env q"
  have none: "table_ok ?T (length q) e (Suc m) table" if "?T m e = {}"
    using ok that unfolding table_ok_def row_upto_Suc by (auto split: if_splits)
  show ?thesis
  proof (cases "skipped_view ?v")
    case True
    then have "?T m e = {}" by (simp add: single_set_def)
    with none True show ?thesis by (simp add: query_step_def)
  next
    case False
    with ret m obtain s where s: "get_all_single_token_interpretations env ?v = Some (Inr s)"
      unfolding query_returns_def by blast
    then have T: "set s = ?T m e" using False by (simp add: single_set_def)
    show ?thesis
    proof (cases "s = []")
      case True
      with T none s False show ?thesis by (simp add: query_step_def)
    next
      case nonempty: False
      with s False add_interpretations_ok [OF ok m T] show ?thesis by (simp add: query_step_def)
    qed
  qed
qed

lemma get_all_multi_exact:
  assumes ret: "query_returns env q" and q: "q \<noteq> []"
  shows "\<exists>is. get_all_multi_token_interpretations env q = Some (Inr is) \<and> qi_order.ordered is \<and>
    set is = {i. interprets (single_set env q) (length q) i}"
proof -
  let ?T = "single_set env q"
  let ?n = "length q"
  let ?inner = "\<lambda>e. cfold (query_step env (expression_new q) e) [0..<e]"
  have inner: "\<exists>table'. ?inner e table = Some (Inr table') \<and> table_ok ?T ?n (Suc e) 0 table'"
    if "1 \<le> e" "e < Suc ?n" "table_ok ?T ?n e 0 table" for e table
  proof -
    have "\<exists>t. ?inner e table = Some (Inr t) \<and> table_ok ?T ?n e e t"
      using that by (intro cfold_upt_total query_step_ok [OF ret]) auto
    with that(1) table_ok_next [of e] show ?thesis by auto
  qed
  have start: "table_ok ?T ?n 1 0 (replicate ?n [])" by (auto simp: table_ok_def row_upto_def)
  have "\<exists>t. cfold ?inner [1..<Suc ?n] (replicate ?n []) = Some (Inr t) \<and> table_ok ?T ?n (Suc ?n) 0 t"
    by (rule cfold_upt_total [where P = "\<lambda>e. table_ok ?T ?n e 0"]) (use start inner in auto)
  then obtain t where t: "cfold ?inner [1..<Suc ?n] (replicate ?n []) = Some (Inr t)"
    "table_ok ?T ?n (Suc ?n) 0 t" by blast
  have "t \<noteq> []" using t(2) q by (auto simp: table_ok_def)
  then have "last t = t ! (?n - 1)" using t(2) by (simp add: table_ok_def last_conv_nth)
  with t(2) q have "qi_order.ordered (last t)" "set (last t) = {i. interprets ?T ?n i}"
    by (auto simp: table_ok_def)
  moreover have "get_all_multi_token_interpretations env q = Some (Inr (last t))"
    using t(1) q by (simp add: get_all_multi_token_interpretations_def expression_length_def
        del: upt_Suc cfold.simps)
  ultimately show ?thesis by blast
qed

section \<open>The text of an interpretation\<close>

fun token_text :: "query_token \<Rightarrow> string" where
  "token_text (StaticQueryToken s) = s"
| "token_text (VariableQueryToken v s w) = s"

definition qi_text :: "query_interpretation \<Rightarrow> string" where
  "qi_text i = concat (map token_text i)"

lemma qi_text_simps [simp]:
  "qi_text [] = []" "qi_text (t # i) = token_text t @ qi_text i" "qi_text (i @ j) = qi_text i @ qi_text j"
  by (simp_all add: qi_text_def)

lemma qi_text_append [simp]: "qi_text (append_query_interpretation p q) = qi_text p @ qi_text q"
  by (rule append_cases [of q p]) auto

text \<open>The characters of a slice of the query, read on their own.\<close>

lemma lex_slice:
  assumes "b \<le> length q" "b = 0 \<or> \<not> is_escape (lex_chars False q ! (b - 1))"
  shows "lex_chars False (take k (drop b q)) = take k (drop b (lex_chars False q))"
  using assms drop_lex_chars [of b q False] by (auto simp: take_lex_chars split: if_splits)

lemma greedy_not_escaped:
  assumes "is_greedy_wildcard (lex_chars False q ! b)" "b < length q"
  shows "b = 0 \<or> \<not> is_escape (lex_chars False q ! (b - 1))"
proof (rule ccontr)
  assume neg: "\<not> ?thesis"
  then have "drop b (lex_chars False q) = lex_chars True (drop b q)"
    using drop_lex_chars [of b q False] assms(2) by simp
  moreover have "lex_chars False q ! b = hd (drop b (lex_chars False q))"
    using assms(2) by (simp add: hd_drop_conv_nth)
  ultimately have "lex_chars False q ! b = hd (lex_chars True (drop b q))" by simp
  then show False using assms by (cases "drop b q") (auto simp: is_greedy_wildcard_def char_type_def)
qed

text \<open>An extended view has the characters of the view and the greedy wildcards beside it.\<close>

definition left_star :: "expression_character list \<Rightarrow> nat \<Rightarrow> expression_character list" where
  "left_star cs b = (if 0 < b \<and> is_greedy_wildcard (cs ! (b - 1)) then [cs ! (b - 1)] else [])"

definition right_star :: "expression_character list \<Rightarrow> nat \<Rightarrow> expression_character list" where
  "right_star cs e = (if e < length cs \<and> is_greedy_wildcard (cs ! e) then [cs ! e] else [])"

lemma extended_text:
  assumes be: "b < e" "e \<le> length q" and wf: "is_well_formed (view_new (expression_new q) b e)"
  defines "cs \<equiv> lex_chars False q"
  shows "lex_chars False (ev_search_string (snd (extend_to_adjacent_greedy_wildcards
      (view_new (expression_new q) b e)))) = left_star cs b @ take (e - b) (drop b cs) @ right_star cs e"
proof -
  let ?l = "0 < b \<and> is_greedy_wildcard (cs ! (b - 1))"
  let ?r = "e < length cs \<and> is_greedy_wildcard (cs ! e)"
  let ?b = "if ?l then b - 1 else b" and ?e = "if ?r then e + 1 else e"
  have len: "length cs = length q" by (simp add: cs_def)
  have be': "?b \<le> ?e" "?e \<le> length q" using be len by auto
  have v: "snd (extend_to_adjacent_greedy_wildcards (view_new (expression_new q) b e)) =
      view_new (expression_new q) ?b ?e"
    using be view_fields [of b e q] by (simp add: extend_to_adjacent_greedy_wildcards_def cs_def Let_def)
  have start: "?b = 0 \<or> \<not> is_escape (lex_chars False q ! (?b - 1))"
  proof (cases ?l)
    case True
    with greedy_not_escaped [of q "b - 1"] be show ?thesis by (simp add: cs_def)
  next
    case False
    then show ?thesis using wf be view_fields [of b e q] view_chars [of q b e]
      by (auto simp: is_well_formed_def split: if_splits)
  qed
  have "take (?e - ?b) (drop ?b cs) = left_star cs b @ take (e - b) (drop b cs) @ right_star cs e"
  proof -
    have left: "take (?e - ?b) (drop ?b cs) = left_star cs b @ take (?e - b) (drop b cs)"
    proof (cases ?l)
      case True
      then obtain b' where b': "b = Suc b'" by (cases b) auto
      then have "drop b' cs = cs ! b' # drop (Suc b') cs" using be len by (simp add: Cons_nth_drop_Suc)
      moreover have "?e - b' = Suc (?e - b)" using be b' by auto
      ultimately show ?thesis using True b' by (simp add: left_star_def)
    qed (simp only: left_star_def if_False append_Nil)
    have right: "take (?e - b) (drop b cs) = take (e - b) (drop b cs) @ right_star cs e"
    proof (cases ?r)
      case True
      then have "?e - b = Suc (e - b)" using be by auto
      moreover have "take (Suc (e - b)) (drop b cs) = take (e - b) (drop b cs) @ [drop b cs ! (e - b)]"
        using True be by (intro take_Suc_conv_app_nth) auto
      ultimately show ?thesis using True be by (simp add: right_star_def)
    qed (simp only: right_star_def if_False append_Nil2)
    show ?thesis using left right by simp
  qed
  with lex_slice [OF _ start] be' view_fields(4) [OF be'] show ?thesis unfolding v by (simp add: cs_def)
qed

lemma single_text:
  assumes i: "i \<in> single_set env q b e" and be: "b < e" "e \<le> length q"
  defines "cs \<equiv> lex_chars False q"
  shows "is_well_formed (view_new (expression_new q) b e)"
    "lex_chars False (qi_text i) =
       (if e = Suc b \<and> is_greedy_wildcard (cs ! b) then [cs ! b]
        else left_star cs b @ take (e - b) (drop b cs) @ right_star cs e)"
    "e = Suc b \<or> \<not> is_greedy_wildcard (cs ! b)"
proof -
  let ?v = "view_new (expression_new q) b e"
  let ?text = "ev_search_string (snd (extend_to_adjacent_greedy_wildcards ?v))"
  obtain s where s: "get_all_single_token_interpretations env ?v = Some (Inr s)" "i \<in> set s"
    and notskip: "\<not> skipped_view ?v"
    using i by (auto simp: single_set_def Let_def split: if_splits)
  from s show wf: "is_well_formed ?v"
    by (auto simp: get_all_single_token_interpretations_def Let_def split: if_splits)
  have i_text: "qi_text i = (if ev_search_string ?v = ''*'' then ''*'' else ?text)"
    using s wf by (auto simp: get_all_single_token_interpretations_def Let_def cbind_def
        split: if_splits prod.splits option.splits sum.splits)
  note v = view_fields [of b e q] view_chars [of q b e]
  have len: "length cs = length q" by (simp add: cs_def)
  have reads: "lex_chars False (ev_search_string ?v) = take (e - b) (drop b cs)"
    using well_formed_chars(1) [OF _ be(2) wf] be v(4) by (simp add: cs_def)
  have hd: "hd (take (e - b) (drop b cs)) = cs ! b" using be len by (simp add: hd_drop_conv_nth)
  have star: "ev_search_string ?v = ''*'' \<longleftrightarrow> e = Suc b \<and> is_greedy_wildcard (cs ! b)"
  proof
    assume s: "ev_search_string ?v = ''*''"
    have "length (ev_search_string ?v) = e - b" using v(4) be by simp
    with s have e: "e = Suc b" using be by simp
    from s reads have "take (e - b) (drop b cs) = [star_char]"
      by (simp add: char_type_def star_char_def)
    with hd have "cs ! b = star_char" by (metis list.sel(1))
    with e show "e = Suc b \<and> is_greedy_wildcard (cs ! b)"
      by (simp add: is_greedy_wildcard_def star_char_def)
  next
    assume "e = Suc b \<and> is_greedy_wildcard (cs ! b)"
    moreover have "cs ! b \<in> set (lex_chars False q)" using be len by (simp add: cs_def)
    ultimately have "cs ! b = star_char" "e = Suc b" using lex_chars_greedy by blast+
    moreover have "ec_value (cs ! b) = q ! b"
      using be nth_map [of b cs ec_value] len by (simp add: cs_def)
    ultimately have "take (e - b) (drop b q) = ''*''"
      using be Cons_nth_drop_Suc [of b q] by (simp add: star_char_def take_Suc_conv_app_nth)
    then show "ev_search_string ?v = ''*''" using v(4) be by simp
  qed
  show "lex_chars False (qi_text i) = (if e = Suc b \<and> is_greedy_wildcard (cs ! b) then [cs ! b]
        else left_star cs b @ take (e - b) (drop b cs) @ right_star cs e)"
  proof (cases "e = Suc b \<and> is_greedy_wildcard (cs ! b)")
    case True
    then have "qi_text i = ''*''" using star i_text by simp
    moreover have "cs ! b = star_char"
      using True lex_chars_greedy [of "cs ! b" False q] be len by (simp add: cs_def)
    ultimately show ?thesis using True by (simp add: char_type_def star_char_def)
  next
    case False
    then have "ev_search_string ?v \<noteq> ''*''" using star by blast
    then have "qi_text i = ?text" using i_text by (simp only: if_False)
    then show ?thesis
      unfolding if_not_P [OF False] using extended_text [OF be wf] by (simp only: cs_def)
  qed
  show "e = Suc b \<or> \<not> is_greedy_wildcard (cs ! b)"
  proof (rule ccontr)
    assume "\<not> (e = Suc b \<or> \<not> is_greedy_wildcard (cs ! b))"
    then have "starts_or_ends_with_greedy_wildcard ?v" "ev_search_string ?v \<noteq> ''*''"
      using hd v(5) be len star by (auto simp: starts_or_ends_with_greedy_wildcard_def cs_def)
    with notskip show False by (simp add: skipped_view_def)
  qed
qed

text \<open>
  The characters of an interpretation of a prefix are those of the prefix up to repeated
  wildcards, possibly with the wildcard that follows.
\<close>

definition text_upto :: "expression_character list \<Rightarrow> nat \<Rightarrow> expression_character list \<Rightarrow> bool" where
  "text_upto cs e ts \<longleftrightarrow> (ts = [] \<or> \<not> is_escape (last ts)) \<and>
     (\<exists>x \<in> {[], right_star cs e}. collapse False ts = collapse False (take e cs @ x))"

lemma right_star_not_escape: "right_star cs e = [] \<or> \<not> is_escape (last (right_star cs e))"
  by (auto simp: right_star_def is_greedy_wildcard_def is_escape_def)

lemma star_star: "is_greedy_wildcard s \<Longrightarrow> collapse False (s # s # xs) = collapse False (s # xs)"
  by simp

lemma text_upto_step:
  assumes be: "b < e" "e \<le> length cs"
    and us: "us = (if e = Suc b \<and> is_greedy_wildcard (cs ! b) then [cs ! b]
      else left_star cs b @ take (e - b) (drop b cs) @ right_star cs e)"
    and greedy: "e = Suc b \<or> \<not> is_greedy_wildcard (cs ! b)"
    and last: "\<not> is_escape (cs ! (e - 1))"
    and ts: "text_upto cs b ts"
  shows "text_upto cs e (ts @ us)"
proof -
  let ?seg = "take (e - b) (drop b cs)"
  obtain x where x: "x \<in> {[], right_star cs b}" "collapse False ts = collapse False (take b cs @ x)"
    using ts unfolding text_upto_def by blast
  have "b + (e - b) = e" using be by simp
  then have seg: "take e cs = take b cs @ ?seg" using take_add [of b "e - b" cs] by (simp only:)
  have seg1: "?seg = [cs ! b]" if "e = Suc b"
  proof -
    have "drop b cs = cs ! b # drop (Suc b) cs" using be by (simp add: Cons_nth_drop_Suc)
    then show ?thesis using that by simp
  qed
  have "us = [] \<or> \<not> is_escape (last us)"
  proof -
    have "last ?seg = cs ! (e - 1)" using be by (simp add: last_conv_nth)
    with last right_star_not_escape [of cs e] be show ?thesis
      unfolding us by (auto simp: last_append is_greedy_wildcard_def is_escape_def)
  qed
  then have "ts @ us = [] \<or> \<not> is_escape (last (ts @ us))"
    using ts by (auto simp: text_upto_def last_append)
  moreover have "\<exists>y \<in> {[], right_star cs e}. collapse False (ts @ us) = collapse False (take e cs @ y)"
  proof (cases "is_greedy_wildcard (cs ! b)")
    case True
    then have e: "e = Suc b" and us1: "us = [cs ! b]" using greedy us by simp_all
    have "collapse False (x @ [cs ! b]) = collapse False [cs ! b]"
      using x(1) True by (auto simp: right_star_def)
    then have "collapse False (take b cs @ x @ [cs ! b]) = collapse False (take b cs @ [cs ! b])"
      by (rule collapse_cong [OF refl])
    moreover have "collapse False (ts @ [cs ! b]) = collapse False ((take b cs @ x) @ [cs ! b])"
      by (rule collapse_cong [OF x(2) refl])
    ultimately have "collapse False (ts @ us) = collapse False (take e cs @ [])"
      by (simp add: us1 seg seg1 [OF e])
    then show ?thesis by blast
  next
    case False
    then have x0: "x = []" and us2: "us = left_star cs b @ ?seg @ right_star cs e"
      using x(1) us by (auto simp: right_star_def)
    have "collapse False (take b cs @ left_star cs b) = collapse False (take b cs)"
    proof (cases "left_star cs b = []")
      case False
      then have l: "0 < b" "is_greedy_wildcard (cs ! (b - 1))" "left_star cs b = [cs ! (b - 1)]"
        by (auto simp: left_star_def split: if_splits)
      then have "take b cs = take (b - 1) cs @ [cs ! (b - 1)]"
        using be by (cases b) (simp_all add: take_Suc_conv_app_nth)
      moreover have "collapse False ([cs ! (b - 1)] @ [cs ! (b - 1)]) = collapse False [cs ! (b - 1)]"
        using l(2) by simp
      then have "collapse False (take (b - 1) cs @ [cs ! (b - 1)] @ [cs ! (b - 1)]) =
          collapse False (take (b - 1) cs @ [cs ! (b - 1)])" by (rule collapse_cong [OF refl])
      ultimately show ?thesis using l(3) by simp
    qed simp
    with x(2) x0 have "collapse False (ts @ left_star cs b) = collapse False (take b cs)"
      using collapse_cong [of ts "take b cs" "left_star cs b" "left_star cs b"] by simp
    then have "collapse False ((ts @ left_star cs b) @ ?seg @ right_star cs e) =
        collapse False (take b cs @ ?seg @ right_star cs e)" by (rule collapse_cong) (rule refl)
    then have "collapse False (ts @ us) = collapse False (take e cs @ right_star cs e)"
      by (simp add: us2 seg)
    then show ?thesis by blast
  qed
  ultimately show ?thesis by (simp add: text_upto_def)
qed

lemma lex_text_append:
  "lex_chars False s = [] \<or> \<not> is_escape (last (lex_chars False s)) \<Longrightarrow>
     lex_chars False (s @ t) = lex_chars False s @ lex_chars False t"
  by (cases "s = []") (auto simp: lex_chars_append)

lemma interprets_text:
  assumes "interprets (single_set env q) e i" "e \<le> length q"
  shows "text_upto (lex_chars False q) e (lex_chars False (qi_text i))"
  using assms
proof (induction rule: interprets.induct)
  case (first e i)
  let ?cs = "lex_chars False q"
  note t = single_text [OF first(2,1,3)]
  have "\<not> is_escape (?cs ! (e - 1))" using well_formed_chars(2) [OF _ first(3) t(1)] first(1) by simp
  moreover have "text_upto ?cs 0 []" by (simp add: text_upto_def)
  ultimately have "text_upto ?cs e ([] @ lex_chars False (qi_text i))"
    using text_upto_step [OF first(1) _ t(2,3), of "[]"] first(3) by simp
  then show ?case by simp
next
  case (more b p e i)
  let ?cs = "lex_chars False q"
  note t = single_text [OF more(3,2,5)]
  have "\<not> is_escape (?cs ! (e - 1))"
    using well_formed_chars(2) [OF _ more(5) t(1)] more(2) by simp
  moreover have p: "text_upto ?cs b (lex_chars False (qi_text p))" using more.IH more(2,5) by simp
  ultimately have "text_upto ?cs e (lex_chars False (qi_text p) @ lex_chars False (qi_text i))"
    using text_upto_step [OF more(2) _ t(2,3)] more(5) by simp
  with p show ?case by (simp add: text_upto_def lex_text_append)
qed

section \<open>The variable types of a view\<close>

text \<open>What the schema parser gives for a regex text without captures.\<close>

definition query_rule :: "regex_ast \<Rightarrow> lexical_rule" where
  "query_rule ast = \<lparr>lr_variable_id = 0, lr_regex = ast\<rparr>"

definition parses_to :: "query_env \<Rightarrow> string \<Rightarrow> regex_ast \<Rightarrow> bool" where
  "parses_to env regex_string ast \<longleftrightarrow> qe_parse_schema env (''search:'' @ regex_string) = Inr ast \<and>
     ast_fresh ast \<and> rules_captures [query_rule ast] = {} \<and>
     (\<exists>n. nfa_of_rules [query_rule ast] = Inr n \<and> nfa_size n \<le> 2 ^ 32)"

definition query_env_ok :: "query_env \<Rightarrow> bool" where
  "query_env_ok env \<longleftrightarrow> dfa_wf (qe_lexer_dfa env) \<and> inj (qe_lexer_addr env) \<and> inj (qe_query_addr env)"

lemma matching_types:
  assumes env: "query_env_ok env" and ast: "parses_to env regex_string ast"
  shows "\<exists>types. get_matching_variable_types env regex_string = Some (Inr types) \<and> sorted_wrt (<) types \<and>
    (\<forall>v. v \<in> set types \<longleftrightarrow>
      (\<exists>w \<in> build_lang (rule_build ast). dfa_accepts (qe_lexer_dfa env) w v))"
proof -
  from ast obtain n where n: "nfa_of_rules [query_rule ast] = Inr n" "nfa_size n \<le> 2 ^ 32"
    "qe_parse_schema env (''search:'' @ regex_string) = Inr ast"
    by (auto simp: parses_to_def)
  have "untagged n"
    by (rule capture_free_untagged [OF n(1)]) (use ast in \<open>auto simp: parses_to_def query_rule_def\<close>)
  from untagged_determinized [OF rules_nfa_small [OF n(1,2)] this, of "qe_ord env"] obtain d where
    d: "dfa_generate (qe_ord env) n = Some (Inr d)" "dfa_wf d"
    "\<And>w v. dfa_accepts d w v \<longleftrightarrow> nfa_accepts n w v" by blast
  have lang: "(\<exists>u. dfa_accepts d w u) \<longleftrightarrow> w \<in> build_lang (rule_build ast)" for w
    using nfa_of_rules_language [OF n(1)] by (simp add: d(3) query_rule_def)
  from intersection_exact [OF _ d(2), of "qe_lexer_dfa env" "qe_lexer_addr env" "qe_query_addr env"] env
  obtain types where t: "dfa_get_intersect (qe_lexer_addr env) (qe_query_addr env) (qe_lexer_dfa env) d =
      Some (Inr types)" "sorted_wrt (<) types"
    "\<And>v. v \<in> set types \<longleftrightarrow> (\<exists>w. dfa_accepts (qe_lexer_dfa env) w v \<and> (\<exists>u. dfa_accepts d w u))"
    by (auto simp: query_env_ok_def)
  then have "\<forall>v. v \<in> set types \<longleftrightarrow>
      (\<exists>w \<in> build_lang (rule_build ast). dfa_accepts (qe_lexer_dfa env) w v)"
    unfolding lang by blast
  moreover have "get_matching_variable_types env regex_string = Some (Inr types)"
    using n(1,3) d(1) t(1) by (simp add: get_matching_variable_types_def query_rule_def)
  ultimately show ?thesis using t(2) by blast
qed

lemma parses_returns:
  assumes "query_env_ok env" "\<And>r. \<exists>ast. parses_to env r ast"
  shows "query_returns env q"
proof -
  have "\<exists>s. get_all_single_token_interpretations env v = Some (Inr s)" for v
  proof -
    obtain r cw where r: "generate_regex_string (qe_special env)
        (snd (extend_to_adjacent_greedy_wildcards v)) = (r, cw)" by (rule prod.exhaust)
    from assms(2) obtain ast where "parses_to env r ast" by blast
    with matching_types [OF assms(1)] obtain types where
      "get_matching_variable_types env r = Some (Inr types)" by blast
    with r show ?thesis by (simp add: get_all_single_token_interpretations_def Let_def)
  qed
  then show ?thesis by (simp add: query_returns_def)
qed

section \<open>Properties\<close>

text \<open>
  C16: the interpretations of a query are computed completely: the result is the ascending set of
  exactly the token sequences that cut the query into ranges none of which is a longer range that
  begins or ends with a greedy wildcard, with a one-token interpretation of each range, joined in
  canonical form.
\<close>

theorem multi_token_interpretations_exact:
  assumes "query_returns env q" "q \<noteq> []"
  shows "\<exists>res. get_all_multi_token_interpretations env q = Some (Inr res) \<and> sorted_wrt qi_less res \<and>
    (\<forall>i. i \<in> set res \<longleftrightarrow> interprets (single_set env q) (length q) i)"
proof -
  from get_all_multi_exact [OF assms] obtain res where
    res: "get_all_multi_token_interpretations env q = Some (Inr res)" "qi_order.ordered res"
    "set res = {i. interprets (single_set env q) (length q) i}" by blast
  moreover have "qi_less = (\<lambda>x y. x < y)" by (intro ext) (rule qi_order.less_key)
  ultimately show ?thesis by (auto simp: qi_order.ordered_def)
qed

text \<open>
  C35: no interpretation loses or invents text: the substrings of its tokens, in order, are the
  query, up to greedy wildcards repeated where two tokens share one.
\<close>

theorem interpretation_text_is_query:
  assumes "query_returns env (query_new q)" "interprets (single_set env (query_new q)) (length (query_new q)) i"
  shows "query_new (qi_text i) = query_new q"
proof -
  let ?cs = "lex_chars False (query_new q)"
  have "text_upto ?cs (length ?cs) (lex_chars False (qi_text i))"
    using interprets_text [OF assms(2)] by simp
  then have "collapse False (lex_chars False (qi_text i)) = collapse False ?cs"
    by (auto simp: text_upto_def right_star_def)
  then have "query_new (qi_text i) = query_new (query_new q)" by (simp add: query_new_collapse)
  moreover have "query_new (query_new q) = query_new q"
    using collapse_no_double_star by (simp add: query_new_collapse lex_collapse collapse_id)
  ultimately show ?thesis by simp
qed


text \<open>A lexer for the word \<open>a\<close> and a parser that reads every regex text as \<open>a\<close>.\<close>

definition demo_env :: query_env where
  "demo_env = \<lparr>qe_delim_table = (\<lambda>c. c = 32), qe_lexer_dfa = demo_pair_dfa 97 [3],
     qe_parse_schema = (\<lambda>_. Inr (mk_literal 97)), qe_special = special_regex_characters,
     qe_ord = id, qe_lexer_addr = id, qe_query_addr = id\<rparr>"

lemma demo_env: "query_env_ok demo_env" "parses_to demo_env r (mk_literal 97)"
proof -
  show "query_env_ok demo_env" by (simp add: query_env_ok_def demo_env_def demo_pair_dfa_wf)
  have "\<exists>n. nfa_of_rules [query_rule (mk_literal 97)] = Inr n \<and> nfa_size n \<le> 2 ^ 32"
    by (simp add: query_rule_def nfa_of_rules_def lexical_rule_add_to_nfa_def new_state_def
      new_accepting_state_def nfa_empty_def nfa_emplace_def generate_id_def nfa_size_def mk_defs
      add_to_nfa_with_negative_captures_def add_with_negative_captures_def get_negative_captures_def
      add_root_interval_def nfa_update_state_def nfa_set_root_def Let_def split: prod.splits)
  then show "parses_to demo_env r (mk_literal 97)"
    by (auto simp: parses_to_def demo_env_def ast_fresh_def mk_defs get_subtree_positive_captures_def
        get_negative_captures_def rules_captures_def query_rule_def lexical_rule_get_captures_def)
qed

lemma demo_env_returns: "query_returns demo_env q"
  using parses_returns demo_env by blast

theorem multi_token_interpretations_exact_witness:
  "\<exists>res. get_all_multi_token_interpretations demo_env ''a*'' = Some (Inr res) \<and> sorted_wrt qi_less res"
  using multi_token_interpretations_exact [OF demo_env_returns, of "''a*''"] by auto


lemma demo_interpretation: "interprets (single_set demo_env ''*'') 1 [StaticQueryToken ''*'']"
  by (rule interprets.first)
    (simp_all add: single_set_def view_new_def skipped_view_def get_all_single_token_interpretations_def
      is_well_formed_def get_indices_def char_type_def is_escape_def)

theorem interpretation_text_is_query_witness: "query_new (qi_text [StaticQueryToken ''*'']) = query_new ''**''"
proof -
  have "query_new ''**'' = ''*''"
    by (simp add: query_new_collapse char_type_def is_greedy_wildcard_def)
  then show ?thesis
    using interpretation_text_is_query [OF demo_env_returns, of "''**''" "[StaticQueryToken ''*'']"]
      demo_interpretation by simp
qed

end
