(* ===== verification/Byte_Buffer.thy ===== *)
theory Byte_Buffer
  imports LS_Prelude
begin

text \<open>
  \<^verbatim>\<open>Buffer.hpp\<close>: a growing buffer made of one static array, a list of dynamic arrays
  and a pointer to the active one; \<^verbatim>\<open>Constants.hpp\<close>: the error codes and sizes the
  buffers use. An array is its size with the contents of its cells; a pointer to an array is a
  value of \<open>storage_ptr\<close>, so that pointers taken before the buffer grows stay meaningful.
\<close>

section \<open>Constants\<close>

datatype error_code =
    Success
  | BufferOutOfBounds
  | LogFullyConsumed
  | BadParam
  | Errno
  | EndOfFile
  | FileNotFound
  | NotInit
  | Truncated

definition cStaticByteBuffSize :: nat where
  "cStaticByteBuffSize = 48000"

section \<open>Arrays\<close>

record 'a storage =
  st_size :: nat
  st_cell :: "nat \<Rightarrow> 'a"

definition st_get :: "'a storage \<Rightarrow> nat \<Rightarrow> 'a res" where
  "st_get s i = (if i < st_size s then Inr (st_cell s i) else Inl UndefinedBehavior)"

definition st_put :: "'a storage \<Rightarrow> nat \<Rightarrow> 'a \<Rightarrow> 'a storage res" where
  "st_put s i x =
     (if i < st_size s then Inr (s\<lparr>st_cell := (st_cell s)(i := x)\<rparr>) else Inl UndefinedBehavior)"

text \<open>Writing a run of values from a position on, all within the array.\<close>

definition st_write :: "'a storage \<Rightarrow> nat \<Rightarrow> 'a list \<Rightarrow> 'a storage res" where
  "st_write s i xs =
     (if i + length xs \<le> st_size s
      then Inr (s\<lparr>st_cell := \<lambda>j. if i \<le> j \<and> j < i + length xs then xs ! (j - i) else st_cell s j\<rparr>)
      else Inl UndefinedBehavior)"

definition st_slice :: "'a storage \<Rightarrow> nat \<Rightarrow> nat \<Rightarrow> 'a list res" where
  "st_slice s i n =
     (if i + n \<le> st_size s then Inr (map (st_cell s) [i..<i + n]) else Inl UndefinedBehavior)"

lemma st_slice_length: "st_slice s i n = Inr xs \<Longrightarrow> length xs = n"
  by (auto simp: st_slice_def split: if_splits)

section \<open>The buffer\<close>

text \<open>
  \<open>GivenStorage\<close> is the array that \<^verbatim>\<open>set_active_buffer\<close> was called with.
\<close>

datatype storage_ptr = StaticStorage | DynamicStorage nat | GivenStorage

record 'a buffer =
  bf_pos :: nat
  bf_active_size :: nat
  bf_dynamic_storages :: "'a storage list"
  bf_static_storage :: "'a storage"
  bf_given_storage :: "'a storage"
  bf_active_storage :: storage_ptr

text \<open>
  The static array of a new buffer is not initialised: its contents are an argument. The dynamic
  arrays are vectors whose elements are value-initialised: \<open>blank\<close> below.
\<close>

definition bf_new :: "(nat \<Rightarrow> 'a) \<Rightarrow> 'a buffer" where
  "bf_new junk =
     \<lparr>bf_pos = 0, bf_active_size = cStaticByteBuffSize, bf_dynamic_storages = [],
      bf_static_storage = \<lparr>st_size = cStaticByteBuffSize, st_cell = junk\<rparr>,
      bf_given_storage = \<lparr>st_size = 0, st_cell = junk\<rparr>, bf_active_storage = StaticStorage\<rparr>"

text \<open>The array a pointer leads to; a pointer to a dynamic array that is gone leads nowhere.\<close>

definition bf_storage :: "'a buffer \<Rightarrow> storage_ptr \<Rightarrow> 'a storage" where
  "bf_storage b p =
     (case p of
        StaticStorage \<Rightarrow> bf_static_storage b
      | DynamicStorage i \<Rightarrow>
          if i < length (bf_dynamic_storages b) then bf_dynamic_storages b ! i
          else (bf_given_storage b)\<lparr>st_size := 0\<rparr>
      | GivenStorage \<Rightarrow> bf_given_storage b)"

definition bf_active :: "'a buffer \<Rightarrow> 'a storage" where
  "bf_active b = bf_storage b (bf_active_storage b)"

definition bf_set_active :: "'a storage \<Rightarrow> 'a buffer \<Rightarrow> 'a buffer" where
  "bf_set_active s b =
     (case bf_active_storage b of
        StaticStorage \<Rightarrow> b\<lparr>bf_static_storage := s\<rparr>
      | DynamicStorage i \<Rightarrow> b\<lparr>bf_dynamic_storages := (bf_dynamic_storages b)[i := s]\<rparr>
      | GivenStorage \<Rightarrow> b\<lparr>bf_given_storage := s\<rparr>)"

definition bf_get_value :: "'a buffer \<Rightarrow> nat \<Rightarrow> 'a res" where
  "bf_get_value b i = st_get (bf_active b) i"

definition bf_set_value :: "'a buffer \<Rightarrow> nat \<Rightarrow> 'a \<Rightarrow> 'a buffer res" where
  "bf_set_value b i x = rbind (st_put (bf_active b) i x) (\<lambda>s. Inr (bf_set_active s b))"

definition bf_get_curr_value :: "'a buffer \<Rightarrow> 'a res" where
  "bf_get_curr_value b = bf_get_value b (bf_pos b)"

definition bf_set_curr_value :: "'a buffer \<Rightarrow> 'a \<Rightarrow> 'a buffer res" where
  "bf_set_curr_value b x = bf_set_value b (bf_pos b) x"

definition bf_increment_pos :: "'a buffer \<Rightarrow> 'a buffer" where
  "bf_increment_pos b = b\<lparr>bf_pos := u32 (bf_pos b + 1)\<rparr>"

definition bf_set_pos :: "'a buffer \<Rightarrow> nat \<Rightarrow> 'a buffer" where
  "bf_set_pos b pos = b\<lparr>bf_pos := pos\<rparr>"

definition bf_double_size :: "'a \<Rightarrow> 'a buffer \<Rightarrow> 'a buffer" where
  "bf_double_size blank b =
     b\<lparr>bf_dynamic_storages := bf_dynamic_storages b @
          [\<lparr>st_size = u32 (2 * bf_active_size b), st_cell = \<lambda>_. blank\<rparr>],
       bf_active_storage := DynamicStorage (length (bf_dynamic_storages b)),
       bf_active_size := u32 (2 * bf_active_size b)\<rparr>"

definition bf_reset :: "'a buffer \<Rightarrow> 'a buffer" where
  "bf_reset b =
     b\<lparr>bf_pos := 0, bf_dynamic_storages := [], bf_active_storage := StaticStorage,
       bf_active_size := cStaticByteBuffSize\<rparr>"

definition bf_set_active_buffer :: "'a buffer \<Rightarrow> 'a storage \<Rightarrow> nat \<Rightarrow> nat \<Rightarrow> 'a buffer" where
  "bf_set_active_buffer b storage sz pos =
     b\<lparr>bf_given_storage := storage, bf_active_storage := GivenStorage, bf_active_size := sz,
       bf_pos := pos\<rparr>"

text \<open>\<^verbatim>\<open>copy(p + start, p + fin, offset)\<close> for a pointer \<open>p\<close> to an array of the buffer.\<close>

definition bf_copy :: "'a buffer \<Rightarrow> storage_ptr \<Rightarrow> nat \<Rightarrow> nat \<Rightarrow> nat \<Rightarrow> 'a buffer res" where
  "bf_copy b p start fin offset =
     rbind (st_slice (bf_storage b p) start (fin - start)) (\<lambda>xs.
       rbind (st_write (bf_active b) offset xs) (\<lambda>s. Inr (bf_set_active s b)))"

text \<open>
  A reader fills an array it is given: called with the number of bytes wanted it answers with an
  error code, the bytes it has written and its next state.
\<close>

type_synonym ('r, 'a) read_fun = "'r \<Rightarrow> nat \<Rightarrow> error_code \<times> 'a list \<times> 'r"

definition bf_read ::
  "('r, 'a) read_fun \<Rightarrow> 'a buffer \<Rightarrow> 'r \<Rightarrow> nat \<Rightarrow> nat \<Rightarrow> (error_code \<times> nat \<times> 'a buffer \<times> 'r) res" where
  "bf_read read b reader read_offset bytes_to_read =
     (let (err, bytes, reader') = read reader bytes_to_read
      in rbind (st_write (bf_active b) read_offset bytes) (\<lambda>s.
           Inr (err, length bytes, bf_set_active s b, reader')))"

section \<open>Lemmas\<close>

lemma bf_set_active_simps [simp]:
  "bf_pos (bf_set_active s b) = bf_pos b"
  "bf_active_size (bf_set_active s b) = bf_active_size b"
  "bf_active_storage (bf_set_active s b) = bf_active_storage b"
  "length (bf_dynamic_storages (bf_set_active s b)) = length (bf_dynamic_storages b)"
  by (simp_all add: bf_set_active_def split: storage_ptr.split)

text \<open>A buffer whose pointer is valid and whose active array has the size the buffer believes in.\<close>

definition ptr_valid :: "'a buffer \<Rightarrow> storage_ptr \<Rightarrow> bool" where
  "ptr_valid b p \<longleftrightarrow>
     (case p of DynamicStorage i \<Rightarrow> i < length (bf_dynamic_storages b) | _ \<Rightarrow> True)"

definition bf_ok :: "'a buffer \<Rightarrow> bool" where
  "bf_ok b \<longleftrightarrow> st_size (bf_active b) = bf_active_size b \<and> ptr_valid b (bf_active_storage b)"

lemma ptr_valid_set [simp]: "ptr_valid (bf_set_active s b) p = ptr_valid b p"
  by (simp add: ptr_valid_def split: storage_ptr.split)

lemma bf_active_set [simp]:
  "ptr_valid b (bf_active_storage b) \<Longrightarrow> bf_active (bf_set_active s b) = s"
  by (auto simp: ptr_valid_def bf_active_def bf_set_active_def bf_storage_def split: storage_ptr.splits)

lemma bf_ok_set: "bf_ok b \<Longrightarrow> st_size s = bf_active_size b \<Longrightarrow> bf_ok (bf_set_active s b)"
  by (auto simp: bf_ok_def)

lemma bf_ok_active_set [simp]: "bf_ok b \<Longrightarrow> bf_active (bf_set_active s b) = s"
  by (simp add: bf_ok_def)

lemma bf_ok_new: "bf_ok (bf_new junk)"
  by (simp add: bf_ok_def bf_new_def bf_active_def bf_storage_def ptr_valid_def)

lemma bf_pos_update [simp]: "bf_active (b\<lparr>bf_pos := i\<rparr>) = bf_active b" "bf_ok (b\<lparr>bf_pos := i\<rparr>) = bf_ok b"
  by (simp_all add: bf_active_def bf_storage_def bf_ok_def ptr_valid_def split: storage_ptr.split)

text \<open>After growing, the old array is still where the old pointer leads.\<close>

lemma bf_double_size_old:
  assumes "bf_ok b"
  shows "bf_storage (bf_double_size blank b) (bf_active_storage b) = bf_active b"
  using assms by (auto simp: bf_storage_def bf_double_size_def bf_active_def bf_ok_def
      ptr_valid_def nth_append
      split: storage_ptr.splits)

lemma bf_double_size_ok: "bf_ok (bf_double_size blank b)"
  by (simp add: bf_ok_def ptr_valid_def bf_double_size_def bf_active_def bf_storage_def)

lemma bf_double_size_simps [simp]:
  "bf_active_size (bf_double_size blank b) = u32 (2 * bf_active_size b)"
  "bf_pos (bf_double_size blank b) = bf_pos b"
  "st_size (bf_active (bf_double_size blank b)) = u32 (2 * bf_active_size b)"
  by (simp_all add: bf_double_size_def bf_active_def bf_storage_def)

text \<open>Copying within the array bounds writes the cells of the source and keeps the others.\<close>

lemma bf_copy_cells:
  assumes "bf_ok b" "fin \<le> st_size (bf_storage b p)" "start \<le> fin"
    "offset + (fin - start) \<le> bf_active_size b" "ptr_valid b p"
  shows "\<exists>b'. bf_copy b p start fin offset = Inr b' \<and> bf_ok b' \<and> bf_pos b' = bf_pos b \<and>
    bf_active_size b' = bf_active_size b \<and> bf_active_storage b' = bf_active_storage b \<and>
    st_cell (bf_active b') = (\<lambda>j. if offset \<le> j \<and> j < offset + (fin - start)
      then st_cell (bf_storage b p) (start + (j - offset)) else st_cell (bf_active b) j) \<and>
    (p \<noteq> bf_active_storage b \<longrightarrow> bf_storage b' p = bf_storage b p)"
proof -
  have "st_size (bf_active b) = bf_active_size b" using assms(1) by (simp add: bf_ok_def)
  with assms show ?thesis
    by (auto simp: bf_copy_def st_slice_def st_write_def bf_ok_set fun_eq_iff)
      (auto simp: bf_storage_def bf_set_active_def ptr_valid_def split: storage_ptr.splits)
qed

lemma bf_read_cells:
  assumes "bf_ok b" "read reader n = (err, bytes, reader')" "offset + length bytes \<le> bf_active_size b"
  shows "\<exists>b'. bf_read read b reader offset n = Inr (err, length bytes, b', reader') \<and> bf_ok b' \<and>
    bf_pos b' = bf_pos b \<and> bf_active_size b' = bf_active_size b \<and>
    st_cell (bf_active b') = (\<lambda>j. if offset \<le> j \<and> j < offset + length bytes
      then bytes ! (j - offset) else st_cell (bf_active b) j)"
proof -
  have "st_size (bf_active b) = bf_active_size b" using assms(1) by (simp add: bf_ok_def)
  with assms show ?thesis by (auto simp: bf_read_def st_write_def bf_ok_set)
qed

lemma bf_read_nothing:
  assumes "bf_ok b" "read reader n = (err, [], reader')" "offset \<le> bf_active_size b"
  shows "\<exists>b'. bf_read read b reader offset n = Inr (err, 0, b', reader') \<and> bf_ok b' \<and>
    bf_pos b' = bf_pos b \<and> bf_active_size b' = bf_active_size b \<and>
    st_cell (bf_active b') = st_cell (bf_active b)"
proof -
  have "(\<lambda>j. if offset \<le> j \<and> j < offset then ([] ! (j - offset)) else f j) = f" for f :: "nat \<Rightarrow> 'a"
    by (rule ext) (simp add: linorder_not_less [symmetric])
  then show ?thesis using bf_read_cells [of b read reader n err "[]" reader' offset] assms by simp
qed

end
