(* ===== verification/File_Reader.thy ===== *)
theory File_Reader
  imports Byte_Buffer
begin

text \<open>
  \<^verbatim>\<open>FileReader.hpp\<close>, \<^verbatim>\<open>FileReader.cpp\<close>: reading a file through
  the C library, and \<^verbatim>\<open>Reader.hpp\<close>: the contract that every input source of a
  parser has to keep, as the locale \<open>char_reader\<close>.
\<close>

section \<open>The C library\<close>

text \<open>
  A stream: the bytes that are still to come, whether the device fails, and the two indicators of
  \<^verbatim>\<open>stdio.h\<close>. \<^verbatim>\<open>fread\<close> returns fewer bytes than it was asked for only
  at the end of the file or on an error; \<^verbatim>\<open>getdelim\<close> reads up to and including the
  delimiter.
\<close>

record file_stream =
  fs_rest :: string
  fs_bad :: bool
  fs_error :: bool
  fs_eof :: bool

definition fread :: "nat \<Rightarrow> file_stream \<Rightarrow> string \<times> file_stream" where
  "fread n f =
     (if n = 0 then ([], f)
      else if fs_bad f then ([], f\<lparr>fs_error := True\<rparr>)
      else (take n (fs_rest f),
            f\<lparr>fs_rest := drop n (fs_rest f), fs_eof := (fs_eof f \<or> length (fs_rest f) < n)\<rparr>))"

definition getdelim :: "char \<Rightarrow> file_stream \<Rightarrow> string \<times> file_stream" where
  "getdelim delim f =
     (if fs_bad f then ([], f\<lparr>fs_error := True\<rparr>)
      else let line = takeWhile (\<lambda>c. c \<noteq> delim) (fs_rest f);
               rest = dropWhile (\<lambda>c. c \<noteq> delim) (fs_rest f)
           in case rest of
                [] \<Rightarrow> (line, f\<lparr>fs_rest := [], fs_eof := True\<rparr>)
              | d # rest' \<Rightarrow> (line @ [d], f\<lparr>fs_rest := rest'\<rparr>))"

text \<open>What opening a path gives.\<close>

datatype fopen_result = Opened file_stream | NoSuchFile | OpenFailed

section \<open>FileReader\<close>

record file_reader =
  fr_file :: "file_stream option"

definition fr_new :: file_reader where
  "fr_new = \<lparr>fr_file = None\<rparr>"

text \<open>The first argument says whether the destination pointer is null.\<close>

definition fr_read :: "bool \<Rightarrow> file_reader \<Rightarrow> nat \<Rightarrow> error_code \<times> string \<times> file_reader" where
  "fr_read null_buf r num_bytes_to_read =
     (case fr_file r of
        None \<Rightarrow> (NotInit, [], r)
      | Some f \<Rightarrow>
          if null_buf then (BadParam, [], r)
          else let (bytes, f') = fread num_bytes_to_read f; r' = r\<lparr>fr_file := Some f'\<rparr>
               in if length bytes < num_bytes_to_read
                  then if fs_error f' then (Errno, bytes, r')
                       else if fs_eof f' \<and> bytes = [] then (EndOfFile, bytes, r')
                       else (Success, bytes, r')
                  else (Success, bytes, r'))"

definition fr_close :: "file_reader \<Rightarrow> file_reader" where
  "fr_close r = r\<lparr>fr_file := None\<rparr>"

definition fr_try_open :: "(string \<Rightarrow> fopen_result) \<Rightarrow> string \<Rightarrow> file_reader \<Rightarrow> error_code \<times> file_reader" where
  "fr_try_open fopen path r =
     (let r' = fr_close r
      in case fopen path of
           Opened f \<Rightarrow> (Success, r'\<lparr>fr_file := Some f\<rparr>)
         | NoSuchFile \<Rightarrow> (FileNotFound, r')
         | OpenFailed \<Rightarrow> (Errno, r'))"

definition fr_try_read_to_delimiter ::
  "char \<Rightarrow> bool \<Rightarrow> bool \<Rightarrow> string \<Rightarrow> file_reader \<Rightarrow> (error_code \<times> string \<times> file_reader) res" where
  "fr_try_read_to_delimiter delim keep_delimiter append_to str r =
     (case fr_file r of
        None \<Rightarrow> Inl AssertFailed
      | Some f \<Rightarrow>
          let str0 = (if append_to then str else []);
              (buf, f') = getdelim delim f;
              r' = r\<lparr>fr_file := Some f'\<rparr>
          in if buf = [] \<and> fs_error f' then Inr (Errno, str0, r')
             else if buf = [] \<and> fs_eof f' then Inr (EndOfFile, str0, r')
             else if buf = [] then Inl UndefinedBehavior
             else let n = (if \<not> keep_delimiter \<and> delim = last buf then length buf - 1 else length buf)
                  in Inr (Success, str0 @ take n buf, r'))"

section \<open>The contract of a reader\<close>

text \<open>
  What a parser relies on: as long as bytes remain, a read delivers the next ones, as many as
  were asked for or all that remain; afterwards it says that the end is reached.
\<close>

locale char_reader =
  fixes read :: "('r, char) read_fun"
    and ready :: "'r \<Rightarrow> bool"
    and remaining :: "'r \<Rightarrow> string"
  assumes read_bytes: "ready r \<Longrightarrow> 0 < n \<Longrightarrow> remaining r \<noteq> [] \<Longrightarrow>
      \<exists>r'. read r n = (Success, take n (remaining r), r') \<and> ready r' \<and> remaining r' = drop n (remaining r)"
    and read_end: "ready r \<Longrightarrow> 0 < n \<Longrightarrow> remaining r = [] \<Longrightarrow>
      \<exists>r'. read r n = (EndOfFile, [], r') \<and> ready r' \<and> remaining r' = []"

text \<open>An open file on a working device.\<close>

definition fr_ready :: "file_reader \<Rightarrow> bool" where
  "fr_ready r \<longleftrightarrow> (\<exists>f. fr_file r = Some f \<and> \<not> fs_bad f \<and> \<not> fs_error f)"

definition fr_remaining :: "file_reader \<Rightarrow> string" where
  "fr_remaining r = (case fr_file r of None \<Rightarrow> [] | Some f \<Rightarrow> fs_rest f)"

interpretation file_source: char_reader "fr_read False" fr_ready fr_remaining
  by unfold_locales (auto simp: fr_ready_def fr_remaining_def fr_read_def fread_def Let_def)

text \<open>A file that holds a text, just opened.\<close>

definition open_file :: "string \<Rightarrow> file_reader" where
  "open_file str =
     snd (fr_try_open (\<lambda>_. Opened \<lparr>fs_rest = str, fs_bad = False, fs_error = False, fs_eof = False\<rparr>)
       ''log'' fr_new)"

lemma open_file_ready [simp]: "fr_ready (open_file str)" "fr_remaining (open_file str) = str"
  by (simp_all add: open_file_def fr_try_open_def fr_ready_def fr_remaining_def)

end
