(* ===== verification/Input_Buffer.thy ===== *)
theory Input_Buffer
  imports File_Reader
begin

text \<open>
  \<^verbatim>\<open>ParserInputBuffer.hpp\<close>, \<^verbatim>\<open>ParserInputBuffer.cpp\<close>: the input
  of the lexer as a ring of two halves that are filled alternately, and that doubles when a log
  event does not fit.
\<close>

section \<open>State and operations\<close>

definition cCharEOF :: nat where "cCharEOF = 255"
definition cCharErr :: nat where "cCharErr = 254"
definition cCharStartOfFile :: nat where "cCharStartOfFile = 253"

record input_buffer =
  ib_pos_last_read_char :: nat
  ib_last_read_first_half :: bool
  ib_finished_reading_input :: bool
  ib_log_fully_consumed :: bool
  ib_storage :: "char buffer"
  ib_consumed_pos :: nat

abbreviation ib_pos :: "input_buffer \<Rightarrow> nat" where
  "ib_pos b \<equiv> bf_pos (ib_storage b)"

abbreviation ib_size :: "input_buffer \<Rightarrow> nat" where
  "ib_size b \<equiv> bf_active_size (ib_storage b)"

definition ib_new :: "(nat \<Rightarrow> char) \<Rightarrow> input_buffer" where
  "ib_new junk =
     \<lparr>ib_pos_last_read_char = 0, ib_last_read_first_half = False, ib_finished_reading_input = False,
      ib_log_fully_consumed = False, ib_storage = bf_new junk,
      ib_consumed_pos = cStaticByteBuffSize - 1\<rparr>"

definition ib_reset :: "input_buffer \<Rightarrow> input_buffer" where
  "ib_reset b =
     (let storage = bf_reset (ib_storage b)
      in \<lparr>ib_pos_last_read_char = 0, ib_last_read_first_half = False,
          ib_finished_reading_input = False, ib_log_fully_consumed = False, ib_storage = storage,
          ib_consumed_pos = bf_active_size storage - 1\<rparr>)"

definition ib_read_is_safe :: "input_buffer \<Rightarrow> bool" where
  "ib_read_is_safe b \<longleftrightarrow> \<not> ib_finished_reading_input b \<and>
     (\<not> ib_last_read_first_half b \<and> ib_size b div 2 < ib_consumed_pos b \<or>
      ib_last_read_first_half b \<and> ib_consumed_pos b < ib_size b div 2 \<and> 0 < ib_consumed_pos b)"

definition ib_read ::
  "('r, char) read_fun \<Rightarrow> input_buffer \<Rightarrow> 'r \<Rightarrow> (error_code \<times> input_buffer \<times> 'r) res" where
  "ib_read read b reader =
     (let read_offset = (if ib_last_read_first_half b then ib_size b div 2 else 0)
      in rbind (bf_read read (ib_storage b) reader read_offset (ib_size b div 2))
        (\<lambda>(err, bytes_read, storage, reader').
          let b1 = b\<lparr>ib_storage := storage\<rparr>
          in if err \<noteq> Success
             then Inr (err, if err = EndOfFile then b1\<lparr>ib_finished_reading_input := True\<rparr> else b1, reader')
             else let pos_last = u32 (ib_pos_last_read_char b + bytes_read)
                  in Inr (Success,
                       b1\<lparr>ib_last_read_first_half := \<not> ib_last_read_first_half b,
                          ib_finished_reading_input :=
                            (if bytes_read < ib_size b div 2 then True else ib_finished_reading_input b),
                          ib_pos_last_read_char :=
                            (if ib_size b < pos_last then pos_last - ib_size b else pos_last)\<rparr>, reader')))"

definition ib_read_if_safe ::
  "('r, char) read_fun \<Rightarrow> input_buffer \<Rightarrow> 'r \<Rightarrow> (error_code \<times> input_buffer \<times> 'r) res" where
  "ib_read_if_safe read b reader =
     (if ib_read_is_safe b then ib_read read b reader else Inr (Success, b, reader))"

text \<open>The two reference arguments of the method are the first two results.\<close>

definition ib_increase_capacity :: "input_buffer \<Rightarrow> (nat \<times> bool \<times> input_buffer) res" where
  "ib_increase_capacity b =
     (let old_storage_size = ib_size b;
          new_storage_size = u32 (old_storage_size * 2);
          old_storage = bf_active_storage (ib_storage b);
          grown = bf_double_size (CHR 0x00) (ib_storage b);
          half = old_storage_size div 2
      in rbind
           (if \<not> ib_last_read_first_half b then bf_copy grown old_storage 0 old_storage_size 0
            else rbind (bf_copy grown old_storage half old_storage_size 0)
                   (\<lambda>s. bf_copy s old_storage 0 half half))
           (\<lambda>storage. Inr (old_storage_size, ib_last_read_first_half b,
              b\<lparr>ib_storage := bf_set_pos storage old_storage_size, ib_last_read_first_half := True,
                ib_pos_last_read_char := new_storage_size - old_storage_size\<rparr>)))"

text \<open>\<open>next_char\<close> is the value of the reference argument, kept when no character is read.\<close>

definition ib_get_next_character :: "input_buffer \<Rightarrow> nat \<Rightarrow> (error_code \<times> nat \<times> input_buffer) res" where
  "ib_get_next_character b next_char =
     (if ib_finished_reading_input b \<and> ib_pos b = ib_pos_last_read_char b
      then Inr (Success, cCharEOF, b\<lparr>ib_log_fully_consumed := True\<rparr>)
      else if ib_last_read_first_half b \<and> ib_pos b = ib_size b div 2 \<or>
              \<not> ib_last_read_first_half b \<and> ib_pos b = 0
      then Inr (BufferOutOfBounds, next_char, b)
      else rbind (bf_get_curr_value (ib_storage b)) (\<lambda>character.
        let storage = bf_increment_pos (ib_storage b);
            storage' = (if bf_pos storage = bf_active_size storage then bf_set_pos storage 0 else storage)
        in Inr (Success, of_char character, b\<lparr>ib_storage := storage'\<rparr>)))"

definition ib_set_pos :: "input_buffer \<Rightarrow> nat \<Rightarrow> input_buffer" where
  "ib_set_pos b pos = b\<lparr>ib_storage := bf_set_pos (ib_storage b) pos\<rparr>"

definition ib_set_consumed_pos :: "input_buffer \<Rightarrow> nat \<Rightarrow> input_buffer" where
  "ib_set_consumed_pos b consumed_pos = b\<lparr>ib_consumed_pos := consumed_pos\<rparr>"

definition ib_set_log_fully_consumed :: "input_buffer \<Rightarrow> bool \<Rightarrow> input_buffer" where
  "ib_set_log_fully_consumed b v = b\<lparr>ib_log_fully_consumed := v\<rparr>"

definition ib_set_storage :: "input_buffer \<Rightarrow> char storage \<Rightarrow> nat \<Rightarrow> nat \<Rightarrow> bool \<Rightarrow> input_buffer" where
  "ib_set_storage b storage sz pos finished_reading_input =
     (let b' = ib_reset b
      in b'\<lparr>ib_storage := bf_set_active_buffer (ib_storage b') storage (u32 (sz * 2)) pos,
            ib_finished_reading_input := finished_reading_input,
            ib_pos_last_read_char := sz, ib_last_read_first_half := True\<rparr>)"

section \<open>What the buffer shows of a log\<close>

text \<open>
  The ring between a text and its reader. Of the text \<open>str\<close>, the client has given up the
  first \<open>c\<close> characters, has been handed the first \<open>p\<close>, and the first \<open>r\<close> have been read. The
  ring is \<open>n = 2 * h\<close> cells long and the character at index \<open>i\<close> of the text lives in cell
  \<open>(i - base) mod n\<close>; \<open>e\<close> is where the half read last ends, which is past \<open>r\<close> only after a short
  read.
\<close>

definition ring_slot :: "int \<Rightarrow> nat \<Rightarrow> int \<Rightarrow> nat" where
  "ring_slot base n i = nat ((i - base) mod int n)"

record ring =
  rg_half :: nat
  rg_base :: int
  rg_end :: int

definition ring_bounds :: "nat \<Rightarrow> nat \<Rightarrow> nat \<Rightarrow> ring \<Rightarrow> bool" where
  "ring_bounds c p r g \<longleftrightarrow> c \<le> p \<and> p \<le> r \<and> int r \<le> rg_end g \<and> rg_end g < int r + int (rg_half g) \<and>
     rg_end g - 2 * int (rg_half g) < int c \<and> 0 < rg_half g"

definition ring_reads :: "nat \<Rightarrow> nat \<Rightarrow> ring \<Rightarrow> input_buffer \<Rightarrow> bool" where
  "ring_reads c r g b \<longleftrightarrow>
     (rg_end g - rg_base g) mod (2 * int (rg_half g)) =
       (if ib_last_read_first_half b then int (rg_half g) else 0) \<and>
     int (ib_pos_last_read_char b) mod (2 * int (rg_half g)) = (int r - rg_base g) mod (2 * int (rg_half g)) \<and>
     ib_pos_last_read_char b \<le> 2 * rg_half g \<and> ib_consumed_pos b < 2 * rg_half g \<and>
     (\<not> ib_finished_reading_input b \<longrightarrow> rg_end g = int r) \<and>
     (ib_read_is_safe b \<longrightarrow> rg_end g - int (rg_half g) < int c)"

definition ring_cells :: "string \<Rightarrow> nat \<Rightarrow> nat \<Rightarrow> nat \<Rightarrow> ring \<Rightarrow> char buffer \<Rightarrow> bool" where
  "ring_cells str c p r g s \<longleftrightarrow> bf_ok s \<and> bf_active_size s = 2 * rg_half g \<and> 3 * rg_half g < 2 ^ 32 \<and>
     bf_pos s = ring_slot (rg_base g) (2 * rg_half g) (int p) \<and>
     (\<forall>i. c \<le> i \<longrightarrow> i < r \<longrightarrow>
        st_cell (bf_active s) (ring_slot (rg_base g) (2 * rg_half g) (int i)) = str ! i)"

definition ring_text :: "string \<Rightarrow> string \<Rightarrow> nat \<Rightarrow> input_buffer \<Rightarrow> bool" where
  "ring_text str rest r b \<longleftrightarrow> r \<le> length str \<and> rest = drop r str \<and>
     (ib_finished_reading_input b \<longrightarrow> r = length str)"

definition ring_shows :: "string \<Rightarrow> string \<Rightarrow> nat \<Rightarrow> nat \<Rightarrow> nat \<Rightarrow> ring \<Rightarrow> input_buffer \<Rightarrow> bool" where
  "ring_shows str rest c p r g b \<longleftrightarrow> ring_bounds c p r g \<and> ring_reads c r g b \<and>
     ring_cells str c p r g (ib_storage b) \<and> ring_text str rest r b"

lemmas ring_defs = ring_shows_def ring_bounds_def ring_reads_def ring_cells_def ring_text_def

subsection \<open>Positions in the ring\<close>

lemma ring_slot_less: "0 < n \<Longrightarrow> ring_slot base n i < n"
  by (simp add: ring_slot_def nat_less_iff)
text \<open>Two indices less than a ring apart share a cell only if they are equal.\<close>

lemma mod_window_eq:
  assumes "(a::int) mod n = b mod n" "e - n < a" "a \<le> e" "e - n < b" "b \<le> e"
  shows "a = b"
proof -
  have n: "0 < n" using assms(2,3) by linarith
  from assms(1) have "n dvd a - b" by (simp add: mod_eq_dvd_iff)
  then obtain k where k: "a - b = n * k" by blast
  have "\<bar>a - b\<bar> < n" using assms(2-5) by linarith
  with k n have "\<bar>k\<bar> < 1" by (simp add: abs_mult)
  with k show ?thesis by simp
qed
text \<open>The cell of an index, as the only number below the size that is congruent to it.\<close>

lemma int_ring_slot: "0 < n \<Longrightarrow> int (ring_slot base n i) = (i - base) mod int n"
  by (simp add: ring_slot_def)

lemma ring_slot_unique:
  assumes "k < n" "int n dvd (i - base) - int k"
  shows "ring_slot base n i = k"
proof -
  have "(i - base) mod int n = int k mod int n" using assms(2) by (simp add: mod_eq_dvd_iff)
  with assms(1) show ?thesis by (simp add: ring_slot_def)
qed

lemma ring_slot_dvd: "0 < n \<Longrightarrow> int n dvd (i - base) - int (ring_slot base n i)"
  by (simp add: int_ring_slot mod_eq_dvd_iff [symmetric])

lemma ring_slot_eq:
  assumes "ring_slot base n i = ring_slot base n j" "e - int n < i" "i \<le> e" "e - int n < j" "j \<le> e"
  shows "i = j"
proof -
  have "0 < n" using assms(2,3) by linarith
  then have "(i - base) mod int n = (j - base) mod int n"
    using assms(1) by (metis int_ring_slot)
  from mod_window_eq [OF this, of "e - base"] assms(2-5) show ?thesis by linarith
qed

lemma ring_slot_Suc:
  assumes "0 < n"
  shows "ring_slot base n (i + 1) =
    (if ring_slot base n i + 1 = n then 0 else ring_slot base n i + 1)"
proof (rule ring_slot_unique)
  show "(if ring_slot base n i + 1 = n then 0 else ring_slot base n i + 1) < n"
    using ring_slot_less [OF assms, of base i] by auto
  from ring_slot_dvd [OF assms, of i base]
  obtain k where k: "i - base - int (ring_slot base n i) = int n * k" by blast
  then have "i + 1 - base - int (ring_slot base n i + 1) = int n * k" by simp
  moreover from this have "i + 1 - base - 0 = int n * (k + 1)" if "ring_slot base n i + 1 = n"
    using that by (simp add: distrib_left)
  ultimately show "int n dvd i + 1 - base -
      int (if ring_slot base n i + 1 = n then 0 else ring_slot base n i + 1)"
    by (metis dvd_triv_left of_nat_0)
qed

text \<open>The cell of an index before another one, counted back from that one's cell.\<close>

lemma ring_slot_back:
  assumes "a \<le> p" "p - a < int n"
  shows "ring_slot base n a = (ring_slot base n p + n - nat (p - a)) mod n"
proof (rule ring_slot_unique)
  have n: "0 < n" using assms by linarith
  then show "(ring_slot base n p + n - nat (p - a)) mod n < n" by simp
  let ?m = "ring_slot base n p + n - nat (p - a)"
  have "nat (p - a) \<le> n" using assms by linarith
  then have "int ?m = int (ring_slot base n p) + int n - (p - a)"
    using assms(1) by (simp add: of_nat_diff)
  then have "a - base - int ?m = (p - base - int (ring_slot base n p)) - int n" by simp
  then have "int n dvd a - base - int ?m"
    using ring_slot_dvd [OF n, of p base] by (metis dvd_diff dvd_refl)
  moreover have "int n dvd int ?m - int (?m mod n)" by (simp add: zmod_int mod_eq_dvd_iff [symmetric])
  ultimately have "int n dvd (a - base - int ?m) + (int ?m - int (?m mod n))" by (rule dvd_add)
  moreover have "(a - base - int ?m) + (int ?m - int (?m mod n)) = a - base - int (?m mod n)"
    by simp
  ultimately show "int n dvd a - base - int (?m mod n)" by metis
qed

text \<open>Cells around the boundary of a half, at the start of the ring or in its middle.\<close>

lemma ring_slot_before_0:
  assumes "ring_slot base n p = 0" "0 < d" "d < n"
  shows "ring_slot base n (p - int d) = n - d"
  using ring_slot_back [of "p - int d" p n base] assms by simp

lemma ring_slot_before_half:
  assumes "ring_slot base (2 * h) p = h" "0 < d" "d < 2 * h"
  shows "ring_slot base (2 * h) (p - int d) = (if d \<le> h then h - d else 3 * h - d)"
proof (cases "d \<le> h")
  case True
  then have "3 * h - d = (h - d) + 2 * h" by simp
  then have "(3 * h - d) mod (2 * h) = (h - d) mod (2 * h)" by (metis mod_add_self2)
  also have "\<dots> = h - d" using True assms by simp
  finally show ?thesis using ring_slot_back [of "p - int d" p "2 * h" base] assms True by simp
next
  case False
  then have "(h + 2 * h - d) mod (2 * h) = 3 * h - d" using assms by simp
  then show ?thesis using ring_slot_back [of "p - int d" p "2 * h" base] assms False by simp
qed

lemma ring_slot_after:
  assumes "ring_slot base n p = k" "k + d < n"
  shows "ring_slot base n (p + int d) = k + d"
proof (rule ring_slot_unique [OF assms(2)])
  have "0 < n" using assms(2) by simp
  from ring_slot_dvd [OF this, of p base] assms(1) have "int n dvd p - base - int k" by simp
  moreover have "p + int d - base - int (k + d) = p - base - int k" by simp
  ultimately show "int n dvd p + int d - base - int (k + d)" by metis
qed

subsection \<open>Reading a character\<close>

text \<open>The two ends of the window, as the positions the code compares with.\<close>

lemma ring_end_slot:
  assumes "ring_shows str rest c p r g b"
  shows "ring_slot (rg_base g) (2 * rg_half g) (rg_end g) =
    (if ib_last_read_first_half b then rg_half g else 0)"
  using assms by (auto simp: ring_defs ring_slot_def)

lemma ring_last_slot:
  assumes "ring_shows str rest c p r g b" "ib_pos_last_read_char b < 2 * rg_half g"
  shows "ring_slot (rg_base g) (2 * rg_half g) (int r) = ib_pos_last_read_char b"
  using assms by (auto simp: ring_defs ring_slot_def)

lemma ring_full_end:
  assumes "ring_shows str rest c p r g b" "ib_pos_last_read_char b = 2 * rg_half g"
  shows "rg_end g = int r"
proof -
  let ?n = "2 * int (rg_half g)"
  have half: "int (rg_half g) dvd ?n" by simp
  from assms have "(int r - rg_base g) mod ?n = 0" by (auto simp: ring_defs)
  then have "int (rg_half g) dvd int r - rg_base g" by (metis dvd_mod_iff [OF half] dvd_0_right)
  moreover have "int (rg_half g) dvd (rg_end g - rg_base g) mod ?n" using assms(1) by (simp add: ring_defs)
  then have "int (rg_half g) dvd rg_end g - rg_base g" by (metis dvd_mod_iff [OF half])
  ultimately have "int (rg_half g) dvd (rg_end g - rg_base g) - (int r - rg_base g)" by (rule dvd_diff [rotated])
  then have "int (rg_half g) dvd rg_end g - int r" by simp
  moreover have "0 \<le> rg_end g - int r" "rg_end g - int r < int (rg_half g)"
    using assms(1) by (auto simp: ring_defs)
  ultimately show ?thesis by (metis diff_eq_eq add_0 zdvd_not_zless order_le_less)
qed

lemma ring_at_end:
  assumes "ring_shows str rest c p r g b"
  shows "ib_pos b = (if ib_last_read_first_half b then ib_size b div 2 else 0) \<longleftrightarrow> int p = rg_end g"
    "ib_pos b = ib_pos_last_read_char b \<longleftrightarrow> p = r \<and> ib_pos_last_read_char b < ib_size b"
proof -
  let ?n = "2 * rg_half g"
  have w: "rg_end g - int ?n < int p" "int p \<le> rg_end g" "rg_end g - int ?n < int r" "int r \<le> rg_end g"
    "0 < ?n" "ib_size b = ?n" "ib_pos b = ring_slot (rg_base g) ?n (int p)"
    using assms by (auto simp: ring_defs)
  have "rg_end g - int ?n < rg_end g" using w(5) by simp
  with ring_slot_eq [of "rg_base g" ?n "int p" "rg_end g" "rg_end g"] w ring_end_slot [OF assms]
  show "ib_pos b = (if ib_last_read_first_half b then ib_size b div 2 else 0) \<longleftrightarrow> int p = rg_end g"
    by auto
  show "ib_pos b = ib_pos_last_read_char b \<longleftrightarrow> p = r \<and> ib_pos_last_read_char b < ib_size b"
    using ring_slot_eq [of "rg_base g" ?n "int p" "int r" "rg_end g"] w ring_last_slot [OF assms]
      ring_slot_less [OF w(5), of "rg_base g" "int p"] by auto
qed

lemma ring_next_char:
  assumes b: "ring_shows str rest c p r g b" and pr: "p < r"
  shows "\<exists>b'. ib_get_next_character b x = Inr (Success, of_char (str ! p), b') \<and>
    ring_shows str rest c (Suc p) r g b' \<and> ib_log_fully_consumed b' = ib_log_fully_consumed b"
proof -
  let ?n = "2 * rg_half g"
  have w: "0 < ?n" "ib_size b = ?n" "ib_pos b = ring_slot (rg_base g) ?n (int p)" "?n < 2 ^ 32"
    "bf_ok (ib_storage b)" "c \<le> p" "int r \<le> rg_end g"
    using b by (auto simp: ring_defs)
  have pos: "ib_pos b < ?n" using w(3) ring_slot_less [OF w(1)] by simp
  have "st_size (bf_active (ib_storage b)) = ?n" using w(2,5) by (simp add: bf_ok_def)
  moreover have "st_cell (bf_active (ib_storage b)) (ib_pos b) = str ! p"
    using b pr w(3,6) by (auto simp: ring_defs)
  ultimately have "bf_get_curr_value (ib_storage b) = Inr (str ! p)"
    using pos by (simp add: bf_get_curr_value_def bf_get_value_def st_get_def)
  moreover have "\<not> (ib_finished_reading_input b \<and> ib_pos b = ib_pos_last_read_char b)"
    using ring_at_end(2) [OF b] pr by simp
  moreover have "\<not> (ib_last_read_first_half b \<and> ib_pos b = ib_size b div 2 \<or>
      \<not> ib_last_read_first_half b \<and> ib_pos b = 0)"
    using ring_at_end(1) [OF b] pr w(7) by (auto split: if_splits)
  ultimately have next1: "ib_get_next_character b x = Inr (Success, of_char (str ! p),
      b\<lparr>ib_storage := (ib_storage b)\<lparr>bf_pos := ring_slot (rg_base g) ?n (int (Suc p))\<rparr>\<rparr>)"
    using ring_slot_Suc [OF w(1), of "rg_base g" "int p"] pos w(2-4)
    by (auto simp: ib_get_next_character_def bf_increment_pos_def bf_set_pos_def Let_def add.commute)
  have "ring_shows str rest c (Suc p) r g
      (b\<lparr>ib_storage := (ib_storage b)\<lparr>bf_pos := ring_slot (rg_base g) ?n (int (Suc p))\<rparr>\<rparr>)"
    using b pr by (auto simp: ring_defs ib_read_is_safe_def)
  with next1 show ?thesis by simp
qed

lemma ring_next_end:
  assumes b: "ring_shows str rest c r r g b"
  shows "ib_get_next_character b x =
    (if ib_finished_reading_input b \<and> ib_pos_last_read_char b < ib_size b
     then Inr (Success, cCharEOF, b\<lparr>ib_log_fully_consumed := True\<rparr>)
     else Inr (BufferOutOfBounds, x, b))"
proof (cases "ib_finished_reading_input b \<and> ib_pos_last_read_char b < ib_size b")
  case True
  with ring_at_end(2) [OF b] show ?thesis by (simp add: ib_get_next_character_def)
next
  case False
  have "ib_pos_last_read_char b \<le> 2 * rg_half g" "ib_size b = 2 * rg_half g"
    using b by (auto simp: ring_defs)
  with False have "int r = rg_end g"
    using ring_full_end [OF b] b by (auto simp: ring_shows_def ring_reads_def)
  with ring_at_end [OF b] False show ?thesis
    by (auto simp: ib_get_next_character_def split: if_splits)
qed


subsection \<open>Giving up and going back\<close>

text \<open>The cell of the character \<open>d\<close> places before the next one.\<close>

definition ib_back :: "input_buffer \<Rightarrow> nat \<Rightarrow> nat" where
  "ib_back b d = (ib_pos b + ib_size b - d) mod ib_size b"

lemma ring_back:
  assumes "ring_shows str rest c p r g b" "c \<le> a" "a \<le> p"
  shows "ib_back b (p - a) = ring_slot (rg_base g) (2 * rg_half g) (int a)"
  using assms ring_slot_back [of "int a" "int p" "2 * rg_half g" "rg_base g"]
  by (auto simp: ring_defs ib_back_def nat_diff_distrib)

lemma ring_value:
  assumes b: "ring_shows str rest c p r g b" and a: "c \<le> a" "a < p"
  shows "bf_get_value (ib_storage b) (ib_back b (p - a)) = Inr (str ! a)"
proof -
  have "ib_back b (p - a) = ring_slot (rg_base g) (2 * rg_half g) (int a)"
    using ring_back [OF b] a by simp
  moreover have "ring_slot (rg_base g) (2 * rg_half g) (int a) < 2 * rg_half g"
    by (rule ring_slot_less) (use b in \<open>auto simp: ring_defs\<close>)
  ultimately show ?thesis
    using b a by (auto simp: ring_defs bf_get_value_def st_get_def bf_ok_def)
qed

lemma ring_consume:
  assumes b: "ring_shows str rest c p r g b" and a: "c \<le> a" "a \<le> p"
  shows "ring_shows str rest a p r g (ib_set_consumed_pos b (ib_back b (p - a)))"
proof -
  let ?n = "2 * rg_half g" let ?b = "ib_set_consumed_pos b (ib_back b (p - a))"
  note slot = ring_back [OF b a]
  define d where "d = nat (rg_end g - int a)"
  have w: "int a = rg_end g - int d" "d < ?n" "0 < rg_half g" "ib_size b = ?n"
    using b a by (auto simp: ring_defs d_def)
  have safe: "rg_end g - int (rg_half g) < int a" if "ib_read_is_safe ?b"
  proof (rule ccontr)
    assume "\<not> rg_end g - int (rg_half g) < int a"
    then have d: "rg_half g \<le> d" "0 < d" using w(1,3) by linarith+
    show False
    proof (cases "ib_last_read_first_half b")
      case True
      with ring_end_slot [OF b] have "ring_slot (rg_base g) ?n (rg_end g) = rg_half g" by simp
      from ring_slot_before_half [OF this d(2) w(2)] d(1) w slot that True show False
        by (auto simp: ib_read_is_safe_def ib_set_consumed_pos_def split: if_splits)
    next
      case False
      with ring_end_slot [OF b] have "ring_slot (rg_base g) ?n (rg_end g) = 0" by simp
      from ring_slot_before_0 [OF this d(2) w(2)] d(1) w slot that False show False
        by (auto simp: ib_read_is_safe_def ib_set_consumed_pos_def)
    qed
  qed
  have "ib_back b (p - a) < ?n" unfolding slot using w(3) by (intro ring_slot_less) simp
  with b a safe show ?thesis by (auto simp: ring_defs ib_set_consumed_pos_def)
qed

lemma ring_rewind:
  assumes b: "ring_shows str rest c p r g b" and a: "c \<le> a" "a \<le> p"
  shows "ring_shows str rest c a r g (ib_set_pos b (ib_back b (p - a)))"
  using b a ring_back [OF b a]
  by (auto simp: ring_defs ib_set_pos_def bf_set_pos_def ib_read_is_safe_def)

lemma ring_set_consumed:
  "ring_shows str rest c p r g (ib_set_log_fully_consumed b v) = ring_shows str rest c p r g b"
  by (auto simp: ring_defs ib_set_log_fully_consumed_def ib_read_is_safe_def)


subsection \<open>Filling the half that is free\<close>

text \<open>The ring after a read of \<open>k\<close> characters into the free half.\<close>

definition ring_filled :: "ring \<Rightarrow> ring" where
  "ring_filled g = g\<lparr>rg_end := rg_end g + int (rg_half g)\<rparr>"

text \<open>Where the free half begins, and that the characters not given up are outside of it.\<close>

lemma ring_free_half:
  assumes b: "ring_shows str rest c p r g b" "rg_end g = int r" and i: "int c \<le> int i" "i < r"
    and far: "rg_end g - int (rg_half g) < int c"
    and off: "off = (if ib_last_read_first_half b then rg_half g else 0)"
  shows "\<not> (off \<le> ring_slot (rg_base g) (2 * rg_half g) (int i) \<and>
    ring_slot (rg_base g) (2 * rg_half g) (int i) < off + rg_half g)"
proof -
  define d where "d = r - i"
  have d: "int i = rg_end g - int d" "0 < d" "d < rg_half g"
    using i b(2) far by (auto simp: d_def)
  show ?thesis
  proof (cases "ib_last_read_first_half b")
    case True
    with ring_end_slot [OF b(1)] have "ring_slot (rg_base g) (2 * rg_half g) (rg_end g) = rg_half g" by simp
    from ring_slot_before_half [OF this d(2)] d off True show ?thesis by auto
  next
    case False
    with ring_end_slot [OF b(1)] have "ring_slot (rg_base g) (2 * rg_half g) (rg_end g) = 0" by simp
    from ring_slot_before_0 [OF this d(2)] d off False show ?thesis by auto
  qed
qed

lemma ring_filled_cells:
  assumes b: "ring_shows str rest c p r g b" "rg_end g = int r"
    and far: "rg_end g - int (rg_half g) < int c"
    and off: "off = (if ib_last_read_first_half b then rg_half g else 0)"
    and s: "bf_ok s" "bf_pos s = ib_pos b" "bf_active_size s = ib_size b"
      "st_cell (bf_active s) = (\<lambda>j. if off \<le> j \<and> j < off + length bytes then bytes ! (j - off)
        else st_cell (bf_active (ib_storage b)) j)"
    and bytes: "bytes = take (rg_half g) rest"
  shows "ring_cells str c p (r + length bytes) (ring_filled g) s"
proof -
  let ?n = "2 * rg_half g" let ?slot = "ring_slot (rg_base g) ?n"
  have r: "r \<le> length str" "rest = drop r str" "length bytes \<le> rg_half g"
    using b(1) bytes by (auto simp: ring_defs)
  have "st_cell (bf_active s) (?slot (int i)) = str ! i" if i: "c \<le> i" "i < r + length bytes" for i
  proof (cases "i < r")
    case True
    with ring_free_half [OF b _ True far off] i(1) r(3)
    have "\<not> (off \<le> ?slot (int i) \<and> ?slot (int i) < off + length bytes)" by auto
    with b(1) i(1) True show ?thesis unfolding s(4) by (auto simp: ring_defs)
  next
    case False
    define d where "d = i - r"
    then have d: "i = r + d" "d < length bytes" using False i(2) by auto
    have "?slot (int r) = off" using ring_end_slot [OF b(1)] off b(2) by simp
    moreover have "off + d < ?n" using d(2) r(3) off by (auto split: if_splits)
    ultimately have "?slot (int i) = off + d" using ring_slot_after [of "rg_base g" ?n "int r" off d] d(1) by simp
    moreover have "bytes ! d = str ! i" using d bytes r by simp
    ultimately show ?thesis using d(2) by (simp add: s(4))
  qed
  with b(1) s(1-3) show ?thesis by (auto simp: ring_defs ring_filled_def)
qed

lemma mod_toggle:
  assumes "a mod (2 * int h) = (if q then int h else 0)" "0 < h"
  shows "(a + int h) mod (2 * int h) = (if \<not> q then int h else 0)"
proof -
  have "(a + int h) mod (2 * int h) = (a mod (2 * int h) + int h) mod (2 * int h)"
    by (simp add: mod_add_left_eq)
  with assms show ?thesis by auto
qed

lemma ring_filled_reads:
  assumes b: "ring_shows str rest c p r g b" "ib_read_is_safe b"
    and k: "k = min (rg_half g) (length rest)" "0 < k"
    and b': "ib_last_read_first_half b' = (\<not> ib_last_read_first_half b)"
      "ib_finished_reading_input b' = (k < rg_half g)" "ib_consumed_pos b' = ib_consumed_pos b"
      "ib_pos_last_read_char b' = (if 2 * rg_half g < ib_pos_last_read_char b + k
         then ib_pos_last_read_char b + k - 2 * rg_half g else ib_pos_last_read_char b + k)"
      "ib_size b' = 2 * rg_half g"
  shows "ring_reads c (r + k) (ring_filled g) b'" "ring_bounds c p (r + k) (ring_filled g)"
proof -
  let ?n = "2 * int (rg_half g)"
  have w: "rg_end g = int r" "rg_end g - int (rg_half g) < int c" "0 < rg_half g"
    using b by (auto simp: ring_defs ib_read_is_safe_def)
  have e: "(rg_end (ring_filled g) - rg_base g) mod ?n = (if ib_last_read_first_half b' then int (rg_half g) else 0)"
    using mod_toggle [of "rg_end g - rg_base g" "rg_half g" "ib_last_read_first_half b"] b(1) w(3)
    by (auto simp: ring_defs ring_filled_def b'(1) algebra_simps)
  have l: "int (ib_pos_last_read_char b') mod ?n = (int (r + k) - rg_base g) mod ?n"
  proof -
    have "int (ib_pos_last_read_char b') mod ?n = (int (ib_pos_last_read_char b) + int k) mod ?n"
      by (simp add: b'(4) of_nat_diff)
    also have "\<dots> = ((int r - rg_base g) mod ?n + int k) mod ?n"
      using b(1) by (simp add: ring_defs mod_add_left_eq [symmetric, of "int (ib_pos_last_read_char b)"])
    also have "\<dots> = (int (r + k) - rg_base g) mod ?n"
      unfolding mod_add_left_eq by (simp add: algebra_simps)
    finally show ?thesis .
  qed
  have "\<not> ib_read_is_safe b'"
    using b b' by (auto simp: ib_read_is_safe_def ring_defs)
  moreover have "ib_pos_last_read_char b \<le> 2 * rg_half g" "ib_consumed_pos b < 2 * rg_half g" "k \<le> rg_half g"
    using b(1) k(1) by (auto simp: ring_shows_def ring_reads_def)
  then have "ib_pos_last_read_char b' \<le> 2 * rg_half g" "ib_consumed_pos b' < 2 * rg_half g"
    using b'(3,4) by (auto split: if_splits)
  moreover have "\<not> ib_finished_reading_input b' \<longrightarrow> rg_end (ring_filled g) = int (r + k)"
    using b' k w(1) by (auto simp: ring_filled_def)
  ultimately show "ring_reads c (r + k) (ring_filled g) b'"
    using e l by (simp add: ring_reads_def ring_filled_def)
  show "ring_bounds c p (r + k) (ring_filled g)"
    using b w k by (auto simp: ring_defs ring_filled_def)
qed

lemma ib_read_if_safe_eq:
  assumes "ib_read_is_safe b" "off = (if ib_last_read_first_half b then ib_size b div 2 else 0)"
    and "bf_read read (ib_storage b) rd off (ib_size b div 2) = Inr (err, k, s, rd')"
  shows "err = EndOfFile \<Longrightarrow> ib_read_if_safe read b rd =
      Inr (EndOfFile, b\<lparr>ib_storage := s, ib_finished_reading_input := True\<rparr>, rd')"
    "err = Success \<Longrightarrow> ib_pos_last_read_char b + k < 2 ^ 32 \<Longrightarrow> ib_read_if_safe read b rd =
      Inr (Success, b\<lparr>ib_storage := s, ib_last_read_first_half := \<not> ib_last_read_first_half b,
        ib_finished_reading_input := (k < ib_size b div 2),
        ib_pos_last_read_char := (if ib_size b < ib_pos_last_read_char b + k
          then ib_pos_last_read_char b + k - ib_size b else ib_pos_last_read_char b + k)\<rparr>, rd')"
proof -
  have "\<not> ib_finished_reading_input b" using assms(1) by (simp add: ib_read_is_safe_def)
  then show "err = EndOfFile \<Longrightarrow> ib_read_if_safe read b rd =
      Inr (EndOfFile, b\<lparr>ib_storage := s, ib_finished_reading_input := True\<rparr>, rd')"
    "err = Success \<Longrightarrow> ib_pos_last_read_char b + k < 2 ^ 32 \<Longrightarrow> ib_read_if_safe read b rd =
      Inr (Success, b\<lparr>ib_storage := s, ib_last_read_first_half := \<not> ib_last_read_first_half b,
        ib_finished_reading_input := (k < ib_size b div 2),
        ib_pos_last_read_char := (if ib_size b < ib_pos_last_read_char b + k
          then ib_pos_last_read_char b + k - ib_size b else ib_pos_last_read_char b + k)\<rparr>, rd')"
    using assms(1,3) unfolding ib_read_if_safe_def ib_read_def Let_def assms(2) [symmetric]
    by simp_all
qed

subsection \<open>Doubling the ring\<close>

definition ring_grown :: "nat \<Rightarrow> ring \<Rightarrow> ring" where
  "ring_grown r g = \<lparr>rg_half = 2 * rg_half g, rg_base = int r - 2 * int (rg_half g), rg_end = int r\<rparr>"

text \<open>The copy puts the cells of the ring in the order of the text, the oldest first.\<close>

lemma grow_copy:
  assumes "bf_ok s" "bf_active_size s = 2 * h" "4 * h < 2 ^ 32"
  shows "\<exists>t. (if \<not> q then bf_copy (bf_double_size x s) (bf_active_storage s) 0 (2 * h) 0
      else rbind (bf_copy (bf_double_size x s) (bf_active_storage s) h (2 * h) 0)
             (\<lambda>s'. bf_copy s' (bf_active_storage s) 0 h h)) = Inr t \<and>
    bf_ok t \<and> bf_active_size t = 4 * h \<and>
    (\<forall>j < 2 * h. st_cell (bf_active t) j =
       st_cell (bf_active s) (if q then (if j < h then h + j else j - h) else j))"
proof -
  let ?g = "bf_double_size x s" and ?p = "bf_active_storage s"
  have g: "bf_ok ?g" "bf_active_size ?g = 4 * h" "bf_storage ?g ?p = bf_active s"
    "st_size (bf_active s) = 2 * h" "ptr_valid ?g ?p" "?p \<noteq> bf_active_storage ?g"
    using assms bf_double_size_ok [of x s] bf_double_size_old [OF assms(1), of x]
    by (auto simp: bf_ok_def ptr_valid_def bf_double_size_def split: storage_ptr.splits)
  show ?thesis
  proof (cases q)
    case False
    with bf_copy_cells [OF g(1), of "2 * h" ?p 0 0] g show ?thesis by auto
  next
    case True
    from bf_copy_cells [OF g(1), of "2 * h" ?p h 0] g obtain s1 where
      s1: "bf_copy ?g ?p h (2 * h) 0 = Inr s1" "bf_ok s1" "bf_active_size s1 = 4 * h"
        "bf_active_storage s1 = bf_active_storage ?g" "bf_storage s1 ?p = bf_active s"
        "\<And>j. j < h \<Longrightarrow> st_cell (bf_active s1) j = st_cell (bf_active s) (h + j)" "ptr_valid s1 ?p"
      by (auto simp: bf_copy_def)
    from bf_copy_cells [OF s1(2), of h ?p 0 h] s1 g(4,6) obtain t where
      t: "bf_copy s1 ?p 0 h h = Inr t" "bf_ok t" "bf_active_size t = 4 * h"
        "\<And>j. st_cell (bf_active t) j = (if h \<le> j \<and> j < h + h
           then st_cell (bf_active s) (j - h) else st_cell (bf_active s1) j)" by auto
    with s1 True show ?thesis by auto
  qed
qed

lemma ring_grow:
  assumes b: "ring_shows str rest c r r g b" "rg_end g = int r" and small: "6 * rg_half g < 2 ^ 32"
  shows "\<exists>b'. ib_increase_capacity b = Inr (ib_size b, ib_last_read_first_half b, b') \<and>
    ring_shows str rest c r r (ring_grown r g) b' \<and> ib_last_read_first_half b' \<and>
    ib_pos_last_read_char b' < ib_size b' \<and> ib_size b' = 2 * ib_size b \<and>
    ib_finished_reading_input b' = ib_finished_reading_input b \<and>
    ib_consumed_pos b' = ib_consumed_pos b"
proof -
  let ?h = "rg_half g"
  have w: "bf_ok (ib_storage b)" "ib_size b = 2 * ?h" "0 < ?h" "c \<le> r" "int r - 2 * int ?h < int c"
    "ib_consumed_pos b < 2 * ?h" "ring_text str rest r b"
    using b by (auto simp: ring_shows_def ring_bounds_def ring_cells_def ring_reads_def)
  from grow_copy [OF w(1,2), of "ib_last_read_first_half b" "CHR 0x00"] small obtain t where
    t: "(if \<not> ib_last_read_first_half b
         then bf_copy (bf_double_size (CHR 0x00) (ib_storage b)) (bf_active_storage (ib_storage b)) 0 (2 * ?h) 0
         else rbind (bf_copy (bf_double_size (CHR 0x00) (ib_storage b)) (bf_active_storage (ib_storage b)) ?h (2 * ?h) 0)
             (\<lambda>s'. bf_copy s' (bf_active_storage (ib_storage b)) 0 ?h ?h)) = Inr t"
    "bf_ok t" "bf_active_size t = 4 * ?h"
    "\<And>j. j < 2 * ?h \<Longrightarrow> st_cell (bf_active t) j = st_cell (bf_active (ib_storage b))
       (if ib_last_read_first_half b then (if j < ?h then ?h + j else j - ?h) else j)" by auto
  let ?b = "b\<lparr>ib_storage := t\<lparr>bf_pos := 2 * ?h\<rparr>, ib_last_read_first_half := True,
    ib_pos_last_read_char := 2 * ?h\<rparr>"
  have eq: "ib_increase_capacity b = Inr (ib_size b, ib_last_read_first_half b, ?b)"
    using t(1) w(2) small
    by (cases "ib_last_read_first_half b") (auto simp: ib_increase_capacity_def bf_set_pos_def Let_def)
  let ?g = "ring_grown r g"
  have slot: "ring_slot (rg_base ?g) (2 * rg_half ?g) (int r) = 2 * ?h"
    by (rule ring_slot_unique) (use w(3) in \<open>auto simp: ring_grown_def\<close>)
  have cells: "st_cell (bf_active t) (ring_slot (rg_base ?g) (2 * rg_half ?g) (int i)) = str ! i"
    if i: "c \<le> i" "i < r" for i
  proof -
    define d where "d = r - i"
    have d: "int i = int r - int d" "0 < d" "d < 2 * ?h" using i w(5) by (auto simp: d_def)
    have new: "ring_slot (rg_base ?g) (2 * rg_half ?g) (int i) = 2 * ?h - d"
      by (rule ring_slot_unique) (use d w(3) in \<open>auto simp: ring_grown_def of_nat_diff\<close>)
    have old: "ring_slot (rg_base g) (2 * ?h) (int i) =
      (if ib_last_read_first_half b then (if d \<le> ?h then ?h - d else 3 * ?h - d) else 2 * ?h - d)"
      using ring_end_slot [OF b(1)] b(2) d ring_slot_before_half [of "rg_base g" ?h "int r" d]
        ring_slot_before_0 [of "rg_base g" "2 * ?h" "int r" d] by auto
    have "st_cell (bf_active (ib_storage b)) (ring_slot (rg_base g) (2 * ?h) (int i)) = str ! i"
      using b(1) i by (auto simp: ring_shows_def ring_cells_def)
    moreover have "(if ib_last_read_first_half b then (if 2 * ?h - d < ?h then ?h + (2 * ?h - d) else 2 * ?h - d - ?h)
        else 2 * ?h - d) = ring_slot (rg_base g) (2 * ?h) (int i)"
      unfolding old using d by auto
    ultimately show ?thesis using t(4) [of "2 * ?h - d"] d unfolding new by simp
  qed
  have "ring_cells str c r r ?g (ib_storage ?b)"
    using t(2,3) slot cells small by (simp add: ring_cells_def) (simp add: ring_grown_def)
  moreover have "ring_reads c r ?g ?b"
    using w(3,5,6) by (auto simp: ring_reads_def ring_grown_def)
  moreover have "ring_bounds c r r ?g"
    using w(3-5) by (auto simp: ring_bounds_def ring_grown_def)
  moreover have "ring_text str rest r ?b" using w(7) by (simp add: ring_text_def)
  ultimately have "ring_shows str rest c r r ?g ?b" by (simp add: ring_shows_def)
  with eq t(3) w(2,3) show ?thesis by (intro exI [of _ ?b]) simp
qed

subsection \<open>Reading from a reader\<close>

context char_reader
begin

lemma ring_read_if_safe:
  assumes b: "ring_shows str (remaining rd) c p r g b" and rd: "ready rd"
  shows "\<exists>err b' rd'. ib_read_if_safe read b rd = Inr (err, b', rd') \<and> err \<in> {Success, EndOfFile} \<and>
    ready rd' \<and> (\<exists>r' g'. ring_shows str (remaining rd') c p r' g' b' \<and> rg_half g' = rg_half g \<and>
      (ib_read_is_safe b \<longrightarrow> r < r' \<or> ib_finished_reading_input b' \<and>
         ib_pos_last_read_char b' = ib_pos_last_read_char b \<and> ib_size b' = ib_size b)) \<and>
    ib_log_fully_consumed b' = ib_log_fully_consumed b"
proof (cases "ib_read_is_safe b")
  case False
  with b rd show ?thesis by (auto simp: ib_read_if_safe_def)
next
  case True
  let ?h = "rg_half g"
  define off where "off = (if ib_last_read_first_half b then ?h else 0)"
  have w: "ib_size b = 2 * ?h" "bf_ok (ib_storage b)" "0 < ?h" "3 * ?h < 2 ^ 32" "rg_end g = int r"
    "rg_end g - int ?h < int c" "ib_pos_last_read_char b \<le> 2 * ?h" "remaining rd = drop r str"
    "r \<le> length str" "\<not> ib_finished_reading_input b"
    using b True by (auto simp: ring_defs ib_read_is_safe_def)
  have off: "off = (if ib_last_read_first_half b then ib_size b div 2 else 0)" "off \<le> ?h"
    using w(1) by (simp_all add: off_def)
  show ?thesis
  proof (cases "remaining rd = []")
    case True
    obtain rd' where rd': "read rd ?h = (EndOfFile, [], rd')" "ready rd'" "remaining rd' = []"
      using read_end [OF rd w(3) True] by blast
    have "off \<le> ib_size b" using w(1) off(2) by simp
    from bf_read_nothing [of "ib_storage b" read rd ?h EndOfFile rd' off, OF w(2) rd'(1) this]
    obtain s where
      s: "bf_read read (ib_storage b) rd off ?h = Inr (EndOfFile, 0, s, rd')" "bf_ok s"
        "bf_pos s = ib_pos b" "bf_active_size s = ib_size b"
        "st_cell (bf_active s) = st_cell (bf_active (ib_storage b))" by blast
    let ?b = "b\<lparr>ib_storage := s, ib_finished_reading_input := True\<rparr>"
    have "ib_read_if_safe read b rd = Inr (EndOfFile, ?b, rd')"
      by (rule ib_read_if_safe_eq(1) [OF \<open>ib_read_is_safe b\<close> off(1)]) (use s(1) w(1) in simp_all)
    moreover have "ring_shows str (remaining rd') c p r g ?b"
      using b True rd'(3) s(2-5) by (auto simp: ring_defs ib_read_is_safe_def)
    ultimately show ?thesis using rd'(2) s(4)
      by (intro exI [of _ EndOfFile] exI [of _ ?b] exI [of _ rd']) auto
  next
    case False
    define bytes where "bytes = take ?h (remaining rd)"
    define k where "k = length bytes"
    have k: "k = min ?h (length (remaining rd))" "0 < k" "k \<le> ?h"
      using False w(3) by (auto simp: bytes_def k_def)
    obtain rd' where rd': "read rd ?h = (Success, bytes, rd')" "ready rd'"
      "remaining rd' = drop ?h (remaining rd)"
      using read_bytes [OF rd w(3) False] by (auto simp: bytes_def)
    have "off + length bytes \<le> ib_size b" using w(1) k(3) off(2) by (simp add: k_def)
    from bf_read_cells [of "ib_storage b" read rd ?h Success bytes rd' off, OF w(2) rd'(1) this]
    obtain s where
      s: "bf_read read (ib_storage b) rd off ?h = Inr (Success, k, s, rd')" "bf_ok s"
        "bf_pos s = ib_pos b" "bf_active_size s = ib_size b"
        "st_cell (bf_active s) = (\<lambda>j. if off \<le> j \<and> j < off + length bytes then bytes ! (j - off)
          else st_cell (bf_active (ib_storage b)) j)"
      unfolding k_def by blast
    let ?l = "ib_pos_last_read_char b + k"
    let ?b = "b\<lparr>ib_storage := s, ib_last_read_first_half := \<not> ib_last_read_first_half b,
      ib_finished_reading_input := (k < ?h),
      ib_pos_last_read_char := (if 2 * ?h < ?l then ?l - 2 * ?h else ?l)\<rparr>"
    have "?l < 2 ^ 32" using w(4,7) k(3) by linarith
    then have eq: "ib_read_if_safe read b rd = Inr (Success, ?b, rd')"
      using ib_read_if_safe_eq(2) [OF \<open>ib_read_is_safe b\<close> off(1), of read rd Success k s rd'] s(1) w(1)
      by simp
    have "ring_cells str c p (r + k) (ring_filled g) s"
      unfolding k_def by (rule ring_filled_cells [OF b w(5,6) off_def s(2-5) bytes_def])
    moreover have "ring_reads c (r + k) (ring_filled g) ?b" "ring_bounds c p (r + k) (ring_filled g)"
      by (rule ring_filled_reads [where b' = ?b, OF b \<open>ib_read_is_safe b\<close> k(1,2)]; use s(4) w(1) in simp)+
    moreover have "ring_text str (remaining rd') (r + k) ?b"
      using k w(8,9) rd'(3) by (auto simp: ring_text_def drop_drop add.commute min_def)
    ultimately have "ring_shows str (remaining rd') c p (r + k) (ring_filled g) ?b"
      by (simp add: ring_shows_def)
    with eq rd'(2) k(2) show ?thesis
      by (intro exI [of _ Success] exI [of _ ?b] exI [of _ rd'])
        (auto simp: ring_filled_def intro!: exI [of _ "r + k"] exI [of _ "ring_filled g"])
  qed
qed

end

section \<open>A client of the buffer\<close>

text \<open>
  What the lexer and the parser do with the buffer, as a step relation: fetch the next character,
  notice the end, go back to a character that is not given up yet, give up characters, let the
  reader fill a half, and double the ring when it has run out. The state is the number of
  characters given up, the characters fetched (with those gone back over removed), how often the
  ring was doubled, the buffer and the reader.
\<close>

inductive read_session ::
  "('r, char) read_fun \<Rightarrow> (nat \<Rightarrow> char) \<Rightarrow> 'r \<Rightarrow> nat \<Rightarrow> nat list \<Rightarrow> nat \<Rightarrow> input_buffer \<Rightarrow> 'r \<Rightarrow> bool"
  for read junk rd0 where
  session_start: "read_session read junk rd0 0 [] 0 (ib_new junk) rd0"
| session_next: "read_session read junk rd0 c out k b rd \<Longrightarrow>
    ib_get_next_character b x = Inr (Success, ch, b') \<Longrightarrow> \<not> ib_log_fully_consumed b' \<Longrightarrow>
    read_session read junk rd0 c (out @ [ch]) k b' rd"
| session_end: "read_session read junk rd0 c out k b rd \<Longrightarrow>
    ib_get_next_character b x = Inr (Success, ch, b') \<Longrightarrow> ib_log_fully_consumed b' \<Longrightarrow>
    read_session read junk rd0 c out k (ib_set_log_fully_consumed b' False) rd"
| session_rewind: "read_session read junk rd0 c out k b rd \<Longrightarrow> c \<le> a \<Longrightarrow> a \<le> length out \<Longrightarrow>
    read_session read junk rd0 c (take a out) k (ib_set_pos b (ib_back b (length out - a))) rd"
| session_consume: "read_session read junk rd0 c out k b rd \<Longrightarrow> c \<le> a \<Longrightarrow> a \<le> length out \<Longrightarrow>
    read_session read junk rd0 a out k (ib_set_consumed_pos b (ib_back b (length out - a))) rd"
| session_read: "read_session read junk rd0 c out k b rd \<Longrightarrow>
    ib_read_if_safe read b rd = Inr (err, b', rd') \<Longrightarrow> read_session read junk rd0 c out k b' rd'"
| session_grow: "read_session read junk rd0 c out k b rd \<Longrightarrow>
    ib_get_next_character b x = Inr (BufferOutOfBounds, y, b0) \<Longrightarrow>
    ib_increase_capacity b = Inr (old_size, flipped, b') \<Longrightarrow>
    read_session read junk rd0 c out (Suc k) b' rd"

definition session_inv :: "string \<Rightarrow> string \<Rightarrow> nat \<Rightarrow> nat list \<Rightarrow> nat \<Rightarrow> nat \<Rightarrow> ring \<Rightarrow> input_buffer \<Rightarrow> bool" where
  "session_inv str rest c out k r g b \<longleftrightarrow> ring_shows str rest c (length out) r g b \<and>
     rg_half g = 24000 * 2 ^ k \<and> out = map of_char (take (length out) str) \<and> \<not> ib_log_fully_consumed b"

lemma session_bound:
  assumes "session_inv str rest c out k r g b"
  shows "length out \<le> r" "r \<le> length str"
  using assms by (auto simp: session_inv_def ring_defs)

lemma session_inv_start: "session_inv str str 0 [] 0 0 \<lparr>rg_half = 24000, rg_base = 0, rg_end = 0\<rparr> (ib_new junk)"
  by (auto simp: session_inv_def ring_defs ib_new_def bf_ok_new ring_slot_def cStaticByteBuffSize_def
      ib_read_is_safe_def) (simp_all add: bf_new_def cStaticByteBuffSize_def)

text \<open>What fetching a character gives, in the three situations.\<close>

lemma session_fetch:
  assumes inv: "session_inv str rest c out k r g b"
  shows "length out < r \<Longrightarrow> \<exists>b'. ib_get_next_character b x = Inr (Success, of_char (str ! length out), b') \<and>
      session_inv str rest c (out @ [of_char (str ! length out)]) k r g b'"
    "length out = r \<Longrightarrow> ib_get_next_character b x =
      (if ib_finished_reading_input b \<and> ib_pos_last_read_char b < ib_size b
       then Inr (Success, cCharEOF, b\<lparr>ib_log_fully_consumed := True\<rparr>)
       else Inr (BufferOutOfBounds, x, b))"
proof -
  have b: "ring_shows str rest c (length out) r g b" using inv by (simp add: session_inv_def)
  show "\<exists>b'. ib_get_next_character b x = Inr (Success, of_char (str ! length out), b') \<and>
      session_inv str rest c (out @ [of_char (str ! length out)]) k r g b'" if p: "length out < r"
  proof -
    have "length out < length str" using p session_bound [OF inv] by simp
    then have "map of_char (take (Suc (length out)) str) = out @ [of_char (str ! length out)]"
      using inv by (simp add: session_inv_def take_Suc_conv_app_nth)
    with ring_next_char [OF b p, of x] inv show ?thesis by (auto simp: session_inv_def)
  qed
  show "length out = r \<Longrightarrow> ib_get_next_character b x =
      (if ib_finished_reading_input b \<and> ib_pos_last_read_char b < ib_size b
       then Inr (Success, cCharEOF, b\<lparr>ib_log_fully_consumed := True\<rparr>)
       else Inr (BufferOutOfBounds, x, b))"
    using ring_next_end b by blast
qed

lemma session_out_of_bounds:
  assumes inv: "session_inv str rest c out k r g b" and oob: "ib_get_next_character b x = Inr (BufferOutOfBounds, y, b0)"
  shows "length out = r" "rg_end g = int r"
    "ib_finished_reading_input b \<longrightarrow> ib_pos_last_read_char b = ib_size b"
proof -
  show r: "length out = r"
    using session_fetch(1) [OF inv, of x] oob session_bound(1) [OF inv] by (cases "length out < r") auto
  from session_fetch(2) [OF inv r, of x] oob
  have "\<not> (ib_finished_reading_input b \<and> ib_pos_last_read_char b < ib_size b)" by (auto split: if_splits)
  moreover have b: "ring_shows str rest c r r g b" using inv r by (simp add: session_inv_def)
  moreover from b have "ib_pos_last_read_char b \<le> 2 * rg_half g" "ib_size b = 2 * rg_half g"
    by (auto simp: ring_defs)
  ultimately show "ib_finished_reading_input b \<longrightarrow> ib_pos_last_read_char b = ib_size b" by auto
  then show "rg_end g = int r"
    using ring_full_end [OF b] b \<open>ib_size b = 2 * rg_half g\<close>
    by (cases "ib_finished_reading_input b") (auto simp: ring_shows_def ring_reads_def)
qed

lemma session_grows:
  assumes inv: "session_inv str rest c out k r g b" and oob: "ib_get_next_character b x = Inr (BufferOutOfBounds, y, b0)"
    and k: "k < 15"
  shows "\<exists>b'. ib_increase_capacity b = Inr (ib_size b, ib_last_read_first_half b, b') \<and>
    session_inv str rest c out (Suc k) r (ring_grown r g) b' \<and> ib_last_read_first_half b' \<and>
    ib_pos_last_read_char b' < ib_size b' \<and> ib_size b' = 2 * ib_size b \<and>
    ib_finished_reading_input b' = ib_finished_reading_input b \<and> ib_consumed_pos b' = ib_consumed_pos b"
proof -
  note r = session_out_of_bounds(1,2) [OF inv oob]
  have b: "ring_shows str rest c r r g b" and h: "rg_half g = 24000 * 2 ^ k"
    using inv r(1) by (simp_all add: session_inv_def)
  have "(2::nat) ^ k \<le> 2 ^ 14" using k by (intro power_increasing) auto
  with h have "6 * rg_half g < 2 ^ 32" by simp
  from ring_grow [OF b r(2) this] obtain b' where
    b': "ib_increase_capacity b = Inr (ib_size b, ib_last_read_first_half b, b')"
    "ring_shows str rest c r r (ring_grown r g) b'" "ib_last_read_first_half b'"
    "ib_pos_last_read_char b' < ib_size b'" "ib_size b' = 2 * ib_size b"
    "ib_finished_reading_input b' = ib_finished_reading_input b" "ib_consumed_pos b' = ib_consumed_pos b" by blast
  from b'(1) have "ib_log_fully_consumed b' = ib_log_fully_consumed b"
    by (auto simp: ib_increase_capacity_def Let_def)
  with b' inv r(1) h show ?thesis by (auto simp: session_inv_def ring_grown_def)
qed

context char_reader
begin

lemma session_invariant:
  assumes "read_session read junk rd0 c out k b rd" "ready rd0" "k \<le> 15"
  shows "ready rd \<and> (\<exists>r g. session_inv (remaining rd0) (remaining rd) c out k r g b)"
  using assms
proof (induction rule: read_session.induct)
  case session_start
  then show ?case using session_inv_start by blast
next
  case (session_next c out k b rd x ch b')
  then obtain r g where inv: "session_inv (remaining rd0) (remaining rd) c out k r g b" by auto
  show ?case
  proof (cases "length out < r")
    case True
    with session_fetch(1) [OF inv, of x] session_next show ?thesis by auto
  next
    case False
    with session_fetch(2) [OF inv, of x] session_bound(1) [OF inv] session_next show ?thesis
      by (auto split: if_splits)
  qed
next
  case (session_end c out k b rd x ch b')
  then obtain r g where inv: "session_inv (remaining rd0) (remaining rd) c out k r g b" by auto
  have "\<not> length out < r"
    using session_fetch(1) [OF inv, of x] session_end.hyps by (auto simp: session_inv_def)
  with session_fetch(2) [OF inv, of x] session_bound(1) [OF inv] session_end.hyps
  have "ib_set_log_fully_consumed b' False = b"
    using inv by (auto simp: ib_set_log_fully_consumed_def session_inv_def split: if_splits)
  with inv session_end show ?case by auto
next
  case (session_rewind c out k b rd a)
  then obtain r g where inv: "session_inv (remaining rd0) (remaining rd) c out k r g b" by auto
  then have "map of_char (take a (remaining rd0)) = take a out"
    using session_rewind.hyps(3) by (simp add: session_inv_def take_map) (metis min.absorb1 take_map take_take)
  with ring_rewind [of _ _ c "length out" r g b a] inv session_rewind
  have "session_inv (remaining rd0) (remaining rd) c (take a out) k r g
      (ib_set_pos b (ib_back b (length out - a)))"
    by (auto simp: session_inv_def ib_set_pos_def min_def)
  with session_rewind show ?case by auto
next
  case (session_consume c out k b rd a)
  then obtain r g where inv: "session_inv (remaining rd0) (remaining rd) c out k r g b" by auto
  with ring_consume [of _ _ c "length out" r g b a] session_consume
  have "session_inv (remaining rd0) (remaining rd) a out k r g
      (ib_set_consumed_pos b (ib_back b (length out - a)))"
    by (auto simp: session_inv_def ib_set_consumed_pos_def)
  with session_consume show ?case by auto
next
  case (session_read c out k b rd err b' rd')
  then obtain r g where rd: "ready rd" and inv: "session_inv (remaining rd0) (remaining rd) c out k r g b" by auto
  from ring_read_if_safe [OF _ rd, of _ c "length out" r g b] inv session_read.hyps(2) show ?case
    by (fastforce simp: session_inv_def)
next
  case (session_grow c out k b rd x y b0 old_size flipped b')
  then obtain r g where inv: "session_inv (remaining rd0) (remaining rd) c out k r g b" "ready rd" by auto
  from session_grows [OF inv(1) session_grow.hyps(2)] session_grow.hyps(3) session_grow.prems inv(2)
  show ?case by auto
qed

end

section \<open>Properties\<close>

text \<open>
  C5: the ring is faithful to the file. Whatever the client has fetched, in any order of reads,
  fetches, returns, give-ups and doublings (up to fifteen, a ring of 1.5 GB), is a prefix of the
  file; the characters it has not given up are still in the cells they were fetched from; and the
  next fetch ends without an access out of bounds: it delivers the next character of the file,
  reports the end exactly when the file is used up, or asks for more data.
\<close>

theorem ring_delivers_log:
  assumes "read_session (fr_read False) junk (open_file str) c out k b rd" "k \<le> 15"
  shows "out = map of_char (take (length out) str) \<and> c \<le> length out \<and> length out \<le> length str \<and>
    (\<forall>i. c \<le> i \<and> i < length out \<longrightarrow>
       bf_get_value (ib_storage b) (ib_back b (length out - i)) = Inr (str ! i)) \<and>
    (\<exists>err ch b'. ib_get_next_character b x = Inr (err, ch, b') \<and>
       (err = BufferOutOfBounds \<or> err = Success \<and>
         (if length out < length str then ch = of_char (str ! length out) \<and> \<not> ib_log_fully_consumed b'
          else ch = cCharEOF \<and> ib_log_fully_consumed b')))"
proof -
  from file_source.session_invariant [OF assms(1) _ assms(2)] obtain r g where
    inv: "session_inv str (fr_remaining rd) c out k r g b" by auto
  then have b: "ring_shows str (fr_remaining rd) c (length out) r g b" by (simp add: session_inv_def)
  then have "c \<le> length out" "ib_finished_reading_input b \<longrightarrow> r = length str" by (auto simp: ring_defs)
  moreover have "\<exists>err ch b'. ib_get_next_character b x = Inr (err, ch, b') \<and>
       (err = BufferOutOfBounds \<or> err = Success \<and>
         (if length out < length str then ch = of_char (str ! length out) \<and> \<not> ib_log_fully_consumed b'
          else ch = cCharEOF \<and> ib_log_fully_consumed b'))"
  proof (cases "length out < r")
    case True
    with session_fetch(1) [OF inv True, of x] session_bound [OF inv] show ?thesis
      by (auto simp: session_inv_def)
  next
    case False
    with session_fetch(2) [OF inv, of x] session_bound [OF inv] calculation show ?thesis by auto
  qed
  ultimately show ?thesis using inv session_bound [OF inv] ring_value [OF b] by (auto simp: session_inv_def)
qed

text \<open>
  C18: when the ring has run out of characters, doubling it and reading makes the next fetch
  succeed, with a character or the end of the file, if and only if the file was already finished
  or the consumed position is not 0. A log event that ends at position 0 of the ring therefore
  stops all further reading.
\<close>

theorem ring_progress:
  assumes "read_session (fr_read False) junk (open_file str) c out k b rd" "k < 15"
    and "ib_get_next_character b x = Inr (BufferOutOfBounds, y, b0)"
  shows "\<exists>n flipped b1 err b2 rd' err' ch b3. ib_increase_capacity b = Inr (n, flipped, b1) \<and>
    ib_read_if_safe (fr_read False) b1 rd = Inr (err, b2, rd') \<and>
    ib_get_next_character b2 x = Inr (err', ch, b3) \<and>
    (err' = Success \<longleftrightarrow> ib_finished_reading_input b \<or> ib_consumed_pos b \<noteq> 0) \<and>
    (err' \<noteq> Success \<longrightarrow> err' = BufferOutOfBounds \<and> b2 = b1 \<and> ib_consumed_pos b2 = 0)"
proof -
  from file_source.session_invariant [OF assms(1)] assms(2) obtain r g where
    rd: "fr_ready rd" and inv: "session_inv str (fr_remaining rd) c out k r g b" by auto
  from session_grows [OF inv assms(3,2)] obtain b1 where
    b1: "ib_increase_capacity b = Inr (ib_size b, ib_last_read_first_half b, b1)"
    "session_inv str (fr_remaining rd) c out (Suc k) r (ring_grown r g) b1" "ib_last_read_first_half b1"
    "ib_pos_last_read_char b1 < ib_size b1" "ib_size b1 = 2 * ib_size b"
    "ib_finished_reading_input b1 = ib_finished_reading_input b" "ib_consumed_pos b1 = ib_consumed_pos b" by blast
  note r = session_out_of_bounds(1) [OF inv assms(3)]
  have "ib_consumed_pos b < ib_size b" using inv by (auto simp: session_inv_def ring_defs)
  then have safe: "ib_read_is_safe b1 \<longleftrightarrow> \<not> ib_finished_reading_input b \<and> ib_consumed_pos b \<noteq> 0"
    using b1(3,5-7) by (auto simp: ib_read_is_safe_def)
  from file_source.ring_read_if_safe [OF _ rd, of str c "length out" r "ring_grown r g" b1] b1(2)
  obtain err b2 rd' r' g' where
    b2: "ib_read_if_safe (fr_read False) b1 rd = Inr (err, b2, rd')"
    "ring_shows str (fr_remaining rd') c (length out) r' g' b2" "rg_half g' = rg_half (ring_grown r g)"
    "ib_read_is_safe b1 \<longrightarrow> r < r' \<or> ib_finished_reading_input b2 \<and>
       ib_pos_last_read_char b2 = ib_pos_last_read_char b1 \<and> ib_size b2 = ib_size b1"
    by (auto simp: session_inv_def)
  have "r \<le> r'" using b2(2) r by (auto simp: ring_defs)
  show ?thesis
  proof (cases "ib_read_is_safe b1")
    case True
    have "\<exists>ch b3. ib_get_next_character b2 x = Inr (Success, ch, b3)"
    proof (cases "r < r'")
      case True
      with ring_next_char [OF b2(2), of x] r show ?thesis by auto
    next
      case False
      with \<open>r \<le> r'\<close> have "r' = r" by simp
      with ring_next_end [of str _ c r g' b2 x] b2(2,4) b1(4) True r False show ?thesis by auto
    qed
    with b1(1) b2(1) True safe show ?thesis by blast
  next
    case False
    then have "b2 = b1" using b2(1) by (simp add: ib_read_if_safe_def)
    have "ring_shows str (fr_remaining rd) c r r (ring_grown r g) b1"
      using b1(2) r by (simp add: session_inv_def)
    from ring_next_end [OF this, of x] b1(4,6) False safe
    have "ib_get_next_character b1 x = (if ib_finished_reading_input b
      then Inr (Success, cCharEOF, b1\<lparr>ib_log_fully_consumed := True\<rparr>) else Inr (BufferOutOfBounds, x, b1))" by simp
    with b1 b2(1) \<open>b2 = b1\<close> False safe show ?thesis by (cases "ib_finished_reading_input b") auto
  qed
qed

text \<open>A file of two characters: one read and one fetch.\<close>

lemma two_char_session:
  "\<exists>b rd. read_session (fr_read False) (\<lambda>_. CHR ''x'') (open_file ''ab'') 0 [97] 0 b rd"
proof -
  have inv: "session_inv ''ab'' ''ab'' 0 [] 0 0 \<lparr>rg_half = 24000, rg_base = 0, rg_end = 0\<rparr> (ib_new (\<lambda>_. CHR ''x''))"
    by (rule session_inv_start)
  have "ib_read_is_safe (ib_new (\<lambda>_. CHR ''x''))"
    by (simp add: ib_new_def bf_new_def cStaticByteBuffSize_def ib_read_is_safe_def)
  moreover have "\<exists>s rd. bf_read (fr_read False) (bf_new (\<lambda>_. CHR ''x'')) (open_file ''ab'') 0 24000 =
      Inr (Success, 2, s, rd)"
    by (simp add: bf_read_def open_file_def fr_try_open_def fr_read_def fread_def st_write_def
        bf_new_def bf_active_def bf_storage_def cStaticByteBuffSize_def Let_def fr_close_def fr_new_def)
  ultimately obtain b1 rd1 where b1: "ib_read_if_safe (fr_read False) (ib_new (\<lambda>_. CHR ''x'')) (open_file ''ab'') =
      Inr (Success, b1, rd1)" "ib_finished_reading_input b1"
    by (auto simp: ib_read_if_safe_def ib_read_def ib_new_def bf_new_def cStaticByteBuffSize_def Let_def)
  have s: "read_session (fr_read False) (\<lambda>_. CHR ''x'') (open_file ''ab'') 0 [] 0 b1 rd1"
    by (rule session_read [OF session_start b1(1)])
  from file_source.session_invariant [OF s] obtain r g where
    inv: "session_inv ''ab'' (fr_remaining rd1) 0 [] 0 r g b1" by auto
  with b1(2) have "r = 2" by (auto simp: session_inv_def ring_defs)
  with session_fetch(1) [OF inv, of 0] obtain b2 where
    "ib_get_next_character b1 0 = Inr (Success, 97, b2)" "\<not> ib_log_fully_consumed b2"
    by (auto simp: session_inv_def)
  from session_next [OF s this] show ?thesis by auto
qed

theorem ring_delivers_log_witness:
  "\<exists>b rd. read_session (fr_read False) (\<lambda>_. CHR ''x'') (open_file ''ab'') 0 [97] 0 b rd \<and>
     bf_get_value (ib_storage b) (ib_back b 1) = Inr (CHR ''a'')"
proof -
  from two_char_session obtain b rd where
    s: "read_session (fr_read False) (\<lambda>_. CHR ''x'') (open_file ''ab'') 0 [97] 0 b rd" by blast
  from ring_delivers_log [OF s, of 0] have "bf_get_value (ib_storage b) (ib_back b 1) = Inr (CHR ''a'')"
    by (auto dest: spec [of _ 0])
  with s show ?thesis by blast
qed

theorem ring_progress_witness:
  "\<exists>n flipped b1 err b2 rd' ch b3.
    ib_increase_capacity (ib_new (\<lambda>_. CHR ''x'')) = Inr (n, flipped, b1) \<and>
    ib_read_if_safe (fr_read False) b1 (open_file ''ab'') = Inr (err, b2, rd') \<and>
    ib_get_next_character b2 0 = Inr (Success, ch, b3)"
proof -
  have "ib_get_next_character (ib_new (\<lambda>_. CHR ''x'')) 0 = Inr (BufferOutOfBounds, 0, ib_new (\<lambda>_. CHR ''x''))"
    "ib_consumed_pos (ib_new (\<lambda>_. CHR ''x'')) \<noteq> 0"
    by (simp_all add: ib_get_next_character_def ib_new_def bf_new_def cStaticByteBuffSize_def)
  with ring_progress [OF session_start _ this(1), of "''ab''"] show ?thesis by fastforce
qed

end
