(* ===== verification/Token.thy ===== *)
theory Token
  imports Byte_Buffer Register_Handler
begin

text \<open>
  \<^verbatim>\<open>Token.hpp\<close>, \<^verbatim>\<open>Token.cpp\<close>: a token is a range of positions of
  the input ring, which may wrap around its end, with the ids of the variable types it matches and
  the registers that hold the positions of its captures. The span it keeps is a pointer and a
  size: its operations read the memory the pointer leads to.
\<close>

section \<open>State and operations\<close>

type_synonym memory = "storage_ptr \<Rightarrow> char storage"

text \<open>Arithmetic of \<^verbatim>\<open>size_t\<close>.\<close>

definition u64 :: "nat \<Rightarrow> nat" where
  "u64 n = n mod 2 ^ 64"

lemma u64_id [simp]: "n < 2 ^ 64 \<Longrightarrow> u64 n = n"
  by (simp add: u64_def)

record token =
  tk_start_pos :: nat
  tk_end_pos :: nat
  tk_buffer :: storage_ptr
  tk_buffer_size :: nat
  tk_line_num :: nat
  tk_type_ids :: "nat list option"
  tk_reg_handler :: register_handler
  tk_cached_string :: string

definition token_new ::
  "nat \<Rightarrow> nat \<Rightarrow> storage_ptr \<Rightarrow> nat \<Rightarrow> nat \<Rightarrow> nat list option \<Rightarrow> register_handler \<Rightarrow> token" where
  "token_new start_pos end_pos buf buf_size line_num type_ids reg_handler =
     \<lparr>tk_start_pos = start_pos, tk_end_pos = end_pos, tk_buffer = buf, tk_buffer_size = buf_size,
      tk_line_num = line_num, tk_type_ids = type_ids, tk_reg_handler = reg_handler,
      tk_cached_string = []\<rparr>"

definition token_new_plain ::
  "nat \<Rightarrow> nat \<Rightarrow> storage_ptr \<Rightarrow> nat \<Rightarrow> nat \<Rightarrow> nat list option \<Rightarrow> token" where
  "token_new_plain start_pos end_pos buf buf_size line_num type_ids =
     token_new start_pos end_pos buf buf_size line_num type_ids rh_new"

text \<open>The default constructor: an empty span (its null pointer is never followed).\<close>

definition token_default :: token where
  "token_default = token_new 0 0 StaticStorage 0 0 None rh_new"

definition tk_subspan :: "memory \<Rightarrow> token \<Rightarrow> nat \<Rightarrow> nat \<Rightarrow> string res" where
  "tk_subspan mem t offset n =
     (if offset \<le> tk_buffer_size t \<and> n \<le> tk_buffer_size t - offset
      then st_slice (mem (tk_buffer t)) offset n else Inl UndefinedBehavior)"

lemma tk_subspan_cached [simp]:
  "tk_subspan mem (t\<lparr>tk_cached_string := str\<rparr>) offset n = tk_subspan mem t offset n"
  by (simp add: tk_subspan_def)

definition tk_get_cached_string :: "memory \<Rightarrow> token \<Rightarrow> (string \<times> token) res" where
  "tk_get_cached_string mem t =
     (if tk_cached_string t \<noteq> [] then Inr (tk_cached_string t, t)
      else rbind
        (if tk_start_pos t \<le> tk_end_pos t
         then tk_subspan mem t (tk_start_pos t) (tk_end_pos t - tk_start_pos t)
         else rbind (tk_subspan mem t (tk_start_pos t) (tk_buffer_size t - tk_start_pos t)) (\<lambda>token_start.
                rbind (tk_subspan mem t 0 (tk_end_pos t)) (\<lambda>token_end. Inr (token_start @ token_end))))
        (\<lambda>str. Inr (str, t\<lparr>tk_cached_string := str\<rparr>)))"

definition tk_to_string :: "memory \<Rightarrow> token \<Rightarrow> (string \<times> token) res" where
  "tk_to_string mem t = tk_get_cached_string mem t"

definition tk_to_string_view :: "memory \<Rightarrow> token \<Rightarrow> (string \<times> token) res" where
  "tk_to_string_view mem t =
     (if tk_start_pos t \<le> tk_end_pos t
      then rbind (tk_subspan mem t (tk_start_pos t) (tk_end_pos t - tk_start_pos t)) (\<lambda>str. Inr (str, t))
      else tk_get_cached_string mem t)"

definition tk_get_sub_token :: "token \<Rightarrow> nat \<Rightarrow> nat \<Rightarrow> token res" where
  "tk_get_sub_token t start_pos end_pos =
     (if tk_buffer_size t \<le> start_pos \<or> tk_buffer_size t < end_pos then Inl OutOfRange
      else Inr (token_new_plain start_pos end_pos (tk_buffer t) (tk_buffer_size t) (tk_line_num t)
                  (tk_type_ids t)))"

definition tk_get_first_char :: "memory \<Rightarrow> token \<Rightarrow> char res" where
  "tk_get_first_char mem t =
     (if tk_start_pos t < tk_buffer_size t then st_get (mem (tk_buffer t)) (tk_start_pos t)
      else Inl UndefinedBehavior)"

definition tk_get_delimiter :: "memory \<Rightarrow> token \<Rightarrow> string res" where
  "tk_get_delimiter mem t = tk_subspan mem t (tk_start_pos t) 1"

definition tk_get_length :: "token \<Rightarrow> nat" where
  "tk_get_length t =
     (if tk_start_pos t \<le> tk_end_pos t then tk_end_pos t - tk_start_pos t
      else u64 (tk_buffer_size t + 2 ^ 64 - tk_start_pos t + tk_end_pos t))"

definition tk_get_reversed_reg_positions :: "token \<Rightarrow> nat \<Rightarrow> int list res option" where
  "tk_get_reversed_reg_positions t reg_id = rh_get_reversed_positions (tk_reg_handler t) reg_id"

definition tk_set_start_pos :: "nat \<Rightarrow> token \<Rightarrow> token" where
  "tk_set_start_pos pos t = t\<lparr>tk_cached_string := [], tk_start_pos := pos\<rparr>"

definition tk_set_end_pos :: "nat \<Rightarrow> token \<Rightarrow> token" where
  "tk_set_end_pos pos t = t\<lparr>tk_cached_string := [], tk_end_pos := pos\<rparr>"

definition tk_set_type_ids :: "nat list option \<Rightarrow> token \<Rightarrow> token" where
  "tk_set_type_ids type_ids t = t\<lparr>tk_type_ids := type_ids\<rparr>"

definition tk_get_next_pos :: "token \<Rightarrow> nat" where
  "tk_get_next_pos t =
     (let next_pos = u64 (tk_start_pos t + 1) in if next_pos = tk_buffer_size t then 0 else next_pos)"

definition tk_increment_start_pos :: "token \<Rightarrow> nat \<times> token" where
  "tk_increment_start_pos t = (tk_start_pos t, tk_set_start_pos (tk_get_next_pos t) t)"

definition tk_release_delimiter :: "memory \<Rightarrow> token \<Rightarrow> (char \<times> token) res" where
  "tk_release_delimiter mem t =
     rbind (tk_get_first_char mem t) (\<lambda>delim. Inr (delim, snd (tk_increment_start_pos t)))"

section \<open>The text of a token\<close>

text \<open>A token that lies in its ring: both positions are cells of it.\<close>

definition token_ok :: "memory \<Rightarrow> token \<Rightarrow> bool" where
  "token_ok mem t \<longleftrightarrow> tk_start_pos t < tk_buffer_size t \<and> tk_end_pos t < tk_buffer_size t \<and>
     tk_buffer_size t \<le> st_size (mem (tk_buffer t)) \<and> tk_buffer_size t < 2 ^ 63"

text \<open>The cells from the start on, around the ring, as many as lie before the end.\<close>

definition token_text :: "memory \<Rightarrow> token \<Rightarrow> string" where
  "token_text mem t =
     map (\<lambda>k. st_cell (mem (tk_buffer t)) ((tk_start_pos t + k) mod tk_buffer_size t))
       [0..<(tk_end_pos t + tk_buffer_size t - tk_start_pos t) mod tk_buffer_size t]"

definition token_cache_ok :: "memory \<Rightarrow> token \<Rightarrow> bool" where
  "token_cache_ok mem t \<longleftrightarrow> tk_cached_string t = [] \<or> tk_cached_string t = token_text mem t"

lemma token_length:
  assumes "token_ok mem t"
  shows "tk_get_length t = (tk_end_pos t + tk_buffer_size t - tk_start_pos t) mod tk_buffer_size t"
proof (cases "tk_start_pos t \<le> tk_end_pos t")
  case True
  then have "tk_end_pos t + tk_buffer_size t - tk_start_pos t = (tk_end_pos t - tk_start_pos t) + tk_buffer_size t" by simp
  then have "(tk_end_pos t + tk_buffer_size t - tk_start_pos t) mod tk_buffer_size t =
      (tk_end_pos t - tk_start_pos t) mod tk_buffer_size t" by (metis mod_add_self2)
  moreover have "tk_end_pos t - tk_start_pos t < tk_buffer_size t"
    using assms by (auto simp: token_ok_def)
  ultimately show ?thesis using True by (simp add: tk_get_length_def)
next
  case False
  let ?l = "tk_buffer_size t - tk_start_pos t + tk_end_pos t"
  have "tk_buffer_size t + 2 ^ 64 - tk_start_pos t + tk_end_pos t = ?l + 2 ^ 64"
    using assms by (simp add: token_ok_def)
  moreover have "tk_buffer_size t < 2 ^ 63" "tk_end_pos t < 2 ^ 63"
    using assms by (auto simp: token_ok_def)
  then have "?l < 2 ^ 64" by simp
  ultimately have "u64 (tk_buffer_size t + 2 ^ 64 - tk_start_pos t + tk_end_pos t) = ?l"
    by (simp only: u64_def mod_add_self2 mod_less)
  moreover have "tk_end_pos t + tk_buffer_size t - tk_start_pos t = ?l" "?l < tk_buffer_size t"
    using assms False by (auto simp: token_ok_def)
  ultimately show ?thesis using False by (simp add: tk_get_length_def)
qed

text \<open>The text, as the code puts it together from at most two slices.\<close>

lemma token_text_slices:
  assumes "token_ok mem t"
  shows "token_text mem t =
    (let cell = st_cell (mem (tk_buffer t)) in
     if tk_start_pos t \<le> tk_end_pos t then map cell [tk_start_pos t..<tk_end_pos t]
     else map cell [tk_start_pos t..<tk_buffer_size t] @ map cell [0..<tk_end_pos t])"
proof -
  note len = token_length [OF assms, symmetric]
  show ?thesis
  proof (cases "tk_start_pos t \<le> tk_end_pos t")
    case True
    with assms show ?thesis unfolding token_text_def len
      by (auto simp: tk_get_length_def token_ok_def Let_def intro!: nth_equalityI)
  next
    case False
    have l: "tk_get_length t = tk_buffer_size t - tk_start_pos t + tk_end_pos t"
      unfolding token_length [OF assms] using assms False by (subst mod_less) (auto simp: token_ok_def)
    have "(tk_start_pos t + k) mod tk_buffer_size t =
        (if k < tk_buffer_size t - tk_start_pos t then tk_start_pos t + k
         else k - (tk_buffer_size t - tk_start_pos t))" if "k < tk_get_length t" for k
    proof (cases "k < tk_buffer_size t - tk_start_pos t")
      case False
      with assms have "tk_start_pos t + k = (k - (tk_buffer_size t - tk_start_pos t)) + tk_buffer_size t"
        by (simp add: token_ok_def)
      moreover have "k - (tk_buffer_size t - tk_start_pos t) < tk_buffer_size t"
        using that l assms \<open>\<not> tk_start_pos t \<le> tk_end_pos t\<close> unfolding token_ok_def by linarith
      ultimately have "(tk_start_pos t + k) mod tk_buffer_size t = k - (tk_buffer_size t - tk_start_pos t)"
        by (metis mod_add_self2 mod_less)
      with False show ?thesis by simp
    qed simp
    with False l show ?thesis unfolding token_text_def len
      by (auto simp: nth_append Let_def intro!: nth_equalityI)
  qed
qed

lemma length_token_text: "token_ok mem t \<Longrightarrow> length (token_text mem t) = tk_get_length t"
  by (simp add: token_text_def token_length)

lemma token_cached:
  assumes "token_ok mem t" "token_cache_ok mem t"
  shows "\<exists>t'. tk_get_cached_string mem t = Inr (token_text mem t, t') \<and> token_text mem t' = token_text mem t \<and>
    token_ok mem t' \<and> token_cache_ok mem t'"
proof (cases "tk_cached_string t = []")
  case False
  with assms show ?thesis by (auto simp: tk_get_cached_string_def token_cache_ok_def)
next
  case True
  let ?t = "t\<lparr>tk_cached_string := token_text mem t\<rparr>"
  have "tk_get_cached_string mem t = Inr (token_text mem t, ?t)"
    unfolding token_text_slices [OF assms(1)] using assms(1) True
    by (auto simp: tk_get_cached_string_def tk_subspan_def st_slice_def token_ok_def Let_def)
  moreover have "token_text mem ?t = token_text mem t" by (simp add: token_text_def)
  ultimately show ?thesis using assms(1) by (auto simp: token_ok_def token_cache_ok_def)
qed

lemma token_viewed:
  assumes "token_ok mem t" "token_cache_ok mem t"
  shows "\<exists>t'. tk_to_string_view mem t = Inr (token_text mem t, t')"
proof (cases "tk_start_pos t \<le> tk_end_pos t")
  case True
  then show ?thesis
    unfolding token_text_slices [OF assms(1)] using assms(1)
    by (auto simp: tk_to_string_view_def tk_subspan_def st_slice_def token_ok_def Let_def)
next
  case False
  with token_cached [OF assms] show ?thesis by (auto simp: tk_to_string_view_def)
qed

text \<open>Advancing the start drops the first character.\<close>

lemma token_advance:
  assumes "token_ok mem t" "tk_start_pos t \<noteq> tk_end_pos t"
  shows "token_ok mem (tk_set_start_pos (tk_get_next_pos t) t)"
    "token_text mem t = st_cell (mem (tk_buffer t)) (tk_start_pos t) #
       token_text mem (tk_set_start_pos (tk_get_next_pos t) t)"
proof -
  have next_pos: "tk_get_next_pos t = (if tk_start_pos t + 1 = tk_buffer_size t then 0 else tk_start_pos t + 1)"
    using assms(1) by (simp add: tk_get_next_pos_def token_ok_def Let_def)
  show ok: "token_ok mem (tk_set_start_pos (tk_get_next_pos t) t)"
    using assms(1) by (auto simp: token_ok_def tk_set_start_pos_def next_pos)
  show "token_text mem t = st_cell (mem (tk_buffer t)) (tk_start_pos t) #
       token_text mem (tk_set_start_pos (tk_get_next_pos t) t)"
    unfolding token_text_slices [OF assms(1)] token_text_slices [OF ok] using assms
    by (auto simp: tk_set_start_pos_def next_pos token_ok_def Let_def upt_conv_Cons)
qed

lemma token_fresh_cache [simp]:
  "token_cache_ok mem (tk_set_start_pos pos t)" "token_cache_ok mem (tk_set_end_pos pos t)"
  "token_cache_ok mem (token_new s e b n l i h)"
  by (simp_all add: token_cache_ok_def tk_set_start_pos_def tk_set_end_pos_def token_new_def)

section \<open>Properties\<close>

text \<open>
  C19: the text of a token is the run of ring cells from its start to its end. Both string
  operations return it, whether the token wraps around or not and whether its string was cached
  before or not; its length is what \<^verbatim>\<open>get_length\<close> computes and is less than the
  ring; and releasing the delimiter of a token that is not empty takes off its first character.
\<close>

theorem token_text_bounds:
  assumes "token_ok mem t" "token_cache_ok mem t"
  shows "(\<exists>t1 t2. tk_to_string mem t = Inr (token_text mem t, t1) \<and>
      tk_to_string_view mem t = Inr (token_text mem t, t2) \<and> tk_to_string mem t1 = tk_to_string mem t) \<and>
    length (token_text mem t) = tk_get_length t \<and> tk_get_length t < tk_buffer_size t \<and>
    (tk_start_pos t = tk_end_pos t \<or> (\<exists>c s t1 t2. tk_to_string mem t = Inr (c # s, t2) \<and>
       tk_release_delimiter mem t = Inr (c, t1) \<and> token_text mem t1 = s \<and>
       token_ok mem t1 \<and> token_cache_ok mem t1))"
proof -
  from token_cached [OF assms] obtain t1 where
    t1: "tk_to_string mem t = Inr (token_text mem t, t1)" "token_text mem t1 = token_text mem t"
    "token_ok mem t1" "token_cache_ok mem t1" by (auto simp: tk_to_string_def)
  have "tk_to_string mem t1 = tk_to_string mem t"
    using t1(1) by (auto simp: tk_to_string_def tk_get_cached_string_def split: if_splits)
  moreover have "tk_get_length t < tk_buffer_size t"
    using assms(1) by (simp add: token_length [OF assms(1)] token_ok_def)
  moreover have "\<exists>c s t3 t2. tk_to_string mem t = Inr (c # s, t2) \<and>
       tk_release_delimiter mem t = Inr (c, t3) \<and> token_text mem t3 = s \<and>
       token_ok mem t3 \<and> token_cache_ok mem t3" if "tk_start_pos t \<noteq> tk_end_pos t"
    using t1(1) token_advance [OF assms(1) that] assms(1)
    by (auto simp: tk_release_delimiter_def tk_get_first_char_def st_get_def tk_increment_start_pos_def
        token_ok_def)
  ultimately show ?thesis using t1(1) token_viewed [OF assms] length_token_text [OF assms(1)] by blast
qed

definition demo_memory :: memory where
  "demo_memory = (\<lambda>_. \<lparr>st_size = 6, st_cell = \<lambda>i. ''cd..ab'' ! i\<rparr>)"

theorem token_text_bounds_witness:
  "\<exists>t1. tk_to_string demo_memory (token_new_plain 4 2 StaticStorage 6 1 None) = Inr (''abcd'', t1)"
proof -
  let ?t = "token_new_plain 4 2 StaticStorage 6 1 None"
  have ok: "token_ok demo_memory ?t" "token_cache_ok demo_memory ?t"
    by (simp_all add: token_ok_def token_new_plain_def demo_memory_def) (simp add: token_new_def)
  have "token_text demo_memory ?t = ''abcd''"
    by (simp add: token_text_def token_new_plain_def token_new_def demo_memory_def upt_rec)
  with token_text_bounds [OF ok] show ?thesis by auto
qed

end
