(* ===== verification/Lexer.thy ===== *)
theory Lexer
  imports Dfa Nfa_Construction Input_Buffer Token
begin

text \<open>
  \<^verbatim>\<open>Lexer.hpp\<close>, \<^verbatim>\<open>Lexer.tpp\<close>: the lexer runs the DFA over the input
  buffer and cuts the log into tokens: variables, which start with a delimiter and are followed by
  one, and the uncaught text between them. A result is \<open>None\<close> when a loop does not end.
\<close>

section \<open>State\<close>

text \<open>The symbols that every lexer knows (\<^verbatim>\<open>SymbolId\<close> of \<^verbatim>\<open>Constants.hpp\<close>).\<close>

datatype symbol_id =
  TokenEnd | TokenUncaughtString | TokenInt | TokenFloat | TokenHex | TokenHeader | TokenNewline

fun symbol_num :: "symbol_id \<Rightarrow> nat" where
  "symbol_num TokenEnd = 0"
| "symbol_num TokenUncaughtString = 1"
| "symbol_num TokenInt = 2"
| "symbol_num TokenFloat = 3"
| "symbol_num TokenHex = 4"
| "symbol_num TokenHeader = 5"
| "symbol_num TokenNewline = 6"

definition cTokenEndTypes :: "nat list" where
  "cTokenEndTypes = [symbol_num TokenEnd]"

definition cTokenUncaughtStringTypes :: "nat list" where
  "cTokenUncaughtStringTypes = [symbol_num TokenUncaughtString]"

record lexer =
  lx_symbol_id :: "(string \<times> nat) list"
  lx_id_symbol :: "(nat \<times> string) list"
  lx_match_pos :: nat
  lx_start_pos :: nat
  lx_match_line :: nat
  lx_last_match_pos :: nat
  lx_last_match_line :: nat
  lx_match :: bool
  lx_type_ids :: "nat list option"
  lx_is_delimiter :: "nat \<Rightarrow> bool"
  lx_is_first_char_of_a_variable :: "nat \<Rightarrow> bool"
  lx_rules :: "lexical_rule list"
  lx_line :: nat
  lx_has_delimiters :: bool
  lx_dfa :: "dfa option"
  lx_first_delimiter_pos :: "nat option"
  lx_asked_for_more_data :: bool
  lx_prev_state :: "nat option"
  lx_state :: "nat option"
  lx_rule_id_to_capture :: "nat \<rightharpoonup> capture list"
  lx_capture_to_tag_id_pair :: "nat \<rightharpoonup> nat \<times> nat"

definition lx_new :: lexer where
  "lx_new = \<lparr>lx_symbol_id = [], lx_id_symbol = [], lx_match_pos = 0,
     lx_start_pos = 0, lx_match_line = 0, lx_last_match_pos = 0, lx_last_match_line = 0,
     lx_match = False, lx_type_ids = None, lx_is_delimiter = (\<lambda>_. False),
     lx_is_first_char_of_a_variable = (\<lambda>_. False), lx_rules = [], lx_line = 0,
     lx_has_delimiters = False, lx_dfa = None, lx_first_delimiter_pos = None,
     lx_asked_for_more_data = False, lx_prev_state = None, lx_state = None,
     lx_rule_id_to_capture = (\<lambda>_. None), lx_capture_to_tag_id_pair = (\<lambda>_. None)\<rparr>"

text \<open>Following the pointer to the DFA and the pointer to a DFA state.\<close>

definition lx_get_dfa :: "lexer \<Rightarrow> dfa res" where
  "lx_get_dfa lx = (case lx_dfa lx of None \<Rightarrow> Inl NullDeref | Some d \<Rightarrow> Inr d)"

definition lx_deref :: "lexer \<Rightarrow> nat option \<Rightarrow> dfa_state res" where
  "lx_deref lx q =
     (case q of None \<Rightarrow> Inl NullDeref | Some q \<Rightarrow> rbind (lx_get_dfa lx) (\<lambda>d. Inr (df_states d ! q)))"

definition lx_root :: "lexer \<Rightarrow> nat res" where
  "lx_root lx = rbind (lx_get_dfa lx) dfa_get_root"

text \<open>A token over the active storage of the input buffer.\<close>

definition lx_token :: "input_buffer \<Rightarrow> nat \<Rightarrow> nat \<Rightarrow> nat \<Rightarrow> nat list option \<Rightarrow> token" where
  "lx_token b start_pos end_pos line_num type_ids =
     token_new_plain start_pos end_pos (bf_active_storage (ib_storage b)) (ib_size b) line_num type_ids"

section \<open>Building a lexer\<close>

definition lx_set_delimiters :: "nat list \<Rightarrow> lexer \<Rightarrow> lexer res" where
  "lx_set_delimiters delimiters lx =
     (if delimiters = [] then Inl AssertFailed
      else if \<exists>d \<in> set delimiters. cSizeOfByte \<le> d then Inl UndefinedBehavior
      else Inr (lx\<lparr>lx_has_delimiters := True,
                  lx_is_delimiter := \<lambda>i. i \<in> set delimiters \<or> i = cCharStartOfFile\<rparr>))"

definition lx_add_rule :: "nat \<Rightarrow> regex_ast \<Rightarrow> lexer \<Rightarrow> lexer" where
  "lx_add_rule rule_id rule lx =
     lx\<lparr>lx_rules := lx_rules lx @ [\<lparr>lr_variable_id = rule_id, lr_regex = rule\<rparr>]\<rparr>"

definition lx_get_highest_priority_rule :: "nat \<Rightarrow> lexer \<Rightarrow> regex_ast option" where
  "lx_get_highest_priority_rule rule_id lx =
     map_option lr_regex (find (\<lambda>rule. lr_variable_id rule = rule_id) (lx_rules lx))"

definition lx_collect_captures :: "lexical_rule \<Rightarrow> lexer \<Rightarrow> lexer" where
  "lx_collect_captures rule lx =
     (let captures = lexical_rule_get_captures rule; rule_id = lr_variable_id rule
      in if captures = [] then lx
         else let captures_vec = (case lx_rule_id_to_capture lx rule_id of None \<Rightarrow> [] | Some cs \<Rightarrow> cs)
              in lx\<lparr>lx_rule_id_to_capture :=
                     (lx_rule_id_to_capture lx)(rule_id \<mapsto> captures_vec @ captures)\<rparr>)"

definition lx_generate ::
  "((nat \<times> nat) list \<Rightarrow> (nat \<times> nat) list) \<Rightarrow> lexer \<Rightarrow> lexer res option" where
  "lx_generate ord lx =
     (let lx1 = fold lx_collect_captures (lx_rules lx) lx
      in case nfa_of_rules (lx_rules lx1) of
           Inl e \<Rightarrow> Some (Inl e)
         | Inr nfa \<Rightarrow>
             (let lx2 = lx1\<lparr>lx_capture_to_tag_id_pair :=
                         nf_capture_to_tag_id_pair nfa ++ lx_capture_to_tag_id_pair lx1\<rparr>
              in cbind (dfa_generate ord nfa) (\<lambda>d.
                   Some (rbind (dfa_get_root d) (\<lambda>root.
                     Inr (lx2\<lparr>lx_dfa := Some d,
                            lx_is_first_char_of_a_variable := \<lambda>i.
                              if i < cSizeOfByte then ds_get_transition i (df_states d ! root) \<noteq> None
                              else lx_is_first_char_of_a_variable lx2 i\<rparr>))))))"

definition lx_reset :: "lexer \<Rightarrow> lexer" where
  "lx_reset lx =
     lx\<lparr>lx_last_match_pos := 0, lx_match := False, lx_line := 0, lx_match_pos := 0, lx_start_pos := 0,
       lx_match_line := 0, lx_last_match_line := 0, lx_type_ids := None,
       lx_asked_for_more_data := False, lx_prev_state := None, lx_first_delimiter_pos := None,
       lx_state := None\<rparr>"

definition lx_prepend_start_of_file_char :: "input_buffer \<Rightarrow> lexer \<Rightarrow> lexer res" where
  "lx_prepend_start_of_file_char b lx =
     rbind (lx_root lx) (\<lambda>root. rbind (lx_deref lx (Some root)) (\<lambda>s.
       case ds_get_transition cCharStartOfFile s of
         None \<Rightarrow> Inl UndefinedBehavior
       | Some t \<Rightarrow> Inr (lx\<lparr>lx_state := Some (dt_dest_state t), lx_asked_for_more_data := True,
           lx_start_pos := ib_pos b, lx_match_pos := ib_pos b, lx_match_line := lx_line lx,
           lx_type_ids := None\<rparr>)))"

section \<open>Growing the buffer\<close>

definition flip_pos :: "nat \<Rightarrow> nat \<Rightarrow> bool \<Rightarrow> nat" where
  "flip_pos half pos in_second = (if in_second then pos - half else u32 (pos + half))"

definition lx_flip_states :: "nat \<Rightarrow> lexer \<Rightarrow> lexer" where
  "lx_flip_states old_storage_size lx =
     (let half = old_storage_size div 2
      in lx\<lparr>lx_match_pos := flip_pos half (lx_match_pos lx) (half \<le> lx_match_pos lx),
           lx_start_pos := flip_pos half (lx_start_pos lx) (half < lx_start_pos lx),
           lx_last_match_pos := flip_pos half (lx_last_match_pos lx) (half \<le> lx_last_match_pos lx)\<rparr>)"

definition lx_increase_buffer_capacity :: "lexer \<Rightarrow> input_buffer \<Rightarrow> (lexer \<times> input_buffer) res" where
  "lx_increase_buffer_capacity lx b =
     rbind (ib_increase_capacity b) (\<lambda>(old_storage_size, flipped_static_buffer, b').
       Inr (if old_storage_size < ib_size b'
            then let lx1 = (if flipped_static_buffer then lx_flip_states old_storage_size lx else lx)
                 in (if lx_last_match_pos lx1 = 0
                     then lx1\<lparr>lx_last_match_pos := old_storage_size, lx_start_pos := old_storage_size\<rparr>
                     else lx1, b')
            else (lx, b')))"

section \<open>Running the automaton\<close>

definition lx_process_reg_ops :: "reg_op list \<Rightarrow> nat \<Rightarrow> lexer \<Rightarrow> lexer res" where
  "lx_process_reg_ops reg_ops curr_pos lx =
     rbind (lx_get_dfa lx) (\<lambda>d. rbind (dfa_process_reg_ops reg_ops curr_pos d)
       (\<lambda>d'. Inr (lx\<lparr>lx_dfa := Some d'\<rparr>)))"

definition lx_process_char :: "nat \<Rightarrow> nat \<Rightarrow> lexer \<Rightarrow> lexer res" where
  "lx_process_char next_char curr_pos lx =
     rbind (lx_deref lx (lx_state lx)) (\<lambda>s.
       case ds_get_transition next_char s of
         None \<Rightarrow> Inr (lx\<lparr>lx_state := None\<rparr>)
       | Some t \<Rightarrow>
           lx_process_reg_ops (dt_reg_ops t) curr_pos (lx\<lparr>lx_state := Some (dt_dest_state t)\<rparr>))"

text \<open>The variable token at hand, which takes the registers of the run with it.\<close>

definition lx_release_token :: "input_buffer \<Rightarrow> lexer \<Rightarrow> (token \<times> lexer) res" where
  "lx_release_token b lx =
     rbind (lx_get_dfa lx) (\<lambda>d.
       let (h, d') = release_reg_handler d
       in Inr (token_new (lx_start_pos lx) (lx_match_pos lx) (bf_active_storage (ib_storage b))
                 (ib_size b) (lx_match_line lx) (lx_type_ids lx) h,
               lx\<lparr>lx_dfa := Some d'\<rparr>))"

definition lx_set_last_match :: "lexer \<Rightarrow> lexer" where
  "lx_set_last_match lx =
     lx\<lparr>lx_first_delimiter_pos := None, lx_match := False, lx_last_match_pos := lx_match_pos lx,
       lx_last_match_line := lx_match_line lx\<rparr>"

section \<open>Scanning\<close>

text \<open>A part of the scanning loop either returns from \<^verbatim>\<open>scan\<close> or goes on.\<close>

datatype scan_outcome = ScanReturn error_code "token option" | ScanGoOn

type_synonym scan_result = "(scan_outcome \<times> lexer \<times> input_buffer) res"

definition lx_return_uncaught :: "nat \<Rightarrow> lexer \<Rightarrow> input_buffer \<Rightarrow> token" where
  "lx_return_uncaught end_pos lx b =
     lx_token b (lx_last_match_pos lx) end_pos (lx_last_match_line lx) (Some cTokenUncaughtStringTypes)"

text \<open>What happens before the loop: return the match that is prepared, or begin a new one.\<close>

definition scan_begin :: "lexer \<Rightarrow> input_buffer \<Rightarrow> scan_result" where
  "scan_begin lx b =
     (if lx_asked_for_more_data lx then Inr (ScanGoOn, lx\<lparr>lx_asked_for_more_data := False\<rparr>, b)
      else rbind (lx_root lx) (\<lambda>root.
        let lx0 = lx\<lparr>lx_state := Some root\<rparr>
        in if lx_match lx0
           then rbind (lx_release_token b (lx_set_last_match lx0)) (\<lambda>(t, lx').
                  Inr (ScanReturn Success (Some t), lx', b))
           else let b' = (case lx_first_delimiter_pos lx0 of
                         None \<Rightarrow> b
                       | Some pos \<Rightarrow> ib_set_pos (ib_set_log_fully_consumed b False) pos)
                in Inr (ScanGoOn,
                     lx0\<lparr>lx_start_pos := ib_pos b', lx_match_pos := ib_pos b',
                        lx_match_line := lx_line lx0, lx_type_ids := None,
                        lx_first_delimiter_pos := None\<rparr>, b')))"

text \<open>The steps of one round of the loop, after the next character has been fetched.\<close>

definition scan_note_delimiter :: "nat \<Rightarrow> nat \<Rightarrow> lexer \<Rightarrow> lexer" where
  "scan_note_delimiter next_char prev_pos lx =
     (if lx_first_delimiter_pos lx = None \<and> lx_is_delimiter lx next_char \<and> prev_pos \<noteq> lx_last_match_pos lx
      then lx\<lparr>lx_first_delimiter_pos := Some prev_pos\<rparr> else lx)"

definition scan_note_match :: "nat \<Rightarrow> nat \<Rightarrow> input_buffer \<Rightarrow> lexer \<Rightarrow> lexer res" where
  "scan_note_match next_char prev_pos b lx =
     (if lx_is_delimiter lx next_char \<or> ib_log_fully_consumed b \<or> \<not> lx_has_delimiters lx
      then rbind (lx_deref lx (lx_state lx)) (\<lambda>s.
        if ds_is_accepting s
        then rbind (lx_process_reg_ops (ds_accepting_ops s) prev_pos lx) (\<lambda>lx'.
          Inr (lx'\<lparr>lx_match := True, lx_type_ids := Some (ds_matching_variable_ids s),
                  lx_match_pos := prev_pos, lx_match_line := lx_line lx'\<rparr>))
        else Inr lx)
      else Inr lx)"

text \<open>The newline case; the flag says whether the round ends here.\<close>

definition scan_newline :: "nat \<Rightarrow> nat \<Rightarrow> input_buffer \<Rightarrow> lexer \<Rightarrow> (bool \<times> lexer) res" where
  "scan_newline next_char prev_pos b lx =
     (if next_char \<noteq> 10 then Inr (False, lx)
      else let lx1 = lx\<lparr>lx_line := u32 (lx_line lx + 1)\<rparr>
           in if (case lx_first_delimiter_pos lx1 of None \<Rightarrow> True | Some pos \<Rightarrow> prev_pos = pos) \<and>
                 lx_has_delimiters lx1 \<and> \<not> lx_match lx1
              then rbind (lx_root lx1) (\<lambda>root.
                rbind (lx_process_char next_char prev_pos (lx1\<lparr>lx_state := Some root\<rparr>)) (\<lambda>lx2.
                  rbind (lx_deref lx2 (lx_state lx2)) (\<lambda>s.
                    Inr (True, lx2\<lparr>lx_match := True, lx_type_ids := Some (ds_matching_variable_ids s),
                       lx_start_pos := prev_pos, lx_match_pos := ib_pos b,
                       lx_match_line := lx_line lx2\<rparr>))))
              else Inr (False, lx1))"

text \<open>Skipping to the next delimiter that can start a variable.\<close>

partial_function (option) scan_skip ::
  "nat \<Rightarrow> nat \<Rightarrow> lexer \<Rightarrow> input_buffer \<Rightarrow> scan_result option" where
  "scan_skip prev_pos next_char lx b =
     (if \<not> ib_log_fully_consumed b \<and>
         (\<not> lx_is_first_char_of_a_variable lx next_char \<or> \<not> lx_is_delimiter lx next_char)
      then (case ib_get_next_character b next_char of
              Inl e \<Rightarrow> Some (Inl e)
            | Inr (err, next_char', b') \<Rightarrow>
                if err \<noteq> Success
                then Some (Inr (ScanReturn err None, lx\<lparr>lx_asked_for_more_data := True\<rparr>, b'))
                else scan_skip (ib_pos b) next_char' lx b')
      else Some (Inr (ScanGoOn, lx\<lparr>lx_start_pos := prev_pos\<rparr>, ib_set_pos b prev_pos)))"

text \<open>The decision once the run is stuck or the log is at its end.\<close>

definition scan_matched :: "lexer \<Rightarrow> input_buffer \<Rightarrow> scan_result" where
  "scan_matched lx b =
     (let b' = ib_set_pos (ib_set_log_fully_consumed b False) (lx_match_pos lx);
          lx1 = lx\<lparr>lx_line := lx_match_line lx\<rparr>
      in if lx_last_match_pos lx1 \<noteq> lx_start_pos lx1
         then Inr (ScanReturn Success (Some (lx_return_uncaught (lx_start_pos lx1) lx1 b')), lx1, b')
         else rbind (lx_release_token b' (lx_set_last_match lx1)) (\<lambda>(t, lx').
                Inr (ScanReturn Success (Some t), lx', b')))"

definition scan_at_end :: "lexer \<Rightarrow> input_buffer \<Rightarrow> scan_outcome \<times> lexer" where
  "scan_at_end lx b =
     (if lx_last_match_pos lx \<noteq> lx_start_pos lx
      then (case lx_first_delimiter_pos lx of
              Some pos \<Rightarrow> (ScanReturn Success (Some (lx_return_uncaught pos lx b)),
                          lx\<lparr>lx_last_match_pos := pos\<rparr>)
            | None \<Rightarrow> (ScanReturn Success (Some (lx_return_uncaught (lx_start_pos lx) lx b)),
                lx\<lparr>lx_match_pos := ib_pos b, lx_type_ids := Some cTokenEndTypes, lx_match := True\<rparr>))
      else (ScanReturn Success (Some (lx_token b (ib_pos b) (ib_pos b) (lx_line lx) (Some cTokenEndTypes))), lx))"

definition scan_decide :: "nat \<Rightarrow> nat \<Rightarrow> lexer \<Rightarrow> input_buffer \<Rightarrow> scan_result option" where
  "scan_decide prev_pos next_char lx b =
     (if lx_match lx then Some (scan_matched lx b)
      else if ib_log_fully_consumed b \<and> ib_pos b = lx_start_pos lx
      then (let (r, lx') = scan_at_end lx b in Some (Inr (r, lx', b)))
      else case lx_first_delimiter_pos lx of
             Some pos \<Rightarrow> Some (Inr (ScanReturn Success (Some (lx_return_uncaught pos lx b)),
                          lx\<lparr>lx_last_match_pos := pos\<rparr>, b))
           | None \<Rightarrow>
               (case lx_root lx of
                  Inl e \<Rightarrow> Some (Inl e)
                | Inr root \<Rightarrow> scan_skip prev_pos next_char (lx\<lparr>lx_state := Some root\<rparr>) b))"

definition scan_round :: "lexer \<Rightarrow> input_buffer \<Rightarrow> scan_result option" where
  "scan_round lx b =
     (case ib_get_next_character b cCharErr of
        Inl e \<Rightarrow> Some (Inl e)
      | Inr (err, next_char, b1) \<Rightarrow>
          if err \<noteq> Success
          then Some (Inr (ScanReturn err None, lx\<lparr>lx_asked_for_more_data := True\<rparr>, b1))
          else
            (let prev_pos = ib_pos b; lx1 = scan_note_delimiter next_char prev_pos lx
             in case rbind (scan_note_match next_char prev_pos b1 lx1) (\<lambda>lx2.
                       rbind (lx_process_char next_char prev_pos lx2) (scan_newline next_char prev_pos b1)) of
                  Inl e \<Rightarrow> Some (Inl e)
                | Inr (continued, lx3) \<Rightarrow>
                    if \<not> continued \<and> (ib_log_fully_consumed b1 \<or> lx_state lx3 = None)
                    then scan_decide prev_pos next_char lx3 b1
                    else Some (Inr (ScanGoOn, lx3, b1))))"

partial_function (option) scan_loop ::
  "lexer \<Rightarrow> input_buffer \<Rightarrow> ((error_code \<times> token option) \<times> lexer \<times> input_buffer) res option" where
  "scan_loop lx b =
     (case scan_round lx b of
        None \<Rightarrow> None
      | Some (Inl e) \<Rightarrow> Some (Inl e)
      | Some (Inr (r, lx', b')) \<Rightarrow>
          (case r of
             ScanReturn err t \<Rightarrow> Some (Inr ((err, t), lx', b'))
           | ScanGoOn \<Rightarrow> scan_loop lx' b'))"

definition lx_scan ::
  "lexer \<Rightarrow> input_buffer \<Rightarrow> ((error_code \<times> token option) \<times> lexer \<times> input_buffer) res option" where
  "lx_scan lx b =
     (case scan_begin lx b of
        Inl e \<Rightarrow> Some (Inl e)
      | Inr (ScanReturn err t, lx', b') \<Rightarrow> Some (Inr ((err, t), lx', b'))
      | Inr (ScanGoOn, lx', b') \<Rightarrow> scan_loop lx' b')"

section \<open>Scanning a query\<close>

text \<open>
  \<^verbatim>\<open>scan_with_wildcard\<close> keeps the current state in a local variable and returns the
  token through a reference argument.
\<close>

type_synonym wildcard_result = "(error_code \<times> token \<times> lexer \<times> input_buffer) res"

text \<open>\<open>?\<close>: every byte leads to an accepting state.\<close>

fun question_mark_loop :: "dfa \<Rightarrow> nat \<Rightarrow> nat list \<Rightarrow> bool res" where
  "question_mark_loop d q [] = Inr True"
| "question_mark_loop d q (byte # bytes) =
     (case ds_get_transition byte (df_states d ! q) of
        None \<Rightarrow> Inl UndefinedBehavior
      | Some t \<Rightarrow>
          if ds_is_accepting (df_states d ! dt_dest_state t) then question_mark_loop d q bytes
          else Inr False)"

text \<open>\<open>*\<close>: every state that can be reached without a delimiter accepts; the stack holds null for a
  missing transition.\<close>

definition star_pushed :: "dfa \<Rightarrow> (nat \<Rightarrow> bool) \<Rightarrow> nat list \<Rightarrow> nat \<Rightarrow> nat option list" where
  "star_pushed d delimiter visited q =
     concat (map (\<lambda>byte.
         if delimiter byte then []
         else case ds_get_transition byte (df_states d ! q) of
                None \<Rightarrow> [None]
              | Some t \<Rightarrow> if dt_dest_state t \<in> set visited then [] else [Some (dt_dest_state t)])
       [0..<cSizeOfByte])"

partial_function (option) star_loop ::
  "dfa \<Rightarrow> (nat \<Rightarrow> bool) \<Rightarrow> nat option list \<Rightarrow> nat list \<Rightarrow> bool option" where
  "star_loop d delimiter unvisited visited =
     (case unvisited of
        [] \<Rightarrow> Some True
      | None # rest \<Rightarrow> Some False
      | Some q # rest \<Rightarrow>
          if \<not> ds_is_accepting (df_states d ! q) then Some False
          else star_loop d delimiter (rev (star_pushed d delimiter (List.insert q visited) q) @ rest)
                 (List.insert q visited))"

definition wildcard_keeps_match :: "lexer \<Rightarrow> char \<Rightarrow> nat \<Rightarrow> bool res option" where
  "wildcard_keeps_match lx wildcard q =
     (case lx_get_dfa lx of
        Inl e \<Rightarrow> Some (Inl e)
      | Inr d \<Rightarrow>
          if wildcard = CHR ''?'' then Some (question_mark_loop d q [0..<cSizeOfByte])
          else if wildcard = CHR ''*'' then map_option Inr (star_loop d (lx_is_delimiter lx) [Some q] [])
          else Some (Inr True))"

definition wildcard_at_end :: "lexer \<Rightarrow> input_buffer \<Rightarrow> char \<Rightarrow> nat \<Rightarrow> wildcard_result option" where
  "wildcard_at_end lx b wildcard q =
     (if \<not> ib_log_fully_consumed b then Some (Inl AssertFailed)
      else if \<not> lx_match lx \<or> lx_match_pos lx \<noteq> ib_pos b
      then Some (Inr (Success, lx_return_uncaught (ib_pos b) lx b, lx, b))
      else cbind (wildcard_keeps_match lx wildcard q) (\<lambda>keeps.
        if \<not> keeps then Some (Inr (Success, lx_return_uncaught (ib_pos b) lx b, lx, b))
        else let lx' = lx\<lparr>lx_line := lx_match_line lx, lx_match := False,
                         lx_last_match_pos := lx_match_pos lx, lx_last_match_line := lx_match_line lx\<rparr>;
                 b' = ib_set_pos b (lx_match_pos lx)
             in Some (Inr (Success,
                  lx_token b' (lx_start_pos lx') (lx_match_pos lx') (lx_match_line lx') (lx_type_ids lx'),
                  lx', b'))))"

text \<open>One round: either the result, or the next state.\<close>

definition wildcard_newline :: "nat \<Rightarrow> nat \<Rightarrow> input_buffer \<Rightarrow> lexer \<Rightarrow> lexer res" where
  "wildcard_newline next_char prev_pos b lx =
     (if next_char \<noteq> 10 then Inr lx
      else let lx1 = lx\<lparr>lx_line := u32 (lx_line lx + 1)\<rparr>
           in if lx_has_delimiters lx1 \<and> \<not> lx_match lx1
              then rbind (lx_root lx1) (\<lambda>root. rbind (lx_deref lx1 (Some root)) (\<lambda>s.
                case ds_get_transition next_char s of
                  None \<Rightarrow> Inl UndefinedBehavior
                | Some t \<Rightarrow> rbind (lx_deref lx1 (Some (dt_dest_state t))) (\<lambda>dest_state.
                    Inr (lx1\<lparr>lx_match := True, lx_type_ids := Some (ds_matching_variable_ids dest_state),
                       lx_start_pos := prev_pos, lx_match_pos := ib_pos b,
                       lx_match_line := lx_line lx1\<rparr>))))
              else Inr lx1)"

definition wildcard_note_match :: "nat \<Rightarrow> nat \<Rightarrow> input_buffer \<Rightarrow> dfa_state \<Rightarrow> lexer \<Rightarrow> lexer" where
  "wildcard_note_match next_char prev_pos b s lx =
     (if (lx_is_delimiter lx next_char \<or> ib_log_fully_consumed b \<or> \<not> lx_has_delimiters lx) \<and>
         ds_is_accepting s
      then lx\<lparr>lx_match := True, lx_type_ids := Some (ds_matching_variable_ids s),
             lx_match_pos := prev_pos, lx_match_line := lx_line lx\<rparr>
      else lx)"

partial_function (option) wildcard_loop ::
  "lexer \<Rightarrow> input_buffer \<Rightarrow> char \<Rightarrow> token \<Rightarrow> nat option \<Rightarrow> wildcard_result option" where
  "wildcard_loop lx b wildcard t state =
     (case ib_get_next_character b cCharErr of
        Inl e \<Rightarrow> Some (Inl e)
      | Inr (err, next_char, b1) \<Rightarrow>
          if err \<noteq> Success
          then Some (Inr (err, t, lx\<lparr>lx_asked_for_more_data := True, lx_prev_state := state\<rparr>, b1))
          else
            (case lx_deref lx state of
               Inl e \<Rightarrow> Some (Inl e)
             | Inr s \<Rightarrow>
                 (case wildcard_newline next_char (ib_pos b) b1
                         (wildcard_note_match next_char (ib_pos b) b1 s lx) of
                    Inl e \<Rightarrow> Some (Inl e)
                  | Inr lx2 \<Rightarrow>
                      (case ds_get_transition next_char s of
                         None \<Rightarrow> wildcard_at_end lx2 b1 wildcard (the state)
                       | Some tr \<Rightarrow>
                           if ib_log_fully_consumed b1 then wildcard_at_end lx2 b1 wildcard (the state)
                           else wildcard_loop lx2 b1 wildcard t (Some (dt_dest_state tr))))))"

definition lx_scan_with_wildcard ::
  "lexer \<Rightarrow> input_buffer \<Rightarrow> char \<Rightarrow> token \<Rightarrow> wildcard_result option" where
  "lx_scan_with_wildcard lx b wildcard t =
     (case lx_root lx of
        Inl e \<Rightarrow> Some (Inl e)
      | Inr root \<Rightarrow>
          if lx_asked_for_more_data lx
          then wildcard_loop (lx\<lparr>lx_asked_for_more_data := False\<rparr>) b wildcard t (lx_prev_state lx)
          else if lx_match lx
          then Some (Inr (Success,
                 lx_token b (lx_start_pos lx) (lx_match_pos lx) (lx_match_line lx) (lx_type_ids lx),
                 lx\<lparr>lx_match := False, lx_last_match_pos := lx_match_pos lx,
                   lx_last_match_line := lx_match_line lx\<rparr>, b))
          else wildcard_loop
                 (lx\<lparr>lx_start_pos := ib_pos b, lx_match_pos := ib_pos b, lx_match_line := lx_line lx,
                    lx_type_ids := None\<rparr>) b wildcard t (Some root))"

section \<open>Captures\<close>

definition lx_get_captures_from_rule_id :: "lexer \<Rightarrow> nat \<Rightarrow> capture list option" where
  "lx_get_captures_from_rule_id lx rule_id = lx_rule_id_to_capture lx rule_id"

definition lx_get_tag_id_pair_from_capture :: "lexer \<Rightarrow> capture \<Rightarrow> (nat \<times> nat) option" where
  "lx_get_tag_id_pair_from_capture lx c = lx_capture_to_tag_id_pair lx (cap_addr c)"

definition lx_get_reg_id_from_tag_id :: "lexer \<Rightarrow> nat \<Rightarrow> nat option res" where
  "lx_get_reg_id_from_tag_id lx tag_id =
     rbind (lx_get_dfa lx) (\<lambda>d. Inr (smap_find (<) tag_id (df_tag_id_to_final_reg_id d)))"

definition lx_get_reg_ids_from_capture :: "lexer \<Rightarrow> capture \<Rightarrow> (nat \<times> nat) res" where
  "lx_get_reg_ids_from_capture lx c =
     (case lx_get_tag_id_pair_from_capture lx c of
        None \<Rightarrow> Inl RuntimeError
      | Some (start_tag_id, end_tag_id) \<Rightarrow>
          rbind (lx_get_reg_id_from_tag_id lx start_tag_id) (\<lambda>start_reg.
            case start_reg of
              None \<Rightarrow> Inl RuntimeError
            | Some start_reg_id \<Rightarrow>
                rbind (lx_get_reg_id_from_tag_id lx end_tag_id) (\<lambda>end_reg.
                  case end_reg of
                    None \<Rightarrow> Inl RuntimeError
                  | Some end_reg_id \<Rightarrow> Inr (start_reg_id, end_reg_id))))"

end
