(* ===== verification/Dfa_Quiet.thy ===== *)
theory Dfa_Quiet
  imports Dfa_Correct
begin

text \<open>
  Determinizing an NFA without tags gives an automaton without register operations: no
  transition and no accepting state changes a register.
\<close>

definition dfa_quiet :: "dfa \<Rightarrow> bool" where
  "dfa_quiet d \<longleftrightarrow> (\<forall>s \<in> set (df_states d). ds_accepting_ops s = [] \<and>
     (\<forall>i t. ds_get_transition i s = Some t \<longrightarrow> dt_reg_ops t = []))"

text \<open>Configurations have no registers, so mappings between sets of them are empty.\<close>

lemma untagged_regs: "untagged n \<Longrightarrow> config_valid n c \<Longrightarrow> dc_tag_id_to_reg_ids c = []"
  by (simp add: config_valid_def untagged_def)

lemma map_configs_no_regs:
  "\<forall>c \<in> set lhs. dc_tag_id_to_reg_ids c = [] \<Longrightarrow> map_configs lhs rhs maps = Inr (Some maps') \<Longrightarrow> maps' = maps"
  by (induction lhs rhs maps rule: map_configs.induct) (auto split: option.splits)

lemma find_mapping_no_regs:
  assumes "\<forall>c \<in> set S. dc_tag_id_to_reg_ids c = []"
  shows "find_mapping S M = Inr (Some (q, reg_map)) \<Longrightarrow> reg_map = []"
proof (induction M)
  case (Cons e M)
  obtain T p where e: "e = (T, p)" by (cases e)
  have "try_get_mapping S T = Inr (Some m) \<Longrightarrow> m = []" for m
    using map_configs_no_regs [OF assms] by (fastforce simp: try_get_mapping_def split: if_splits)
  with Cons e show ?case by (auto split: option.splits)
qed simp

lemma assign_no_tags:
  "assign_transition_reg_ops n 0 closure st acc = (st', acc') \<Longrightarrow> st' = st"
  by (induction closure arbitrary: acc) auto

lemma merge_no_ops:
  assumes "\<forall>(i, ops, D) \<in> set m. ops = []"
  shows "\<forall>(i, ops, D) \<in> set (merge_transition n i [] closure m). ops = []"
proof (cases "smap_find (<) i m")
  case None
  with assms num.insert_map_set [of i "([], closure)" m] show ?thesis
    by (auto simp: merge_transition_def)
next
  case (Some e)
  obtain ops D where e: "e = (ops, D)" by (cases e)
  with Some num.find_mem [of i m "(ops, D)"] assms have "ops = []" by auto
  with assms e Some num.assign_map_set [of i "([], sset_insert_all (config_less n) closure D)" m] show ?thesis
    by (fastforce simp: merge_transition_def)
qed

lemma transitions_no_ops:
  "transitions_loop n 0 ts h tags m = Some (h', tags', m') \<Longrightarrow> \<forall>(i, ops, D) \<in> set m. ops = [] \<Longrightarrow>
     \<forall>(i, ops, D) \<in> set m'. ops = []"
proof (induction ts arbitrary: h tags m)
  case (Cons e ts)
  obtain c i s where e: "e = (c, i, s)" by (cases e) auto
  from Cons.prems(1) e obtain D where D: "spontaneous_closure n \<lparr>dc_nfa_state = s,
      dc_tag_id_to_reg_ids = dc_tag_id_to_reg_ids c, dc_history = dc_lookahead c, dc_lookahead = []\<rparr> = Some D"
    by (auto split: option.splits)
  obtain D' where a: "assign_transition_reg_ops n 0 D (h, tags, []) [] = ((h, tags, []), D')"
    using assign_no_tags by (metis prod.collapse)
  from Cons.prems(1) e D a
  have "transitions_loop n 0 ts h tags (merge_transition n i [] D' m) = Some (h', tags', m')" by simp
  from Cons.IH [OF this merge_no_ops [OF Cons.prems(2)]] show ?case .
qed auto

text \<open>The state of the determinization without registers.\<close>

definition quiet_inv :: "nfa \<Rightarrow> det_state \<Rightarrow> bool" where
  "quiet_inv n = (\<lambda>(d, M, Q). dfa_quiet d \<and> df_tag_id_to_final_reg_id d = [] \<and>
     (\<forall>S \<in> set Q. set_valid n S))"

lemma add_config_quiet:
  "dfa_state_add_config n [] c s = Inr s' \<Longrightarrow>
     ds_accepting_ops s' = ds_accepting_ops s \<and> ds_bytes_transition s' = ds_bytes_transition s"
  by (auto simp: dfa_state_add_config_def Let_def ds_add_matching_variable_id_def split: if_splits)

lemma new_state_quiet:
  assumes "dfa_new_state n S [] d = Inr (q, d')" "dfa_quiet d"
  shows "dfa_quiet d' \<and> df_tag_id_to_final_reg_id d' = df_tag_id_to_final_reg_id d"
proof -
  from assms(1) obtain s where s: "rfold (dfa_state_add_config n []) S ds_new = Inr s"
    "d' = d\<lparr>df_states := df_states d @ [s]\<rparr>" by (auto simp: dfa_new_state_def)
  have "ds_accepting_ops s = [] \<and> ds_bytes_transition s = (\<lambda>_. None)"
    by (rule rfold_invariant [OF s(1)]) (auto simp: ds_new_def dest: add_config_quiet)
  with s(2) assms(2) show ?thesis by (auto simp: dfa_quiet_def ds_get_transition_def)
qed

lemma create_or_get_quiet:
  assumes "create_or_get_dfa_state n S st = Inr ((q, reg_map), st')" "quiet_inv n st" "set_valid n S" "untagged n"
  shows "quiet_inv n st' \<and> (reg_map = None \<or> reg_map = Some [])"
proof -
  obtain d M Q where st: "st = (d, M, Q)" by (cases st) auto
  have S: "\<forall>c \<in> set S. dc_tag_id_to_reg_ids c = []"
    using assms(3,4) untagged_regs by (auto simp: set_valid_def)
  have fin: "df_tag_id_to_final_reg_id d = []" using assms(2) st by (simp add: quiet_inv_def)
  from assms(1-3) show ?thesis unfolding st
    by (auto simp: create_or_get_dfa_state_def quiet_inv_def fin
        dest: find_mapping_no_regs [OF S] new_state_quiet split: option.splits)
qed

lemma add_byte_quiet:
  assumes "dfa_quiet d" "dt_reg_ops t = []"
  shows "dfa_quiet (dfa_add_byte_transition q i t d)"
proof -
  have "set ((df_states d)[q := s]) \<subseteq> insert s (set (df_states d))" for s by (rule set_update_subset_insert)
  moreover have "q < length (df_states d) \<Longrightarrow> df_states d ! q \<in> set (df_states d)" by simp
  moreover have "\<not> q < length (df_states d) \<Longrightarrow> (df_states d)[q := s] = df_states d" for s
    by (simp add: list_update_beyond)
  ultimately show ?thesis using assms
    by (cases "q < length (df_states d)")
      (fastforce simp: dfa_quiet_def dfa_add_byte_transition_def ds_add_byte_transition_def
        ds_get_transition_def split: if_splits)+
qed

lemma add_transition_quiet:
  assumes "add_dfa_transition n ord q0 (i, ops, D) st = Inr st'" "quiet_inv n st" "set_valid n D" "untagged n"
    and "ops = []" "ord [] = []"
  shows "quiet_inv n st'"
proof -
  from assms(1) obtain q reg_map d1 M1 Q1 where
    c: "create_or_get_dfa_state n D st = Inr ((q, reg_map), d1, M1, Q1)"
    and st': "st' = (dfa_add_byte_transition q0 i \<lparr>dt_reg_ops = (case reg_map of None \<Rightarrow> ops
        | Some reg_map \<Rightarrow> reassign_transition_reg_ops ord reg_map ops), dt_dest_state = q\<rparr> d1, M1, Q1)"
    by (auto simp: add_dfa_transition_def Let_def)
  from create_or_get_quiet [OF c assms(2-4)] have "quiet_inv n (d1, M1, Q1)" "reg_map = None \<or> reg_map = Some []"
    by auto
  then show ?thesis unfolding st' using assms(5,6)
    by (auto simp: quiet_inv_def reassign_transition_reg_ops_def intro!: add_byte_quiet)
      (simp_all add: dfa_add_byte_transition_def)
qed

lemma generate_loop_quiet:
  assumes "generate_loop n ord st = Some r" "nfa_small n" "untagged n" "ord [] = []" "quiet_inv n st"
  shows "\<forall>d. r = Inr d \<longrightarrow> dfa_quiet d"
proof -
  have "nfa_small n \<and> untagged n \<and> ord [] = [] \<and> quiet_inv n st \<longrightarrow> (\<forall>d. r = Inr d \<longrightarrow> dfa_quiet d)"
  proof (rule generate_loop.raw_induct [OF _ assms(1), where P = "\<lambda>n ord st r.
        nfa_small n \<and> untagged n \<and> ord [] = [] \<and> quiet_inv n st \<longrightarrow> (\<forall>d. r = Inr d \<longrightarrow> dfa_quiet d)"])
    fix loop n ord st r
    assume IH: "\<And>n ord st r. loop n ord st = Some r \<Longrightarrow>
        nfa_small n \<and> untagged n \<and> ord [] = [] \<and> quiet_inv n st \<longrightarrow> (\<forall>d. r = Inr d \<longrightarrow> dfa_quiet d)"
      and run: "(case st of (d, dfa_states, unexplored_sets) \<Rightarrow>
       case unexplored_sets of
         [] \<Rightarrow> Some (Inr d)
       | config_set # rest \<Rightarrow>
           (case smap_at (lex_less (config_less n)) config_set dfa_states of
              Inl e \<Rightarrow> Some (Inl e)
            | Inr dfa_state \<Rightarrow>
                (case get_transitions n (nf_tag_id_generator n) config_set (df_reg_handler d) of
                   None \<Rightarrow> None
                 | Some (h, transitions) \<Rightarrow>
                     (case rfold (add_dfa_transition n ord dfa_state) transitions
                             (d\<lparr>df_reg_handler := h\<rparr>, dfa_states, rest) of
                        Inl e \<Rightarrow> Some (Inl e)
                      | Inr st' \<Rightarrow> loop n ord st')))) = Some r"
    show "nfa_small n \<and> untagged n \<and> ord [] = [] \<and> quiet_inv n st \<longrightarrow> (\<forall>d. r = Inr d \<longrightarrow> dfa_quiet d)"
    proof (intro impI)
      assume n: "nfa_small n \<and> untagged n \<and> ord [] = [] \<and> quiet_inv n st"
      obtain d M Q where st: "st = (d, M, Q)" by (cases st) auto
      show "\<forall>d. r = Inr d \<longrightarrow> dfa_quiet d"
      proof (cases Q)
        case Nil
        with run n st show ?thesis by (auto simp: quiet_inv_def)
      next
        case (Cons S rest)
        have S: "set_valid n S" using n st Cons by (simp add: quiet_inv_def)
        show ?thesis
        proof (cases r)
          case (Inr d2)
          with run st Cons obtain q h m st' where
            q: "get_transitions n (nf_tag_id_generator n) S (df_reg_handler d) = Some (h, m)"
              "rfold (add_dfa_transition n ord q) m (d\<lparr>df_reg_handler := h\<rparr>, M, rest) = Inr st'"
              "loop n ord st' = Some r"
            by (auto split: sum.splits option.splits)
          have "transitions_ok n m" using get_transitions_ok [OF _ S q(1)] n by blast
          moreover have "\<forall>(i, ops, D) \<in> set m. ops = []"
            using q(1) n transitions_no_ops [of n "transition_triples n S" "df_reg_handler d" "[]" "[]"]
            by (fastforce simp: get_transitions_def untagged_def)
          ultimately have m: "set_valid n D \<and> ops = []" if "(i, ops, D) \<in> set m" for i ops D
            using that by (auto simp: transitions_ok_def)
          have "quiet_inv n st'"
          proof (rule rfold_invariant [OF q(2)])
            show "quiet_inv n (d\<lparr>df_reg_handler := h\<rparr>, M, rest)"
              using n st Cons by (simp add: quiet_inv_def dfa_quiet_def)
            fix e s s'
            assume e: "e \<in> set m" "quiet_inv n s" "add_dfa_transition n ord q e s = Inr s'"
            obtain i ops D where "e = (i, ops, D)" by (cases e) auto
            with e m [of i ops D] n add_transition_quiet [of n ord q i ops D s s'] show "quiet_inv n s'" by auto
          qed
          with IH [OF q(3)] n show ?thesis by blast
        qed simp
      qed
    qed
  qed
  with assms show ?thesis by blast
qed

lemma untagged_quiet:
  assumes n: "nfa_small n" "untagged n" and ord: "ord [] = []" and d: "dfa_generate ord n = Some (Inr d)"
  shows "dfa_quiet d"
proof -
  obtain h initial final where
    init: "initialize_registers (nf_tag_id_generator n) rh_new = (h, initial, final)"
    by (cases "initialize_registers (nf_tag_id_generator n) rh_new") auto
  then have empty: "initial = []" "final = []" using n(2) by (simp_all add: initialize_registers_def untagged_def)
  let ?c = "\<lparr>dc_nfa_state = nf_root n, dc_tag_id_to_reg_ids = initial, dc_history = [], dc_lookahead = []\<rparr>"
  let ?d = "dfa_empty\<lparr>df_reg_handler := h, df_tag_id_to_final_reg_id := final\<rparr>"
  from d init obtain S where S: "spontaneous_closure n ?c = Some S"
    by (auto simp: dfa_generate_def Let_def split: option.splits)
  from d init S obtain q reg_map st r where
    c: "create_or_get_dfa_state n S (?d, [], []) = Inr ((q, reg_map), st)"
    and r: "generate_loop n ord st = Some r"
      "rbind r (\<lambda>d. Inr (d\<lparr>df_num_regs := rh_get_num_regs (df_reg_handler d)\<rparr>)) = Inr d"
    by (auto simp: dfa_generate_def Let_def split: sum.splits)
  have "config_valid n ?c"
    using n empty by (auto simp: config_valid_def config_ok_def nfa_small_def nfa_wf_def untagged_def)
  from closure_valid(1) [OF n(1) this S] have "set_valid n S" .
  with create_or_get_quiet [OF c _ _ n(2)] empty have "quiet_inv n st"
    by (simp add: quiet_inv_def dfa_quiet_def dfa_empty_def)
  from generate_loop_quiet [OF r(1) n ord this] r(2) show ?thesis by (auto simp: dfa_quiet_def)
qed

end
