(* ===== verification/Lexer_Correct.thy ===== *)
theory Lexer_Correct
  imports Lexer Dfa_Quiet
begin

text \<open>
  What the lexer returns: each call of \<^verbatim>\<open>scan\<close> on a text that is wholly in the
  buffer ends with the next token, the tokens cover the text without gap or overlap, a variable
  token is a longest run of the automaton, and text is left uncaught only where no variable
  starts. The lemmas speak of an automaton without register operations, which is what rules
  without captures give.
\<close>

section \<open>The interface to the buffer\<close>

text \<open>
  A buffer that holds a text, as the lexer uses it: a position, and the flag that the end has been
  noticed. \<open>fits\<close> says which texts the buffer can hold.
\<close>

locale text_source =
  fixes buf :: "string \<Rightarrow> nat \<Rightarrow> bool \<Rightarrow> input_buffer"
    and fits :: "string \<Rightarrow> bool"
  assumes fetch_char: "fits w \<Longrightarrow> p < length w \<Longrightarrow>
      ib_get_next_character (buf w p f) x = Inr (Success, of_char (w ! p), buf w (Suc p) f)"
    and fetch_end: "fits w \<Longrightarrow>
      ib_get_next_character (buf w (length w) f) x = Inr (Success, cCharEOF, buf w (length w) True)"
    and set_pos [simp]: "ib_set_pos (buf w p f) q = buf w q f"
    and set_consumed [simp]: "ib_set_log_fully_consumed (buf w p f) g = buf w p g"
    and pos [simp]: "ib_pos (buf w p f) = p"
    and consumed [simp]: "ib_log_fully_consumed (buf w p f) = f"
    and slice: "fits w \<Longrightarrow> s + k \<le> length w \<Longrightarrow>
      st_slice (bf_active (ib_storage (buf w p f))) s k = Inr (take k (drop s w))"
    and room: "fits w \<Longrightarrow> length w \<le> ib_size (buf w p f)"
    and same_storage: "bf_active_storage (ib_storage (buf w p f)) = bf_active_storage (ib_storage (buf w 0 False))"

text \<open>The buffer that \<^verbatim>\<open>set_storage\<close> makes of a text given by the user.\<close>

definition text_storage :: "string \<Rightarrow> char storage" where
  "text_storage w = \<lparr>st_size = length w, st_cell = \<lambda>i. w ! i\<rparr>"

definition given_buffer :: "input_buffer \<Rightarrow> string \<Rightarrow> nat \<Rightarrow> bool \<Rightarrow> input_buffer" where
  "given_buffer b w p f =
     ib_set_log_fully_consumed (ib_set_storage b (text_storage w) (length w) p True) f"

definition small_text :: "string \<Rightarrow> bool" where
  "small_text w \<longleftrightarrow> length w < 2 ^ 31"

interpretation given: text_source "given_buffer b" small_text for b
proof unfold_locales
  fix w :: string and p x f
  assume w: "small_text w"
  then have size2: "u32 (length w * 2) = length w * 2" by (simp add: small_text_def)
  note defs = given_buffer_def ib_set_storage_def ib_set_log_fully_consumed_def Let_def
    bf_set_active_buffer_def ib_get_next_character_def bf_get_curr_value_def bf_get_value_def
    bf_active_def bf_storage_def st_get_def text_storage_def bf_increment_pos_def bf_set_pos_def
  show "ib_get_next_character (given_buffer b w p f) x =
      Inr (Success, of_char (w ! p), given_buffer b w (Suc p) f)" if "p < length w"
  proof -
    have "u32 (Suc p) = Suc p" using that w by (simp add: small_text_def)
    with that size2 show ?thesis by (simp add: defs)
  qed
  show "ib_get_next_character (given_buffer b w (length w) f) x =
      Inr (Success, cCharEOF, given_buffer b w (length w) True)"
    by (simp add: defs)
  show "st_slice (bf_active (ib_storage (given_buffer b w p f))) s k = Inr (take k (drop s w))"
    if "s + k \<le> length w" for s k
    using that by (auto simp: defs st_slice_def intro!: nth_equalityI)
  show "length w \<le> ib_size (given_buffer b w p f)" using size2 by (simp add: defs)
qed (simp_all add: given_buffer_def ib_set_storage_def ib_set_log_fully_consumed_def Let_def
    bf_set_active_buffer_def ib_set_pos_def bf_set_pos_def)

section \<open>Runs over a text\<close>

definition bytes_between :: "string \<Rightarrow> nat \<Rightarrow> nat \<Rightarrow> nat list" where
  "bytes_between w s e = map of_char (take (e - s) (drop s w))"

lemma bytes_between_empty [simp]: "bytes_between w s s = []"
  by (simp add: bytes_between_def)

lemma bytes_between_Suc:
  "s \<le> e \<Longrightarrow> e < length w \<Longrightarrow> bytes_between w s (Suc e) = bytes_between w s e @ [of_char (w ! e)]"
  by (simp add: bytes_between_def Suc_diff_le take_Suc_conv_app_nth)

lemma dfa_run_append: "dfa_run d q (u @ v) = Option.bind (dfa_run d q u) (\<lambda>q'. dfa_run d q' v)"
  by (induction d q u rule: dfa_run.induct) (auto split: option.split)

lemma of_char_byte [simp]: "(of_char (c :: char) :: nat) < cSizeOfByte"
  using range_nat_of_char by (auto simp: cSizeOfByte_def)

lemma dfa_run_step:
  assumes "s \<le> e" "e < length w"
  shows "dfa_run d q (bytes_between w s (Suc e)) =
    Option.bind (dfa_run d q (bytes_between w s e)) (\<lambda>q'.
      map_option dt_dest_state (ds_get_transition (of_char (w ! e)) (df_states d ! q')))"
  using assms by (auto simp: bytes_between_Suc dfa_run_append split: option.split bind_split)

lemma dfa_run_states: "dfa_wf d \<Longrightarrow> q < length (df_states d) \<Longrightarrow> dfa_run d q u = Some q' \<Longrightarrow> q' < length (df_states d)"
  by (induction d q u rule: dfa_run.induct) (auto simp: dfa_wf_def split: option.splits if_splits)

lemma dfa_run_stuck:
  assumes "dfa_run d q (bytes_between w s p) = None" "s \<le> p" "p \<le> e"
  shows "dfa_run d q (bytes_between w s e) = None"
proof -
  have "take ((p - s) + (e - p)) (drop s w) = take (p - s) (drop s w) @ take (e - p) (drop (p - s) (drop s w))"
    by (rule take_add)
  moreover have "(p - s) + (e - p) = e - s" "drop (p - s) (drop s w) = drop p w"
    using assms(2,3) by (simp_all add: drop_drop)
  ultimately have "bytes_between w s e = bytes_between w s p @ bytes_between w p e"
    by (simp add: bytes_between_def flip: map_append)
  with assms(1) show ?thesis by (simp add: dfa_run_append)
qed

text \<open>A position where a variable may end: before a delimiter, or at the end of the text.\<close>

definition ends_at :: "(nat \<Rightarrow> bool) \<Rightarrow> string \<Rightarrow> nat \<Rightarrow> bool" where
  "ends_at delim w e \<longleftrightarrow> e = length w \<or> e < length w \<and> delim (of_char (w ! e))"

definition good_end :: "dfa \<Rightarrow> (nat \<Rightarrow> bool) \<Rightarrow> string \<Rightarrow> nat \<Rightarrow> nat \<Rightarrow> nat \<Rightarrow> bool" where
  "good_end d delim w q s e \<longleftrightarrow> s \<le> e \<and> ends_at delim w e \<and>
     (\<exists>q'. dfa_run d q (bytes_between w s e) = Some q' \<and> ds_is_accepting (df_states d ! q'))"

text \<open>
  A variable token from \<open>s\<close> to \<open>m\<close>: the run from the state \<open>q\<close> ends in a state with these ids, at a
  position where a variable may end or, from the root, after a newline alone, and no longer run
  does.
\<close>

definition var_upto :: "dfa \<Rightarrow> (nat \<Rightarrow> bool) \<Rightarrow> string \<Rightarrow> nat \<Rightarrow> nat \<Rightarrow> nat \<Rightarrow> nat list \<Rightarrow> nat \<Rightarrow> bool" where
  "var_upto d delim w q s m ids p \<longleftrightarrow> s \<le> m \<and> m \<le> length w \<and>
     (\<exists>q'. dfa_run d q (bytes_between w s m) = Some q' \<and> ids = ds_matching_variable_ids (df_states d ! q')) \<and>
     (good_end d delim w q s m \<or> q = 0 \<and> m = Suc s \<and> w ! s = CHR 0x0A) \<and>
     (\<forall>e. m < e \<longrightarrow> e < p \<longrightarrow> \<not> good_end d delim w q s e)"

definition var_token :: "dfa \<Rightarrow> (nat \<Rightarrow> bool) \<Rightarrow> string \<Rightarrow> nat \<Rightarrow> nat \<Rightarrow> nat \<Rightarrow> nat list \<Rightarrow> bool" where
  "var_token d delim w q s m ids \<longleftrightarrow> var_upto d delim w q s m ids (Suc (length w))"

text \<open>No variable of a single line starts at a position.\<close>

definition no_var :: "dfa \<Rightarrow> (nat \<Rightarrow> bool) \<Rightarrow> string \<Rightarrow> nat \<Rightarrow> nat \<Rightarrow> bool" where
  "no_var d delim w q s \<longleftrightarrow>
     (\<forall>e. good_end d delim w q s e \<longrightarrow> (\<exists>i. s \<le> i \<and> i < e \<and> w ! i = CHR 0x0A))"

section \<open>Lexers for an automaton\<close>

definition lexing_dfa :: "dfa \<Rightarrow> bool" where
  "lexing_dfa d \<longleftrightarrow> dfa_wf d \<and> dfa_quiet d \<and> \<not> ds_is_accepting (df_states d ! 0) \<and>
     ds_get_transition 10 (df_states d ! 0) \<noteq> None"

definition lexes_with :: "dfa \<Rightarrow> (nat \<Rightarrow> bool) \<Rightarrow> lexer \<Rightarrow> bool" where
  "lexes_with d delim lx \<longleftrightarrow> (\<exists>d'. lx_dfa lx = Some d' \<and> df_states d' = df_states d) \<and>
     lx_has_delimiters lx \<and> lx_is_delimiter lx = delim \<and>
     (\<forall>i < cSizeOfByte. lx_is_first_char_of_a_variable lx i \<longleftrightarrow> ds_get_transition i (df_states d ! 0) \<noteq> None)"

lemma lexes_with_upd [simp]:
  "lexes_with d delim (lx\<lparr>lx_match_pos := a\<rparr>) = lexes_with d delim lx"
  "lexes_with d delim (lx\<lparr>lx_start_pos := a\<rparr>) = lexes_with d delim lx"
  "lexes_with d delim (lx\<lparr>lx_match_line := a\<rparr>) = lexes_with d delim lx"
  "lexes_with d delim (lx\<lparr>lx_last_match_pos := a\<rparr>) = lexes_with d delim lx"
  "lexes_with d delim (lx\<lparr>lx_last_match_line := a\<rparr>) = lexes_with d delim lx"
  "lexes_with d delim (lx\<lparr>lx_match := g\<rparr>) = lexes_with d delim lx"
  "lexes_with d delim (lx\<lparr>lx_type_ids := i\<rparr>) = lexes_with d delim lx"
  "lexes_with d delim (lx\<lparr>lx_line := a\<rparr>) = lexes_with d delim lx"
  "lexes_with d delim (lx\<lparr>lx_first_delimiter_pos := x\<rparr>) = lexes_with d delim lx"
  "lexes_with d delim (lx\<lparr>lx_asked_for_more_data := g\<rparr>) = lexes_with d delim lx"
  "lexes_with d delim (lx\<lparr>lx_state := x\<rparr>) = lexes_with d delim lx"
  by (simp_all add: lexes_with_def)

lemma lx_deref_state [simp]:
  "lexes_with d delim lx \<Longrightarrow> lx_deref lx (Some q) = Inr (df_states d ! q)"
  by (auto simp: lexes_with_def lx_deref_def lx_get_dfa_def)

lemma lx_root_eq:
  "lexes_with d delim lx \<Longrightarrow> lexing_dfa d \<Longrightarrow> lx_root lx = Inr 0"
  by (auto simp: lexes_with_def lx_root_def lx_get_dfa_def dfa_get_root_def lexing_dfa_def dfa_wf_def
      simp del: rbind_eq_Inr)

lemma lx_process_reg_ops_quiet:
  "lexes_with d delim lx \<Longrightarrow> lx_process_reg_ops [] p lx = Inr lx"
  by (auto simp: lexes_with_def lx_process_reg_ops_def lx_get_dfa_def dfa_process_reg_ops_def process_reg_ops_def)

lemma lx_process_char_eq:
  assumes "lexes_with d delim lx" "lexing_dfa d" "lx_state lx = Some q" "q < length (df_states d)"
  shows "lx_process_char c p lx =
    Inr (lx\<lparr>lx_state := map_option dt_dest_state (ds_get_transition c (df_states d ! q))\<rparr>)"
proof -
  have "df_states d ! q \<in> set (df_states d)" using assms(4) by simp
  with assms(2) have "dt_reg_ops t = []" if "ds_get_transition c (df_states d ! q) = Some t" for t
    using that unfolding lexing_dfa_def dfa_quiet_def by blast
  with assms(1,3) show ?thesis
    by (auto simp: lx_process_char_def lx_process_reg_ops_quiet [of d delim] split: option.split)
qed

lemma lx_release_eq:
  assumes "lexes_with d delim lx"
  shows "\<exists>h d'. lx_release_token b lx = Inr (token_new (lx_start_pos lx) (lx_match_pos lx)
      (bf_active_storage (ib_storage b)) (ib_size b) (lx_match_line lx) (lx_type_ids lx) h, lx\<lparr>lx_dfa := Some d'\<rparr>) \<and>
    lexes_with d delim (lx\<lparr>lx_dfa := Some d'\<rparr>)"
proof -
  from assms obtain d' where d': "lx_dfa lx = Some d'" "df_states d' = df_states d"
    by (auto simp: lexes_with_def)
  have "lx_release_token b lx = Inr (token_new (lx_start_pos lx) (lx_match_pos lx)
      (bf_active_storage (ib_storage b)) (ib_size b) (lx_match_line lx) (lx_type_ids lx) (df_reg_handler d'),
      lx\<lparr>lx_dfa := Some (snd (release_reg_handler d'))\<rparr>)"
    using d'(1) by (simp add: lx_release_token_def lx_get_dfa_def release_reg_handler_def Let_def del: rbind_eq_Inr)
  moreover have "df_states (snd (release_reg_handler d')) = df_states d"
    using d'(2) by (simp add: release_reg_handler_def)
  ultimately show ?thesis using assms by (auto simp: lexes_with_def)
qed

section \<open>The loop\<close>

text \<open>The best match among the ends before \<open>u\<close> of runs from the start position.\<close>

definition match_inv :: "dfa \<Rightarrow> (nat \<Rightarrow> bool) \<Rightarrow> string \<Rightarrow> nat \<Rightarrow> lexer \<Rightarrow> nat \<Rightarrow> bool" where
  "match_inv d delim w q0 lx u \<longleftrightarrow>
     (if lx_match lx
      then \<exists>ids. lx_type_ids lx = Some ids \<and> var_upto d delim w q0 (lx_start_pos lx) (lx_match_pos lx) ids u
      else \<forall>e. lx_start_pos lx \<le> e \<longrightarrow> e < u \<longrightarrow> \<not> good_end d delim w q0 (lx_start_pos lx) e)"

text \<open>
  The state of a call of \<^verbatim>\<open>scan\<close> that began at \<open>l\<close> in the automaton state \<open>qe\<close>: the lexer
  is at position \<open>p\<close>, in a run from its start position in the state \<open>q0\<close>; the bound \<open>k\<close> says where
  the first delimiter lies. Once the start has moved on from \<open>l\<close>, no variable starts at \<open>l\<close>.
\<close>

definition scan_at :: "dfa \<Rightarrow> (nat \<Rightarrow> bool) \<Rightarrow> string \<Rightarrow> nat \<Rightarrow> nat \<Rightarrow> lexer \<Rightarrow> nat \<Rightarrow> nat \<Rightarrow> nat \<Rightarrow> bool" where
  "scan_at d delim w l qe lx q0 p k \<longleftrightarrow> lexes_with d delim lx \<and> \<not> lx_asked_for_more_data lx \<and>
     lx_last_match_pos lx = l \<and> l \<le> lx_start_pos lx \<and> lx_start_pos lx \<le> p \<and> p \<le> length w \<and>
     q0 < length (df_states d) \<and> (q0 = 0 \<or> q0 = qe \<and> lx_start_pos lx = l) \<and>
     (\<forall>x. lx_first_delimiter_pos lx = Some x \<longrightarrow> l < x \<and> x < k) \<and>
     (q0 = qe \<and> lx_start_pos lx = l \<or> no_var d delim w qe l)"

definition scan_inv :: "dfa \<Rightarrow> (nat \<Rightarrow> bool) \<Rightarrow> string \<Rightarrow> nat \<Rightarrow> nat \<Rightarrow> lexer \<Rightarrow> nat \<Rightarrow> nat \<Rightarrow> bool \<Rightarrow> bool" where
  "scan_inv d delim w l qe lx q0 p f \<longleftrightarrow> scan_at d delim w l qe lx q0 p p \<and> match_inv d delim w q0 lx p \<and>
     (\<exists>q. lx_state lx = Some q \<and> dfa_run d q0 (bytes_between w (lx_start_pos lx) p) = Some q) \<and>
     (f \<longrightarrow> p = length w \<and> lx_start_pos lx = length w \<and> \<not> lx_match lx \<and> lx_first_delimiter_pos lx = None)"

text \<open>What is fetched at a position.\<close>

definition char_at :: "string \<Rightarrow> nat \<Rightarrow> nat" where
  "char_at w p = (if p < length w then of_char (w ! p) else cCharEOF)"

lemma scan_note_delimiter_at:
  assumes "scan_at d delim w l qe lx q0 p p" "match_inv d delim w q0 lx u"
  shows "scan_at d delim w l qe (scan_note_delimiter c p lx) q0 p (Suc p)"
    "match_inv d delim w q0 (scan_note_delimiter c p lx) u"
    "lx_state (scan_note_delimiter c p lx) = lx_state lx"
    "lx_start_pos (scan_note_delimiter c p lx) = lx_start_pos lx"
proof -
  have "l \<le> p" using assms(1) by (simp add: scan_at_def)
  with assms(1) show "scan_at d delim w l qe (scan_note_delimiter c p lx) q0 p (Suc p)"
    by (auto simp: scan_at_def scan_note_delimiter_def)
  show "match_inv d delim w q0 (scan_note_delimiter c p lx) u"
    using assms(2) by (simp add: match_inv_def scan_note_delimiter_def)
qed (simp_all add: scan_note_delimiter_def)

lemma scan_note_match_at:
  assumes at: "scan_at d delim w l qe lx q0 p (Suc p)" "match_inv d delim w q0 lx p" "lexing_dfa d"
    and q: "lx_state lx = Some q" "dfa_run d q0 (bytes_between w (lx_start_pos lx) p) = Some q"
    and b: "ib_log_fully_consumed b = (p = length w)"
  shows "\<exists>lx'. scan_note_match (char_at w p) p b lx = Inr lx' \<and> scan_at d delim w l qe lx' q0 p (Suc p) \<and>
    match_inv d delim w q0 lx' (Suc p) \<and> lx_state lx' = Some q \<and> lx_start_pos lx' = lx_start_pos lx"
proof -
  have lx: "lexes_with d delim lx" "lx_start_pos lx \<le> p" "p \<le> length w" "q0 < length (df_states d)"
    using at(1) by (auto simp: scan_at_def)
  then have ends: "(lx_is_delimiter lx (char_at w p) \<or> ib_log_fully_consumed b \<or> \<not> lx_has_delimiters lx) \<longleftrightarrow>
      ends_at delim w p"
    by (auto simp: lexes_with_def ends_at_def b char_at_def)
  have good: "good_end d delim w q0 (lx_start_pos lx) p \<longleftrightarrow>
      ends_at delim w p \<and> ds_is_accepting (df_states d ! q)"
    using lx(2) q(2) by (simp add: good_end_def)
  show ?thesis
  proof (cases "good_end d delim w q0 (lx_start_pos lx) p")
    case True
    have q_len: "q < length (df_states d)"
      using dfa_run_states [OF _ lx(4) q(2)] at(3) by (simp add: lexing_dfa_def)
    then have "df_states d ! q \<in> set (df_states d)" by simp
    with at(3) have ops: "ds_accepting_ops (df_states d ! q) = []"
      unfolding lexing_dfa_def dfa_quiet_def by blast
    let ?lx = "lx\<lparr>lx_match := True, lx_type_ids := Some (ds_matching_variable_ids (df_states d ! q)),
      lx_match_pos := p, lx_match_line := lx_line lx\<rparr>"
    have "scan_note_match (char_at w p) p b lx = Inr ?lx"
      using True good ends lx(1) q(1) ops by (simp add: scan_note_match_def lx_process_reg_ops_quiet)
    moreover have "var_upto d delim w q0 (lx_start_pos lx) p (ds_matching_variable_ids (df_states d ! q)) (Suc p)"
      using True lx(2,3) q(2) by (auto simp: var_upto_def)
    ultimately show ?thesis using at(1) q(1) by (auto simp: scan_at_def match_inv_def)
  next
    case False
    with good ends lx(1) q(1) have "scan_note_match (char_at w p) p b lx = Inr lx"
      by (auto simp: scan_note_match_def)
    moreover have "match_inv d delim w q0 lx (Suc p)"
      using at(2) False by (auto simp: match_inv_def var_upto_def less_Suc_eq)
    ultimately show ?thesis using at(1) q(1) by auto
  qed
qed

text \<open>
  After the transition on the character at \<open>p\<close>: the run has reached \<open>Suc p\<close>, or is stuck.
\<close>

definition scan_moved :: "dfa \<Rightarrow> (nat \<Rightarrow> bool) \<Rightarrow> string \<Rightarrow> nat \<Rightarrow> nat \<Rightarrow> lexer \<Rightarrow> nat \<Rightarrow> nat \<Rightarrow> bool" where
  "scan_moved d delim w l qe lx q0 p \<longleftrightarrow> scan_at d delim w l qe lx q0 p (Suc p) \<and>
     match_inv d delim w q0 lx (Suc p) \<and>
     (p < length w \<longrightarrow> lx_state lx = dfa_run d q0 (bytes_between w (lx_start_pos lx) (Suc p)))"

lemma scan_process_at:
  assumes at: "scan_at d delim w l qe lx q0 p (Suc p)" "match_inv d delim w q0 lx (Suc p)" "lexing_dfa d"
    and q: "lx_state lx = Some q" "dfa_run d q0 (bytes_between w (lx_start_pos lx) p) = Some q"
  shows "\<exists>lx'. lx_process_char (char_at w p) p lx = Inr lx' \<and> scan_moved d delim w l qe lx' q0 p"
proof -
  have lx: "lexes_with d delim lx" "lx_start_pos lx \<le> p" "q0 < length (df_states d)"
    using at(1) by (auto simp: scan_at_def)
  have q_len: "q < length (df_states d)"
    using dfa_run_states [OF _ lx(3) q(2)] at(3) by (simp add: lexing_dfa_def)
  let ?lx = "lx\<lparr>lx_state := map_option dt_dest_state (ds_get_transition (char_at w p) (df_states d ! q))\<rparr>"
  have "lx_process_char (char_at w p) p lx = Inr ?lx"
    by (rule lx_process_char_eq [OF lx(1) at(3) q(1) q_len])
  moreover have "scan_moved d delim w l qe ?lx q0 p"
    using at(1,2) dfa_run_step [OF lx(2), of w d q0] q(2)
    by (auto simp: scan_moved_def scan_at_def match_inv_def char_at_def)
  ultimately show ?thesis by blast
qed

text \<open>The newline case starts a token of its own; otherwise only the line count changes.\<close>

lemma scan_newline_at:
  assumes mv: "scan_moved d delim w l qe lx q0 p" and d: "lexing_dfa d"
    and b: "ib_pos b = Suc p" and p: "p < length w"
  shows "\<exists>r lx'. scan_newline (char_at w p) p b lx = Inr (r, lx') \<and>
    (if r then scan_inv d delim w l qe lx' 0 (Suc p) False else scan_moved d delim w l qe lx' q0 p)"
proof -
  let ?lx1 = "lx\<lparr>lx_line := u32 (lx_line lx + 1)\<rparr>"
  have lx: "lexes_with d delim lx" "scan_at d delim w l qe lx q0 p (Suc p)" "lx_start_pos lx \<le> p"
    using mv by (auto simp: scan_moved_def scan_at_def)
  have mv1: "scan_moved d delim w l qe ?lx1 q0 p"
    using mv by (simp add: scan_moved_def scan_at_def match_inv_def)
  let ?c = "(case lx_first_delimiter_pos lx of None \<Rightarrow> True | Some pos \<Rightarrow> p = pos) \<and>
    lx_has_delimiters lx \<and> \<not> lx_match lx"
  show ?thesis
  proof (cases "char_at w p = 10 \<and> ?c")
    case False
    then have "scan_newline (char_at w p) p b lx = Inr (False, if char_at w p = 10 then ?lx1 else lx)"
      by (auto simp: scan_newline_def Let_def split: option.splits)
    with mv mv1 show ?thesis by (intro exI [of _ False]) auto
  next
    case True
    have nl: "w ! p = CHR 0x0A"
    proof -
      have "of_char (w ! p) = (of_char (CHR 0x0A) :: nat)" using True p by (simp add: char_at_def)
      then show ?thesis by (simp only: of_char_eq_iff)
    qed
    from d obtain t where t: "ds_get_transition 10 (df_states d ! 0) = Some t" "0 < length (df_states d)"
      by (auto simp: lexing_dfa_def dfa_wf_def)
    let ?lx2 = "?lx1\<lparr>lx_state := Some (dt_dest_state t)\<rparr>"
    let ?lx3 = "?lx2\<lparr>lx_match := True,
      lx_type_ids := Some (ds_matching_variable_ids (df_states d ! dt_dest_state t)),
      lx_start_pos := p, lx_match_pos := Suc p, lx_match_line := lx_line ?lx2\<rparr>"
    have "lx_process_char 10 p (?lx1\<lparr>lx_state := Some 0\<rparr>) = Inr ?lx2"
      using lx_process_char_eq [of d delim "?lx1\<lparr>lx_state := Some 0\<rparr>" 0 10 p] lx(1) d t by simp
    moreover have "lx_root ?lx1 = Inr 0" using lx(1) d by (intro lx_root_eq) auto
    moreover have "lx_deref ?lx2 (lx_state ?lx2) = Inr (df_states d ! dt_dest_state t)"
      using lx_deref_state [of d delim ?lx2] lx(1) by simp
    ultimately have "scan_newline (char_at w p) p b lx = Inr (True, ?lx3)"
      using True b by (simp add: scan_newline_def Let_def del: rbind_eq_Inr)
    moreover have run: "dfa_run d 0 (bytes_between w p (Suc p)) = Some (dt_dest_state t)"
      using dfa_run_step [of p p w d 0] p t(1) True by (simp add: char_at_def)
    have "no_var d delim w qe l"
    proof (cases "q0 = qe \<and> lx_start_pos lx = l")
      case False
      with lx(2) show ?thesis by (auto simp: scan_at_def)
    next
      case start: True
      have "p < e" if "good_end d delim w qe l e" for e
      proof (rule ccontr)
        assume "\<not> p < e"
        moreover have "l \<le> e" using that by (simp add: good_end_def)
        ultimately show False using mv True start that by (auto simp: scan_moved_def match_inv_def)
      qed
      with nl start lx(3) show ?thesis by (auto simp: no_var_def)
    qed
    then have "scan_inv d delim w l qe ?lx3 0 (Suc p) False"
      using lx True p t run nl by (auto simp: scan_inv_def scan_at_def match_inv_def var_upto_def)
    ultimately show ?thesis by (intro exI [of _ True]) auto
  qed
qed

text \<open>Once the run is stuck, no end after \<open>p\<close> is good, and what was found is final.\<close>

definition scan_stuck :: "string \<Rightarrow> lexer \<Rightarrow> nat \<Rightarrow> bool" where
  "scan_stuck w lx p \<longleftrightarrow> p = length w \<or> lx_state lx = None"

lemma scan_final:
  assumes mv: "scan_moved d delim w l qe lx q0 p" "scan_stuck w lx p"
  shows "lx_match lx \<Longrightarrow> \<exists>ids. lx_type_ids lx = Some ids \<and>
      var_token d delim w q0 (lx_start_pos lx) (lx_match_pos lx) ids"
    "\<not> lx_match lx \<Longrightarrow> no_var d delim w qe l"
proof -
  let ?s = "lx_start_pos lx"
  have s: "?s \<le> p" "p \<le> length w" using mv(1) by (auto simp: scan_moved_def scan_at_def)
  have late: "\<not> good_end d delim w q0 ?s e" if "p < e" for e
  proof (cases "p = length w")
    case True
    with that show ?thesis by (auto simp: good_end_def ends_at_def)
  next
    case False
    with mv s have "dfa_run d q0 (bytes_between w ?s (Suc p)) = None"
      by (auto simp: scan_moved_def scan_stuck_def)
    from dfa_run_stuck [OF this] s that show ?thesis by (simp add: good_end_def)
  qed
  show "lx_match lx \<Longrightarrow> \<exists>ids. lx_type_ids lx = Some ids \<and>
      var_token d delim w q0 ?s (lx_match_pos lx) ids"
    using mv(1) late by (auto simp: scan_moved_def match_inv_def var_token_def var_upto_def)
      (meson not_less_eq)+
  show "\<not> lx_match lx \<Longrightarrow> no_var d delim w qe l"
  proof -
    assume "\<not> lx_match lx"
    then have "\<not> good_end d delim w q0 ?s e" for e
      using mv(1) late [of e] by (cases "p < e") (auto simp: scan_moved_def match_inv_def good_end_def)
    with mv(1) show ?thesis by (auto simp: scan_moved_def scan_at_def no_var_def)
  qed
qed

section \<open>What a call returns\<close>

text \<open>
  A lexer between two calls, with the next token due at \<open>l\<close>: either it has to look for it, or it
  has the variable token, or the end token, prepared.
\<close>

definition next_at ::
  "(string \<Rightarrow> nat \<Rightarrow> bool \<Rightarrow> input_buffer) \<Rightarrow> dfa \<Rightarrow> (nat \<Rightarrow> bool) \<Rightarrow> string \<Rightarrow> lexer \<Rightarrow> input_buffer \<Rightarrow> nat \<Rightarrow> bool" where
  "next_at buf d delim w lx b l \<longleftrightarrow> lexes_with d delim lx \<and> \<not> lx_asked_for_more_data lx \<and> l \<le> length w \<and>
     (if lx_match lx
      then lx_start_pos lx = l \<and> (\<exists>ids. lx_type_ids lx = Some ids \<and>
        (b = buf w (lx_match_pos lx) False \<and> l < lx_match_pos lx \<and>
           var_token d delim w 0 l (lx_match_pos lx) ids \<or>
         l = length w \<and> lx_match_pos lx = length w \<and> ids = cTokenEndTypes \<and> (\<exists>f. b = buf w (length w) f)))
      else lx_last_match_pos lx = l \<and> (\<exists>p f. b = buf w p f \<and> p \<le> length w \<and>
        (lx_first_delimiter_pos lx = Some l \<or>
         lx_first_delimiter_pos lx = None \<and> p = l \<and> (f \<longrightarrow> l = length w))))"

text \<open>
  The token that a call returns, from \<open>l\<close> to \<open>l'\<close>, in the three kinds there are. The first call
  begins in the state \<open>qe\<close> after the start of the file, and looks from the root where that fails.
\<close>

definition token_proper ::
  "dfa \<Rightarrow> (nat \<Rightarrow> bool) \<Rightarrow> string \<Rightarrow> nat \<Rightarrow> nat \<Rightarrow> nat list option \<Rightarrow> nat \<Rightarrow> bool" where
  "token_proper d delim w qe l types l' \<longleftrightarrow>
     types = Some cTokenUncaughtStringTypes \<and> l < l' \<and> no_var d delim w qe l \<or>
     (\<exists>q ids. (q = qe \<or> q = 0 \<and> no_var d delim w qe l) \<and> types = Some ids \<and>
        var_token d delim w q l l' ids \<and> (l < l' \<or> q \<noteq> 0))"

definition token_for ::
  "dfa \<Rightarrow> (nat \<Rightarrow> bool) \<Rightarrow> string \<Rightarrow> nat \<Rightarrow> nat \<Rightarrow> nat list option \<Rightarrow> nat \<Rightarrow> bool" where
  "token_for d delim w qe l types l' \<longleftrightarrow> token_proper d delim w qe l types l' \<or>
     types = Some cTokenEndTypes \<and> l = length w \<and> l' = length w"

definition token_spans :: "input_buffer \<Rightarrow> token \<Rightarrow> nat \<Rightarrow> nat \<Rightarrow> bool" where
  "token_spans b t l l' \<longleftrightarrow> tk_start_pos t = l \<and> tk_end_pos t = l' \<and>
     tk_buffer t = bf_active_storage (ib_storage b) \<and> tk_buffer_size t = ib_size b \<and> tk_cached_string t = []"

definition scan_gives ::
  "(string \<Rightarrow> nat \<Rightarrow> bool \<Rightarrow> input_buffer) \<Rightarrow> dfa \<Rightarrow> (nat \<Rightarrow> bool) \<Rightarrow> string \<Rightarrow> nat \<Rightarrow> nat \<Rightarrow>
     token \<Rightarrow> lexer \<Rightarrow> input_buffer \<Rightarrow> bool" where
  "scan_gives buf d delim w qe l t lx b \<longleftrightarrow> (\<exists>l'. token_spans b t l l' \<and> l \<le> l' \<and> l' \<le> length w \<and>
     token_for d delim w qe l (tk_type_ids t) l' \<and> next_at buf d delim w lx b l')"

text \<open>The first call, after the start of the file has been put in front.\<close>

definition started_at :: "dfa \<Rightarrow> (nat \<Rightarrow> bool) \<Rightarrow> lexer \<Rightarrow> nat \<Rightarrow> bool" where
  "started_at d delim lx q \<longleftrightarrow> lexes_with d delim lx \<and> lx_asked_for_more_data lx \<and> \<not> lx_match lx \<and>
     lx_state lx = Some q \<and> q < length (df_states d) \<and> lx_last_match_pos lx = 0 \<and> lx_start_pos lx = 0 \<and>
     lx_first_delimiter_pos lx = None"

lemma token_spans_lx_token [simp]: "token_spans b (lx_token b s e line types) l l' \<longleftrightarrow> s = l \<and> e = l'"
  by (auto simp: token_spans_def lx_token_def token_new_plain_def token_new_def)

lemma lx_token_types [simp]: "tk_type_ids (lx_token b s e line types) = types"
  by (simp add: lx_token_def token_new_plain_def token_new_def)

lemma var_upto_nonempty:
  assumes "var_upto d delim w 0 s m ids u" "lexing_dfa d"
  shows "s < m"
proof (rule ccontr)
  assume "\<not> s < m"
  with assms(1) have "m = s" "good_end d delim w 0 s s" by (auto simp: var_upto_def)
  with assms(2) show False by (auto simp: good_end_def lexing_dfa_def)
qed

lemma var_token_bounds: "var_token d delim w q s m ids \<Longrightarrow> s \<le> m \<and> m \<le> length w"
  by (simp add: var_token_def var_upto_def)

context text_source
begin

text \<open>The buffer after the character at a position has been fetched.\<close>

definition fetched :: "string \<Rightarrow> nat \<Rightarrow> input_buffer" where
  "fetched w p = buf w (min (Suc p) (length w)) (p = length w)"

lemma fetch:
  assumes "fits w" "p \<le> length w" "f \<longrightarrow> p = length w"
  shows "ib_get_next_character (buf w p f) x = Inr (Success, char_at w p, fetched w p)"
  using assms fetch_char [where w = w and p = p and x = x and f = f]
    fetch_end [where w = w and x = x and f = f]
  by (cases "p = length w") (auto simp: char_at_def fetched_def min_def)

lemma scan_skip_at:
  assumes w: "fits w" and lx: "lexes_with d delim lx"
  shows "p \<le> length w \<Longrightarrow> \<exists>p' f. scan_skip p (char_at w p) lx (fetched w p) =
      Some (Inr (ScanGoOn, lx\<lparr>lx_start_pos := p'\<rparr>, buf w p' f)) \<and> p \<le> p' \<and> p' \<le> length w \<and>
      (f \<longrightarrow> p' = length w) \<and> (p' = p \<longrightarrow> p < length w \<longrightarrow> ds_get_transition (char_at w p) (df_states d ! 0) \<noteq> None)"
proof (induction "length w - p" arbitrary: p rule: less_induct)
  case less
  have first_char: "lx_is_first_char_of_a_variable lx (char_at w p) \<longleftrightarrow>
      ds_get_transition (char_at w p) (df_states d ! 0) \<noteq> None" if "p < length w"
    using lx that by (simp add: lexes_with_def char_at_def)
  show ?case
  proof (cases "p < length w \<and> (\<not> lx_is_first_char_of_a_variable lx (char_at w p) \<or> \<not> lx_is_delimiter lx (char_at w p))")
    case False
    then have "scan_skip p (char_at w p) lx (fetched w p) =
        Some (Inr (ScanGoOn, lx\<lparr>lx_start_pos := p\<rparr>, buf w p (p = length w)))"
      using less.prems by (subst scan_skip.simps) (auto simp: fetched_def)
    with first_char False less.prems show ?thesis
      by (intro exI [of _ p] exI [of _ "p = length w"]) auto
  next
    case True
    then have "fetched w p = buf w (Suc p) False" by (simp add: fetched_def)
    moreover have "ib_get_next_character (buf w (Suc p) False) x = Inr (Success, char_at w (Suc p), fetched w (Suc p))" for x
      using fetch [OF w] True by simp
    ultimately have step: "scan_skip p (char_at w p) lx (fetched w p) = scan_skip (Suc p) (char_at w (Suc p)) lx (fetched w (Suc p))"
      using True by (subst scan_skip.simps) simp
    have "length w - Suc p < length w - p" "Suc p \<le> length w" using True by auto
    from less.hyps [OF this] obtain p' f where
      "scan_skip (Suc p) (char_at w (Suc p)) lx (fetched w (Suc p)) =
        Some (Inr (ScanGoOn, lx\<lparr>lx_start_pos := p'\<rparr>, buf w p' f))" "Suc p \<le> p'" "p' \<le> length w" "f \<longrightarrow> p' = length w"
      by blast
    with step show ?thesis by (intro exI [of _ p'] exI [of _ f]) auto
  qed
qed

text \<open>Returning the match that the loop has found.\<close>

lemma release_gives:
  assumes lx: "lexes_with d delim lx" "\<not> lx_asked_for_more_data lx" "lx_type_ids lx = Some ids"
    and m: "b = buf w (lx_match_pos lx) f" "f \<longrightarrow> lx_match_pos lx = length w"
    and t: "token_for d delim w qe (lx_start_pos lx) (Some ids) (lx_match_pos lx)"
    and bounds: "lx_start_pos lx \<le> lx_match_pos lx" "lx_match_pos lx \<le> length w"
  shows "\<exists>t lx'. lx_release_token b (lx_set_last_match lx) = Inr (t, lx') \<and>
    scan_gives buf d delim w qe (lx_start_pos lx) t lx' b"
proof -
  let ?lx = "lx_set_last_match lx"
  have e: "lexes_with d delim ?lx" using lx(1) by (simp add: lx_set_last_match_def)
  from lx_release_eq [OF e, of b] obtain h d' where
    r: "lx_release_token b ?lx = Inr (token_new (lx_start_pos ?lx) (lx_match_pos ?lx)
      (bf_active_storage (ib_storage b)) (ib_size b) (lx_match_line ?lx) (lx_type_ids ?lx) h, ?lx\<lparr>lx_dfa := Some d'\<rparr>)"
    "lexes_with d delim (?lx\<lparr>lx_dfa := Some d'\<rparr>)" by blast
  have "next_at buf d delim w (?lx\<lparr>lx_dfa := Some d'\<rparr>) b (lx_match_pos lx)"
    using r(2) lx(2) m bounds by (auto simp: next_at_def lx_set_last_match_def)
  with r(1) t lx(3) bounds show ?thesis
    by (auto simp: scan_gives_def token_spans_def token_new_def lx_set_last_match_def)
qed

lemma scan_matched_at:
  assumes mv: "scan_moved d delim w l qe lx q0 p" "scan_stuck w lx p" "lx_match lx" and d: "lexing_dfa d"
    and b: "b = buf w p1 f"
  shows "\<exists>t lx' b'. scan_matched lx b = Inr (ScanReturn Success (Some t), lx', b') \<and>
    scan_gives buf d delim w qe l t lx' b'"
proof -
  let ?s = "lx_start_pos lx" let ?m = "lx_match_pos lx"
  from scan_final(1) [OF mv] obtain ids where
    ids: "lx_type_ids lx = Some ids" "var_token d delim w q0 ?s ?m ids" by blast
  note bounds = var_token_bounds [OF ids(2)]
  have at: "lexes_with d delim lx" "\<not> lx_asked_for_more_data lx" "lx_last_match_pos lx = l" "l \<le> ?s"
    "q0 = 0 \<or> q0 = qe \<and> ?s = l" "q0 = qe \<and> ?s = l \<or> no_var d delim w qe l"
    using mv(1) by (auto simp: scan_moved_def scan_at_def)
  let ?lx = "lx\<lparr>lx_line := lx_match_line lx\<rparr>"
  show ?thesis
  proof (cases "l = ?s")
    case False
    with at(4,5) have q0: "q0 = 0" "l < ?s" by auto
    then have "?s < ?m" using var_upto_nonempty ids(2) d by (auto simp: var_token_def)
    then have "next_at buf d delim w ?lx (buf w ?m False) ?s"
      using at ids bounds mv(3) q0 by (simp add: next_at_def)
    moreover have "no_var d delim w qe l" using at(6) False by blast
    ultimately show ?thesis using False at(3) b q0(2) bounds
      by (auto simp: scan_matched_def Let_def scan_gives_def lx_return_uncaught_def token_for_def token_proper_def)
  next
    case True
    have "token_for d delim w qe l (Some ids) ?m"
    proof -
      have "l < ?m \<or> q0 \<noteq> 0"
        using ids(2) True var_upto_nonempty [of d delim w ?s ?m ids] d by (auto simp: var_token_def)
      moreover have "q0 = qe \<or> q0 = 0 \<and> no_var d delim w qe l" using at(5,6) by blast
      ultimately show ?thesis using ids(2) True by (auto simp: token_for_def token_proper_def)
    qed
    with release_gives [of d delim ?lx ids "buf w ?m False" w False qe] at ids bounds True
    show ?thesis by (auto simp: scan_matched_def Let_def b)
  qed
qed

text \<open>How far a state of the loop is from the end of the call.\<close>

definition scan_measure :: "string \<Rightarrow> (lexer \<times> nat \<times> nat \<times> bool) \<Rightarrow> nat \<times> nat \<times> nat \<times> nat" where
  "scan_measure w = (\<lambda>(lx, q0, p, f). (if q0 = 0 then 0 else 1, length w - lx_start_pos lx, length w - p,
     if f then 0 else 1))"

definition scan_order :: "string \<Rightarrow> ((lexer \<times> nat \<times> nat \<times> bool) \<times> (lexer \<times> nat \<times> nat \<times> bool)) set" where
  "scan_order w = inv_image (less_than <*lex*> less_than <*lex*> less_than <*lex*> less_than) (scan_measure w)"

lemma wf_scan_order: "wf (scan_order w)"
  by (auto simp: scan_order_def)

text \<open>A round ends the call with a token, or goes on closer to the end.\<close>

definition round_result ::
  "dfa \<Rightarrow> (nat \<Rightarrow> bool) \<Rightarrow> string \<Rightarrow> nat \<Rightarrow> nat \<Rightarrow> lexer \<times> nat \<times> nat \<times> bool \<Rightarrow> scan_result option \<Rightarrow> bool" where
  "round_result d delim w l qe st r \<longleftrightarrow>
     (\<exists>t lx' b'. r = Some (Inr (ScanReturn Success (Some t), lx', b')) \<and> scan_gives buf d delim w qe l t lx' b') \<or>
     (\<exists>lx' q0' p' f'. r = Some (Inr (ScanGoOn, lx', buf w p' f')) \<and> scan_inv d delim w l qe lx' q0' p' f' \<and>
        ((lx', q0', p', f'), st) \<in> scan_order w)"

lemma scan_at_end_at:
  assumes mv: "scan_moved d delim w l qe lx q0 (length w)" and m: "\<not> lx_match lx" "lx_start_pos lx = length w"
  shows "\<exists>t lx'. scan_at_end lx (fetched w (length w)) = (ScanReturn Success (Some t), lx') \<and>
    scan_gives buf d delim w qe l t lx' (fetched w (length w))"
proof -
  have b: "fetched w (length w) = buf w (length w) True" by (simp add: fetched_def)
  have no: "no_var d delim w qe l" using scan_final(2) [OF mv _ m(1)] by (simp add: scan_stuck_def)
  have at: "lexes_with d delim lx" "\<not> lx_asked_for_more_data lx" "lx_last_match_pos lx = l" "l \<le> length w"
    "\<And>x. lx_first_delimiter_pos lx = Some x \<Longrightarrow> l < x \<and> x \<le> length w"
    using mv m(2) by (auto simp: scan_moved_def scan_at_def)
  show ?thesis
  proof (cases "l = length w")
    case True
    with at(5) have "lx_first_delimiter_pos lx = None" by (cases "lx_first_delimiter_pos lx") auto
    with True at m show ?thesis
      by (auto simp: scan_at_end_def b scan_gives_def token_for_def token_proper_def next_at_def)
  next
    case l: False
    show ?thesis
    proof (cases "lx_first_delimiter_pos lx")
      case None
      with l at m no show ?thesis
        by (auto simp: scan_at_end_def b scan_gives_def token_for_def token_proper_def next_at_def lx_return_uncaught_def)
    next
      case (Some x)
      with at(5) have "l < x" "x \<le> length w" by auto
      with Some l at(1-4) m no show ?thesis
        by (auto simp: scan_at_end_def b scan_gives_def token_for_def token_proper_def next_at_def lx_return_uncaught_def)
    qed
  qed
qed

lemma scan_decide_at:
  assumes w: "fits w" and d: "lexing_dfa d"
    and mv: "scan_moved d delim w l qe lx q0 p" and st: "scan_stuck w lx p"
    and s: "lx_start_pos lx = lx_start_pos lx0"
  shows "round_result d delim w l qe (lx0, q0, p, f) (scan_decide p (char_at w p) lx (fetched w p))"
proof -
  have at: "lexes_with d delim lx" "\<not> lx_asked_for_more_data lx" "lx_last_match_pos lx = l"
    "l \<le> lx_start_pos lx" "lx_start_pos lx \<le> p" "p \<le> length w" "q0 = 0 \<or> q0 = qe \<and> lx_start_pos lx = l"
    "\<And>x. lx_first_delimiter_pos lx = Some x \<Longrightarrow> l < x \<and> x \<le> p" "q0 < length (df_states d)"
    using mv by (auto simp: scan_moved_def scan_at_def)
  have b: "ib_log_fully_consumed (fetched w p) = (p = length w)"
    "p = length w \<Longrightarrow> ib_pos (fetched w p) = length w" by (simp_all add: fetched_def)
  consider (m) "lx_match lx" | (e) "\<not> lx_match lx" "p = length w" "lx_start_pos lx = length w"
    | (g) "\<not> lx_match lx" "\<not> (p = length w \<and> lx_start_pos lx = length w)" by blast
  then show ?thesis
  proof cases
    case m
    with scan_matched_at [OF mv st m d, of "fetched w p"] show ?thesis
      by (auto simp: round_result_def scan_decide_def fetched_def)
  next
    case e
    with scan_at_end_at [of d delim w l qe lx q0] mv b show ?thesis
      by (auto simp: round_result_def scan_decide_def)
  next
    case g
    note no = scan_final(2) [OF mv st g(1)]
    have dec: "scan_decide p (char_at w p) lx (fetched w p) = (case lx_first_delimiter_pos lx of
             Some pos \<Rightarrow> Some (Inr (ScanReturn Success (Some (lx_return_uncaught pos lx (fetched w p))),
                          lx\<lparr>lx_last_match_pos := pos\<rparr>, fetched w p))
           | None \<Rightarrow> scan_skip p (char_at w p) (lx\<lparr>lx_state := Some 0\<rparr>) (fetched w p))"
      using g b lx_root_eq [OF at(1) d] by (auto simp: scan_decide_def split: option.split)
    show ?thesis
    proof (cases "lx_first_delimiter_pos lx")
      case (Some x)
      with at(8) have x: "l < x" "x \<le> p" by auto
      have "next_at buf d delim w (lx\<lparr>lx_last_match_pos := x\<rparr>) (fetched w p) x"
        using at g(1) x Some by (auto simp: next_at_def fetched_def)
      with Some dec at no x show ?thesis
        by (auto simp: round_result_def scan_gives_def token_for_def token_proper_def lx_return_uncaught_def)
    next
      case None
      let ?lx = "lx\<lparr>lx_state := Some 0\<rparr>"
      from scan_skip_at [OF w, of d delim ?lx p] at obtain p' f' where
        skip: "scan_skip p (char_at w p) ?lx (fetched w p) = Some (Inr (ScanGoOn, ?lx\<lparr>lx_start_pos := p'\<rparr>, buf w p' f'))"
        "p \<le> p'" "p' \<le> length w" "f' \<longrightarrow> p' = length w"
        "p' = p \<longrightarrow> p < length w \<longrightarrow> ds_get_transition (char_at w p) (df_states d ! 0) \<noteq> None" by auto
      have "0 < length (df_states d)" using d by (simp add: lexing_dfa_def dfa_wf_def)
      then have "scan_inv d delim w l qe (?lx\<lparr>lx_start_pos := p'\<rparr>) 0 p' f'"
        using at skip(2-4) no g(1) None by (auto simp: scan_inv_def scan_at_def match_inv_def)
      moreover have "((?lx\<lparr>lx_start_pos := p'\<rparr>, 0, p', f'), (lx0, q0, p, f)) \<in> scan_order w"
      proof (cases "q0 = 0 \<and> p' = lx_start_pos lx")
        case False
        with at(5,6) skip(2,3) s show ?thesis by (auto simp: scan_order_def scan_measure_def)
      next
        case True
        with at(5) skip(2) have "p = lx_start_pos lx" "p' = p" by auto
        then have p: "p < length w" using g(2) at(6) by auto
        then have "lx_state lx = None" using st by (simp add: scan_stuck_def)
        then have "dfa_run d 0 (bytes_between w p (Suc p)) = None"
          using mv p True \<open>p = lx_start_pos lx\<close> by (auto simp: scan_moved_def)
        then have "ds_get_transition (char_at w p) (df_states d ! 0) = None"
          using dfa_run_step [of p p w d 0] p by (simp add: char_at_def)
        with skip(5) \<open>p' = p\<close> p show ?thesis by simp
      qed
      ultimately show ?thesis unfolding round_result_def dec using None skip(1)
        by (intro disjI2 exI [of _ "?lx\<lparr>lx_start_pos := p'\<rparr>"] exI [of _ 0] exI [of _ p'] exI [of _ f']) simp
    qed
  qed
qed

lemma scan_round_at:
  assumes w: "fits w" and d: "lexing_dfa d" and inv: "scan_inv d delim w l qe lx q0 p f"
  shows "round_result d delim w l qe (lx, q0, p, f) (scan_round lx (buf w p f))"
proof -
  from inv obtain q where
    at: "scan_at d delim w l qe lx q0 p p" "match_inv d delim w q0 lx p"
    and q: "lx_state lx = Some q" "dfa_run d q0 (bytes_between w (lx_start_pos lx) p) = Some q"
    and f: "f \<longrightarrow> p = length w" by (auto simp: scan_inv_def)
  have p: "p \<le> length w" "lx_start_pos lx \<le> p" using at(1) by (auto simp: scan_at_def)
  note nd = scan_note_delimiter_at [OF at, of "char_at w p"]
  let ?lx1 = "scan_note_delimiter (char_at w p) p lx"
  have cons: "ib_log_fully_consumed (fetched w p) = (p = length w)" by (simp add: fetched_def)
  from scan_note_match_at [OF nd(1,2) d _ _ cons] nd(3,4) q obtain lx2 where
    lx2: "scan_note_match (char_at w p) p (fetched w p) ?lx1 = Inr lx2" "scan_at d delim w l qe lx2 q0 p (Suc p)"
    "match_inv d delim w q0 lx2 (Suc p)" "lx_state lx2 = Some q" "lx_start_pos lx2 = lx_start_pos lx" by auto
  from scan_process_at [OF lx2(2,3) d lx2(4)] lx2(5) q(2) obtain lx3 where
    lx3: "lx_process_char (char_at w p) p lx2 = Inr lx3" "scan_moved d delim w l qe lx3 q0 p" by auto
  have s3: "lx_start_pos lx3 = lx_start_pos lx"
    using lx3(1) lx2 dfa_run_states [of d q0 _ q] q(2) d at(1)
      lx_process_char_eq [of d delim lx2 q "char_at w p" p] by (auto simp: scan_at_def lexing_dfa_def)
  obtain r lx4 where
    lx4: "scan_newline (char_at w p) p (fetched w p) lx3 = Inr (r, lx4)"
    "if r then p < length w \<and> scan_inv d delim w l qe lx4 0 (Suc p) False \<and> lx_start_pos lx4 = p
     else scan_moved d delim w l qe lx4 q0 p \<and> lx_start_pos lx4 = lx_start_pos lx"
  proof (cases "p < length w")
    case True
    then have "ib_pos (fetched w p) = Suc p" by (simp add: fetched_def)
    from scan_newline_at [OF lx3(2) d this True] obtain r lx4 where
      n: "scan_newline (char_at w p) p (fetched w p) lx3 = Inr (r, lx4)"
      "if r then scan_inv d delim w l qe lx4 0 (Suc p) False else scan_moved d delim w l qe lx4 q0 p" by blast
    moreover have "lx_start_pos lx4 = (if r then p else lx_start_pos lx3)"
      using n(1) by (auto simp: scan_newline_def Let_def split: if_splits)
    ultimately show ?thesis using True s3 that by (cases r) auto
  next
    case False
    with p(1) lx3(2) s3 that [of False lx3] show ?thesis
      by (auto simp: scan_newline_def char_at_def cCharEOF_def)
  qed
  have round: "scan_round lx (buf w p f) =
      (if \<not> r \<and> (p = length w \<or> lx_state lx4 = None) then scan_decide p (char_at w p) lx4 (fetched w p)
       else Some (Inr (ScanGoOn, lx4, fetched w p)))"
    using fetch [OF w p(1) f] lx2(1) lx3(1) lx4(1) cons by (simp add: scan_round_def Let_def del: rbind_eq_Inr)
  show ?thesis
  proof (cases "\<not> r \<and> (p = length w \<or> lx_state lx4 = None)")
    case True
    with lx4(2) have "scan_moved d delim w l qe lx4 q0 p" "scan_stuck w lx4 p" "lx_start_pos lx4 = lx_start_pos lx"
      by (auto simp: scan_stuck_def)
    from scan_decide_at [OF w d this] round True show ?thesis by simp
  next
    case False
    then have p': "p < length w" using lx4(2) p(1) by (cases r) auto
    define q1 where "q1 = (if r then 0 else q0)"
    have "scan_inv d delim w l qe lx4 q1 (Suc p) False"
    proof (cases r)
      case True
      with lx4(2) q1_def show ?thesis by simp
    next
      case nr: False
      with lx4(2) have mv: "scan_moved d delim w l qe lx4 q0 p" by simp
      with False nr p' obtain q' where "lx_state lx4 = Some q'"
        "dfa_run d q0 (bytes_between w (lx_start_pos lx4) (Suc p)) = Some q'"
        by (auto simp: scan_moved_def)
      with mv p' nr q1_def show ?thesis by (auto simp: scan_inv_def scan_moved_def scan_at_def)
    qed
    moreover have "((lx4, q1, Suc p, False), (lx, q0, p, f)) \<in> scan_order w"
    proof -
      have "lx_start_pos lx \<le> lx_start_pos lx4"
        using lx4(2) p(2) by (cases r) auto
      with p' p(2) show ?thesis by (auto simp: scan_order_def scan_measure_def q1_def)
    qed
    ultimately show ?thesis using round False p'
      by (auto simp: round_result_def fetched_def min_def intro!: disjI2 exI [of _ lx4])
  qed
qed

lemma scan_loop_at:
  assumes w: "fits w" and d: "lexing_dfa d"
  shows "scan_inv d delim w l qe lx q0 p f \<Longrightarrow>
    \<exists>t lx' b'. scan_loop lx (buf w p f) = Some (Inr ((Success, Some t), lx', b')) \<and>
      scan_gives buf d delim w qe l t lx' b'"
proof (induction "(lx, q0, p, f)" arbitrary: lx q0 p f rule: wf_induct_rule [OF wf_scan_order [of w]])
  case (1 lx q0 p f)
  from scan_round_at [OF w d 1(2)] consider
      (ret) t lx' b' where "scan_round lx (buf w p f) = Some (Inr (ScanReturn Success (Some t), lx', b'))"
        "scan_gives buf d delim w qe l t lx' b'"
    | (go) lx' q0' p' f' where "scan_round lx (buf w p f) = Some (Inr (ScanGoOn, lx', buf w p' f'))"
        "scan_inv d delim w l qe lx' q0' p' f'" "((lx', q0', p', f'), (lx, q0, p, f)) \<in> scan_order w"
    unfolding round_result_def by blast
  then show ?case
  proof cases
    case ret
    then show ?thesis by (subst scan_loop.simps) simp
  next
    case go
    from 1(1) [OF go(3,2)] go(1) show ?thesis by (subst scan_loop.simps) simp
  qed
qed

lemma next_at_bound: "next_at buf d delim w lx b l \<Longrightarrow> l \<le> length w"
  by (simp add: next_at_def)

lemma lx_scan_next:
  assumes w: "fits w" and d: "lexing_dfa d" and lx: "next_at buf d delim w lx b l"
  shows "\<exists>t lx' b'. lx_scan lx b = Some (Inr ((Success, Some t), lx', b')) \<and>
    scan_gives buf d delim w 0 l t lx' b'"
proof -
  have env: "lexes_with d delim lx" "\<not> lx_asked_for_more_data lx" "l \<le> length w"
    using lx by (auto simp: next_at_def)
  have root: "lx_root lx = Inr 0" by (rule lx_root_eq [OF env(1) d])
  have len: "0 < length (df_states d)" using d by (simp add: lexing_dfa_def dfa_wf_def)
  let ?lx = "lx\<lparr>lx_state := Some 0\<rparr>"
  show ?thesis
  proof (cases "lx_match lx")
    case True
    with lx obtain ids f where m: "lx_start_pos lx = l" "lx_type_ids lx = Some ids" "b = buf w (lx_match_pos lx) f"
      "f \<longrightarrow> lx_match_pos lx = length w"
      "token_for d delim w 0 l (Some ids) (lx_match_pos lx)" "l \<le> lx_match_pos lx" "lx_match_pos lx \<le> length w"
      by (auto simp: next_at_def token_for_def token_proper_def dest: var_token_bounds)
    from release_gives [of d delim ?lx ids b w f 0] env m obtain t lx' where
      "lx_release_token b (lx_set_last_match ?lx) = Inr (t, lx')" "scan_gives buf d delim w 0 l t lx' b" by auto
    with True root env(2) show ?thesis by (auto simp: lx_scan_def scan_begin_def Let_def simp del: rbind_eq_Inr)
  next
    case False
    with lx obtain p f where b: "b = buf w p f" "lx_last_match_pos lx = l"
      "lx_first_delimiter_pos lx = Some l \<or> lx_first_delimiter_pos lx = None \<and> p = l \<and> (f \<longrightarrow> l = length w)"
      by (auto simp: next_at_def)
    define g where "g = (case lx_first_delimiter_pos lx of None \<Rightarrow> f | Some _ \<Rightarrow> False)"
    let ?lx1 = "?lx\<lparr>lx_start_pos := l, lx_match_pos := l, lx_match_line := lx_line lx, lx_type_ids := None,
      lx_first_delimiter_pos := None\<rparr>"
    have "scan_begin lx b = Inr (ScanGoOn, ?lx1, buf w l g)"
      using b root env(2) False by (auto simp: scan_begin_def Let_def g_def simp del: rbind_eq_Inr)
    moreover have "scan_inv d delim w l 0 ?lx1 0 l g"
      using b env len False by (auto simp: scan_inv_def scan_at_def match_inv_def g_def split: option.splits)
    ultimately show ?thesis using scan_loop_at [OF w d] by (auto simp: lx_scan_def)
  qed
qed

lemma lx_scan_first:
  assumes w: "fits w" and d: "lexing_dfa d" and lx: "started_at d delim lx q"
  shows "\<exists>t lx' b'. lx_scan lx (buf w 0 False) = Some (Inr ((Success, Some t), lx', b')) \<and>
    scan_gives buf d delim w q 0 t lx' b'"
proof -
  let ?lx = "lx\<lparr>lx_asked_for_more_data := False\<rparr>"
  have "scan_begin lx (buf w 0 False) = Inr (ScanGoOn, ?lx, buf w 0 False)"
    using lx by (simp add: started_at_def scan_begin_def)
  moreover have "scan_inv d delim w 0 q ?lx q 0 False"
    using lx by (auto simp: started_at_def scan_inv_def scan_at_def match_inv_def)
  ultimately show ?thesis using scan_loop_at [OF w d] by (auto simp: lx_scan_def)
qed

end

text \<open>Repeated calls of \<^verbatim>\<open>scan\<close>, with the tokens they return and the memory these
  are read from.\<close>

inductive scans :: "lexer \<Rightarrow> input_buffer \<Rightarrow> (token \<times> input_buffer) list \<Rightarrow> bool" where
  scans_none: "scans lx b []"
| scans_step: "lx_scan lx b = Some (Inr ((Success, Some t), lx', b')) \<Longrightarrow> scans lx' b' ts \<Longrightarrow>
    scans lx b ((t, b') # ts)"

inductive_cases scans_ConsE: "scans lx b (tb # ts)"

text \<open>The text of a token in a memory, and the tokens of a whole text.\<close>

definition token_string :: "token \<times> input_buffer \<Rightarrow> string res" where
  "token_string = (\<lambda>(t, b). rbind (tk_to_string (bf_storage (ib_storage b)) t) (\<lambda>(str, t'). Inr str))"

inductive token_chain ::
  "dfa \<Rightarrow> (nat \<Rightarrow> bool) \<Rightarrow> string \<Rightarrow> nat \<Rightarrow> nat \<Rightarrow> (nat list option \<times> string) list \<Rightarrow> bool"
  for d delim w where
  chain_end: "token_chain d delim w q (length w) [(Some cTokenEndTypes, [])]"
| chain_token: "token_proper d delim w q l types l' \<Longrightarrow> l \<le> l' \<Longrightarrow> l' \<le> length w \<Longrightarrow>
    token_chain d delim w 0 l' ts \<Longrightarrow>
    token_chain d delim w q l ((types, take (l' - l) (drop l w)) # ts)"

lemma token_chain_text: "token_chain d delim w q l ts \<Longrightarrow> concat (map snd ts) = drop l w"
proof (induction rule: token_chain.induct)
  case (chain_token q l types l' ts)
  then have "drop l w = take (l' - l) (drop l w) @ drop l' w"
    by (metis add.commute append_take_drop_id drop_drop le_add_diff_inverse2)
  with chain_token.IH show ?case by simp
qed simp

lemma token_chain_last: "token_chain d delim w q l ts \<Longrightarrow> last ts = (Some cTokenEndTypes, []) \<and> ts \<noteq> []"
  by (induction rule: token_chain.induct) auto

context text_source
begin

lemma spans_string:
  assumes w: "fits w" and t: "token_spans (buf w p f) t l l'" "l \<le> l'" "l' \<le> length w"
  shows "token_string (t, buf w p f) = Inr (take (l' - l) (drop l w))"
proof -
  have "bf_storage (ib_storage (buf w p f)) (tk_buffer t) = bf_active (ib_storage (buf w p f))"
    using t(1) by (simp add: token_spans_def bf_active_def)
  moreover have "tk_buffer_size t \<ge> length w" using t(1) room [OF w] by (simp add: token_spans_def)
  ultimately show ?thesis
    using t slice [OF w, where s = l and k = "l' - l" and p = p and f = f]
    by (simp add: token_spans_def token_string_def tk_to_string_def tk_get_cached_string_def tk_subspan_def)
qed

lemma gives_buffer: "next_at buf d delim w lx b l \<Longrightarrow> \<exists>p f. b = buf w p f"
  by (auto simp: next_at_def split: if_splits)

lemma scans_chain:
  assumes w: "fits w" and d: "lexing_dfa d"
  shows "next_at buf d delim w lx b l \<Longrightarrow> \<exists>tbs ts. scans lx b tbs \<and> token_chain d delim w 0 l ts \<and>
    map token_string tbs = map (\<lambda>t. Inr (snd t)) ts \<and> map (\<lambda>tb. tk_type_ids (fst tb)) tbs = map fst ts \<and>
    length ts \<le> length w - l + 1"
proof (induction "length w - l" arbitrary: lx b l rule: less_induct)
  case less
  from lx_scan_next [OF w d less.prems] obtain t lx' b' l' where
    t: "lx_scan lx b = Some (Inr ((Success, Some t), lx', b'))" "token_spans b' t l l'" "l \<le> l'" "l' \<le> length w"
      "token_for d delim w 0 l (tk_type_ids t) l'" "next_at buf d delim w lx' b' l'"
    unfolding scan_gives_def by blast
  have str: "token_string (t, b') = Inr (take (l' - l) (drop l w))"
    using gives_buffer [OF t(6)] spans_string [OF w _ t(3,4)] t(2) by blast
  show ?case
  proof (cases "l < l'")
    case True
    with t(4) have "length w - l' < length w - l" by simp
    from less.hyps [OF this t(6)] obtain tbs ts where
      ts: "scans lx' b' tbs" "token_chain d delim w 0 l' ts" "map token_string tbs = map (\<lambda>t. Inr (snd t)) ts"
        "map (\<lambda>tb. tk_type_ids (fst tb)) tbs = map fst ts" "length ts \<le> length w - l' + 1" by blast
    have "token_chain d delim w 0 l ((tk_type_ids t, take (l' - l) (drop l w)) # ts)"
      by (rule chain_token [OF _ t(3,4) ts(2)]) (use t(4,5) True in \<open>auto simp: token_for_def\<close>)
    moreover have "scans lx b ((t, b') # tbs)" by (rule scans_step [OF t(1) ts(1)])
    ultimately show ?thesis using ts(3-5) str True t(4)
      by (intro exI [of _ "(t, b') # tbs"] exI [of _ "(tk_type_ids t, take (l' - l) (drop l w)) # ts"]) simp
  next
    case False
    with t(3,5) have e: "l = length w" "l' = length w" "tk_type_ids t = Some cTokenEndTypes"
      by (auto simp: token_for_def token_proper_def)
    have "scans lx b [(t, b')]" by (rule scans_step [OF t(1) scans_none])
    with e str chain_end [of d delim w 0] show ?thesis
      by (intro exI [of _ "[(t, b')]"] exI [of _ "[(Some cTokenEndTypes, [])]"]) auto
  qed
qed

lemma scans_text:
  assumes w: "fits w" and d: "lexing_dfa d" and lx: "started_at d delim lx q"
  shows "\<exists>tbs ts. scans lx (buf w 0 False) tbs \<and> token_chain d delim w q 0 ts \<and>
    map token_string tbs = map (\<lambda>t. Inr (snd t)) ts \<and> map (\<lambda>tb. tk_type_ids (fst tb)) tbs = map fst ts \<and>
    length ts \<le> length w + 2"
proof -
  from lx_scan_first [OF w d lx] obtain t lx' b' l' where
    t: "lx_scan lx (buf w 0 False) = Some (Inr ((Success, Some t), lx', b'))" "token_spans b' t 0 l'" "l' \<le> length w"
      "token_for d delim w q 0 (tk_type_ids t) l'" "next_at buf d delim w lx' b' l'"
    unfolding scan_gives_def by blast
  have str: "token_string (t, b') = Inr (take l' w)"
    using gives_buffer [OF t(5)] spans_string [OF w, of _ _ t 0 l'] t(2,3) by auto
  show ?thesis
  proof (cases "token_proper d delim w q 0 (tk_type_ids t) l'")
    case False
    with t(4) have e: "tk_type_ids t = Some cTokenEndTypes" "w = []" "l' = 0" by (auto simp: token_for_def)
    have "scans lx (buf w 0 False) [(t, b')]" by (rule scans_step [OF t(1) scans_none])
    moreover have "token_chain d delim w q 0 [(Some cTokenEndTypes, [])]"
      using chain_end [of d delim w q] e(2) by simp
    ultimately show ?thesis using e str
      by (intro exI [of _ "[(t, b')]"] exI [of _ "[(Some cTokenEndTypes, [])]"]) simp
  next
    case True
  from scans_chain [OF w d t(5)] obtain tbs ts where
    ts: "scans lx' b' tbs" "token_chain d delim w 0 l' ts" "map token_string tbs = map (\<lambda>t. Inr (snd t)) ts"
      "map (\<lambda>tb. tk_type_ids (fst tb)) tbs = map fst ts" "length ts \<le> length w - l' + 1" by blast
  have "token_chain d delim w q 0 ((tk_type_ids t, take (l' - 0) (drop 0 w)) # ts)"
    by (rule chain_token [OF True _ t(3) ts(2)]) simp
  moreover have "scans lx (buf w 0 False) ((t, b') # tbs)" by (rule scans_step [OF t(1) ts(1)])
  ultimately show ?thesis using ts(3-5) str t(3)
    by (intro exI [of _ "(t, b') # tbs"] exI [of _ "(tk_type_ids t, take l' w) # ts"]) simp
  qed
qed

end

end
