(* ===== verification/Lexer_Rules.thy ===== *)
theory Lexer_Rules
  imports Lexer_Correct
begin

text \<open>
  The lexer of a list of rules, against a reading of its tokens that mentions no automaton: which
  strings the rules match, and where a variable may end.
\<close>

section \<open>The tokens of a text\<close>

text \<open>
  \<open>A u v\<close> says that a rule for the variable \<open>v\<close> matches \<open>u\<close>; \<open>pre\<close> stands before the text, for the
  start of the file.
\<close>

type_synonym matcher = "nat list \<Rightarrow> nat \<Rightarrow> bool"

definition var_end :: "matcher \<Rightarrow> (nat \<Rightarrow> bool) \<Rightarrow> string \<Rightarrow> nat list \<Rightarrow> nat \<Rightarrow> nat \<Rightarrow> bool" where
  "var_end A delim w pre s e \<longleftrightarrow> s \<le> e \<and> ends_at delim w e \<and> (\<exists>v. A (pre @ bytes_between w s e) v)"

definition no_line_var :: "matcher \<Rightarrow> (nat \<Rightarrow> bool) \<Rightarrow> string \<Rightarrow> nat list \<Rightarrow> nat \<Rightarrow> bool" where
  "no_line_var A delim w pre s \<longleftrightarrow>
     (\<forall>e. var_end A delim w pre s e \<longrightarrow> (\<exists>i. s \<le> i \<and> i < e \<and> w ! i = CHR 0x0A))"

text \<open>
  The tokens from a position on. Text is uncaught only where no variable without a newline in it
  starts; a variable token carries exactly the ids whose rules match it, ends where a variable may
  end, or is a newline that carries the ids of the rules for a newline alone, and is the longest.
\<close>

inductive log_tokens ::
  "matcher \<Rightarrow> (nat \<Rightarrow> bool) \<Rightarrow> string \<Rightarrow> nat list \<Rightarrow> nat \<Rightarrow> (nat list option \<times> string) list \<Rightarrow> bool"
  for A delim w where
  tokens_end: "log_tokens A delim w pre (length w) [(Some cTokenEndTypes, [])]"
| tokens_text: "l < l' \<Longrightarrow> l' \<le> length w \<Longrightarrow> no_line_var A delim w pre l \<Longrightarrow>
    log_tokens A delim w [] l' ts \<Longrightarrow>
    log_tokens A delim w pre l ((Some cTokenUncaughtStringTypes, take (l' - l) (drop l w)) # ts)"
| tokens_var: "pre' = pre \<or> pre' = [] \<and> no_line_var A delim w pre l \<Longrightarrow> l \<le> l' \<Longrightarrow> l' \<le> length w \<Longrightarrow>
    l < l' \<or> pre' \<noteq> [] \<Longrightarrow> (\<And>v. v \<in> set ids \<longleftrightarrow> A (pre' @ bytes_between w l l') v) \<Longrightarrow>
    var_end A delim w pre' l l' \<or>
      l' = Suc l \<and> w ! l = CHR 0x0A \<and> (\<forall>v. v \<in> set ids \<longleftrightarrow> A [10] v) \<Longrightarrow>
    (\<And>e. l' < e \<Longrightarrow> \<not> var_end A delim w pre' l e) \<Longrightarrow> log_tokens A delim w [] l' ts \<Longrightarrow>
    log_tokens A delim w pre l ((Some ids, take (l' - l) (drop l w)) # ts)"

inductive_cases log_tokens_NilE: "log_tokens A delim w pre l []"

lemma good_end_lang:
  assumes "dfa_run d 0 pre = Some q"
  shows "good_end d delim w q s e \<longleftrightarrow> var_end (dfa_accepts d) delim w pre s e"
  using assms
  by (auto simp: good_end_def var_end_def dfa_accepts_def dfa_run_append ds_is_accepting_def neq_Nil_conv)
    (metis empty_iff empty_set list.exhaust)

lemma no_var_lang:
  "dfa_run d 0 pre = Some q \<Longrightarrow> no_var d delim w q s \<longleftrightarrow> no_line_var (dfa_accepts d) delim w pre s"
  by (simp add: no_var_def no_line_var_def good_end_lang)

lemma var_end_bound: "var_end A delim w pre s e \<Longrightarrow> e \<le> length w"
  by (auto simp: var_end_def ends_at_def)

text \<open>The tokens of the automaton are those of the language it accepts.\<close>

lemma chain_log_tokens:
  "token_chain d delim w q l ts \<Longrightarrow> dfa_run d 0 pre = Some q \<Longrightarrow>
     log_tokens (dfa_accepts d) delim w pre l ts"
proof (induction arbitrary: pre rule: token_chain.induct)
  case (chain_end q)
  then show ?case by (simp add: tokens_end)
next
  case (chain_token q l types l' ts)
  from chain_token.IH [of "[]"] have ts: "log_tokens (dfa_accepts d) delim w [] l' ts" by simp
  from chain_token.hyps(1) consider
      (plain) "types = Some cTokenUncaughtStringTypes" "l < l'" "no_var d delim w q l"
    | (var) q' ids where "q' = q \<or> q' = 0 \<and> no_var d delim w q l" "types = Some ids"
        "var_token d delim w q' l l' ids" "l < l' \<or> q' \<noteq> 0"
    unfolding token_proper_def by blast
  then show ?case
  proof cases
    case plain
    with chain_token.hyps(3) ts no_var_lang [OF chain_token.prems(1)] show ?thesis
      by (auto intro: tokens_text)
  next
    case var
    obtain pre' where pre': "dfa_run d 0 pre' = Some q'" "pre' = pre \<or> pre' = [] \<and> no_line_var (dfa_accepts d) delim w pre l"
      "l < l' \<or> pre' \<noteq> []"
    proof (cases "q' = q")
      case True
      with var(4) chain_token.prems that [of pre] show ?thesis by (cases "pre = []") auto
    next
      case False
      with var(1,4) no_var_lang [OF chain_token.prems(1)] that [of "[]"] show ?thesis by auto
    qed
    from var(3) obtain q'' where q'': "dfa_run d q' (bytes_between w l l') = Some q''"
      "ids = ds_matching_variable_ids (df_states d ! q'')"
      "good_end d delim w q' l l' \<or> q' = 0 \<and> l' = Suc l \<and> w ! l = CHR 0x0A"
      "\<And>e. l' < e \<Longrightarrow> e \<le> length w \<Longrightarrow> \<not> good_end d delim w q' l e"
      by (auto simp: var_token_def var_upto_def less_Suc_eq_le)
    have "log_tokens (dfa_accepts d) delim w pre l ((Some ids, take (l' - l) (drop l w)) # ts)"
    proof (rule tokens_var [OF pre'(2) chain_token.hyps(2,3) pre'(3) _ _ _ ts])
      show "v \<in> set ids \<longleftrightarrow> dfa_accepts d (pre' @ bytes_between w l l') v" for v
        using q''(1,2) pre'(1) by (simp add: dfa_accepts_def dfa_run_append)
      show "var_end (dfa_accepts d) delim w pre' l l' \<or>
          l' = Suc l \<and> w ! l = CHR 0x0A \<and> (\<forall>v. v \<in> set ids \<longleftrightarrow> dfa_accepts d [10] v)"
      proof (cases "good_end d delim w q' l l'")
        case True
        then show ?thesis using good_end_lang [OF pre'(1)] by simp
      next
        case False
        with q''(3) have nl: "q' = 0" "l' = Suc l" "w ! l = CHR 0x0A" by simp_all
        with chain_token.hyps(3) have "bytes_between w l l' = [10]"
          by (simp add: bytes_between_Suc)
        with q''(1,2) nl show ?thesis by (simp add: dfa_accepts_def)
      qed
      show "\<not> var_end (dfa_accepts d) delim w pre' l e" if "l' < e" for e
        using q''(4) [OF that] good_end_lang [OF pre'(1)] var_end_bound [of "dfa_accepts d" delim w pre' l e] by blast
    qed
    with var(2) show ?thesis by simp
  qed
qed

section \<open>Lexers made of rules\<close>

definition rules_match :: "lexical_rule list \<Rightarrow> matcher" where
  "rules_match rules u v \<longleftrightarrow> (\<exists>rule \<in> set rules. lr_variable_id rule = v \<and> u \<in> regex_lang (lr_regex rule))"

text \<open>Rules without captures whose regexes are exact.\<close>

definition plain_lexer_rules :: "lexical_rule list \<Rightarrow> nfa \<Rightarrow> bool" where
  "plain_lexer_rules rules n \<longleftrightarrow> nfa_of_rules rules = Inr n \<and> nfa_size n \<le> 2 ^ 32 \<and>
     rules_captures rules = {} \<and> (\<forall>rule \<in> set rules. ast_fresh (lr_regex rule) \<and> exact_form (lr_regex rule))"

lemma plain_rules_dfa:
  assumes "plain_lexer_rules rules n" "ord [] = []"
  shows "\<exists>d. dfa_generate ord n = Some (Inr d) \<and> dfa_wf d \<and> dfa_quiet d \<and> dfa_accepts d = rules_match rules"
proof -
  have n: "nfa_of_rules rules = Inr n" "nfa_small n" "untagged n"
    using assms(1) rules_nfa_small capture_free_untagged by (auto simp: plain_lexer_rules_def)
  from untagged_determinized [OF n(2,3), of ord] obtain d where
    d: "dfa_generate ord n = Some (Inr d)" "dfa_wf d" "\<And>w v. dfa_accepts d w v \<longleftrightarrow> nfa_accepts n w v" by blast
  have "dfa_accepts d w v \<longleftrightarrow> rules_match rules w v" for w v
    using d(3) nfa_of_rules_language [OF n(1)] assms(1)
    by (auto simp: plain_lexer_rules_def rules_match_def rule_build_def build_lang_exact)
  then have "dfa_accepts d = rules_match rules" by blast
  with d(1,2) untagged_quiet [where ord = ord, OF n(2,3) assms(2) d(1)] show ?thesis by blast
qed

lemma accepted_first_byte:
  assumes "dfa_accepts d (c # u) v"
  shows "\<exists>t. ds_get_transition c (df_states d ! 0) = Some t"
  using assms by (auto simp: dfa_accepts_def split: option.splits if_splits)

lemma no_captures_collected:
  "\<forall>rule \<in> set rules. lexical_rule_get_captures rule = [] \<Longrightarrow> fold lx_collect_captures rules lx = lx"
  by (induction rules arbitrary: lx) (simp_all add: lx_collect_captures_def)

lemma lx_generate_plain:
  assumes rules: "plain_lexer_rules (lx_rules lx) n" "ord [] = []" and delims: "lx_has_delimiters lx"
  shows "\<exists>lx' d. lx_generate ord lx = Some (Inr lx') \<and> dfa_wf d \<and> dfa_quiet d \<and>
    dfa_accepts d = rules_match (lx_rules lx) \<and> lexes_with d (lx_is_delimiter lx) lx' \<and>
    lx_rule_id_to_capture lx' = lx_rule_id_to_capture lx \<and> lx_id_symbol lx' = lx_id_symbol lx"
proof -
  from plain_rules_dfa [of "lx_rules lx" n ord, OF rules] obtain d where
    d: "dfa_generate ord n = Some (Inr d)" "dfa_wf d" "dfa_quiet d" "dfa_accepts d = rules_match (lx_rules lx)" by blast
  have "\<forall>rule \<in> set (lx_rules lx). lexical_rule_get_captures rule = []"
    using rules(1) by (auto simp: plain_lexer_rules_def rules_captures_def)
  note same = no_captures_collected [OF this]
  have root: "dfa_get_root d = Inr 0" using d(2) by (simp add: dfa_get_root_def dfa_wf_def)
  let ?lx = "lx\<lparr>lx_capture_to_tag_id_pair := nf_capture_to_tag_id_pair n ++ lx_capture_to_tag_id_pair lx,
    lx_dfa := Some d, lx_is_first_char_of_a_variable := \<lambda>i.
      if i < cSizeOfByte then ds_get_transition i (df_states d ! 0) \<noteq> None
      else lx_is_first_char_of_a_variable lx i\<rparr>"
  have "lx_generate ord lx = Some (Inr ?lx)"
    using rules(1) d(1) root same by (simp add: lx_generate_def Let_def plain_lexer_rules_def cong: if_cong)
  moreover have "lexes_with d (lx_is_delimiter lx) ?lx" using delims by (simp add: lexes_with_def)
  ultimately show ?thesis using d(2-4) by (intro exI [of _ ?lx] exI [of _ d]) simp
qed

text \<open>The start of a log: the lexer after the start-of-file character.\<close>

lemma rules_lexer_starts:
  assumes rules: "plain_lexer_rules (lx_rules lx) n" "ord [] = []" and delims: "lx_has_delimiters lx"
    and nonempty: "\<forall>v. \<not> rules_match (lx_rules lx) [] v"
    and newline: "rules_match (lx_rules lx) (10 # u) v1"
    and start: "rules_match (lx_rules lx) (cCharStartOfFile # u') v2"
  shows "\<exists>lx1 d q. lx_generate ord lx = Some (Inr lx1) \<and> lexing_dfa d \<and>
    dfa_accepts d = rules_match (lx_rules lx) \<and> dfa_run d 0 [cCharStartOfFile] = Some q \<and>
    lx_rule_id_to_capture lx1 = lx_rule_id_to_capture lx \<and> lx_id_symbol lx1 = lx_id_symbol lx \<and>
    (\<forall>b. ib_pos b = 0 \<longrightarrow> (\<exists>lx2. lx_prepend_start_of_file_char b (lx_reset lx1) = Inr lx2 \<and>
       started_at d (lx_is_delimiter lx) lx2 q \<and> lx_rule_id_to_capture lx2 = lx_rule_id_to_capture lx))"
proof -
  from lx_generate_plain [of lx n ord, OF rules delims] obtain lx1 d where
    g: "lx_generate ord lx = Some (Inr lx1)" and d: "dfa_wf d" "dfa_quiet d"
    "dfa_accepts d = rules_match (lx_rules lx)" "lexes_with d (lx_is_delimiter lx) lx1"
    and same: "lx_rule_id_to_capture lx1 = lx_rule_id_to_capture lx" "lx_id_symbol lx1 = lx_id_symbol lx" by blast
  have acc: "\<not> ds_is_accepting (df_states d ! 0)"
  proof
    assume "ds_is_accepting (df_states d ! 0)"
    then have "dfa_accepts d [] (hd (ds_matching_variable_ids (df_states d ! 0)))"
      by (simp add: dfa_accepts_def ds_is_accepting_def)
    with nonempty d(3) show False by simp
  qed
  have ld: "lexing_dfa d"
    using d(1,2) acc accepted_first_byte [of d 10 u v1] newline d(3) by (auto simp: lexing_dfa_def)
  from accepted_first_byte [of d cCharStartOfFile u' v2] start d(3) obtain t where
    t: "ds_get_transition cCharStartOfFile (df_states d ! 0) = Some t" by auto
  have e: "lexes_with d (lx_is_delimiter lx) (lx_reset lx1)" using d(4) by (simp add: lx_reset_def lexes_with_def)
  let ?q = "dt_dest_state t"
  have "?q < length (df_states d)" using d(1) t by (auto simp: dfa_wf_def)
  then have "\<exists>lx2. lx_prepend_start_of_file_char b (lx_reset lx1) = Inr lx2 \<and>
       started_at d (lx_is_delimiter lx) lx2 ?q \<and> lx_rule_id_to_capture lx2 = lx_rule_id_to_capture lx"
    if "ib_pos b = 0" for b
    using lx_root_eq [OF e ld] e t that same(1)
    by (simp add: lx_prepend_start_of_file_char_def started_at_def del: rbind_eq_Inr) (simp add: lx_reset_def)
  moreover have "dfa_run d 0 [cCharStartOfFile] = Some ?q" using t by (simp add: cCharStartOfFile_def cSizeOfByte_def)
  ultimately show ?thesis using g ld d(3) same by blast
qed

text \<open>The tokens that a lexer made of rules returns on a text.\<close>

lemma rules_lexer_tokens:
  assumes rules: "plain_lexer_rules (lx_rules lx) n" "ord [] = []" and delims: "lx_has_delimiters lx"
    and nonempty: "\<forall>v. \<not> rules_match (lx_rules lx) [] v"
    and newline: "rules_match (lx_rules lx) (10 # u) v1"
    and start: "rules_match (lx_rules lx) (cCharStartOfFile # u') v2"
    and w: "small_text w"
  shows "\<exists>lx1 lx2 tbs ts. lx_generate ord lx = Some (Inr lx1) \<and>
    lx_prepend_start_of_file_char (given_buffer b w 0 False) (lx_reset lx1) = Inr lx2 \<and>
    scans lx2 (given_buffer b w 0 False) tbs \<and>
    log_tokens (rules_match (lx_rules lx)) (lx_is_delimiter lx) w [cCharStartOfFile] 0 ts \<and>
    map token_string tbs = map (\<lambda>t. Inr (snd t)) ts \<and> map (\<lambda>tb. tk_type_ids (fst tb)) tbs = map fst ts \<and>
    concat (map snd ts) = w \<and> last ts = (Some cTokenEndTypes, []) \<and> length ts \<le> length w + 2"
proof -
  from rules_lexer_starts [of lx n ord, OF rules delims nonempty newline start] obtain lx1 d q where
    g: "lx_generate ord lx = Some (Inr lx1)" "lexing_dfa d" "dfa_accepts d = rules_match (lx_rules lx)"
      "dfa_run d 0 [cCharStartOfFile] = Some q" and
    starts: "\<And>b. ib_pos b = 0 \<Longrightarrow> \<exists>lx2. lx_prepend_start_of_file_char b (lx_reset lx1) = Inr lx2 \<and>
       started_at d (lx_is_delimiter lx) lx2 q" by blast
  let ?b = "given_buffer b w 0 False"
  have "ib_pos ?b = 0" by simp
  from starts [OF this] obtain lx2 where
    p: "lx_prepend_start_of_file_char ?b (lx_reset lx1) = Inr lx2" "started_at d (lx_is_delimiter lx) lx2 q" by blast
  from given.scans_text [OF w g(2) p(2), of b] obtain tbs ts where
    ts: "scans lx2 ?b tbs" "token_chain d (lx_is_delimiter lx) w q 0 ts"
      "map token_string tbs = map (\<lambda>t. Inr (snd t)) ts" "map (\<lambda>tb. tk_type_ids (fst tb)) tbs = map fst ts"
      "length ts \<le> length w + 2" by blast
  from chain_log_tokens [OF ts(2) g(4)]
  have "log_tokens (rules_match (lx_rules lx)) (lx_is_delimiter lx) w [cCharStartOfFile] 0 ts"
    using g(3) by simp
  with g(1) p(1) ts token_chain_text [OF ts(2)] token_chain_last [OF ts(2)] show ?thesis
    by (intro exI [of _ lx1] exI [of _ lx2] exI [of _ tbs] exI [of _ ts]) simp
qed


definition demo_lexer :: lexer where
  "demo_lexer = lx_add_rule 8 (mk_literal cCharStartOfFile)
     (lx_add_rule 7 (mk_cat (mk_literal 32) (mk_literal 97)) (lx_add_rule 6 (mk_literal 10)
       (lx_new\<lparr>lx_has_delimiters := True, lx_is_delimiter := \<lambda>i. i = 32 \<or> i = cCharStartOfFile\<rparr>)))"

lemma demo_lexer_delimiters:
  "lx_set_delimiters [32] lx_new =
     Inr (lx_new\<lparr>lx_has_delimiters := True, lx_is_delimiter := \<lambda>i. i = 32 \<or> i = cCharStartOfFile\<rparr>)"
  by (simp add: lx_set_delimiters_def cSizeOfByte_def del: rbind_eq_Inr)

lemma demo_lexer_plain: "\<exists>n. plain_lexer_rules (lx_rules demo_lexer) n"
  by (simp add: plain_lexer_rules_def demo_lexer_def lx_add_rule_def lx_new_def rules_captures_def
      lexical_rule_get_captures_def nfa_of_rules_def lexical_rule_add_to_nfa_def new_state_def
      new_accepting_state_def nfa_empty_def nfa_emplace_def generate_id_def nfa_size_def mk_defs
      add_to_nfa_with_negative_captures_def add_with_negative_captures_def get_negative_captures_def
      add_root_interval_def nfa_update_state_def nfa_set_root_def Let_def cCharStartOfFile_def
      get_subtree_positive_captures_def ast_fresh_def split: prod.splits)


end
