(* ===== verification/Log_Feed.thy ===== *)
theory Log_Feed
  imports Lexer_Rules
begin

text \<open>
  The tokens that a log parser is fed when the log lies in the memory of its caller: every call of
  \<^verbatim>\<open>scan\<close> returns the next piece of the log, also when the caller hands the buffer
  over anew between two calls.
\<close>

section \<open>Scanning keeps the rules\<close>

text \<open>What the rules of a lexer have left in it, which no scan changes.\<close>

definition same_rules :: "lexer \<Rightarrow> lexer \<Rightarrow> bool" where
  "same_rules lx lx' \<longleftrightarrow> lx_rule_id_to_capture lx' = lx_rule_id_to_capture lx \<and>
     lx_id_symbol lx' = lx_id_symbol lx \<and> lx_symbol_id lx' = lx_symbol_id lx \<and>
     lx_rules lx' = lx_rules lx \<and> lx_is_delimiter lx' = lx_is_delimiter lx \<and>
     lx_capture_to_tag_id_pair lx' = lx_capture_to_tag_id_pair lx"

lemma same_rules_refl [simp]: "same_rules lx lx"
  by (simp add: same_rules_def)

lemma same_rules_trans: "same_rules lx lx1 \<Longrightarrow> same_rules lx1 lx2 \<Longrightarrow> same_rules lx lx2"
  by (simp add: same_rules_def)

lemma same_rules_upd [simp]:
  "same_rules lx (lx'\<lparr>lx_match := a\<rparr>) = same_rules lx lx'" "same_rules lx (lx'\<lparr>lx_type_ids := b\<rparr>) = same_rules lx lx'"
  "same_rules lx (lx'\<lparr>lx_match_pos := c\<rparr>) = same_rules lx lx'" "same_rules lx (lx'\<lparr>lx_match_line := c\<rparr>) = same_rules lx lx'"
  "same_rules lx (lx'\<lparr>lx_start_pos := c\<rparr>) = same_rules lx lx'" "same_rules lx (lx'\<lparr>lx_line := c\<rparr>) = same_rules lx lx'"
  "same_rules lx (lx'\<lparr>lx_last_match_pos := c\<rparr>) = same_rules lx lx'" "same_rules lx (lx'\<lparr>lx_last_match_line := c\<rparr>) = same_rules lx lx'"
  "same_rules lx (lx'\<lparr>lx_first_delimiter_pos := e\<rparr>) = same_rules lx lx'" "same_rules lx (lx'\<lparr>lx_state := e\<rparr>) = same_rules lx lx'"
  "same_rules lx (lx'\<lparr>lx_prev_state := e\<rparr>) = same_rules lx lx'"
  "same_rules lx (lx'\<lparr>lx_asked_for_more_data := a\<rparr>) = same_rules lx lx'" "same_rules lx (lx'\<lparr>lx_dfa := g\<rparr>) = same_rules lx lx'"
  by (simp_all add: same_rules_def)

lemma process_reg_ops_rules: "lx_process_reg_ops ops pos lx = Inr lx' \<Longrightarrow> same_rules lx lx'"
  by (auto simp: lx_process_reg_ops_def)

lemma process_char_rules: "lx_process_char c pos lx = Inr lx' \<Longrightarrow> same_rules lx lx'"
  using process_reg_ops_rules
  by (fastforce simp: lx_process_char_def same_rules_def split: option.splits)

lemma release_rules: "lx_release_token b lx = Inr (t, lx') \<Longrightarrow> same_rules lx lx'"
  by (auto simp: lx_release_token_def Let_def case_prod_unfold)

lemma set_last_match_rules [simp]: "same_rules lx (lx_set_last_match lx') = same_rules lx lx'"
  by (simp add: lx_set_last_match_def)

lemma note_delimiter_rules [simp]: "same_rules lx (scan_note_delimiter c pos lx)"
  by (simp add: scan_note_delimiter_def)

lemma note_match_rules: "scan_note_match c pos b lx = Inr lx' \<Longrightarrow> same_rules lx lx'"
  using process_reg_ops_rules by (fastforce simp: scan_note_match_def split: if_splits)

lemma newline_rules: "scan_newline c pos b lx = Inr (e, lx') \<Longrightarrow> same_rules lx lx'"
  using process_char_rules by (fastforce simp: scan_newline_def Let_def same_rules_def split: if_splits option.splits)

lemma skip_rules: "scan_skip pos c lx b = Some (Inr (r, lx', b')) \<Longrightarrow> same_rules lx lx'"
proof -
  have "r = Inr (r1, lx', b') \<Longrightarrow> same_rules lx lx'"
    if "scan_skip pos c lx b = Some r" for pos c lx b r r1 lx' b'
    using that
  proof (induction arbitrary: r1 lx' b' rule: scan_skip.raw_induct [rotated, consumes 1, case_names 1])
    case (1 f pos c lx b y)
    show ?case
    proof (cases "\<not> ib_log_fully_consumed b \<and> (\<not> lx_is_first_char_of_a_variable lx c \<or> \<not> lx_is_delimiter lx c)")
      case False
      with "1.prems" "1.hyps" show ?thesis by auto
    next
      case True
      show ?thesis
      proof (cases "ib_get_next_character b c")
        case (Inr n)
        obtain err c' b1 where n: "n = (err, c', b1)" by (metis prod_cases3)
        with Inr True "1.hyps" "1.prems" "1.IH" show ?thesis by (auto split: if_splits)
      qed (use True "1.hyps" "1.prems" in auto)
    qed
  qed
  then show "scan_skip pos c lx b = Some (Inr (r, lx', b')) \<Longrightarrow> same_rules lx lx'" by blast
qed

lemma matched_rules: "scan_matched lx b = Inr (r, lx', b') \<Longrightarrow> same_rules lx lx'"
  using release_rules
  by (fastforce simp: scan_matched_def Let_def same_rules_def lx_set_last_match_def split: if_splits)

lemma at_end_rules: "scan_at_end lx b = (r, lx') \<Longrightarrow> same_rules lx lx'"
  by (auto simp: scan_at_end_def split: if_splits option.splits)

lemma decide_rules: "scan_decide pos c lx b = Some (Inr (r, lx', b')) \<Longrightarrow> same_rules lx lx'"
  using matched_rules at_end_rules skip_rules
  by (fastforce simp: scan_decide_def same_rules_def split: if_splits option.splits prod.splits sum.splits)

lemma round_rules: "scan_round lx b = Some (Inr (r, lx', b')) \<Longrightarrow> same_rules lx lx'"
proof -
  assume r: "scan_round lx b = Some (Inr (r, lx', b'))"
  then obtain err c b1 where n: "ib_get_next_character b cCharErr = Inr (err, c, b1)"
    by (auto simp: scan_round_def split: sum.splits)
  show ?thesis
  proof (cases "err = Success")
    case False
    with r n show ?thesis by (auto simp: scan_round_def)
  next
    case True
    let ?lx1 = "scan_note_delimiter c (ib_pos b) lx"
    from r n True obtain lx2 lx2' cont lx3 where s: "scan_note_match c (ib_pos b) b1 ?lx1 = Inr lx2"
      "lx_process_char c (ib_pos b) lx2 = Inr lx2'" "scan_newline c (ib_pos b) b1 lx2' = Inr (cont, lx3)"
      and e: "(if \<not> cont \<and> (ib_log_fully_consumed b1 \<or> lx_state lx3 = None)
         then scan_decide (ib_pos b) c lx3 b1 else Some (Inr (ScanGoOn, lx3, b1))) = Some (Inr (r, lx', b'))"
      by (auto simp: scan_round_def Let_def split: sum.splits prod.splits)
    have "same_rules lx lx3"
      using note_delimiter_rules note_match_rules [OF s(1)] process_char_rules [OF s(2)] newline_rules [OF s(3)]
      by (meson same_rules_trans)
    with e decide_rules show ?thesis by (auto split: if_splits intro: same_rules_trans)
  qed
qed

lemma loop_rules: "scan_loop lx b = Some (Inr (r, lx', b')) \<Longrightarrow> same_rules lx lx'"
proof -
  have "r = Inr (r1, lx', b') \<Longrightarrow> same_rules lx lx'" if "scan_loop lx b = Some r" for lx b r r1 lx' b'
    using that
  proof (induction arbitrary: r1 lx' b' rule: scan_loop.raw_induct [rotated, consumes 1, case_names 1])
    case (1 f lx b y)
    show ?case
    proof (cases "scan_round lx b")
      case (Some x)
      show ?thesis
      proof (cases x)
        case (Inr n)
        obtain o1 lx1 b1 where n: "n = (o1, lx1, b1)" by (metis prod_cases3)
        have s: "same_rules lx lx1" using round_rules [of lx b o1 lx1 b1] Some Inr n by simp
        show ?thesis
        proof (cases o1)
          case ScanGoOn
          with Some Inr n "1.hyps" "1.prems" "1.IH" same_rules_trans [OF s] show ?thesis by simp
        qed (use s Some Inr n "1.hyps" "1.prems" in simp)
      qed (use Some "1.hyps" "1.prems" in auto)
    qed (use "1.hyps" in auto)
  qed
  then show "scan_loop lx b = Some (Inr (r, lx', b')) \<Longrightarrow> same_rules lx lx'" by blast
qed

lemma begin_rules: "scan_begin lx b = Inr (r, lx', b') \<Longrightarrow> same_rules lx lx'"
  using release_rules
  by (fastforce simp: scan_begin_def Let_def same_rules_def lx_set_last_match_def split: if_splits option.splits)

lemma scan_same_rules:
  assumes "lx_scan lx b = Some (Inr (r, lx', b'))"
  shows "same_rules lx lx'"
proof -
  from assms obtain o1 lx1 b1 where b: "scan_begin lx b = Inr (o1, lx1, b1)"
    by (cases "scan_begin lx b") (auto simp: lx_scan_def)
  show ?thesis
  proof (cases o1)
    case ScanGoOn
    with assms b have "scan_loop lx1 b1 = Some (Inr (r, lx', b'))" by (simp add: lx_scan_def)
    from same_rules_trans [OF begin_rules [OF b] loop_rules [OF this]] show ?thesis .
  qed (use assms b begin_rules [OF b] in \<open>simp add: lx_scan_def\<close>)
qed

section \<open>The log in the memory of the caller\<close>

text \<open>The array of the caller holds the log and what comes after it.\<close>

definition user_storage :: "string \<Rightarrow> string \<Rightarrow> char storage" where
  "user_storage w tail = \<lparr>st_size = length w + length tail, st_cell = \<lambda>i. (w @ tail) ! i\<rparr>"

definition user_buffer :: "string \<Rightarrow> input_buffer \<Rightarrow> string \<Rightarrow> nat \<Rightarrow> bool \<Rightarrow> input_buffer" where
  "user_buffer tail b w p f =
     ib_set_log_fully_consumed (ib_set_storage b (user_storage w tail) (length w) p True) f"

lemmas user_buffer_defs = user_buffer_def ib_set_storage_def ib_set_log_fully_consumed_def Let_def
  bf_set_active_buffer_def

interpretation user: text_source "user_buffer tail b" small_text for tail b
proof unfold_locales
  fix w :: string and p x f
  assume w: "small_text w"
  then have size2: "u32 (length w * 2) = length w * 2" by (simp add: small_text_def)
  note defs = user_buffer_defs ib_get_next_character_def bf_get_curr_value_def bf_get_value_def
    bf_active_def bf_storage_def st_get_def user_storage_def bf_increment_pos_def bf_set_pos_def
  show "ib_get_next_character (user_buffer tail b w p f) x =
      Inr (Success, of_char (w ! p), user_buffer tail b w (Suc p) f)" if "p < length w"
  proof -
    have "u32 (Suc p) = Suc p" using that w by (simp add: small_text_def)
    with that size2 show ?thesis by (simp add: defs nth_append)
  qed
  show "ib_get_next_character (user_buffer tail b w (length w) f) x =
      Inr (Success, cCharEOF, user_buffer tail b w (length w) True)"
    by (simp add: defs)
  show "st_slice (bf_active (ib_storage (user_buffer tail b w p f))) s k = Inr (take k (drop s w))"
    if "s + k \<le> length w" for s k
    using that by (auto simp: defs st_slice_def nth_append intro!: nth_equalityI)
  show "length w \<le> ib_size (user_buffer tail b w p f)" using size2 by (simp add: defs)
qed (simp_all add: user_buffer_defs ib_set_pos_def bf_set_pos_def)

lemma user_buffer_simps [simp]:
  "bf_given_storage (ib_storage (user_buffer tail b w p f)) = user_storage w tail"
  "bf_active_storage (ib_storage (user_buffer tail b w p f)) = GivenStorage"
  "ib_size (user_buffer tail b w p f) = u32 (length w * 2)"
  "bf_storage (ib_storage (user_buffer tail b w p f)) GivenStorage = user_storage w tail"
  by (simp_all add: user_buffer_defs bf_storage_def)

text \<open>Handing the same log over again, wherever the consumed position is.\<close>

lemma user_buffer_again:
  "ib_set_storage b' (user_storage w tail) (length w) p True = user_buffer tail b w p False"
  if "b' = b \<or> b' = user_buffer tail b w p' f' \<or> b' = ib_set_consumed_pos (user_buffer tail b w p' f') c"
  using that by (auto simp: user_buffer_defs ib_reset_def bf_reset_def ib_set_consumed_pos_def)

section \<open>The tokens that are fed\<close>

type_synonym log_piece = "nat list option \<times> string"

abbreviation end_piece :: log_piece where
  "end_piece \<equiv> (Some cTokenEndTypes, [])"

text \<open>A token that lies in the log, with the piece it stands for.\<close>

definition tok_shows :: "string \<Rightarrow> token \<Rightarrow> log_piece \<Rightarrow> bool" where
  "tok_shows w t piece \<longleftrightarrow> tk_start_pos t \<le> tk_end_pos t \<and> tk_end_pos t \<le> length w \<and>
     tk_buffer t = GivenStorage \<and> tk_buffer_size t = 2 * length w \<and> tk_cached_string t = [] \<and>
     tk_type_ids t = fst piece \<and> snd piece = take (tk_end_pos t - tk_start_pos t) (drop (tk_start_pos t) w)"

lemma spans_shows:
  assumes "small_text w" "token_spans (user_buffer tail b w p f) t l l'" "l \<le> l'" "l' \<le> length w"
  shows "tok_shows w t (tk_type_ids t, take (l' - l) (drop l w))"
proof -
  have "u32 (length w * 2) = 2 * length w" using assms(1) by (simp add: small_text_def)
  with assms show ?thesis by (simp add: token_spans_def tok_shows_def)
qed

text \<open>
  \<open>feeds tail b w lx p f ts\<close>: scanning from the lexer \<open>lx\<close> with the input at \<open>p\<close> returns tokens that
  show \<open>ts\<close>, and goes on doing so if the input is handed over again at the position it has reached.
\<close>

inductive feeds ::
  "string \<Rightarrow> input_buffer \<Rightarrow> string \<Rightarrow> lexer \<Rightarrow> nat \<Rightarrow> bool \<Rightarrow> log_piece list \<Rightarrow> bool" for tail b w where
  feeds_end: "lx_scan lx (user_buffer tail b w p f) =
      Some (Inr ((Success, Some t), lx', user_buffer tail b w p' f')) \<Longrightarrow>
    tok_shows w t end_piece \<Longrightarrow> same_rules lx lx' \<Longrightarrow> feeds tail b w lx p f [end_piece]"
| feeds_piece: "lx_scan lx (user_buffer tail b w p f) =
      Some (Inr ((Success, Some t), lx', user_buffer tail b w p' f')) \<Longrightarrow>
    tok_shows w t piece \<Longrightarrow> snd piece \<noteq> [] \<Longrightarrow> same_rules lx lx' \<Longrightarrow> p' \<le> length w \<Longrightarrow>
    feeds tail b w lx' p' f' ts \<Longrightarrow> feeds tail b w lx' p' False ts \<Longrightarrow>
    feeds tail b w lx p f (piece # ts)"

inductive_cases feeds_ConsE: "feeds tail b w lx p f (piece # ts)"
inductive_cases feeds_NilE [elim!]: "feeds tail b w lx p f []"

text \<open>Handing over the buffer resets the flag that the end has been noticed; scanning does not mind.\<close>

lemma user_buffer_inj: "user_buffer tail b w p f = user_buffer tail b w p' f' \<longleftrightarrow> p = p' \<and> f = f'"
proof
  assume e: "user_buffer tail b w p f = user_buffer tail b w p' f'"
  have "ib_pos (user_buffer tail b w p f) = ib_pos (user_buffer tail b w p' f')"
    "ib_log_fully_consumed (user_buffer tail b w p f) = ib_log_fully_consumed (user_buffer tail b w p' f')"
    by (simp_all only: e)
  then show "p = p' \<and> f = f'" by simp
qed simp

lemma next_at_reset:
  assumes "next_at (user_buffer tail b) d delim w lx (user_buffer tail b w p f) l"
  shows "next_at (user_buffer tail b) d delim w lx (user_buffer tail b w p False) l"
  using assms by (auto simp: next_at_def user_buffer_inj split: if_splits)

lemma scan_reset:
  assumes w: "small_text w" and n: "next_at (user_buffer tail b) d delim w lx (user_buffer tail b w p f) l"
    and s: "lx_scan lx (user_buffer tail b w p f) = Some (Inr (r, lx', user_buffer tail b w q g))"
  shows "\<exists>g'. lx_scan lx (user_buffer tail b w p False) = Some (Inr (r, lx', user_buffer tail b w q g')) \<and>
    (g' = g \<or> g' = False)"
proof (cases "f \<and> \<not> lx_match lx \<and> lx_first_delimiter_pos lx = None")
  case False
  consider "\<not> f" | "lx_match lx" | pos where "\<not> lx_match lx" "lx_first_delimiter_pos lx = Some pos"
    using False by auto
  then show ?thesis
  proof cases
    case 1
    with s show ?thesis by auto
  next
    case 2
    have a: "\<not> lx_asked_for_more_data lx" using n by (simp add: next_at_def)
    have rel: "lx_release_token (user_buffer tail b w p f) lx1 = lx_release_token (user_buffer tail b w p False) lx1" for lx1
      by (simp add: lx_release_token_def)
    obtain root where "lx_root lx = Inr root" using s a
      by (cases "lx_root lx") (auto simp: lx_scan_def scan_begin_def)
    with 2 a s show ?thesis
      by (cases "lx_release_token (user_buffer tail b w p False) (lx_set_last_match (lx\<lparr>lx_state := Some root\<rparr>))")
        (auto simp: lx_scan_def scan_begin_def Let_def rel user_buffer_inj simp del: rbind_eq_Inr)
  next
    case 3
    with s have "lx_scan lx (user_buffer tail b w p False) = Some (Inr (r, lx', user_buffer tail b w q g))"
      using n by (simp add: lx_scan_def scan_begin_def next_at_def Let_def)
    then show ?thesis by blast
  qed
next
  case True
  with n have p: "p = length w" "\<not> lx_asked_for_more_data lx"
    by (auto simp: next_at_def user_buffer_inj)
  have rnd: "scan_round lx1 (user_buffer tail b w p f) = scan_round lx1 (user_buffer tail b w p False)" for lx1
    by (simp add: scan_round_def p(1) user.fetch_end [OF w])
  have "scan_loop lx1 (user_buffer tail b w p f) = scan_loop lx1 (user_buffer tail b w p False)" for lx1
    by (subst (1 2) scan_loop.simps) (simp only: rnd)
  with s True p(2) have "lx_scan lx (user_buffer tail b w p False) = Some (Inr (r, lx', user_buffer tail b w q g))"
    by (cases "lx_root lx") (auto simp: lx_scan_def scan_begin_def Let_def)
  then show ?thesis by blast
qed

text \<open>Between two calls the lexer feeds the rest of the log, in the chain its automaton gives.\<close>

lemma next_at_feeds:
  assumes w: "small_text w" and d: "lexing_dfa d"
  shows "next_at (user_buffer tail b) d delim w lx (user_buffer tail b w p f) l \<Longrightarrow>
    \<exists>ts. feeds tail b w lx p f ts \<and> feeds tail b w lx p False ts \<and> token_chain d delim w 0 l ts"
proof (induction "length w - l" arbitrary: lx p f l rule: less_induct)
  case less
  note n = less.prems
  from user.lx_scan_next [OF w d n] obtain t lx' b' l' where
    t: "lx_scan lx (user_buffer tail b w p f) = Some (Inr ((Success, Some t), lx', b'))" "token_spans b' t l l'"
      "l \<le> l'" "l' \<le> length w" "token_for d delim w 0 l (tk_type_ids t) l'"
      "next_at (user_buffer tail b) d delim w lx' b' l'"
    unfolding scan_gives_def by blast
  from user.gives_buffer [OF t(6)] obtain q g where b': "b' = user_buffer tail b w q g" by blast
  from scan_reset [OF w n t(1) [unfolded b']] obtain g' where
    g': "lx_scan lx (user_buffer tail b w p False) = Some (Inr ((Success, Some t), lx', user_buffer tail b w q g'))"
      "g' = g \<or> g' = False" by blast
  have rules: "same_rules lx lx'" by (rule scan_same_rules [OF t(1)])
  have sh: "tok_shows w t (tk_type_ids t, take (l' - l) (drop l w))"
    by (rule spans_shows [OF w t(2) [unfolded b'] t(3,4)])
  show ?case
  proof (cases "l < l'")
    case True
    with t(4) have "length w - l' < length w - l" by simp
    from less.hyps [OF this t(6) [unfolded b']] obtain ts where
      ts: "feeds tail b w lx' q g ts" "feeds tail b w lx' q False ts" "token_chain d delim w 0 l' ts" by blast
    let ?t = "(tk_type_ids t, take (l' - l) (drop l w))"
    have "token_chain d delim w 0 l (?t # ts)"
      by (rule chain_token [OF _ t(3,4) ts(3)]) (use t(4,5) True in \<open>auto simp: token_for_def\<close>)
    moreover have "snd ?t \<noteq> []" using True t(4) by simp
    moreover have "q \<le> length w"
      using t(6) unfolding b' by (auto simp: next_at_def user_buffer_inj dest: var_token_bounds split: if_splits)
    ultimately show ?thesis
      using feeds_piece [OF t(1) [unfolded b'] sh] feeds_piece [OF g'(1) sh] ts(1,2) g'(2) rules by blast
  next
    case False
    with t(3,5) have e: "l = length w" "tk_type_ids t = Some cTokenEndTypes"
      by (auto simp: token_for_def token_proper_def)
    with sh t(4) have "tok_shows w t end_piece" by simp
    with feeds_end [OF t(1) [unfolded b']] feeds_end [OF g'(1)] rules chain_end [of d delim w 0] e(1) show ?thesis by blast
  qed
qed

lemma started_feeds:
  assumes w: "small_text w" and d: "lexing_dfa d" and lx: "started_at d delim lx q"
    and q: "\<not> ds_is_accepting (df_states d ! q)"
  shows "\<exists>ts. feeds tail b w lx 0 False ts \<and> token_chain d delim w q 0 ts"
proof -
  from user.lx_scan_first [OF w d lx] obtain t lx' b' l' where
    t: "lx_scan lx (user_buffer tail b w 0 False) = Some (Inr ((Success, Some t), lx', b'))" "token_spans b' t 0 l'"
      "l' \<le> length w" "token_for d delim w q 0 (tk_type_ids t) l'" "next_at (user_buffer tail b) d delim w lx' b' l'"
    unfolding scan_gives_def by blast
  from user.gives_buffer [OF t(5)] obtain p g where b': "b' = user_buffer tail b w p g" by blast
  have rules: "same_rules lx lx'" by (rule scan_same_rules [OF t(1)])
  have sh: "tok_shows w t (tk_type_ids t, take l' w)"
    using spans_shows [OF w t(2) [unfolded b']] t(3) by simp
  show ?thesis
  proof (cases "token_proper d delim w q 0 (tk_type_ids t) l'")
    case True
    have "0 < l'"
    proof (rule ccontr)
      assume "\<not> 0 < l'"
      with True q show False
        by (auto simp: token_proper_def var_token_def var_upto_def good_end_def)
    qed
    with t(3) have some: "take l' w \<noteq> []" by auto
    from next_at_feeds [OF w d t(5) [unfolded b']] obtain ts where
      ts: "feeds tail b w lx' p g ts" "feeds tail b w lx' p False ts" "token_chain d delim w 0 l' ts" by blast
    have "p \<le> length w"
      using t(5) unfolding b' by (auto simp: next_at_def user_buffer_inj dest: var_token_bounds split: if_splits)
    from feeds_piece [OF t(1) [unfolded b'] sh _ rules this ts(1,2)] some
    have "feeds tail b w lx 0 False ((tk_type_ids t, take l' w) # ts)" by simp
    moreover have "token_chain d delim w q 0 ((tk_type_ids t, take (l' - 0) (drop 0 w)) # ts)"
      by (rule chain_token [OF True _ t(3) ts(3)]) simp
    ultimately show ?thesis by auto
  next
    case False
    with t(4) have e: "tk_type_ids t = Some cTokenEndTypes" "w = []" "l' = 0" by (auto simp: token_for_def)
    with sh have "tok_shows w t end_piece" by simp
    from feeds_end [OF t(1) [unfolded b'] this rules] chain_end [of d delim w q] e(2) show ?thesis by auto
  qed
qed

end
