(* ===== verification/Log_Event.thy ===== *)
theory Log_Event
  imports Lexer
begin

text \<open>
  \<^verbatim>\<open>LogParserOutputBuffer.hpp\<close>, \<^verbatim>\<open>LogParserOutputBuffer.cpp\<close>: the
  tokens of the log event being parsed; \<^verbatim>\<open>LogEvent.hpp\<close>,
  \<^verbatim>\<open>LogEvent.cpp\<close>: the view of a parsed event, its text and log type, and the copy
  that owns its text. The lexer a view refers to and the memory its tokens lie in are arguments.
\<close>

section \<open>The output buffer\<close>

record output_buffer =
  ob_has_header :: bool
  ob_timestamp :: "string option"
  ob_has_delimiters :: bool
  ob_storage :: "token buffer"

abbreviation ob_pos :: "output_buffer \<Rightarrow> nat" where
  "ob_pos ob \<equiv> bf_pos (ob_storage ob)"

definition ob_new :: output_buffer where
  "ob_new = \<lparr>ob_has_header = False, ob_timestamp = None, ob_has_delimiters = False,
     ob_storage = bf_new (\<lambda>_. token_default)\<rparr>"

definition ob_reset :: "output_buffer \<Rightarrow> output_buffer" where
  "ob_reset ob = \<lparr>ob_has_header = False, ob_timestamp = None, ob_has_delimiters = False,
     ob_storage = bf_reset (ob_storage ob)\<rparr>"

definition ob_set_token :: "nat \<Rightarrow> token \<Rightarrow> output_buffer \<Rightarrow> output_buffer res" where
  "ob_set_token i t ob =
     rbind (bf_set_value (ob_storage ob) i t) (\<lambda>s. Inr (ob\<lparr>ob_storage := s\<rparr>))"

definition ob_get_token :: "nat \<Rightarrow> output_buffer \<Rightarrow> token res" where
  "ob_get_token i ob = bf_get_value (ob_storage ob) i"

definition ob_set_curr_token :: "token \<Rightarrow> output_buffer \<Rightarrow> output_buffer res" where
  "ob_set_curr_token t ob =
     rbind (bf_set_curr_value (ob_storage ob) t) (\<lambda>s. Inr (ob\<lparr>ob_storage := s\<rparr>))"

definition ob_get_curr_token :: "output_buffer \<Rightarrow> token res" where
  "ob_get_curr_token ob = bf_get_curr_value (ob_storage ob)"

definition ob_set_pos :: "nat \<Rightarrow> output_buffer \<Rightarrow> output_buffer" where
  "ob_set_pos i ob = ob\<lparr>ob_storage := bf_set_pos (ob_storage ob) i\<rparr>"

definition ob_advance_to_next_token :: "output_buffer \<Rightarrow> output_buffer res" where
  "ob_advance_to_next_token ob =
     (let s = bf_increment_pos (ob_storage ob)
      in if bf_pos s = bf_active_size s
         then let old_storage = bf_active_storage s; old_size = bf_active_size s
              in rbind (bf_copy (bf_double_size token_default s) old_storage 0 old_size 0)
                   (\<lambda>s'. Inr (ob\<lparr>ob_storage := s'\<rparr>))
         else Inr (ob\<lparr>ob_storage := s\<rparr>))"

section \<open>Views\<close>

text \<open>A pointer to a token of the output buffer: the array it is in and its index.\<close>

type_synonym token_ptr = "storage_ptr \<times> nat"

record log_event_view =
  lv_output :: output_buffer
  lv_multiline :: bool
  lv_log_var_occurrences :: "token_ptr list list"

definition lv_new :: "lexer \<Rightarrow> log_event_view" where
  "lv_new lx = \<lparr>lv_output = ob_new, lv_multiline = False,
     lv_log_var_occurrences = replicate (length (lx_id_symbol lx)) []\<rparr>"

definition lv_reset :: "log_event_view \<Rightarrow> log_event_view" where
  "lv_reset v = \<lparr>lv_output = ob_reset (lv_output v), lv_multiline = False,
     lv_log_var_occurrences = map (\<lambda>_. []) (lv_log_var_occurrences v)\<rparr>"

definition lv_get_variables :: "log_event_view \<Rightarrow> nat \<Rightarrow> token_ptr list res" where
  "lv_get_variables v variable_id =
     (if variable_id < length (lv_log_var_occurrences v)
      then Inr (lv_log_var_occurrences v ! variable_id) else Inl UndefinedBehavior)"

definition lv_add_token :: "nat \<Rightarrow> token_ptr \<Rightarrow> log_event_view \<Rightarrow> log_event_view res" where
  "lv_add_token token_type_id p v =
     rbind (lv_get_variables v token_type_id) (\<lambda>ps.
       Inr (v\<lparr>lv_log_var_occurrences := (lv_log_var_occurrences v)[token_type_id := ps @ [p]]\<rparr>))"

text \<open>\<^verbatim>\<open>get_type_ids()->at(0)\<close>.\<close>

definition tk_type :: "token \<Rightarrow> nat res" where
  "tk_type t =
     (case tk_type_ids t of
        None \<Rightarrow> Inl NullDeref
      | Some [] \<Rightarrow> Inl OutOfRange
      | Some (i # _) \<Rightarrow> Inr i)"

text \<open>The index of the first token: without a header the first place is not used.\<close>

definition ob_first :: "output_buffer \<Rightarrow> nat" where
  "ob_first ob = (if ob_has_header ob then 0 else 1)"

definition append_token_text :: "memory \<Rightarrow> nat \<Rightarrow> string \<times> output_buffer \<Rightarrow> (string \<times> output_buffer) res" where
  "append_token_text mem i = (\<lambda>(raw_log, ob).
     rbind (ob_get_token i ob) (\<lambda>t. rbind (tk_to_string_view mem t) (\<lambda>(str, t').
       rbind (ob_set_token i t' ob) (\<lambda>ob'. Inr (raw_log @ str, ob')))))"

definition lv_to_string :: "memory \<Rightarrow> log_event_view \<Rightarrow> (string \<times> log_event_view) res" where
  "lv_to_string mem v =
     rbind (rfold (append_token_text mem) [ob_first (lv_output v)..<ob_pos (lv_output v)] ([], lv_output v))
       (\<lambda>(raw_log, ob). Inr (raw_log, v\<lparr>lv_output := ob\<rparr>))"

section \<open>Captures and the log type\<close>

datatype log_event_error = NoCaptureGroups | NoCaptureGroupMatch

record capture_match =
  cm_capture :: capture
  cm_start :: int
  cm_end :: int
  cm_leaf :: bool

type_synonym 'a lookup = "(log_event_error + 'a) res option"

definition lv_get_capture_position :: "lexer \<Rightarrow> token \<Rightarrow> capture \<Rightarrow> (int \<times> int) lookup" where
  "lv_get_capture_position lx root_var c =
     cbind (Some (lx_get_reg_ids_from_capture lx c)) (\<lambda>(start_reg_id, end_reg_id).
       cbind (tk_get_reversed_reg_positions root_var start_reg_id) (\<lambda>start_positions.
         cbind (tk_get_reversed_reg_positions root_var end_reg_id) (\<lambda>end_positions.
           Some (Inr (case (start_positions, end_positions) of
               (s # _, e # _) \<Rightarrow> if s < 0 \<or> e < 0 then Inl NoCaptureGroupMatch else Inr (s, e)
             | _ \<Rightarrow> Inl NoCaptureGroupMatch)))))"

definition capture_match_less :: "capture_match \<Rightarrow> capture_match \<Rightarrow> bool" where
  "capture_match_less a b \<longleftrightarrow>
     (if cm_start a \<noteq> cm_start b then cm_start a < cm_start b else cm_end b < cm_end a)"

fun collect_matches ::
  "lexer \<Rightarrow> token \<Rightarrow> capture list \<Rightarrow> capture_match list \<Rightarrow> capture_match list lookup" where
  "collect_matches lx root_var [] ordered_matches = Some (Inr (Inr ordered_matches))"
| "collect_matches lx root_var (c # cs) ordered_matches =
     cbind (lv_get_capture_position lx root_var c) (\<lambda>position.
       case position of
         Inl NoCaptureGroupMatch \<Rightarrow> collect_matches lx root_var cs ordered_matches
       | Inl e \<Rightarrow> Some (Inr (Inl e))
       | Inr (s, e) \<Rightarrow> collect_matches lx root_var cs
           (sset_insert capture_match_less
             \<lparr>cm_capture = c, cm_start = s, cm_end = e, cm_leaf = True\<rparr> ordered_matches))"

text \<open>A match is a leaf if it ends before the next one starts; the last one always is.\<close>

fun mark_leaves :: "capture_match list \<Rightarrow> capture_match list" where
  "mark_leaves (m # n # ms) = m\<lparr>cm_leaf := (cm_end m \<le> cm_start n)\<rparr> # mark_leaves (n # ms)"
| "mark_leaves [m] = [m\<lparr>cm_leaf := True\<rparr>]"
| "mark_leaves [] = []"

definition lv_get_capture_matches :: "lexer \<Rightarrow> token \<Rightarrow> capture_match list lookup" where
  "lv_get_capture_matches lx root_var =
     cbind (Some (tk_type root_var)) (\<lambda>rule_id.
       case lx_get_captures_from_rule_id lx rule_id of
         None \<Rightarrow> Some (Inr (Inl NoCaptureGroups))
       | Some captures \<Rightarrow>
           map_option (map_sum id (map_sum id mark_leaves)) (collect_matches lx root_var captures []))"

definition lx_get_id_symbol :: "lexer \<Rightarrow> nat \<Rightarrow> string res" where
  "lx_get_id_symbol lx i = (case map_of (lx_id_symbol lx) i of None \<Rightarrow> Inl OutOfRange | Some str \<Rightarrow> Inr str)"

definition sub_token_text :: "memory \<Rightarrow> token \<Rightarrow> nat \<Rightarrow> nat \<Rightarrow> string res" where
  "sub_token_text mem t start_pos end_pos =
     rbind (tk_get_sub_token t start_pos end_pos) (\<lambda>t'.
       rbind (tk_to_string_view mem t') (\<lambda>(str, t''). Inr str))"

definition append_match :: "memory \<Rightarrow> token \<Rightarrow> capture_match \<Rightarrow> string \<times> nat \<Rightarrow> (string \<times> nat) res" where
  "append_match mem t m = (\<lambda>(logtype, prev_end_pos).
     if cm_leaf m
     then rbind (sub_token_text mem t prev_end_pos (nat (cm_start m))) (\<lambda>str.
            Inr (logtype @ str @ ''<'' @ cap_name (cm_capture m) @ ''>'', nat (cm_end m)))
     else Inr (logtype, prev_end_pos))"

text \<open>The part of the log type that stands for the token at an index.\<close>

definition token_logtype :: "lexer \<Rightarrow> memory \<Rightarrow> output_buffer \<Rightarrow> nat \<Rightarrow> string res option" where
  "token_logtype lx mem ob i =
     cbind (Some (rbind (ob_get_token i ob) (\<lambda>t. rbind (tk_type t) (\<lambda>rule_id. Inr (t, rule_id)))))
       (\<lambda>(t, rule_id).
         if rule_id = symbol_num TokenUncaughtString
         then Some (rbind (tk_to_string_view mem t) (\<lambda>(str, t'). Inr str))
         else
           cbind (Some (if rule_id \<noteq> symbol_num TokenNewline \<and> i \<noteq> ob_first ob
                        then rbind (tk_release_delimiter mem t) (\<lambda>(delim, t'). Inr ([delim], t'))
                        else Inr ([], t))) (\<lambda>(delim, t1).
             cbind (lv_get_capture_matches lx t1) (\<lambda>matches.
               Some (rbind
                 (case matches of
                    Inl _ \<Rightarrow> rbind (lx_get_id_symbol lx rule_id) (\<lambda>name. Inr (''<'' @ name @ ''>''))
                  | Inr ms \<Rightarrow>
                      rbind (rfold (append_match mem t1) ms ([], tk_start_pos t1)) (\<lambda>(str, prev_end_pos).
                        rbind (sub_token_text mem t1 prev_end_pos (tk_end_pos t1)) (\<lambda>rest. Inr (str @ rest))))
                 (\<lambda>str. Inr (delim @ str))))))"

definition lv_get_logtype :: "lexer \<Rightarrow> memory \<Rightarrow> log_event_view \<Rightarrow> string res option" where
  "lv_get_logtype lx mem v =
     cfold (\<lambda>i logtype. cbind (token_logtype lx mem (lv_output v) i) (\<lambda>str. Some (Inr (logtype @ str))))
       [ob_first (lv_output v)..<ob_pos (lv_output v)] []"

section \<open>Events that own their text\<close>

record log_event =
  le_view :: log_event_view
  le_buffer :: "char storage"

text \<open>The tokens of the copy point into its own buffer.\<close>

definition le_memory :: "log_event \<Rightarrow> memory" where
  "le_memory e = (\<lambda>_. le_buffer e)"

definition add_token_length :: "output_buffer \<Rightarrow> nat \<Rightarrow> nat \<Rightarrow> nat res" where
  "add_token_length ob i buffer_size =
     rbind (ob_get_token i ob) (\<lambda>t. Inr (u32 (buffer_size + tk_get_length t)))"

text \<open>Copying one token: the source's token may cache its string, the text goes into the buffer.\<close>

type_synonym copy_state = "output_buffer \<times> output_buffer \<times> char storage \<times> nat"

definition copy_token :: "memory \<Rightarrow> nat \<Rightarrow> nat \<Rightarrow> copy_state \<Rightarrow> copy_state res" where
  "copy_token mem buffer_size i = (\<lambda>(src, dest, buf, curr_pos).
     rbind (ob_get_token i src) (\<lambda>t. rbind (tk_to_string_view mem t) (\<lambda>(str, t').
       rbind (ob_set_token i t' src) (\<lambda>src'.
         rbind (st_write buf curr_pos str) (\<lambda>buf'.
           let end_pos = u32 (curr_pos + length str);
               copied_token = token_new_plain curr_pos end_pos GivenStorage buffer_size 0 (tk_type_ids t)
           in rbind (ob_set_curr_token copied_token dest) (\<lambda>dest1.
                rbind (ob_advance_to_next_token dest1) (\<lambda>dest2.
                  Inr (src', dest2, buf', end_pos))))))))"

definition index_token :: "nat \<Rightarrow> log_event_view \<Rightarrow> log_event_view res" where
  "index_token i v =
     rbind (ob_get_token i (lv_output v)) (\<lambda>t. rbind (tk_type t) (\<lambda>token_type.
       lv_add_token token_type (bf_active_storage (ob_storage (lv_output v)), i) v))"

definition log_event_new :: "lexer \<Rightarrow> memory \<Rightarrow> log_event_view \<Rightarrow> (log_event \<times> log_event_view) res" where
  "log_event_new lx mem src =
     (let out = lv_output src;
          indices = [ob_first out..<ob_pos out];
          dest = (ob_new\<lparr>ob_has_header := ob_has_header out, ob_timestamp := ob_timestamp out,
                    ob_has_delimiters := ob_has_delimiters out\<rparr>)
      in rbind (rfold (add_token_length out) indices 0) (\<lambda>buffer_size.
        if buffer_size = 0 then Inl RuntimeError
        else rbind (rfold (copy_token mem buffer_size) indices
               (out, dest, \<lparr>st_size = buffer_size, st_cell = \<lambda>_. CHR 0x00\<rparr>, 0))
             (\<lambda>(out', dest', buf, curr_pos).
               rbind (rfold index_token [0..<ob_pos dest']
                   ((lv_new lx)\<lparr>lv_multiline := lv_multiline src, lv_output := dest'\<rparr>))
                 (\<lambda>v. Inr (\<lparr>le_view = v, le_buffer = buf\<rparr>, src\<lparr>lv_output := out'\<rparr>)))))"

end
