(* ===== verification/Log_Event_Correct.thy ===== *)
theory Log_Event_Correct
  imports Log_Event
begin

text \<open>
  What a view shows: its text is the texts of its tokens, and the copy that owns its text has the
  same tokens, at indices from 0.
\<close>

section \<open>The cells of an output buffer\<close>

definition ob_cell :: "output_buffer \<Rightarrow> nat \<Rightarrow> token" where
  "ob_cell ob i = st_cell (bf_active (ob_storage ob)) i"

abbreviation ob_size :: "output_buffer \<Rightarrow> nat" where
  "ob_size ob \<equiv> bf_active_size (ob_storage ob)"

definition ob_ok :: "output_buffer \<Rightarrow> bool" where
  "ob_ok ob \<longleftrightarrow> bf_ok (ob_storage ob) \<and> ob_pos ob < ob_size ob \<and> cStaticByteBuffSize \<le> ob_size ob \<and>
     st_size (bf_static_storage (ob_storage ob)) = cStaticByteBuffSize"

lemma ob_get_token_ok: "ob_ok ob \<Longrightarrow> i < ob_size ob \<Longrightarrow> ob_get_token i ob = Inr (ob_cell ob i)"
  by (simp add: ob_ok_def bf_ok_def ob_get_token_def bf_get_value_def st_get_def ob_cell_def)

lemma bf_set_active_static:
  "st_size s = st_size (bf_active b) \<Longrightarrow>
     st_size (bf_static_storage (bf_set_active s b)) = st_size (bf_static_storage b)"
  by (simp add: bf_set_active_def bf_active_def bf_storage_def split: storage_ptr.splits)

lemma bf_copy_static:
  "bf_copy b p start fin offset = Inr b' \<Longrightarrow>
     st_size (bf_static_storage b') = st_size (bf_static_storage b)"
  by (auto simp: bf_copy_def st_write_def bf_set_active_static split: if_splits)

lemma ob_set_token_ok:
  assumes "ob_ok ob" "i < ob_size ob"
  shows "\<exists>ob'. ob_set_token i t ob = Inr ob' \<and> ob_ok ob' \<and> ob_pos ob' = ob_pos ob \<and> ob_size ob' = ob_size ob \<and>
    ob_cell ob' = (ob_cell ob)(i := t) \<and> ob_has_header ob' = ob_has_header ob \<and>
    ob_timestamp ob' = ob_timestamp ob \<and> ob_has_delimiters ob' = ob_has_delimiters ob"
proof -
  have b: "bf_ok (ob_storage ob)" "st_size (bf_active (ob_storage ob)) = ob_size ob"
    using assms(1) by (simp_all add: ob_ok_def bf_ok_def)
  let ?s = "(bf_active (ob_storage ob))\<lparr>st_cell := (st_cell (bf_active (ob_storage ob)))(i := t)\<rparr>"
  have "ob_set_token i t ob = Inr (ob\<lparr>ob_storage := bf_set_active ?s (ob_storage ob)\<rparr>)"
    using assms(2) b(2) by (simp add: ob_set_token_def bf_set_value_def st_put_def del: rbind_eq_Inr)
  moreover have "bf_ok (bf_set_active ?s (ob_storage ob))" by (rule bf_ok_set) (simp_all add: b)
  ultimately show ?thesis using assms(1) b(1)
    by (auto simp: ob_ok_def ob_cell_def fun_eq_iff bf_set_active_static)
qed

lemma ob_curr_token:
  "ob_get_curr_token ob = ob_get_token (ob_pos ob) ob"
  "ob_set_curr_token t ob = ob_set_token (ob_pos ob) t ob"
  by (simp_all add: ob_get_curr_token_def ob_get_token_def bf_get_curr_value_def ob_set_curr_token_def
      ob_set_token_def bf_set_curr_value_def)

lemma ob_cell_simps [simp]:
  "ob_cell (ob\<lparr>ob_has_header := h\<rparr>) = ob_cell ob" "ob_cell (ob\<lparr>ob_timestamp := s\<rparr>) = ob_cell ob"
  "ob_cell (ob\<lparr>ob_has_delimiters := h\<rparr>) = ob_cell ob" "ob_cell (ob_set_pos i ob) = ob_cell ob"
  "ob_ok (ob\<lparr>ob_has_header := h\<rparr>) = ob_ok ob" "ob_ok (ob\<lparr>ob_timestamp := s\<rparr>) = ob_ok ob"
  "ob_ok (ob\<lparr>ob_has_delimiters := h\<rparr>) = ob_ok ob" "ob_pos (ob_set_pos i ob) = i"
  "ob_size (ob_set_pos i ob) = ob_size ob" "ob_has_header (ob_set_pos i ob) = ob_has_header ob"
  "ob_timestamp (ob_set_pos i ob) = ob_timestamp ob"
  by (simp_all add: ob_cell_def fun_eq_iff ob_ok_def ob_set_pos_def bf_set_pos_def)

lemma ob_set_pos_ok: "ob_ok ob \<Longrightarrow> i < ob_size ob \<Longrightarrow> ob_ok (ob_set_pos i ob)"
  by (simp add: ob_ok_def ob_set_pos_def bf_set_pos_def)

lemma bf_reset_ok: "st_size (bf_static_storage b) = cStaticByteBuffSize \<Longrightarrow> bf_ok (bf_reset b)"
  by (simp add: bf_ok_def bf_reset_def bf_active_def bf_storage_def ptr_valid_def)

lemma ob_new_ok: "ob_ok ob_new" "ob_pos ob_new = 0"
  by (simp_all add: ob_ok_def ob_new_def bf_ok_new) (simp_all add: bf_new_def cStaticByteBuffSize_def)

lemma ob_reset_ok: "ob_ok ob \<Longrightarrow> ob_ok (ob_reset ob)"
  by (simp add: ob_ok_def ob_reset_def bf_reset_ok) (simp add: bf_reset_def cStaticByteBuffSize_def)

text \<open>Advancing keeps the tokens, also when the buffer grows.\<close>

lemma ob_advance_ok:
  assumes ob: "ob_ok ob" and small: "ob_pos ob < 2 ^ 30"
  shows "\<exists>ob'. ob_advance_to_next_token ob = Inr ob' \<and> ob_ok ob' \<and> ob_pos ob' = Suc (ob_pos ob) \<and>
    (\<forall>i \<le> ob_pos ob. ob_cell ob' i = ob_cell ob i) \<and> ob_has_header ob' = ob_has_header ob \<and>
    ob_timestamp ob' = ob_timestamp ob \<and> ob_has_delimiters ob' = ob_has_delimiters ob"
proof -
  let ?s = "bf_increment_pos (ob_storage ob)"
  have u: "u32 (bf_pos (ob_storage ob) + 1) = Suc (ob_pos ob)" using small by (simp add: u32_def)
  have s: "bf_ok ?s" "bf_pos ?s = Suc (ob_pos ob)" "bf_active_size ?s = ob_size ob"
    "bf_active ?s = bf_active (ob_storage ob)" "bf_static_storage ?s = bf_static_storage (ob_storage ob)"
    using ob u by (simp_all add: bf_increment_pos_def ob_ok_def)
  show ?thesis
  proof (cases "Suc (ob_pos ob) = ob_size ob")
    case False
    with s ob show ?thesis by (simp add: ob_advance_to_next_token_def ob_ok_def ob_cell_def Let_def)
  next
    case True
    let ?d = "bf_double_size token_default ?s"
    have size2: "u32 (2 * ob_size ob) = 2 * ob_size ob" using small True by (simp add: u32_def)
    have old: "bf_storage ?d (bf_active_storage ?s) = bf_active (ob_storage ob)"
      using bf_double_size_old [OF s(1)] s(4) by simp
    have "bf_ok ?d" by (rule bf_double_size_ok)
    moreover have "ob_size ob \<le> st_size (bf_storage ?d (bf_active_storage ?s))"
      unfolding old using ob by (simp add: ob_ok_def bf_ok_def)
    moreover have "ptr_valid ?d (bf_active_storage ?s)"
      using s(1) by (auto simp: bf_ok_def ptr_valid_def bf_double_size_def split: storage_ptr.splits)
    ultimately obtain b' where b': "bf_copy ?d (bf_active_storage ?s) 0 (ob_size ob) 0 = Inr b'" "bf_ok b'"
      "bf_pos b' = bf_pos ?d" "bf_active_size b' = bf_active_size ?d"
      "\<And>i. i < ob_size ob \<Longrightarrow> st_cell (bf_active b') i = ob_cell ob i"
      using bf_copy_cells [of ?d "ob_size ob" "bf_active_storage ?s" 0 0] size2 s(3) old
      by (auto simp: ob_cell_def)
    have "ob_advance_to_next_token ob = Inr (ob\<lparr>ob_storage := b'\<rparr>)"
      using True s(2,3) b'(1) by (simp add: ob_advance_to_next_token_def Let_def del: rbind_eq_Inr)
    moreover have "st_size (bf_static_storage b') = cStaticByteBuffSize"
      using bf_copy_static [OF b'(1)] ob
      by (simp add: ob_ok_def bf_double_size_def bf_increment_pos_def)
    ultimately show ?thesis using b' s size2 ob True by (auto simp: ob_ok_def ob_cell_def)
  qed
qed

section \<open>The text of a view\<close>

text \<open>
  A token shows a piece of text when the string operations return it, whether it wraps around or
  has its string cached.
\<close>

type_synonym piece = "nat list option \<times> string"

definition token_reads :: "memory \<Rightarrow> token \<Rightarrow> piece \<Rightarrow> bool" where
  "token_reads mem t piece \<longleftrightarrow> (\<exists>t'. tk_to_string_view mem t = Inr (snd piece, t')) \<and>
     tk_get_length t = length (snd piece) \<and> tk_type_ids t = fst piece"

definition view_reads :: "memory \<Rightarrow> log_event_view \<Rightarrow> piece list \<Rightarrow> bool" where
  "view_reads mem v ps \<longleftrightarrow> ob_ok (lv_output v) \<and>
     ob_pos (lv_output v) - ob_first (lv_output v) = length ps \<and>
     (\<forall>i < length ps. token_reads mem (ob_cell (lv_output v) (ob_first (lv_output v) + i)) (ps ! i))"

definition pieces_text :: "piece list \<Rightarrow> string" where
  "pieces_text ps = concat (map snd ps)"

lemma pieces_text_simps [simp]:
  "pieces_text [] = []" "pieces_text (p # ps) = snd p @ pieces_text ps"
  "pieces_text (ps @ qs) = pieces_text ps @ pieces_text qs"
  by (simp_all add: pieces_text_def)

lemma pieces_text_take_Suc:
  "i < length ps \<Longrightarrow> pieces_text (take (Suc i) ps) = pieces_text (take i ps) @ snd (ps ! i)"
  by (simp add: pieces_text_def take_Suc_conv_app_nth)

text \<open>A counting loop whose state follows an invariant.\<close>

lemma rfold_upt_total:
  assumes "a \<le> b" "P a s"
    and "\<And>i s. a \<le> i \<Longrightarrow> i < b \<Longrightarrow> P i s \<Longrightarrow> \<exists>s'. f i s = Inr s' \<and> P (Suc i) s'"
  shows "\<exists>t. rfold f [a..<b] s = Inr t \<and> P b t"
  using assms
proof (induction "b - a" arbitrary: a s)
  case (Suc k)
  then have ab: "a < b" by simp
  from Suc.prems(3) [OF le_refl ab Suc.prems(2)] obtain s1 where
    s1: "f a s = Inr s1" "P (Suc a) s1" by blast
  have "\<exists>t. rfold f [Suc a..<b] s1 = Inr t \<and> P b t"
    by (rule Suc.hyps(1)) (use Suc.hyps(2) Suc.prems(3) ab s1(2) in auto)
  with s1(1) ab show ?case by (simp add: upt_conv_Cons)
qed simp

text \<open>An output buffer on which the string operations have been called on the tokens before \<open>i\<close>.\<close>

definition ob_read_upto :: "output_buffer \<Rightarrow> nat \<Rightarrow> output_buffer \<Rightarrow> bool" where
  "ob_read_upto ob i ob' \<longleftrightarrow> ob_ok ob' \<and> ob_pos ob' = ob_pos ob \<and> ob_size ob' = ob_size ob \<and>
     (\<forall>j \<ge> i. ob_cell ob' j = ob_cell ob j) \<and> ob_has_header ob' = ob_has_header ob"

lemma ob_read_step:
  assumes "ob_read_upto ob i ob'" "i < ob_pos ob" "token_reads mem (ob_cell ob i) piece"
  shows "\<exists>t' ob''. ob_get_token i ob' = Inr (ob_cell ob i) \<and>
    tk_to_string_view mem (ob_cell ob i) = Inr (snd piece, t') \<and>
    ob_set_token i t' ob' = Inr ob'' \<and> ob_read_upto ob (Suc i) ob''"
proof -
  from assms(1,2) have i: "ob_ok ob'" "i < ob_size ob'" "ob_cell ob' i = ob_cell ob i"
    by (auto simp: ob_read_upto_def ob_ok_def)
  from assms(3) obtain t' where t': "tk_to_string_view mem (ob_cell ob i) = Inr (snd piece, t')"
    by (auto simp: token_reads_def)
  from ob_set_token_ok [OF i(1,2), of t'] assms(1) obtain ob'' where
    "ob_set_token i t' ob' = Inr ob''" "ob_read_upto ob (Suc i) ob''" by (auto simp: ob_read_upto_def)
  with t' ob_get_token_ok [OF i(1,2)] i(3) show ?thesis by auto
qed

lemma lv_to_string_reads:
  assumes "view_reads mem v ps"
  shows "\<exists>v'. lv_to_string mem v = Inr (pieces_text ps, v')"
proof (cases "ps = []")
  case True
  with assms show ?thesis by (auto simp: view_reads_def lv_to_string_def)
next
  case False
  let ?ob = "lv_output v" let ?f = "ob_first ?ob"
  have ps: "ob_ok ?ob" "ob_pos ?ob = ?f + length ps"
    "\<And>i. i < length ps \<Longrightarrow> token_reads mem (ob_cell ?ob (?f + i)) (ps ! i)"
    using assms False by (auto simp: view_reads_def simp flip: length_greater_0_conv)
  let ?P = "\<lambda>i (raw, ob). raw = pieces_text (take (i - ?f) ps) \<and> ob_read_upto ?ob i ob"
  have "\<exists>t. rfold (append_token_text mem) [?f..<ob_pos ?ob] ([], ?ob) = Inr t \<and> ?P (ob_pos ?ob) t"
  proof (rule rfold_upt_total)
    fix i s assume i: "?f \<le> i" "i < ob_pos ?ob" "?P i s"
    obtain raw ob where s: "s = (raw, ob)" by force
    from i ps(2) have k: "i - ?f < length ps" "?f + (i - ?f) = i" by auto
    from ob_read_step [of ?ob i ob mem "ps ! (i - ?f)"] i s ps(3) [OF k(1)] k(2) obtain t' ob' where
      "ob_get_token i ob = Inr (ob_cell ?ob i)"
      "tk_to_string_view mem (ob_cell ?ob i) = Inr (snd (ps ! (i - ?f)), t')"
      "ob_set_token i t' ob = Inr ob'" "ob_read_upto ?ob (Suc i) ob'" by auto
    moreover have "pieces_text (take (Suc i - ?f) ps) = pieces_text (take (i - ?f) ps) @ snd (ps ! (i - ?f))"
      using pieces_text_take_Suc [OF k(1)] i(1) by (simp add: Suc_diff_le)
    ultimately show "\<exists>s'. append_token_text mem i s = Inr s' \<and> ?P (Suc i) s'"
      using i s by (simp add: append_token_text_def del: rbind_eq_Inr)
  qed (use ps in \<open>auto simp: ob_read_upto_def\<close>)
  then show ?thesis using ps(2) by (auto simp: lv_to_string_def)
qed

section \<open>The copy of a view\<close>

lemma total_length:
  assumes "view_reads mem v ps" "length (pieces_text ps) < 2 ^ 32"
  shows "rfold (add_token_length (lv_output v)) [ob_first (lv_output v)..<ob_first (lv_output v) + length ps] 0 =
    Inr (length (pieces_text ps))"
proof -
  let ?ob = "lv_output v" let ?f = "ob_first ?ob"
  let ?P = "\<lambda>i n. n = length (pieces_text (take (i - ?f) ps))"
  have "\<exists>t. rfold (add_token_length ?ob) [?f..<?f + length ps] 0 = Inr t \<and> ?P (?f + length ps) t"
  proof (rule rfold_upt_total)
    fix i n assume i: "?f \<le> i" "i < ?f + length ps" "?P i n"
    then have k: "i - ?f < length ps" "?f + (i - ?f) = i" by auto
    have "i < ob_size ?ob" using i assms(1) by (auto simp: view_reads_def ob_ok_def)
    moreover have "tk_get_length (ob_cell ?ob i) = length (snd (ps ! (i - ?f)))"
      using assms(1) k by (auto simp: view_reads_def token_reads_def)
    moreover have e: "pieces_text (take (Suc i - ?f) ps) = pieces_text (take (i - ?f) ps) @ snd (ps ! (i - ?f))"
      using pieces_text_take_Suc [OF k(1)] i(1) by (simp add: Suc_diff_le)
    moreover have "length (pieces_text (take (Suc i - ?f) ps)) < 2 ^ 32"
    proof -
      have "pieces_text ps = pieces_text (take (Suc i - ?f) ps) @ pieces_text (drop (Suc i - ?f) ps)"
        by (metis append_take_drop_id pieces_text_simps(3))
      with assms(2) show ?thesis by simp
    qed
    ultimately show "\<exists>s'. add_token_length ?ob i n = Inr s' \<and> ?P (Suc i) s'"
      using assms(1) i(3) ob_get_token_ok [of ?ob i]
      by (simp add: add_token_length_def view_reads_def del: rbind_eq_Inr)
  qed simp_all
  then show ?thesis by simp
qed

text \<open>A token of the copy: from one offset to the next, in the buffer of the copy.\<close>

definition copied_at :: "piece list \<Rightarrow> nat \<Rightarrow> nat \<Rightarrow> token" where
  "copied_at ps buffer_size j = token_new_plain (length (pieces_text (take j ps)))
     (length (pieces_text (take (Suc j) ps))) GivenStorage buffer_size 0 (fst (ps ! j))"

definition copied_upto :: "piece list \<Rightarrow> nat \<Rightarrow> output_buffer \<Rightarrow> char storage \<Rightarrow> nat \<Rightarrow> bool" where
  "copied_upto ps k dest buf pos \<longleftrightarrow> ob_ok dest \<and> ob_pos dest = k \<and>
     (\<forall>j < k. ob_cell dest j = copied_at ps (length (pieces_text ps)) j) \<and>
     st_size buf = length (pieces_text ps) \<and> pos = length (pieces_text (take k ps)) \<and>
     (\<forall>i < pos. st_cell buf i = pieces_text ps ! i)"

lemma copied_reads:
  assumes "st_size buf = length (pieces_text ps)" "\<And>i. i < length (pieces_text ps) \<Longrightarrow> st_cell buf i = pieces_text ps ! i"
    and j: "j < length ps"
  shows "token_reads (\<lambda>_. buf) (copied_at ps (length (pieces_text ps)) j) (ps ! j)"
proof -
  let ?s = "length (pieces_text (take j ps))" let ?str = "snd (ps ! j)"
  have all: "pieces_text ps = pieces_text (take j ps) @ ?str @ pieces_text (drop (Suc j) ps)"
    using arg_cong [OF id_take_nth_drop [OF j], of pieces_text] by simp
  have e: "length (pieces_text (take (Suc j) ps)) = ?s + length ?str"
    using pieces_text_take_Suc [OF j] by simp
  have fits: "?s + length ?str \<le> length (pieces_text ps)" using arg_cong [OF all, of length] by simp
  have "map (st_cell buf) [?s..<?s + length ?str] = ?str"
  proof (rule nth_equalityI)
    fix i assume "i < length (map (st_cell buf) [?s..<?s + length ?str])"
    then have i: "i < length ?str" by simp
    have "st_cell buf (?s + i) = pieces_text ps ! (?s + i)" using assms(2) fits i by simp
    also have "\<dots> = ?str ! i" using i by (subst all) (simp add: nth_append)
    finally show "map (st_cell buf) [?s..<?s + length ?str] ! i = ?str ! i" using i by simp
  qed simp
  with fits assms(1) show ?thesis
    by (simp add: token_reads_def copied_at_def token_new_plain_def token_new_def e tk_to_string_view_def
        tk_subspan_def st_slice_def tk_get_length_def)
qed

lemma copy_token_step:
  assumes v: "view_reads mem v ps" "i = ob_first (lv_output v) + k" "k < length ps"
    and inv: "ob_read_upto (lv_output v) i src" "copied_upto ps k dest buf pos" and small: "length ps < 2 ^ 30" "length (pieces_text ps) < 2 ^ 32"
  shows "\<exists>src' dest' buf' pos'. copy_token mem (length (pieces_text ps)) i (src, dest, buf, pos) = Inr (src', dest', buf', pos') \<and>
    ob_read_upto (lv_output v) (Suc i) src' \<and> copied_upto ps (Suc k) dest' buf' pos' \<and>
    ob_has_header dest' = ob_has_header dest \<and> ob_timestamp dest' = ob_timestamp dest \<and>
    ob_has_delimiters dest' = ob_has_delimiters dest"
proof -
  let ?n = "length (pieces_text ps)" and ?str = "snd (ps ! k)" and ?ob = "lv_output v"
  have i: "i < ob_pos ?ob" "token_reads mem (ob_cell ?ob i) (ps ! k)" using v by (auto simp: view_reads_def)
  from ob_read_step [OF inv(1) i] obtain t' src' where
    t: "ob_get_token i src = Inr (ob_cell ?ob i)" "tk_to_string_view mem (ob_cell ?ob i) = Inr (?str, t')"
      "ob_set_token i t' src = Inr src'" "ob_read_upto ?ob (Suc i) src'" by blast
  have same: "tk_type_ids (ob_cell ?ob i) = fst (ps ! k)" using i(2) by (simp add: token_reads_def)
  have c: "ob_ok dest" "ob_pos dest = k" "st_size buf = ?n" "pos = length (pieces_text (take k ps))"
    "\<And>j. j < k \<Longrightarrow> ob_cell dest j = copied_at ps ?n j" "\<And>j. j < pos \<Longrightarrow> st_cell buf j = pieces_text ps ! j"
    using inv(2) by (auto simp: copied_upto_def)
  have all: "pieces_text ps = pieces_text (take k ps) @ ?str @ pieces_text (drop (Suc k) ps)"
    using arg_cong [OF id_take_nth_drop [OF v(3)], of pieces_text] by simp
  have e: "length (pieces_text (take (Suc k) ps)) = pos + length ?str"
    using pieces_text_take_Suc [OF v(3)] c(4) by simp
  have fits: "pos + length ?str \<le> ?n" using arg_cong [OF all, of length] c(4) by simp
  then have u: "u32 (pos + length ?str) = pos + length ?str" using small(2) by simp
  define buf' where "buf' = buf\<lparr>st_cell := \<lambda>j. if pos \<le> j \<and> j < pos + length ?str then ?str ! (j - pos) else st_cell buf j\<rparr>"
  have w: "st_write buf pos ?str = Inr buf'" using fits c(3) by (simp add: st_write_def buf'_def)
  let ?t = "copied_at ps ?n k"
  have tok: "token_new_plain pos (pos + length ?str) GivenStorage ?n 0 (tk_type_ids (ob_cell ?ob i)) = ?t"
    using e same c(4) by (simp add: copied_at_def)
  have "k < ob_size dest" using c(1,2) by (simp add: ob_ok_def)
  from ob_set_token_ok [OF c(1) this, of ?t] obtain dest1 where
    d1: "ob_set_token k ?t dest = Inr dest1" "ob_ok dest1" "ob_pos dest1 = k" "ob_cell dest1 = (ob_cell dest)(k := ?t)"
      "ob_has_header dest1 = ob_has_header dest" "ob_timestamp dest1 = ob_timestamp dest"
      "ob_has_delimiters dest1 = ob_has_delimiters dest" using c(2) by auto
  have "ob_pos dest1 < 2 ^ 30" using d1(3) v(3) small(1) by simp
  from ob_advance_ok [OF d1(2) this] obtain dest2 where
    d2: "ob_advance_to_next_token dest1 = Inr dest2" "ob_ok dest2" "ob_pos dest2 = Suc k"
      "\<And>j. j \<le> k \<Longrightarrow> ob_cell dest2 j = ob_cell dest1 j" "ob_has_header dest2 = ob_has_header dest1"
      "ob_timestamp dest2 = ob_timestamp dest1" "ob_has_delimiters dest2 = ob_has_delimiters dest1"
    using d1(3) by auto
  have cells: "st_cell buf' j = pieces_text ps ! j" if "j < pos + length ?str" for j
  proof (cases "j < pos")
    case True
    then show ?thesis using c(6) by (simp add: buf'_def)
  next
    case False
    then have "j - pos < length ?str" using that by linarith
    with False have "pieces_text ps ! j = ?str ! (j - pos)" using c(4) by (subst all) (simp add: nth_append)
    with False that show ?thesis by (simp add: buf'_def)
  qed
  have "copied_upto ps (Suc k) dest2 buf' (pos + length ?str)"
    unfolding copied_upto_def using d2(2-4) d1(4) c(3,5) e cells by (auto simp: less_Suc_eq buf'_def)
  moreover have "copy_token mem ?n i (src, dest, buf, pos) = Inr (src', dest2, buf', pos + length ?str)"
    using t w u tok d1(1) d2(1) c(2) by (simp add: copy_token_def ob_curr_token Let_def del: rbind_eq_Inr)
  ultimately show ?thesis using t(4) d2 d1 by auto
qed

text \<open>The index of the copy: it leaves the tokens as they are.\<close>

lemma index_tokens:
  fixes v :: log_event_view
  assumes "ob_ok (lv_output v)" "n \<le> ob_pos (lv_output v)"
    and "\<And>i. i < n \<Longrightarrow> \<exists>u us. tk_type_ids (ob_cell (lv_output v) i) = Some (u # us) \<and> u < length (lv_log_var_occurrences v)"
  shows "\<exists>v'. rfold index_token [0..<n] v = Inr v' \<and> lv_output v' = lv_output v \<and>
    lv_multiline v' = lv_multiline v \<and> length (lv_log_var_occurrences v') = length (lv_log_var_occurrences v)"
proof -
  let ?P = "\<lambda>i (v' :: log_event_view). lv_output v' = lv_output v \<and>
    lv_multiline v' = lv_multiline v \<and> length (lv_log_var_occurrences v') = length (lv_log_var_occurrences v)"
  have "\<exists>t. rfold index_token [0..<n] v = Inr t \<and> ?P n t"
  proof (rule rfold_upt_total)
    fix i s assume i: "0 \<le> i" "i < n" "?P i s"
    from assms(3) [OF i(2)] obtain u us where
      "tk_type_ids (ob_cell (lv_output v) i) = Some (u # us)" "u < length (lv_log_var_occurrences v)" by blast
    moreover have "i < ob_size (lv_output v)" using assms(1,2) i(2) by (simp add: ob_ok_def)
    ultimately show "\<exists>s'. index_token i s = Inr s' \<and> ?P (Suc i) s'"
      using i(3) ob_get_token_ok [OF assms(1)]
      by (simp add: index_token_def tk_type_def lv_add_token_def lv_get_variables_def del: rbind_eq_Inr)
  qed simp_all
  then show ?thesis .
qed

text \<open>Copying a view whose tokens show the pieces: the copy has them from index 0 on.\<close>

lemma log_event_new_ok:
  assumes v: "view_reads mem v ps" and small: "length ps < 2 ^ 30" "length (pieces_text ps) < 2 ^ 32"
    and some: "pieces_text ps \<noteq> []"
    and ids: "\<And>p. p \<in> set ps \<Longrightarrow> \<exists>u us. fst p = Some (u # us) \<and> u < length (lx_id_symbol lx)"
  shows "\<exists>e v'. log_event_new lx mem v = Inr (e, v') \<and> lv_multiline (le_view e) = lv_multiline v \<and>
    ob_has_header (lv_output (le_view e)) = ob_has_header (lv_output v) \<and>
    ob_timestamp (lv_output (le_view e)) = ob_timestamp (lv_output v) \<and>
    ob_ok (lv_output (le_view e)) \<and> ob_pos (lv_output (le_view e)) = length ps \<and>
    (\<forall>i < length ps. token_reads (le_memory e) (ob_cell (lv_output (le_view e)) i) (ps ! i))"
proof -
  let ?ob = "lv_output v" let ?f = "ob_first ?ob" and ?n = "length (pieces_text ps)"
  have "0 < length ps" using some by auto
  moreover have "ob_pos ?ob - ?f = length ps" using v by (simp add: view_reads_def)
  ultimately have pos: "ob_pos ?ob = ?f + length ps" by linarith
  define dest0 where "dest0 = ob_new\<lparr>ob_has_header := ob_has_header ?ob, ob_timestamp := ob_timestamp ?ob,
    ob_has_delimiters := ob_has_delimiters ?ob\<rparr>"
  define buf0 :: "char storage" where "buf0 = \<lparr>st_size = ?n, st_cell = \<lambda>_. CHR 0x00\<rparr>"
  let ?P = "\<lambda>i (src, dest, buf, p). ob_read_upto ?ob i src \<and> copied_upto ps (i - ?f) dest buf p \<and>
    ob_has_header dest = ob_has_header ?ob \<and> ob_timestamp dest = ob_timestamp ?ob"
  have "\<exists>t. rfold (copy_token mem ?n) [?f..<?f + length ps] (?ob, dest0, buf0, 0) = Inr t \<and> ?P (?f + length ps) t"
  proof (rule rfold_upt_total)
    have "ob_ok dest0" "ob_pos dest0 = 0" using ob_new_ok by (simp_all add: dest0_def)
    then show "?P ?f (?ob, dest0, buf0, 0)"
      using v by (simp add: copied_upto_def ob_read_upto_def view_reads_def buf0_def) (simp add: dest0_def)
  next
    fix i s assume i: "?f \<le> i" "i < ?f + length ps" "?P i s"
    obtain src dest buf p where s: "s = (src, dest, buf, p)" by (metis prod_cases4)
    from copy_token_step [OF v, of i "i - ?f" src dest buf p] i s small
    show "\<exists>s'. copy_token mem ?n i s = Inr s' \<and> ?P (Suc i) s'"
      by (fastforce simp: Suc_diff_le)
  qed simp
  then obtain src dest buf p where c: "rfold (copy_token mem ?n) [?f..<?f + length ps] (?ob, dest0, buf0, 0) = Inr (src, dest, buf, p)"
    "copied_upto ps (length ps) dest buf p" "ob_has_header dest = ob_has_header ?ob" "ob_timestamp dest = ob_timestamp ?ob"
    by auto
  have d: "ob_ok dest" "ob_pos dest = length ps" "st_size buf = ?n" "\<And>i. i < ?n \<Longrightarrow> st_cell buf i = pieces_text ps ! i"
    "\<And>j. j < length ps \<Longrightarrow> ob_cell dest j = copied_at ps ?n j" using c(2) by (auto simp: copied_upto_def)
  let ?v0 = "(lv_new lx)\<lparr>lv_multiline := lv_multiline v, lv_output := dest\<rparr>"
  have "\<exists>v'. rfold index_token [0..<length ps] ?v0 = Inr v' \<and> lv_output v' = lv_output ?v0 \<and>
      lv_multiline v' = lv_multiline ?v0 \<and> length (lv_log_var_occurrences v') = length (lv_log_var_occurrences ?v0)"
  proof (rule index_tokens)
    fix i assume i: "i < length ps"
    then have "tk_type_ids (ob_cell dest i) = fst (ps ! i)"
      using d(5) by (simp add: copied_at_def token_new_plain_def token_new_def)
    with ids [of "ps ! i"] i show "\<exists>u us. tk_type_ids (ob_cell (lv_output ?v0) i) = Some (u # us) \<and>
        u < length (lv_log_var_occurrences ?v0)" by (auto simp: lv_new_def)
  qed (use d in auto)
  then obtain v' where v': "rfold index_token [0..<length ps] ?v0 = Inr v'" "lv_output v' = dest"
    and m: "lv_multiline v' = lv_multiline v" by auto
  have "log_event_new lx mem v = Inr (\<lparr>le_view = v', le_buffer = buf\<rparr>, v\<lparr>lv_output := src\<rparr>)"
    using total_length [OF v small(2)] some c(1) v'(1) d(2) pos
    by (simp add: log_event_new_def Let_def dest0_def buf0_def del: rbind_eq_Inr)
  with v'(2) m c(3,4) d copied_reads [of buf ps] show ?thesis by (auto simp: le_memory_def)
qed

section \<open>Properties\<close>

text \<open>
  C17: the text of a parsed event is that of its tokens. A copy that owns its text keeps the tokens,
  the timestamp and the multiline flag, and the text of an event with a header; of an event without
  a header its text lacks the first token, because the copy stores the tokens from index 0 while
  the view of an event without header begins at index 1.
\<close>

theorem deep_copy_text:
  assumes "view_reads mem v ps" "length ps < 2 ^ 30" "length (pieces_text ps) < 2 ^ 32"
    and "pieces_text ps \<noteq> []"
    and "\<And>p. p \<in> set ps \<Longrightarrow> \<exists>u us. fst p = Some (u # us) \<and> u < length (lx_id_symbol lx)"
  shows "(\<exists>v1. lv_to_string mem v = Inr (pieces_text ps, v1)) \<and>
    (\<exists>e v2 v3. log_event_new lx mem v = Inr (e, v2) \<and> lv_multiline (le_view e) = lv_multiline v \<and>
       ob_timestamp (lv_output (le_view e)) = ob_timestamp (lv_output v) \<and>
       (\<forall>i < length ps. token_reads (le_memory e) (ob_cell (lv_output (le_view e)) i) (ps ! i)) \<and>
       lv_to_string (le_memory e) (le_view e) =
         Inr (if ob_has_header (lv_output v) then pieces_text ps else pieces_text (tl ps), v3))"
proof -
  from log_event_new_ok [OF assms] obtain e v' where e:
    "log_event_new lx mem v = Inr (e, v')" "lv_multiline (le_view e) = lv_multiline v"
    "ob_has_header (lv_output (le_view e)) = ob_has_header (lv_output v)"
    "ob_timestamp (lv_output (le_view e)) = ob_timestamp (lv_output v)"
    "ob_ok (lv_output (le_view e))" "ob_pos (lv_output (le_view e)) = length ps"
    "\<And>i. i < length ps \<Longrightarrow> token_reads (le_memory e) (ob_cell (lv_output (le_view e)) i) (ps ! i)" by blast
  have "view_reads (le_memory e) (le_view e) (if ob_has_header (lv_output v) then ps else tl ps)"
    using e(3,5-7) by (auto simp: view_reads_def ob_first_def nth_tl)
  from lv_to_string_reads [OF this] lv_to_string_reads [OF assms(1)] e show ?thesis by (auto split: if_splits)
qed

definition demo_event_memory :: memory where
  "demo_event_memory = (\<lambda>_. \<lparr>st_size = 2, st_cell = \<lambda>i. ''ab'' ! i\<rparr>)"

definition demo_view :: log_event_view where
  "demo_view = (lv_new lx_new)\<lparr>lv_output := ob_set_pos 3 (ob_new\<lparr>ob_storage :=
     bf_new (\<lambda>i. if i = 1 then token_new_plain 0 1 GivenStorage 2 0 (Some [1])
       else token_new_plain 1 2 GivenStorage 2 0 (Some [1]))\<rparr>)\<rparr>"

theorem deep_copy_text_witness:
  "\<exists>v1 e v2 v3. lv_to_string demo_event_memory demo_view = Inr (''ab'', v1) \<and>
    log_event_new (lx_new\<lparr>lx_id_symbol := [(0, ''$end''), (1, ''$UncaughtString'')]\<rparr>) demo_event_memory demo_view = Inr (e, v2) \<and>
    lv_to_string (le_memory e) (le_view e) = Inr (''b'', v3)"
proof -
  let ?ps = "[(Some [1], ''a''), (Some [1], ''b'')]" and ?lx = "lx_new\<lparr>lx_id_symbol := [(0, ''$end''), (1, ''$UncaughtString'')]\<rparr>"
  have ob: "ob_ok (lv_output demo_view)" "ob_pos (lv_output demo_view) = 3" "ob_has_header (lv_output demo_view) = False"
    by (simp_all add: demo_view_def ob_ok_def ob_set_pos_def bf_set_pos_def bf_ok_new)
      (simp_all add: bf_new_def cStaticByteBuffSize_def ob_new_def)
  have cell: "ob_cell (lv_output demo_view) i = (if i = 1 then token_new_plain 0 1 GivenStorage 2 0 (Some [1])
       else token_new_plain 1 2 GivenStorage 2 0 (Some [1]))" for i
    by (simp add: demo_view_def ob_cell_def ob_set_pos_def bf_set_pos_def)
      (simp add: bf_active_def bf_storage_def bf_new_def)
  have "view_reads demo_event_memory demo_view ?ps"
    using ob by (auto simp: view_reads_def ob_first_def cell less_Suc_eq token_reads_def token_new_plain_def
        token_new_def tk_to_string_view_def tk_subspan_def st_slice_def demo_event_memory_def tk_get_length_def upt_rec)
  moreover have "\<exists>u us. fst p = Some (u # us) \<and> u < length (lx_id_symbol ?lx)" if "p \<in> set ?ps" for p
    using that by auto
  ultimately show ?thesis using deep_copy_text [of demo_event_memory demo_view ?ps ?lx] ob(3) by fastforce
qed

end
