(* ===== verification/Log_Parser.thy ===== *)
theory Log_Parser
  imports Log_Event "HOL-Library.AList"
begin

text \<open>
  \<^verbatim>\<open>Schema.cpp\<close>, \<^verbatim>\<open>Parser.tpp\<close>, \<^verbatim>\<open>LogParser.cpp\<close>,
  \<^verbatim>\<open>ReaderParser.cpp\<close>, \<^verbatim>\<open>BufferParser.cpp\<close>: from a schema to a
  lexer, and from the tokens of a log to its events. A result is \<open>None\<close> when a loop does not end.
\<close>

section \<open>Schemas\<close>

text \<open>The syntax trees of \<^verbatim>\<open>SchemaParser.hpp\<close> that a schema is made of.\<close>

datatype parser_ast =
    IdentifierAST string
  | SchemaVarAST nat string regex_ast
  | DelimiterStringAST "nat list"

record schema_ast =
  sa_schema_vars :: "parser_ast list"
  sa_delimiters :: "parser_ast list"
  sa_file_path :: string

definition schema_ast_new :: schema_ast where
  "schema_ast_new = \<lparr>sa_schema_vars = [], sa_delimiters = [], sa_file_path = []\<rparr>"

definition sa_add_delimiters :: "parser_ast \<Rightarrow> schema_ast \<Rightarrow> schema_ast" where
  "sa_add_delimiters delimiters_in s = s\<lparr>sa_delimiters := sa_delimiters s @ [delimiters_in]\<rparr>"

text \<open>Position \<open>-1\<close> is the end; an iterator beyond the end is not valid.\<close>

definition sa_add_schema_var :: "parser_ast \<Rightarrow> int \<Rightarrow> schema_ast \<Rightarrow> schema_ast res" where
  "sa_add_schema_var schema_var pos s =
     (let vars = sa_schema_vars s
      in if pos = -1 then Inr (s\<lparr>sa_schema_vars := vars @ [schema_var]\<rparr>)
         else if 0 \<le> pos \<and> pos \<le> int (length vars)
         then Inr (s\<lparr>sa_schema_vars := take (nat pos) vars @ schema_var # drop (nat pos) vars\<rparr>)
         else Inl UndefinedBehavior)"

definition identifier_add_character :: "char \<Rightarrow> parser_ast \<Rightarrow> parser_ast res" where
  "identifier_add_character c ast =
     (case ast of IdentifierAST name \<Rightarrow> Inr (IdentifierAST (name @ [c])) | _ \<Rightarrow> Inl NullDeref)"

definition delimiter_add_delimiter :: "nat \<Rightarrow> parser_ast \<Rightarrow> parser_ast res" where
  "delimiter_add_delimiter d ast =
     (case ast of DelimiterStringAST ds \<Rightarrow> Inr (DelimiterStringAST (ds @ [d])) | _ \<Rightarrow> Inl NullDeref)"

text \<open>
  \<^verbatim>\<open>Schema\<close> parses every string it is given as a schema of its own;
  \<open>try_schema_string\<close> is that parser.
\<close>

definition schema_add_variable ::
  "(string \<Rightarrow> schema_ast res) \<Rightarrow> string \<Rightarrow> int \<Rightarrow> schema_ast \<Rightarrow> schema_ast res" where
  "schema_add_variable try_schema_string var_schema inverse_priority schema =
     rbind (try_schema_string var_schema) (\<lambda>ast.
       case sa_schema_vars ast of
         [] \<Rightarrow> Inl InvalidArgument
       | schema_var # _ \<Rightarrow>
           if inverse_priority < -1 \<or> int (length (sa_schema_vars schema)) < inverse_priority
           then Inl InvalidArgument
           else sa_add_schema_var schema_var inverse_priority schema)"

definition schema_add_delimiters ::
  "(string \<Rightarrow> schema_ast res) \<Rightarrow> string \<Rightarrow> schema_ast \<Rightarrow> schema_ast res" where
  "schema_add_delimiters try_schema_string delimiters_schema schema =
     rbind (try_schema_string delimiters_schema) (\<lambda>ast.
       case sa_delimiters ast of
         [] \<Rightarrow> Inl InvalidArgument
       | delimiters # _ \<Rightarrow> Inr (sa_add_delimiters delimiters schema))"

definition schema_release_schema_ast_ptr :: "schema_ast \<Rightarrow> schema_ast \<times> schema_ast" where
  "schema_release_schema_ast_ptr schema = (schema, schema_ast_new)"

section \<open>The parser a log parser extends\<close>

definition parser_symbols :: "(string \<times> nat) list" where
  "parser_symbols =
     [(''$end'', symbol_num TokenEnd), (''$UncaughtString'', symbol_num TokenUncaughtString),
      (''int'', symbol_num TokenInt), (''float'', symbol_num TokenFloat),
      (''hex'', symbol_num TokenHex), (''header'', symbol_num TokenHeader),
      (''newLine'', symbol_num TokenNewline)]"

definition parser_new :: lexer where
  "parser_new = lx_new\<lparr>lx_symbol_id := parser_symbols,
     lx_id_symbol := map (\<lambda>(name, i). (i, name)) parser_symbols\<rparr>"

definition parser_add_rule :: "string \<Rightarrow> regex_ast \<Rightarrow> lexer \<Rightarrow> lexer" where
  "parser_add_rule name rule lx =
     (case map_of (lx_symbol_id lx) name of
        Some i \<Rightarrow> lx_add_rule i rule lx
      | None \<Rightarrow>
          let i = length (lx_symbol_id lx)
          in lx_add_rule i rule
               (lx\<lparr>lx_symbol_id := lx_symbol_id lx @ [(name, i)],
                  lx_id_symbol := AList.update i name (lx_id_symbol lx)\<rparr>))"

definition parser_add_token :: "string \<Rightarrow> nat \<Rightarrow> lexer \<Rightarrow> lexer" where
  "parser_add_token name rule_char lx = parser_add_rule name (mk_literal rule_char) lx"

section \<open>The rules of a schema\<close>

definition lp_set_delimiters :: "parser_ast \<Rightarrow> lexer \<Rightarrow> lexer res" where
  "lp_set_delimiters delimiters lx =
     (case delimiters of DelimiterStringAST ds \<Rightarrow> lx_set_delimiters ds lx | _ \<Rightarrow> Inr lx)"

definition header_rule :: "regex_ast \<Rightarrow> regex_ast" where
  "header_rule r = mk_cat (mk_or (mk_literal cCharStartOfFile) (mk_literal 10)) r"

definition variable_rule :: "nat list \<Rightarrow> regex_ast \<Rightarrow> regex_ast" where
  "variable_rule delimiters r = mk_cat (mk_group (group_of_literals delimiters)) r"

text \<open>The vector of delimiters is passed by reference to the rewriting of wildcards.\<close>

definition lp_add_schema_var :: "parser_ast \<Rightarrow> lexer \<times> nat list \<Rightarrow> (lexer \<times> nat list) res" where
  "lp_add_schema_var ast = (\<lambda>(lx, delimiters).
     case ast of
       SchemaVarAST line_num name regex \<Rightarrow>
         (let (regex', delimiters') = remove_delimiters_from_wildcard regex delimiters;
              rule = (if name = ''header'' then header_rule regex' else variable_rule delimiters' regex')
          in Inr (parser_add_rule name rule lx, delimiters'))
     | _ \<Rightarrow> Inl NullDeref)"

definition lp_add_rules :: "schema_ast \<Rightarrow> lexer \<Rightarrow> lexer res" where
  "lp_add_rules ast lx =
     rbind (rfold lp_set_delimiters (sa_delimiters ast) lx) (\<lambda>lx1.
       let delimiters = filter (lx_is_delimiter lx1) [0..<cSizeOfByte]
       in if delimiters = [] then Inl RuntimeError
          else rbind (rfold lp_add_schema_var (sa_schema_vars ast)
                 (parser_add_token ''newLine'' 10 lx1, delimiters))
               (\<lambda>(lx2, _). Inr lx2))"

section \<open>The log parser\<close>

datatype parsing_action = NoAction | Compress | CompressAndFinish

record log_parser =
  lp_lexer :: lexer
  lp_input :: input_buffer
  lp_has_start_of_log :: bool
  lp_start_of_log_message :: token
  lp_view :: log_event_view

abbreviation lp_output :: "log_parser \<Rightarrow> output_buffer" where
  "lp_output p \<equiv> lv_output (lp_view p)"

definition lp_set_output :: "output_buffer \<Rightarrow> log_parser \<Rightarrow> log_parser" where
  "lp_set_output ob p = p\<lparr>lp_view := (lp_view p)\<lparr>lv_output := ob\<rparr>\<rparr>"

text \<open>The memory that the tokens of the input lie in.\<close>

definition lp_memory :: "log_parser \<Rightarrow> memory" where
  "lp_memory p = bf_storage (ib_storage (lp_input p))"

definition log_parser_new ::
  "((nat \<times> nat) list \<Rightarrow> (nat \<times> nat) list) \<Rightarrow> (nat \<Rightarrow> char) \<Rightarrow> schema_ast \<Rightarrow> log_parser res option" where
  "log_parser_new ord junk ast =
     cbind (Some (lp_add_rules ast parser_new)) (\<lambda>lx. cbind (lx_generate ord lx) (\<lambda>lx'.
       Some (Inr \<lparr>lp_lexer = lx', lp_input = ib_new junk, lp_has_start_of_log = False,
          lp_start_of_log_message = token_default, lp_view = lv_new lx'\<rparr>)))"

definition lp_reset :: "log_parser \<Rightarrow> log_parser res" where
  "lp_reset p =
     (let input = ib_reset (lp_input p)
      in rbind (lx_prepend_start_of_file_char input (lx_reset (lp_lexer p)))
           (\<lambda>lx. Inr (p\<lparr>lp_input := input, lp_lexer := lx\<rparr>)))"

definition lp_get_id_symbol :: "log_parser \<Rightarrow> nat \<Rightarrow> string res" where
  "lp_get_id_symbol p i = lx_get_id_symbol (lp_lexer p) i"

definition lp_get_symbol_id :: "log_parser \<Rightarrow> string \<Rightarrow> nat option" where
  "lp_get_symbol_id p symbol = map_of (lx_symbol_id (lp_lexer p)) symbol"

definition lp_set_input_buffer :: "char storage \<Rightarrow> nat \<Rightarrow> nat \<Rightarrow> bool \<Rightarrow> log_parser \<Rightarrow> log_parser" where
  "lp_set_input_buffer storage sz pos finished_reading_input p =
     p\<lparr>lp_input := ib_set_storage (lp_input p) storage sz pos finished_reading_input\<rparr>"

definition lp_get_input_pos :: "log_parser \<Rightarrow> nat" where
  "lp_get_input_pos p = ib_pos (lp_input p)"

definition lp_read_into_input ::
  "('r, char) read_fun \<Rightarrow> log_parser \<Rightarrow> 'r \<Rightarrow> (error_code \<times> log_parser \<times> 'r) res" where
  "lp_read_into_input read p reader =
     rbind (ib_read_if_safe read (lp_input p) reader)
       (\<lambda>(err, input, reader'). Inr (err, p\<lparr>lp_input := input\<rparr>, reader'))"

definition lp_increase_capacity :: "log_parser \<Rightarrow> log_parser res" where
  "lp_increase_capacity p =
     rbind (lx_increase_buffer_capacity (lp_lexer p) (lp_input p))
       (\<lambda>(lx, input). Inr (p\<lparr>lp_lexer := lx, lp_input := input\<rparr>))"

definition lp_reset_log_event_view :: "log_parser \<Rightarrow> log_parser" where
  "lp_reset_log_event_view p = p\<lparr>lp_view := lv_reset (lp_view p)\<rparr>"

definition lp_get_next_symbol ::
  "log_parser \<Rightarrow> ((error_code \<times> token option) \<times> log_parser) res option" where
  "lp_get_next_symbol p =
     cbind (lx_scan (lp_lexer p) (lp_input p))
       (\<lambda>(r, lx, input). Some (Inr (r, p\<lparr>lp_lexer := lx, lp_input := input\<rparr>)))"

section \<open>Parsing an event\<close>

text \<open>A part of \<^verbatim>\<open>parse\<close> either returns, with the action it sets, or goes on.\<close>

datatype parse_outcome = ParseReturn error_code parsing_action | ParseGoOn

type_synonym parse_result = "(parse_outcome \<times> log_parser) res"

text \<open>A pending newline in front of a header becomes an event of its own.\<close>

definition parse_leading_newline :: "token \<Rightarrow> log_parser \<Rightarrow> parse_result" where
  "parse_leading_newline next_token p =
     (let start_of_log = snd (tk_increment_start_pos next_token);
          newline = tk_set_type_ids (Some cTokenUncaughtStringTypes)
                      (tk_set_end_pos (tk_get_next_pos next_token) next_token)
      in rbind (ob_set_token 1 newline (lp_output p)) (\<lambda>ob.
           Inr (ParseReturn Success Compress,
             (lp_set_output (ob_set_pos 2 ob) p)
               \<lparr>lp_start_of_log_message := start_of_log,
                lp_input := ib_set_consumed_pos (lp_input p) (tk_start_pos newline),
                lp_has_start_of_log := True\<rparr>)))"

text \<open>The text of the first capture named \<^verbatim>\<open>timestamp\<close> that the header has matched.\<close>

fun header_timestamp ::
  "lexer \<Rightarrow> memory \<Rightarrow> token \<Rightarrow> capture list \<Rightarrow> string option res option" where
  "header_timestamp lx mem t [] = Some (Inr None)"
| "header_timestamp lx mem t (c # cs) =
     (if cap_name c \<noteq> ''timestamp'' then header_timestamp lx mem t cs
      else cbind (Some (lx_get_reg_ids_from_capture lx c)) (\<lambda>(start_reg_id, end_reg_id).
        cbind (tk_get_reversed_reg_positions t start_reg_id) (\<lambda>starts.
          cbind (tk_get_reversed_reg_positions t end_reg_id) (\<lambda>ends.
            case (starts, ends) of
              (s # _, e # _) \<Rightarrow>
                if s < 0 \<or> e < 0 then header_timestamp lx mem t cs
                else Some (rbind (tk_get_sub_token t (nat s) (nat e)) (\<lambda>ts_token.
                       rbind (tk_to_string_view mem ts_token) (\<lambda>(str, _). Inr (Some str))))
            | _ \<Rightarrow> header_timestamp lx mem t cs))))"

definition parse_header :: "token \<Rightarrow> log_parser \<Rightarrow> parse_result option" where
  "parse_header next_token p =
     cbind (Some (ob_set_token 0 next_token ((lp_output p)\<lparr>ob_has_header := True\<rparr>))) (\<lambda>ob.
       cbind (case lx_get_captures_from_rule_id (lp_lexer p) (symbol_num TokenHeader) of
                None \<Rightarrow> Some (Inr None)
              | Some captures \<Rightarrow> header_timestamp (lp_lexer p) (lp_memory p) next_token captures)
         (\<lambda>timestamp.
           Some (Inr (ParseGoOn,
             (lp_set_output (ob_set_pos 1 (ob\<lparr>ob_timestamp := timestamp\<rparr>)) p)
               \<lparr>lp_has_start_of_log := False\<rparr>))))"

definition parse_no_header :: "token \<Rightarrow> log_parser \<Rightarrow> parse_result" where
  "parse_no_header next_token p =
     rbind (ob_set_token 1 next_token ((lp_output p)\<lparr>ob_has_header := False, ob_timestamp := None\<rparr>))
       (\<lambda>ob. Inr (ParseGoOn, (lp_set_output (ob_set_pos 2 ob) p)\<lparr>lp_has_start_of_log := False\<rparr>))"

text \<open>The first token of an event.\<close>

definition parse_first :: "token \<Rightarrow> log_parser \<Rightarrow> parse_result option" where
  "parse_first next_token p =
     cbind (Some (tk_type next_token)) (\<lambda>token_type.
       if token_type = symbol_num TokenEnd
       then Some (rbind (ob_set_token 0 next_token (lp_output p)) (\<lambda>ob.
              Inr (ParseReturn Success CompressAndFinish, lp_set_output (ob_set_pos 1 ob) p)))
       else if token_type = symbol_num TokenHeader then parse_header next_token p
       else Some (parse_no_header next_token p))"

definition is_leading_newline :: "log_parser \<Rightarrow> token \<Rightarrow> bool res" where
  "is_leading_newline p next_token =
     (if ob_has_header (lp_output p) then Inr False
      else rbind (tk_type next_token) (\<lambda>token_type.
        if token_type \<noteq> symbol_num TokenHeader then Inr False
        else rbind (tk_get_first_char (lp_memory p) next_token) (\<lambda>c. Inr (c = CHR 0x0A))))"

definition parse_begin :: "parsing_action \<Rightarrow> log_parser \<Rightarrow> parse_result option" where
  "parse_begin action p =
     (if ob_pos (lp_output p) \<noteq> 0 then Some (Inr (ParseGoOn, p))
      else let p1 = lp_set_output ((lp_output p)\<lparr>ob_has_delimiters := lx_has_delimiters (lp_lexer p)\<rparr>) p
           in if lp_has_start_of_log p1 then parse_first (lp_start_of_log_message p1) p1
              else cbind (lp_get_next_symbol p1) (\<lambda>((err, optional_next_token), p2).
                if err \<noteq> Success then Some (Inr (ParseReturn err action, p2))
                else case optional_next_token of
                       None \<Rightarrow> Some (Inl BadOptionalAccess)
                     | Some next_token \<Rightarrow>
                         cbind (Some (is_leading_newline p2 next_token)) (\<lambda>leading.
                           if leading then Some (parse_leading_newline next_token p2)
                           else parse_first next_token p2)))"

definition found_start_of_next_message :: "log_parser \<Rightarrow> token \<Rightarrow> nat \<Rightarrow> bool res" where
  "found_start_of_next_message p next_token token_type =
     (if ob_has_header (lp_output p)
      then (if token_type = symbol_num TokenHeader
            then rbind (tk_get_first_char (lp_memory p) next_token) (\<lambda>c. Inr (c = CHR 0x0A))
            else Inr False)
      else rbind (tk_get_first_char (lp_memory p) next_token) (\<lambda>c.
             Inr (c = CHR 0x0A \<and> token_type \<noteq> symbol_num TokenNewline)))"

text \<open>The newline in front of the next event is the last token of this one.\<close>

definition parse_next_message :: "log_parser \<Rightarrow> parse_result" where
  "parse_next_message p =
     rbind (ob_get_curr_token (lp_output p)) (\<lambda>curr_token.
       let (consumed_pos, start_of_log) = tk_increment_start_pos curr_token;
           newline = tk_set_type_ids (Some cTokenUncaughtStringTypes)
                       (tk_set_end_pos (tk_get_next_pos curr_token) curr_token)
       in rbind (ob_set_curr_token newline (lp_output p)) (\<lambda>ob.
            rbind (ob_advance_to_next_token ob) (\<lambda>ob'.
              Inr (ParseReturn Success Compress,
                (lp_set_output ob' p)
                  \<lparr>lp_start_of_log_message := start_of_log,
                   lp_input := ib_set_consumed_pos (lp_input p) consumed_pos,
                   lp_has_start_of_log := True\<rparr>))))"

definition parse_newline :: "log_parser \<Rightarrow> parse_result" where
  "parse_newline p =
     rbind (ob_get_curr_token (lp_output p)) (\<lambda>curr_token.
       rbind (ob_advance_to_next_token (lp_output p)) (\<lambda>ob.
         Inr (ParseReturn Success Compress,
           (lp_set_output ob p)
             \<lparr>lp_input := ib_set_consumed_pos (lp_input p) (tk_end_pos curr_token)\<rparr>)))"

text \<open>What becomes of a token once it is in the output buffer.\<close>

definition parse_token :: "token \<Rightarrow> log_parser \<Rightarrow> parse_result" where
  "parse_token next_token p =
     rbind (tk_type next_token) (\<lambda>token_type.
       rbind (found_start_of_next_message p next_token token_type) (\<lambda>found.
         if token_type = symbol_num TokenEnd then Inr (ParseReturn Success CompressAndFinish, p)
         else if \<not> ob_has_header (lp_output p) \<and> token_type = symbol_num TokenNewline then parse_newline p
         else if found then parse_next_message p
         else rbind (ob_advance_to_next_token (lp_output p)) (\<lambda>ob. Inr (ParseGoOn, lp_set_output ob p))))"

definition parse_round :: "parsing_action \<Rightarrow> log_parser \<Rightarrow> parse_result option" where
  "parse_round action p =
     cbind (lp_get_next_symbol p) (\<lambda>((err, optional_next_token), p1).
       if err \<noteq> Success then Some (Inr (ParseReturn err action, p1))
       else case optional_next_token of
              None \<Rightarrow> Some (Inl BadOptionalAccess)
            | Some next_token \<Rightarrow>
                Some (rbind (ob_set_curr_token next_token (lp_output p1)) (\<lambda>ob.
                  parse_token next_token (lp_set_output ob p1))))"

partial_function (option) parse_loop ::
  "parsing_action \<Rightarrow> log_parser \<Rightarrow> ((error_code \<times> parsing_action) \<times> log_parser) res option" where
  "parse_loop action p =
     (case parse_round action p of
        None \<Rightarrow> None
      | Some (Inl e) \<Rightarrow> Some (Inl e)
      | Some (Inr (r, p')) \<Rightarrow>
          (case r of
             ParseReturn err action' \<Rightarrow> Some (Inr ((err, action'), p'))
           | ParseGoOn \<Rightarrow> parse_loop action p'))"

definition lp_parse ::
  "parsing_action \<Rightarrow> log_parser \<Rightarrow> ((error_code \<times> parsing_action) \<times> log_parser) res option" where
  "lp_parse action p =
     cbind (parse_begin action p) (\<lambda>(r, p').
       case r of
         ParseReturn err action' \<Rightarrow> Some (Inr ((err, action'), p'))
       | ParseGoOn \<Rightarrow> parse_loop action p')"

section \<open>Metadata\<close>

definition metadata_token ::
  "memory \<Rightarrow> nat \<Rightarrow> log_event_view \<times> nat \<Rightarrow> (log_event_view \<times> nat) res" where
  "metadata_token mem i = (\<lambda>(v, first_newline_pos).
     rbind (ob_get_token i (lv_output v)) (\<lambda>t. rbind (tk_type t) (\<lambda>token_type.
       rbind (lv_add_token token_type (bf_active_storage (ob_storage (lv_output v)), i) v) (\<lambda>v'.
         rbind (tk_get_delimiter mem t) (\<lambda>delim.
           Inr (v', if delim = [CHR 0x0A] \<and> first_newline_pos = 0 then i else first_newline_pos))))))"

definition generate_log_event_view_metadata :: "log_parser \<Rightarrow> log_parser res" where
  "generate_log_event_view_metadata p =
     rbind (rfold (metadata_token (lp_memory p)) [ob_first (lp_output p)..<ob_pos (lp_output p)]
              (lp_view p, 0))
       (\<lambda>(v, first_newline_pos).
         Inr (p\<lparr>lp_view :=
           if ob_has_header (lv_output v) \<and> 0 < first_newline_pos \<and>
              first_newline_pos + 1 < ob_pos (lv_output v)
           then v\<lparr>lv_multiline := True\<rparr> else v\<rparr>))"

definition parse_and_generate_metadata ::
  "parsing_action \<Rightarrow> log_parser \<Rightarrow> ((error_code \<times> parsing_action) \<times> log_parser) res option" where
  "parse_and_generate_metadata action p =
     cbind (lp_parse action p) (\<lambda>((error_code, action'), p').
       if error_code = Success
       then Some (rbind (generate_log_event_view_metadata p') (\<lambda>p''. Inr ((error_code, action'), p'')))
       else Some (Inr ((error_code, action'), p')))"

section \<open>The parsers of a stream and of a buffer\<close>

record 'r reader_parser =
  rp_reader :: 'r
  rp_log_parser :: log_parser
  rp_done :: bool

definition rp_reset_and_set_reader :: "'r \<Rightarrow> 'r reader_parser \<Rightarrow> 'r reader_parser res" where
  "rp_reset_and_set_reader reader rp =
     rbind (lp_reset (rp_log_parser rp)) (\<lambda>p.
       Inr \<lparr>rp_reader = reader, rp_log_parser = p, rp_done = False\<rparr>)"

definition rp_get_variable_id :: "'r reader_parser \<Rightarrow> string \<Rightarrow> nat option" where
  "rp_get_variable_id rp var = lp_get_symbol_id (rp_log_parser rp) var"

definition rp_read ::
  "('r, char) read_fun \<Rightarrow> 'r reader_parser \<Rightarrow> (error_code \<times> 'r reader_parser) res" where
  "rp_read read rp =
     rbind (lp_read_into_input read (rp_log_parser rp) (rp_reader rp)) (\<lambda>(err, p, reader).
       Inr (err, rp\<lparr>rp_log_parser := p, rp_reader := reader\<rparr>))"

definition rp_grow ::
  "('r, char) read_fun \<Rightarrow> 'r reader_parser \<Rightarrow> (error_code \<times> 'r reader_parser) res" where
  "rp_grow read rp =
     rbind (lp_increase_capacity (rp_log_parser rp)) (\<lambda>p. rp_read read (rp\<lparr>rp_log_parser := p\<rparr>))"

partial_function (option) rp_loop ::
  "('r, char) read_fun \<Rightarrow> 'r reader_parser \<Rightarrow> (error_code \<times> 'r reader_parser) res option" where
  "rp_loop read rp =
     (case parse_and_generate_metadata NoAction (rp_log_parser rp) of
        None \<Rightarrow> None
      | Some (Inl e) \<Rightarrow> Some (Inl e)
      | Some (Inr ((parse_error, action), p)) \<Rightarrow>
          if parse_error = Success
          then Some (Inr (Success, rp\<lparr>rp_log_parser := p,
                 rp_done := (if action = CompressAndFinish then True else rp_done rp)\<rparr>))
          else if parse_error = BufferOutOfBounds
          then (case rp_grow read (rp\<lparr>rp_log_parser := p\<rparr>) of
                  Inl e \<Rightarrow> Some (Inl e)
                | Inr (err, rp') \<Rightarrow>
                    if err \<noteq> Success \<and> err \<noteq> EndOfFile then Some (Inr (err, rp'))
                    else rp_loop read rp')
          else Some (Inr (parse_error, rp\<lparr>rp_log_parser := p\<rparr>)))"

definition rp_parse_next_event ::
  "('r, char) read_fun \<Rightarrow> 'r reader_parser \<Rightarrow> (error_code \<times> 'r reader_parser) res option" where
  "rp_parse_next_event read rp =
     cbind (Some (rp_read read (rp\<lparr>rp_log_parser := lp_reset_log_event_view (rp_log_parser rp)\<rparr>)))
       (\<lambda>(err, rp').
         if err \<noteq> Success \<and> err \<noteq> EndOfFile then Some (Inr (err, rp')) else rp_loop read rp')"

record buffer_parser =
  bp_log_parser :: log_parser
  bp_done :: bool

definition bp_reset :: "buffer_parser \<Rightarrow> buffer_parser res" where
  "bp_reset bp =
     rbind (lp_reset (bp_log_parser bp)) (\<lambda>p. Inr (bp\<lparr>bp_log_parser := p, bp_done := False\<rparr>))"

definition bp_get_variable_id :: "buffer_parser \<Rightarrow> string \<Rightarrow> nat option" where
  "bp_get_variable_id bp var = lp_get_symbol_id (bp_log_parser bp) var"

text \<open>The offset that the caller passes by reference is the second result.\<close>

definition bp_parse_next_event ::
  "char storage \<Rightarrow> nat \<Rightarrow> nat \<Rightarrow> bool \<Rightarrow> buffer_parser \<Rightarrow>
     (error_code \<times> nat \<times> buffer_parser) res option" where
  "bp_parse_next_event buf sz offset finished_reading_input bp =
     (let p = lp_set_input_buffer buf (u32 sz) (u32 offset) finished_reading_input
                (lp_reset_log_event_view (bp_log_parser bp))
      in cbind (parse_and_generate_metadata NoAction p) (\<lambda>((error_code, action), p').
        Some (if error_code \<noteq> Success
              then rbind (if ob_pos (lp_output p') \<noteq> 0
                          then rbind (ob_get_token 0 (lp_output p')) (\<lambda>t. Inr (tk_start_pos t))
                          else Inr offset) (\<lambda>offset'.
                     rbind (bp_reset (bp\<lparr>bp_log_parser := p'\<rparr>)) (\<lambda>bp'. Inr (error_code, offset', bp')))
              else Inr (Success, lp_get_input_pos p',
                     bp\<lparr>bp_log_parser := p', bp_done := (if action = CompressAndFinish then True else bp_done bp)\<rparr>))))"

end
