(* ===== verification/Log_Parser_Correct.thy ===== *)
theory Log_Parser_Correct
  imports Log_Feed Log_Event_Correct Log_Parser
begin

text \<open>
  How a log parser cuts the tokens of a log into events, against a specification on the pieces of
  the log.
\<close>

section \<open>Tokens of the log of a caller\<close>

lemma shows_bounds:
  assumes "tok_shows w t piece"
  shows "tk_start_pos t \<le> tk_end_pos t" "tk_end_pos t \<le> length w" "tk_start_pos t \<le> length w"
    "tk_buffer_size t = 2 * length w" "tk_buffer t = GivenStorage"
    "w \<noteq> [] \<Longrightarrow> tk_start_pos t < 2 * length w"
  using assms by (auto simp: tok_shows_def simp flip: length_greater_0_conv)

lemma shows_view:
  assumes t: "tok_shows w t piece" and log: "mem GivenStorage = user_storage w tail"
  shows "tk_to_string_view mem t = Inr (snd piece, t)"
proof -
  have "map (\<lambda>i. (w @ tail) ! i) [tk_start_pos t..<tk_end_pos t] = snd piece"
    using t by (auto simp: tok_shows_def nth_append intro!: nth_equalityI)
  with shows_bounds [OF t] log show ?thesis
    by (simp add: tk_to_string_view_def tk_subspan_def st_slice_def user_storage_def)
qed

lemma shows_token_reads:
  "tok_shows w t piece \<Longrightarrow> mem GivenStorage = user_storage w tail \<Longrightarrow> token_reads mem t piece"
  using shows_view [of w t piece mem tail] by (auto simp: token_reads_def tk_get_length_def tok_shows_def)

lemma shows_first_char:
  assumes t: "tok_shows w t piece" and log: "mem GivenStorage = user_storage w tail" and "w \<noteq> []" "tail \<noteq> []"
  shows "tk_get_first_char mem t = Inr ((w @ tail) ! tk_start_pos t)"
proof -
  have "0 < length tail" using assms(4) by simp
  then have "tk_start_pos t < length w + length tail" using shows_bounds(3) [OF t] by linarith
  with shows_bounds(4-6) [OF t] assms(3) log show ?thesis
    by (simp add: tk_get_first_char_def st_get_def user_storage_def)
qed

lemma shows_nonempty:
  assumes "tok_shows w t piece" "snd piece = c # s"
  shows "tk_start_pos t < tk_end_pos t" "w ! tk_start_pos t = c" "tk_start_pos t < length w"
proof -
  have e: "c # s = take (tk_end_pos t - tk_start_pos t) (drop (tk_start_pos t) w)"
    using assms by (simp add: tok_shows_def)
  show p: "tk_start_pos t < tk_end_pos t"
  proof (rule ccontr)
    assume "\<not> tk_start_pos t < tk_end_pos t"
    with e show False by simp
  qed
  with shows_bounds [OF assms(1)] show l: "tk_start_pos t < length w" by simp
  then have "drop (tk_start_pos t) w = w ! tk_start_pos t # drop (Suc (tk_start_pos t)) w"
    by (simp add: Cons_nth_drop_Suc)
  with e p show "w ! tk_start_pos t = c" by (simp add: take_Cons')
qed

lemma shows_delimiter:
  assumes t: "tok_shows w t piece" and log: "mem GivenStorage = user_storage w tail" and "w \<noteq> []" "tail \<noteq> []"
  shows "\<exists>str. tk_get_delimiter mem t = Inr str"
proof -
  have "0 < length tail" using assms(4) by simp
  then have "Suc (tk_start_pos t) \<le> length w + length tail" using shows_bounds(3) [OF t] by linarith
  moreover have "1 \<le> 2 * length w - tk_start_pos t" using shows_bounds(6) [OF t] assms(3) by simp
  ultimately show ?thesis using shows_bounds(4,5) [OF t] log
    by (simp add: tk_get_delimiter_def tk_subspan_def st_slice_def user_storage_def)
qed

text \<open>Taking the first character of a token off, as a token of its own.\<close>

lemma shows_split:
  assumes t: "tok_shows w t (types, c # s)" and w: "small_text w"
  shows "tok_shows w (tk_set_type_ids (Some ids) (tk_set_end_pos (tk_get_next_pos t) t)) (Some ids, [c])"
    "tok_shows w (snd (tk_increment_start_pos t)) (types, s)"
proof -
  have "snd (types, c # s) = c # s" by simp
  note ne = shows_nonempty [OF t this]
  note bd = shows_bounds [OF t]
  have n: "tk_get_next_pos t = Suc (tk_start_pos t)"
    using ne(3) bd(4) w by (simp add: tk_get_next_pos_def Let_def small_text_def)
  have "c # s = take (tk_end_pos t - tk_start_pos t) (drop (tk_start_pos t) w)" using t by (simp add: tok_shows_def)
  also have "drop (tk_start_pos t) w = w ! tk_start_pos t # drop (Suc (tk_start_pos t)) w"
    using ne(3) by (simp add: Cons_nth_drop_Suc)
  also have "tk_end_pos t - tk_start_pos t = Suc (tk_end_pos t - Suc (tk_start_pos t))" using ne(1) by simp
  finally have s: "s = take (tk_end_pos t - Suc (tk_start_pos t)) (drop (Suc (tk_start_pos t)) w)" by simp
  have c: "[c] = take (Suc 0) (drop (tk_start_pos t) w)" using ne(2,3) by (simp add: take_Suc_conv_app_nth)
  show "tok_shows w (tk_set_type_ids (Some ids) (tk_set_end_pos (tk_get_next_pos t) t)) (Some ids, [c])"
    using t n c ne(3) by (simp add: tok_shows_def tk_set_type_ids_def tk_set_end_pos_def)
  show "tok_shows w (snd (tk_increment_start_pos t)) (types, s)"
    using t n s ne(1) by (simp add: tok_shows_def tk_increment_start_pos_def tk_set_start_pos_def)
qed

section \<open>The events of a list of pieces\<close>

text \<open>
  An event goes on from its first piece to the end of the log, to the newline token, which only an
  event without a header ends with, or to the newline a piece begins with: any piece if the event
  has no header, a header if it has one. That newline belongs to the event and the rest of the
  piece begins the next one.
\<close>

definition piece_type :: "log_piece \<Rightarrow> nat" where
  "piece_type t = (case fst t of Some (v # _) \<Rightarrow> v | _ \<Rightarrow> 0)"

definition opens_line :: "log_piece \<Rightarrow> bool" where
  "opens_line t \<longleftrightarrow> (\<exists>s. snd t = CHR 0x0A # s)"

abbreviation newline_piece :: log_piece where
  "newline_piece \<equiv> (Some cTokenUncaughtStringTypes, [CHR 0x0A])"

abbreviation rest_piece :: "log_piece \<Rightarrow> log_piece" where
  "rest_piece t \<equiv> (fst t, tl (snd t))"

fun event_rest ::
  "bool \<Rightarrow> log_piece list \<Rightarrow> log_piece list \<times> (log_piece option \<times> log_piece list) option" where
  "event_rest h [] = ([], None)"
| "event_rest h (t # ts) =
     (if t = end_piece then ([], None)
      else if \<not> h \<and> piece_type t = symbol_num TokenNewline then ([t], Some (None, ts))
      else if opens_line t \<and> (h \<longrightarrow> piece_type t = symbol_num TokenHeader)
      then ([newline_piece], Some (Some (rest_piece t), ts))
      else let (ev, r) = event_rest h ts in (t # ev, r))"

definition event_from ::
  "log_piece \<Rightarrow> log_piece list \<Rightarrow> log_piece list \<times> (log_piece option \<times> log_piece list) option" where
  "event_from t ts = (let (ev, r) = event_rest (piece_type t = symbol_num TokenHeader) ts in (t # ev, r))"

text \<open>The next event, given the piece left over from the last one; a header that begins with a
  newline leaves that newline as an event of its own.\<close>

fun next_event ::
  "log_piece option \<Rightarrow> log_piece list \<Rightarrow> log_piece list \<times> (log_piece option \<times> log_piece list) option" where
  "next_event (Some t) ts = event_from t ts"
| "next_event None [] = ([], None)"
| "next_event None (t # ts) =
     (if t = end_piece then ([], None)
      else if piece_type t = symbol_num TokenHeader \<and> opens_line t
      then ([newline_piece], Some (Some (rest_piece t), ts))
      else event_from t ts)"

lemma event_rest_shorter: "event_rest h ts = (ev, Some (pend, ts')) \<Longrightarrow> length ts' < length ts"
  by (induction h ts arbitrary: ev rule: event_rest.induct) (auto simp: Let_def split: if_splits prod.splits)

lemma next_event_shorter: "next_event pend ts = (ev, Some (pend', ts')) \<Longrightarrow> length ts' < length ts"
  by (cases "(pend, ts)" rule: next_event.cases)
    (auto simp: event_from_def Let_def dest!: event_rest_shorter split: if_splits prod.splits)

function split_events :: "log_piece option \<Rightarrow> log_piece list \<Rightarrow> log_piece list list" where
  "split_events pend ts =
     (case next_event pend ts of
        (ev, None) \<Rightarrow> [ev]
      | (ev, Some (pend', ts')) \<Rightarrow> ev # split_events pend' ts')"
  by auto
termination
  by (relation "measure (\<lambda>(pend, ts). length ts)") (auto dest: next_event_shorter [OF sym])

declare split_events.simps [simp del]

text \<open>The texts of the events make up the text of the pieces.\<close>

definition pending_text :: "log_piece option \<Rightarrow> string" where
  "pending_text pend = (case pend of None \<Rightarrow> [] | Some t \<Rightarrow> snd t)"

definition after_text :: "(log_piece option \<times> log_piece list) option \<Rightarrow> string" where
  "after_text r = (case r of None \<Rightarrow> [] | Some (pend, ts) \<Rightarrow> pending_text pend @ pieces_text ts)"

text \<open>The end token comes last and only there.\<close>

fun ends_once :: "log_piece list \<Rightarrow> bool" where
  "ends_once [] \<longleftrightarrow> False"
| "ends_once (t # ts) \<longleftrightarrow> (if t = end_piece then ts = [] else ends_once ts)"

lemma event_rest_text:
  "ends_once ts \<Longrightarrow> event_rest h ts = (ev, r) \<Longrightarrow> pieces_text ev @ after_text r = pieces_text ts"
proof (induction h ts arbitrary: ev rule: event_rest.induct)
  case (2 h t ts)
  obtain ev' r' where e: "event_rest h ts = (ev', r')" by force
  show ?case
  proof (cases "t = end_piece")
    case False
    with "2.prems"(1) have "ends_once ts" by simp
    with "2.IH" False e "2.prems" show ?thesis
      by (auto simp: after_text_def pending_text_def opens_line_def split: if_splits)
  qed (use "2.prems" in \<open>simp add: after_text_def\<close>)
qed simp

lemma event_rest_ends: "ends_once ts \<Longrightarrow> event_rest h ts = (ev, Some (pend, ts')) \<Longrightarrow> ends_once ts'"
  by (induction h ts arbitrary: ev rule: event_rest.induct) (auto simp: Let_def split: if_splits prod.splits)

lemma event_from_text:
  assumes "ends_once ts" "event_from t ts = (ev, r)"
  shows "pieces_text ev @ after_text r = snd t @ pieces_text ts"
proof -
  obtain ev' r' where e: "event_rest (piece_type t = symbol_num TokenHeader) ts = (ev', r')" by force
  with assms(2) event_rest_text [OF assms(1) e] show ?thesis by (auto simp: event_from_def)
qed

lemma next_event_text:
  assumes "ends_once ts" "next_event pend ts = (ev, r)"
  shows "pieces_text ev @ after_text r = pending_text pend @ pieces_text ts"
proof (cases "(pend, ts)" rule: next_event.cases)
  case (1 t ts')
  with assms event_from_text [of ts t ev r] show ?thesis by (simp add: pending_text_def)
next
  case (3 t ts')
  show ?thesis
  proof (cases "t = end_piece")
    case True
    with 3 assms show ?thesis by (auto simp: pending_text_def after_text_def)
  next
    case False
    with 3 assms(1) have ts': "ends_once ts'" by simp
    show ?thesis
    proof (cases "piece_type t = symbol_num TokenHeader \<and> opens_line t")
      case True
      then obtain str where "snd t = CHR 0x0A # str" by (auto simp: opens_line_def)
      with True False 3 assms(2) show ?thesis by (auto simp: pending_text_def after_text_def)
    next
      case other: False
      with False 3 assms(2) have "event_from t ts' = (ev, r)" by (simp split: if_splits)
      from event_from_text [OF ts' this] 3 show ?thesis by (simp add: pending_text_def)
    qed
  qed
qed (use assms in simp)

lemma event_from_ends:
  assumes "ends_once ts" "event_from t ts = (ev, Some (pend, ts'))"
  shows "ends_once ts'"
proof -
  obtain ev' r' where e: "event_rest (piece_type t = symbol_num TokenHeader) ts = (ev', r')" by force
  with assms event_rest_ends show ?thesis by (auto simp: event_from_def)
qed

lemma next_event_ends:
  assumes "ends_once ts" "next_event pend ts = (ev, Some (pend', ts'))"
  shows "ends_once ts'"
proof (cases "(pend, ts)" rule: next_event.cases)
  case (1 t ts1)
  with assms event_from_ends show ?thesis by simp
next
  case (3 t ts1)
  with assms(2) have "t \<noteq> end_piece" by auto
  moreover with 3 assms(1) have "ends_once ts1" by simp
  ultimately show ?thesis using 3 assms(2) event_from_ends [of ts1 t ev pend' ts']
    by (auto split: if_splits)
qed (use assms in simp)

lemma split_events_text: "ends_once ts \<Longrightarrow> concat (map pieces_text (split_events pend ts)) = pending_text pend @ pieces_text ts"
proof (induction pend ts rule: split_events.induct)
  case (1 pend ts)
  obtain ev r where e: "next_event pend ts = (ev, r)" by force
  show ?case
  proof (cases r)
    case None
    with e next_event_text [OF "1.prems" e] show ?thesis
      by (subst split_events.simps) (simp add: after_text_def)
  next
    case (Some x)
    obtain pend' ts' where x: "x = (pend', ts')" by force
    have "split_events pend ts = ev # split_events pend' ts'"
      using e Some x by (subst split_events.simps) simp
    moreover have "ends_once ts'" using next_event_ends [OF "1.prems"] e Some x by simp
    ultimately show ?thesis using "1.IH" [OF e [symmetric] Some x [symmetric]] next_event_text [OF "1.prems" e] Some x
      by (simp add: after_text_def)
  qed
qed

section \<open>The state while an event is parsed\<close>

definition ob_holds :: "string \<Rightarrow> output_buffer \<Rightarrow> log_piece list \<Rightarrow> bool" where
  "ob_holds w ob acc \<longleftrightarrow> ob_ok ob \<and> ob_pos ob = ob_first ob + length acc \<and>
     (\<forall>i < length acc. tok_shows w (ob_cell ob (ob_first ob + i)) (acc ! i))"

lemma ob_first_flag: "ob_has_header ob' = ob_has_header ob \<Longrightarrow> ob_first ob' = ob_first ob"
  by (simp add: ob_first_def)

lemma holds_push:
  assumes h: "ob_holds w ob acc" and t: "tok_shows w t piece" and small: "length acc < 2 ^ 30 - 2"
  shows "\<exists>ob1. ob_set_curr_token t ob = Inr ob1 \<and> ob_get_curr_token ob1 = Inr t \<and> ob_holds w ob1 acc \<and>
    ob_has_header ob1 = ob_has_header ob \<and>
    (\<exists>ob2. ob_advance_to_next_token ob1 = Inr ob2 \<and> ob_holds w ob2 (acc @ [piece]) \<and>
       ob_has_header ob2 = ob_has_header ob)"
proof -
  let ?f = "ob_first ob"
  have ob: "ob_ok ob" "ob_pos ob < ob_size ob" "ob_pos ob = ?f + length acc" using h by (auto simp: ob_holds_def ob_ok_def)
  from ob_set_token_ok [OF ob(1,2), of t] obtain ob1 where
    ob1: "ob_set_token (ob_pos ob) t ob = Inr ob1" "ob_ok ob1" "ob_pos ob1 = ob_pos ob" "ob_size ob1 = ob_size ob"
      "ob_cell ob1 = (ob_cell ob)(ob_pos ob := t)" "ob_has_header ob1 = ob_has_header ob" by blast
  have f1: "ob_first ob1 = ?f" by (rule ob_first_flag [OF ob1(6)])
  have "ob_pos ob1 < 2 ^ 30" using small ob(3) ob1(3) by (simp add: ob_first_def split: if_splits)
  from ob_advance_ok [OF ob1(2) this] obtain ob2 where
    ob2: "ob_advance_to_next_token ob1 = Inr ob2" "ob_ok ob2" "ob_pos ob2 = Suc (ob_pos ob1)"
      "\<And>i. i \<le> ob_pos ob1 \<Longrightarrow> ob_cell ob2 i = ob_cell ob1 i" "ob_has_header ob2 = ob_has_header ob1" by blast
  have f2: "ob_first ob2 = ?f" using ob_first_flag [OF ob2(5)] f1 by simp
  have "ob_holds w ob1 acc" using h ob1 f1 ob(3) by (simp add: ob_holds_def)
  moreover have "ob_holds w ob2 (acc @ [piece])"
    unfolding ob_holds_def
  proof (intro conjI allI impI)
    fix i assume i: "i < length (acc @ [piece])"
    then have "ob_cell ob2 (?f + i) = ((ob_cell ob)(ob_pos ob := t)) (?f + i)"
      using ob2(4) ob1(3,5) ob(3) by simp
    with i h t ob(3) show "tok_shows w (ob_cell ob2 (ob_first ob2 + i)) ((acc @ [piece]) ! i)"
      unfolding f2 by (cases "i = length acc") (auto simp: ob_holds_def nth_append)
  qed (use ob2(2,3) ob1(3) ob(3) f2 in auto)
  moreover have "ob_get_curr_token ob1 = Inr t"
    using ob_get_token_ok [OF ob1(2), of "ob_pos ob1"] ob1(3,4,5) ob(2) by (simp add: ob_curr_token)
  ultimately show ?thesis using ob1(1,6) ob2(1,5) by (auto simp: ob_curr_token)
qed

text \<open>The pieces whose tokens the parser can classify, with ids below a bound.\<close>

definition piece_ok :: "nat \<Rightarrow> log_piece \<Rightarrow> bool" where
  "piece_ok N t \<longleftrightarrow> (\<exists>v vs. fst t = Some (v # vs) \<and> 0 < v \<and> v < N)"

lemma piece_ok_type: "piece_ok N t \<Longrightarrow> tok_shows w tok t \<Longrightarrow> tk_type tok = Inr (piece_type t) \<and> 0 < piece_type t \<and> piece_type t < N"
  by (auto simp: piece_ok_def tok_shows_def tk_type_def piece_type_def)

text \<open>The parser with its input in the memory of the caller.\<close>

definition reads_log :: "string \<Rightarrow> input_buffer \<Rightarrow> string \<Rightarrow> log_parser \<Rightarrow> bool" where
  "reads_log tail b w p \<longleftrightarrow> (\<exists>q g c. lp_input p = user_buffer tail b w q g \<or>
     lp_input p = ib_set_consumed_pos (user_buffer tail b w q g) c)"

lemma reads_log_memory: "reads_log tail b w p \<Longrightarrow> lp_memory p GivenStorage = user_storage w tail"
  by (auto simp: reads_log_def lp_memory_def ib_set_consumed_pos_def)

text \<open>What the parser has kept when it returns from an event that is not the last.\<close>

definition parses_on ::
  "string \<Rightarrow> input_buffer \<Rightarrow> string \<Rightarrow> log_parser \<Rightarrow> (log_piece option \<times> log_piece list) option \<Rightarrow> bool" where
  "parses_on tail b w p r \<longleftrightarrow> reads_log tail b w p \<and>
     (case r of
        None \<Rightarrow> True
      | Some (pend, ts) \<Rightarrow> ib_pos (lp_input p) \<le> length w \<and>
          feeds tail b w (lp_lexer p) (ib_pos (lp_input p)) False ts \<and>
          lp_has_start_of_log p = (pend \<noteq> None) \<and>
          (\<forall>t. pend = Some t \<longrightarrow> tok_shows w (lp_start_of_log_message p) t))"

definition action_of :: "'a option \<Rightarrow> parsing_action" where
  "action_of r = (if r = None then CompressAndFinish else Compress)"

lemma next_symbol:
  assumes "lx_scan (lp_lexer p) (lp_input p) = Some (Inr ((Success, Some t), lx, input))"
  shows "lp_get_next_symbol p = Some (Inr ((Success, Some t), p\<lparr>lp_lexer := lx, lp_input := input\<rparr>))"
  using assms by (simp add: lp_get_next_symbol_def)

text \<open>The rounds of the loop follow \<open>event_rest\<close>.\<close>

lemma round_token:
  assumes "lp_get_next_symbol p = Some (Inr ((Success, Some t), p1))" "ob_set_curr_token t (lp_output p1) = Inr ob"
  shows "parse_round a p = Some (parse_token t (lp_set_output ob p1))"
  using assms by (simp add: parse_round_def)

lemma lp_set_output_simps [simp]:
  "lp_output (lp_set_output ob p) = ob" "lp_input (lp_set_output ob p) = lp_input p"
  "lp_lexer (lp_set_output ob p) = lp_lexer p" "lp_has_start_of_log (lp_set_output ob p) = lp_has_start_of_log p"
  "lp_start_of_log_message (lp_set_output ob p) = lp_start_of_log_message p"
  "lv_log_var_occurrences (lp_view (lp_set_output ob p)) = lv_log_var_occurrences (lp_view p)"
  "lp_memory (lp_set_output ob p) = lp_memory p"
  by (simp_all add: lp_set_output_def lp_memory_def)

lemma first_char_opens:
  assumes t: "tok_shows w t piece" "snd piece \<noteq> []" and mem: "mem GivenStorage = user_storage w tail"
    and tail: "tail \<noteq> []"
  shows "\<exists>c. tk_get_first_char mem t = Inr c \<and> (c = CHR 0x0A \<longleftrightarrow> opens_line piece)"
proof -
  obtain c s where c: "snd piece = c # s" using t(2) by (cases "snd piece") auto
  note ne = shows_nonempty [OF t(1) c]
  then have "w \<noteq> []" by auto
  from shows_first_char [where mem = mem, OF t(1) mem this tail] ne(2,3) c show ?thesis
    by (simp add: nth_append opens_line_def)
qed

lemma found_piece:
  assumes t: "tok_shows w t piece" "snd piece \<noteq> []" and mem: "lp_memory p GivenStorage = user_storage w tail"
    and tail: "tail \<noteq> []"
  shows "found_start_of_next_message p t v = Inr (opens_line piece \<and>
    (if ob_has_header (lp_output p) then v = symbol_num TokenHeader else v \<noteq> symbol_num TokenNewline))"
proof -
  from first_char_opens [where mem = "lp_memory p", OF t mem tail] obtain c where
    "tk_get_first_char (lp_memory p) t = Inr c" "c = CHR 0x0A \<longleftrightarrow> opens_line piece" by blast
  then show ?thesis by (simp add: found_start_of_next_message_def del: rbind_eq_Inr)
qed

lemma found_end:
  assumes t: "tok_shows w t end_piece" and mem: "lp_memory p GivenStorage = user_storage w tail"
    and w: "w \<noteq> []" "tail \<noteq> []"
  shows "\<exists>f. found_start_of_next_message p t v = Inr f"
  using shows_first_char [where mem = "lp_memory p", OF t mem w]
  by (auto simp: found_start_of_next_message_def)

text \<open>One token of the loop.\<close>

lemma parse_token_end:
  assumes t: "tok_shows w t end_piece" and mem: "lp_memory p GivenStorage = user_storage w tail"
    and w: "w \<noteq> []" "tail \<noteq> []"
  shows "parse_token t p = Inr (ParseReturn Success CompressAndFinish, p)"
proof -
  have ty: "tk_type t = Inr 0" using t by (simp add: tok_shows_def tk_type_def cTokenEndTypes_def)
  from found_end [OF t mem w] obtain f where "found_start_of_next_message p t 0 = Inr f" by blast
  with ty show ?thesis by (simp add: parse_token_def del: rbind_eq_Inr)
qed

lemma parse_token_piece:
  assumes t: "tok_shows w t piece" "snd piece \<noteq> []" "piece_ok N piece"
    and mem: "lp_memory p GivenStorage = user_storage w tail" and w: "small_text w" "tail \<noteq> []"
    and ob: "ob_get_curr_token (lp_output p) = Inr t" "ob_holds w (lp_output p) acc"
      "ob_advance_to_next_token (lp_output p) = Inr ob2" and small: "length acc < 2 ^ 30 - 2"
  shows "let h = ob_has_header (lp_output p); v = piece_type piece in
    if \<not> h \<and> v = symbol_num TokenNewline
    then parse_token t p = Inr (ParseReturn Success Compress,
      (lp_set_output ob2 p)\<lparr>lp_input := ib_set_consumed_pos (lp_input p) (tk_end_pos t)\<rparr>)
    else if opens_line piece \<and> (h \<longrightarrow> v = symbol_num TokenHeader)
    then \<exists>ob3 m. parse_token t p = Inr (ParseReturn Success Compress,
        (lp_set_output ob3 p)\<lparr>lp_start_of_log_message := m,
           lp_input := ib_set_consumed_pos (lp_input p) (tk_start_pos t), lp_has_start_of_log := True\<rparr>) \<and>
      ob_holds w ob3 (acc @ [newline_piece]) \<and> ob_has_header ob3 = h \<and> tok_shows w m (rest_piece piece)
    else parse_token t p = Inr (ParseGoOn, lp_set_output ob2 p)"
proof -
  let ?h = "ob_has_header (lp_output p)" and ?v = "piece_type piece"
  note ty = piece_ok_type [OF t(3,1)]
  note fd = found_piece [OF t(1,2) mem w(2), of ?v]
  consider (nl) "\<not> ?h \<and> ?v = symbol_num TokenNewline"
    | (found) "\<not> (\<not> ?h \<and> ?v = symbol_num TokenNewline)" "opens_line piece \<and> (?h \<longrightarrow> ?v = symbol_num TokenHeader)"
    | (on) "\<not> (\<not> ?h \<and> ?v = symbol_num TokenNewline)" "\<not> (opens_line piece \<and> (?h \<longrightarrow> ?v = symbol_num TokenHeader))"
    by blast
  then show ?thesis
  proof cases
    case nl
    with ty fd ob(1,3) show ?thesis
      by (simp add: parse_token_def parse_newline_def Let_def del: rbind_eq_Inr)
  next
    case found
    then obtain s where s: "snd piece = CHR 0x0A # s" by (auto simp: opens_line_def)
    have "tok_shows w t (fst piece, CHR 0x0A # s)" using t(1) s by (metis prod.collapse)
    note sp = shows_split [OF this w(1)]
    let ?nl = "tk_set_type_ids (Some cTokenUncaughtStringTypes) (tk_set_end_pos (tk_get_next_pos t) t)"
    from holds_push [OF ob(2) sp(1) small, of cTokenUncaughtStringTypes] obtain ob1 ob3 where
      "ob_set_curr_token ?nl (lp_output p) = Inr ob1" "ob_advance_to_next_token ob1 = Inr ob3"
      "ob_holds w ob3 (acc @ [newline_piece])" "ob_has_header ob3 = ?h" by blast
    with found ty fd ob(1) sp(2) s show ?thesis
      by (auto simp: parse_token_def parse_next_message_def Let_def tk_increment_start_pos_def simp del: rbind_eq_Inr)
  next
    case on
    with ty fd ob(3) show ?thesis by (auto simp: parse_token_def Let_def simp del: rbind_eq_Inr)
  qed
qed

text \<open>The loop, from a state that holds the pieces of the event parsed so far.\<close>

definition same_view :: "log_parser \<Rightarrow> log_parser \<Rightarrow> bool" where
  "same_view p p' \<longleftrightarrow> lv_log_var_occurrences (lp_view p') = lv_log_var_occurrences (lp_view p) \<and>
     lv_multiline (lp_view p') = lv_multiline (lp_view p) \<and>
     ob_has_header (lp_output p') = ob_has_header (lp_output p) \<and> same_rules (lp_lexer p) (lp_lexer p')"

lemma same_view_trans: "same_view p p1 \<Longrightarrow> same_view p1 p2 \<Longrightarrow> same_view p p2"
  by (auto simp: same_view_def intro: same_rules_trans)

lemma reads_log_simps:
  "lp_input p = user_buffer tail b w q g \<Longrightarrow> reads_log tail b w p"
  "lp_input p = ib_set_consumed_pos (user_buffer tail b w q g) c \<Longrightarrow> reads_log tail b w p"
  by (auto simp: reads_log_def)

lemma ib_pos_consumed [simp]: "ib_pos (ib_set_consumed_pos b c) = ib_pos b"
  by (simp add: ib_set_consumed_pos_def)

lemma parse_loop_feeds:
  assumes "feeds tail b w (lp_lexer p) q f ts" "lp_input p = user_buffer tail b w q f"
    and "ob_holds w (lp_output p) acc" "\<And>t. t \<in> set ts \<Longrightarrow> t \<noteq> end_piece \<Longrightarrow> piece_ok N t"
    and "length acc + length ts < 2 ^ 30 - 2" "\<not> lp_has_start_of_log p"
    and w: "small_text w" "w \<noteq> []" "tail \<noteq> []"
  shows "\<exists>p' ev r. event_rest (ob_has_header (lp_output p)) ts = (ev, r) \<and>
    parse_loop a p = Some (Inr ((Success, action_of r), p')) \<and> ob_holds w (lp_output p') (acc @ ev) \<and>
    same_view p p' \<and> parses_on tail b w p' r"
  using assms(1-6)
proof (induction ts arbitrary: p q f acc rule: list.induct)
  case (Cons t ts)
  from Cons.prems(1) obtain tok lx' q' f' where
    s: "lx_scan (lp_lexer p) (user_buffer tail b w q f) = Some (Inr ((Success, Some tok), lx', user_buffer tail b w q' f'))"
      "tok_shows w tok t" "same_rules (lp_lexer p) lx'"
    and next_feeds: "t = end_piece \<and> ts = [] \<or> snd t \<noteq> [] \<and> q' \<le> length w \<and> feeds tail b w lx' q' f' ts \<and> feeds tail b w lx' q' False ts"
    by (auto elim!: feeds_ConsE)
  define p1 where "p1 = p\<lparr>lp_lexer := lx', lp_input := user_buffer tail b w q' f'\<rparr>"
  have sym: "lp_get_next_symbol p = Some (Inr ((Success, Some tok), p1))"
    using next_symbol [of p] s(1) Cons.prems(2) by (simp add: p1_def)
  let ?h = "ob_has_header (lp_output p)"
  have "length acc < 2 ^ 30 - 2" using Cons.prems(5) by simp
  from holds_push [OF Cons.prems(3) s(2) this] obtain ob1 ob2 where
    ob1: "ob_set_curr_token tok (lp_output p) = Inr ob1" "ob_get_curr_token ob1 = Inr tok" "ob_holds w ob1 acc"
      "ob_has_header ob1 = ?h" and
    ob2: "ob_advance_to_next_token ob1 = Inr ob2" "ob_holds w ob2 (acc @ [t])" "ob_has_header ob2 = ?h" by blast
  define p2 where "p2 = lp_set_output ob1 p1"
  have round: "parse_round a p = Some (parse_token tok p2)"
    unfolding p2_def by (rule round_token [OF sym]) (simp add: p1_def ob1(1))
  have mem: "lp_memory p2 GivenStorage = user_storage w tail" by (simp add: p2_def p1_def lp_memory_def)
  have out: "lp_output p2 = ob1" "lp_input p2 = user_buffer tail b w q' f'" "lp_lexer p2 = lx'"
    "\<not> lp_has_start_of_log p2" using Cons.prems(6) by (simp_all add: p2_def p1_def)
  have same: "same_view p (lp_set_output ob p2)" if "ob_has_header ob = ?h" for ob
    using that s(3) by (simp add: same_view_def p2_def p1_def) (simp add: lp_set_output_def)
  show ?case
  proof (cases "t = end_piece")
    case True
    with parse_token_end [OF _ mem w(2,3)] s(2) have "parse_token tok p2 = Inr (ParseReturn Success CompressAndFinish, p2)"
      by simp
    then have "parse_loop a p = Some (Inr ((Success, CompressAndFinish), p2))"
      by (subst parse_loop.simps) (simp add: round)
    moreover have "same_view p p2" using same [OF ob1(4)] by (simp add: p2_def lp_set_output_def)
    ultimately show ?thesis using True ob1(3) out reads_log_simps(1) [OF out(2)]
      by (auto simp: action_of_def parses_on_def)
  next
    case False
    with next_feeds have nf: "snd t \<noteq> []" "q' \<le> length w" "feeds tail b w lx' q' f' ts" "feeds tail b w lx' q' False ts"
      by auto
    have ok: "piece_ok N t" using Cons.prems(4) False by simp
    have small: "length acc < 2 ^ 30 - 2" using Cons.prems(5) by simp
    note step = parse_token_piece [OF s(2) nf(1) ok mem w(1,3), of acc ob2, unfolded out(1) ob1(4) Let_def,
        OF ob1(2,3) ob2(1) small]
    consider (nl) "\<not> ?h \<and> piece_type t = symbol_num TokenNewline"
      | (found) "\<not> (\<not> ?h \<and> piece_type t = symbol_num TokenNewline)"
          "opens_line t \<and> (?h \<longrightarrow> piece_type t = symbol_num TokenHeader)"
      | (on) "\<not> (\<not> ?h \<and> piece_type t = symbol_num TokenNewline)"
          "\<not> (opens_line t \<and> (?h \<longrightarrow> piece_type t = symbol_num TokenHeader))" by blast
    then show ?thesis
    proof cases
      case nl
      let ?p = "(lp_set_output ob2 p2)\<lparr>lp_input := ib_set_consumed_pos (lp_input p2) (tk_end_pos tok)\<rparr>"
      have "parse_token tok p2 = Inr (ParseReturn Success Compress, ?p)" using step nl by simp
      then have "parse_loop a p = Some (Inr ((Success, Compress), ?p))"
        by (subst parse_loop.simps) (simp add: round)
      moreover have "event_rest ?h (t # ts) = ([t], Some (None, ts))" using nl False by simp
      moreover have "parses_on tail b w ?p (Some (None, ts))"
        using nf out by (simp add: parses_on_def reads_log_def) blast
      moreover have "same_view p ?p" using same [OF ob2(3)] by (simp add: same_view_def)
      ultimately show ?thesis using ob2(2)
        by (intro exI [of _ ?p] exI [of _ "[t]"] exI [of _ "Some (None, ts)"]) (simp add: action_of_def)
    next
      case found
      from step found obtain ob3 m where
        tk: "parse_token tok p2 = Inr (ParseReturn Success Compress,
          (lp_set_output ob3 p2)\<lparr>lp_start_of_log_message := m,
             lp_input := ib_set_consumed_pos (lp_input p2) (tk_start_pos tok), lp_has_start_of_log := True\<rparr>)"
          "ob_holds w ob3 (acc @ [newline_piece])" "ob_has_header ob3 = ?h" "tok_shows w m (rest_piece t)" by auto
      let ?p = "(lp_set_output ob3 p2)\<lparr>lp_start_of_log_message := m,
             lp_input := ib_set_consumed_pos (lp_input p2) (tk_start_pos tok), lp_has_start_of_log := True\<rparr>"
      have "parse_loop a p = Some (Inr ((Success, Compress), ?p))"
        by (subst parse_loop.simps) (simp add: round tk(1))
      moreover have "event_rest ?h (t # ts) = ([newline_piece], Some (Some (rest_piece t), ts))" using found False by auto
      moreover have "parses_on tail b w ?p (Some (Some (rest_piece t), ts))"
        using nf out tk(4) by (simp add: parses_on_def reads_log_def) blast
      moreover have "same_view p ?p" using same [OF tk(3)] by (simp add: same_view_def)
      ultimately show ?thesis using tk(2)
        by (intro exI [of _ ?p] exI [of _ "[newline_piece]"] exI [of _ "Some (Some (rest_piece t), ts)"])
          (simp add: action_of_def)
    next
      case on
      let ?p = "lp_set_output ob2 p2"
      have "parse_token tok p2 = Inr (ParseGoOn, ?p)" using step on by auto
      then have lp: "parse_loop a p = parse_loop a ?p" by (subst parse_loop.simps) (simp add: round)
      have "\<exists>p' ev r. event_rest (ob_has_header (lp_output ?p)) ts = (ev, r) \<and>
        parse_loop a ?p = Some (Inr ((Success, action_of r), p')) \<and> ob_holds w (lp_output p') ((acc @ [t]) @ ev) \<and>
        same_view ?p p' \<and> parses_on tail b w p' r"
        by (rule Cons.IH) (use nf out ob2(2) Cons.prems(4,5) in auto)
      then obtain p' ev r where r: "event_rest ?h ts = (ev, r)" "parse_loop a ?p = Some (Inr ((Success, action_of r), p'))"
        "ob_holds w (lp_output p') (acc @ t # ev)" "same_view ?p p'" "parses_on tail b w p' r" using ob2(3) by auto
      moreover have "event_rest ?h (t # ts) = (t # ev, r)" using on False r(1) by auto
      ultimately show ?thesis using lp same_view_trans [OF same [OF ob2(3)] r(4)]
        by (intro exI [of _ p'] exI [of _ "t # ev"] exI [of _ r]) simp
    qed
  qed
qed auto

section \<open>Parsing an event\<close>

lemma parse_first_piece:
  assumes t: "tok_shows w tok t" "piece_ok N t" and ob: "ob_ok (lp_output p)"
    and captures: "lx_rule_id_to_capture (lp_lexer p) = (\<lambda>_. None)"
  shows "\<exists>p'. parse_first tok p = Some (Inr (ParseGoOn, p')) \<and> ob_holds w (lp_output p') [t] \<and>
    ob_has_header (lp_output p') = (piece_type t = symbol_num TokenHeader) \<and> \<not> lp_has_start_of_log p' \<and>
    lp_input p' = lp_input p \<and> lp_lexer p' = lp_lexer p \<and>
    lv_log_var_occurrences (lp_view p') = lv_log_var_occurrences (lp_view p) \<and>
    lv_multiline (lp_view p') = lv_multiline (lp_view p)"
proof -
  note ty = piece_ok_type [OF t(2,1)]
  have size: "3 \<le> ob_size (lp_output p)" using ob by (simp add: ob_ok_def cStaticByteBuffSize_def)
  show ?thesis
  proof (cases "piece_type t = symbol_num TokenHeader")
    case True
    have "0 < ob_size ((lp_output p)\<lparr>ob_has_header := True\<rparr>)" using size by simp
    from ob_set_token_ok [OF _ this, of tok] ob obtain ob1 where
      ob1: "ob_set_token 0 tok ((lp_output p)\<lparr>ob_has_header := True\<rparr>) = Inr ob1" "ob_ok ob1"
        "ob_size ob1 = ob_size (lp_output p)" "ob_cell ob1 0 = tok" "ob_has_header ob1" by auto
    let ?p = "(lp_set_output (ob_set_pos 1 (ob1\<lparr>ob_timestamp := None\<rparr>)) p)\<lparr>lp_has_start_of_log := False\<rparr>"
    have "parse_first tok p = Some (Inr (ParseGoOn, ?p))"
      using ty True ob1(1) captures
      by (simp add: parse_first_def parse_header_def lx_get_captures_from_rule_id_def)
    moreover have "ob_holds w (ob_set_pos 1 (ob1\<lparr>ob_timestamp := None\<rparr>)) [t]"
      using ob1 size t(1) by (simp add: ob_holds_def ob_first_def ob_set_pos_ok)
    moreover have "ob_has_header (ob_set_pos 1 (ob1\<lparr>ob_timestamp := None\<rparr>))" using ob1(5) by simp
    ultimately show ?thesis using True by (intro exI [of _ ?p]) (simp add: lp_set_output_def)
  next
    case False
    have "1 < ob_size ((lp_output p)\<lparr>ob_has_header := False, ob_timestamp := None\<rparr>)" using size by simp
    from ob_set_token_ok [OF _ this, of tok] ob obtain ob1 where
      ob1: "ob_set_token 1 tok ((lp_output p)\<lparr>ob_has_header := False, ob_timestamp := None\<rparr>) = Inr ob1" "ob_ok ob1"
        "ob_size ob1 = ob_size (lp_output p)" "ob_cell ob1 1 = tok" "\<not> ob_has_header ob1" by auto
    let ?p = "(lp_set_output (ob_set_pos 2 ob1) p)\<lparr>lp_has_start_of_log := False\<rparr>"
    have "parse_first tok p = Some (Inr (ParseGoOn, ?p))"
      using ty False ob1(1) by (simp add: parse_first_def parse_no_header_def del: rbind_eq_Inr)
    moreover have "ob_holds w (ob_set_pos 2 ob1) [t]"
      using ob1 size t(1) by (simp add: ob_holds_def ob_first_def ob_set_pos_ok)
    ultimately show ?thesis using False ob1(5) by (intro exI [of _ ?p]) (simp add: lp_set_output_def)
  qed
qed

definition event_ready ::
  "string \<Rightarrow> input_buffer \<Rightarrow> string \<Rightarrow> nat \<Rightarrow> log_parser \<Rightarrow> log_piece option \<Rightarrow> log_piece list \<Rightarrow> bool" where
  "event_ready tail b w N p pend ts \<longleftrightarrow>
     (\<exists>q. lp_input p = user_buffer tail b w q False \<and> feeds tail b w (lp_lexer p) q False ts) \<and>
     lx_rule_id_to_capture (lp_lexer p) = (\<lambda>_. None) \<and>
     ob_ok (lp_output p) \<and> ob_pos (lp_output p) = 0 \<and> \<not> ob_has_header (lp_output p) \<and>
     lp_has_start_of_log p = (pend \<noteq> None) \<and>
     (\<forall>t. pend = Some t \<longrightarrow> tok_shows w (lp_start_of_log_message p) t \<and> piece_ok N t \<and> w \<noteq> []) \<and>
     (\<forall>t \<in> set ts. t \<noteq> end_piece \<longrightarrow> piece_ok N t)"

definition event_done ::
  "string \<Rightarrow> input_buffer \<Rightarrow> string \<Rightarrow> log_parser \<Rightarrow> log_parser \<Rightarrow> log_piece list \<Rightarrow>
     (log_piece option \<times> log_piece list) option \<Rightarrow> bool" where
  "event_done tail b w p p' ev r \<longleftrightarrow> ob_holds w (lp_output p') ev \<and> parses_on tail b w p' r \<and>
     lv_log_var_occurrences (lp_view p') = lv_log_var_occurrences (lp_view p) \<and>
     lv_multiline (lp_view p') = lv_multiline (lp_view p) \<and> same_rules (lp_lexer p) (lp_lexer p')"

text \<open>From a first piece on.\<close>

lemma parse_from_piece:
  assumes t: "tok_shows w tok t" "piece_ok N t" and ob: "ob_ok (lp_output p)"
    and captures: "lx_rule_id_to_capture (lp_lexer p) = (\<lambda>_. None)"
    and input: "lp_input p = user_buffer tail b w q g" "feeds tail b w (lp_lexer p) q g ts"
    and ts: "\<And>t. t \<in> set ts \<Longrightarrow> t \<noteq> end_piece \<Longrightarrow> piece_ok N t" "length ts < 2 ^ 30 - 4"
    and w: "small_text w" "w \<noteq> []" "tail \<noteq> []"
  shows "\<exists>p1 p' ev r. parse_first tok p = Some (Inr (ParseGoOn, p1)) \<and> event_from t ts = (ev, r) \<and>
    parse_loop a p1 = Some (Inr ((Success, action_of r), p')) \<and> event_done tail b w p p' ev r"
proof -
  from parse_first_piece [OF t ob captures] obtain p1 where
    p1: "parse_first tok p = Some (Inr (ParseGoOn, p1))" "ob_holds w (lp_output p1) [t]"
      "ob_has_header (lp_output p1) = (piece_type t = symbol_num TokenHeader)" "\<not> lp_has_start_of_log p1"
      "lp_input p1 = lp_input p" "lp_lexer p1 = lp_lexer p"
      "lv_log_var_occurrences (lp_view p1) = lv_log_var_occurrences (lp_view p)"
      "lv_multiline (lp_view p1) = lv_multiline (lp_view p)" by blast
  have "\<exists>p' ev r. event_rest (ob_has_header (lp_output p1)) ts = (ev, r) \<and>
    parse_loop a p1 = Some (Inr ((Success, action_of r), p')) \<and> ob_holds w (lp_output p') ([t] @ ev) \<and>
    same_view p1 p' \<and> parses_on tail b w p' r"
    by (rule parse_loop_feeds [OF _ _ p1(2) ts(1) _ p1(4) w]) (use p1(5,6) input ts(2) in auto)
  then obtain p' ev r where r: "event_rest (ob_has_header (lp_output p1)) ts = (ev, r)"
    "parse_loop a p1 = Some (Inr ((Success, action_of r), p'))" "ob_holds w (lp_output p') (t # ev)"
    "same_view p1 p'" "parses_on tail b w p' r" by auto
  with p1(3) have "event_from t ts = (t # ev, r)" by (simp add: event_from_def)
  with p1 r show ?thesis by (auto simp: event_done_def same_view_def)
qed

lemma leading_piece:
  assumes t: "tok_shows w tok t" "piece_ok N t" "snd t \<noteq> []" and mem: "lp_memory p GivenStorage = user_storage w tail"
    and tail: "tail \<noteq> []" and h: "\<not> ob_has_header (lp_output p)"
  shows "is_leading_newline p tok = Inr (piece_type t = symbol_num TokenHeader \<and> opens_line t)"
proof -
  note ty = piece_ok_type [OF t(2,1)]
  from first_char_opens [where mem = "lp_memory p", OF t(1,3) mem tail] obtain c where
    "tk_get_first_char (lp_memory p) tok = Inr c" "c = CHR 0x0A \<longleftrightarrow> opens_line t" by blast
  with ty h show ?thesis by (simp add: is_leading_newline_def del: rbind_eq_Inr)
qed

lemma parse_leading_piece:
  assumes t: "tok_shows w tok t" "opens_line t" and w: "small_text w" and ob: "ob_ok (lp_output p)" "\<not> ob_has_header (lp_output p)"
  shows "\<exists>ob m. parse_leading_newline tok p = Inr (ParseReturn Success Compress, (lp_set_output ob p)
      \<lparr>lp_start_of_log_message := m, lp_input := ib_set_consumed_pos (lp_input p) (tk_start_pos tok),
       lp_has_start_of_log := True\<rparr>) \<and> ob_holds w ob [newline_piece] \<and> tok_shows w m (rest_piece t)"
proof -
  from t(2) obtain s where s: "snd t = CHR 0x0A # s" by (auto simp: opens_line_def)
  have "tok_shows w tok (fst t, CHR 0x0A # s)" using t(1) s by (metis prod.collapse)
  note sp = shows_split [OF this w]
  let ?nl = "tk_set_type_ids (Some cTokenUncaughtStringTypes) (tk_set_end_pos (tk_get_next_pos tok) tok)"
  have size: "3 \<le> ob_size (lp_output p)" using ob by (simp add: ob_ok_def cStaticByteBuffSize_def)
  then have "1 < ob_size (lp_output p)" by simp
  from ob_set_token_ok [OF ob(1) this, of ?nl] obtain ob1 where
    ob1: "ob_set_token 1 ?nl (lp_output p) = Inr ob1" "ob_ok ob1" "ob_size ob1 = ob_size (lp_output p)"
      "ob_cell ob1 1 = ?nl" "\<not> ob_has_header ob1" using ob(2) by auto
  have "ob_holds w (ob_set_pos 2 ob1) [newline_piece]"
    using ob1 size sp(1) by (simp add: ob_holds_def ob_first_def ob_set_pos_ok)
  with ob1(1) sp(2) s show ?thesis
    by (auto simp: parse_leading_newline_def Let_def tk_set_type_ids_def tk_set_end_pos_def simp del: rbind_eq_Inr)
qed


lemma event_done_same:
  assumes "event_done tail b w p1 p' ev r"
    and "lv_log_var_occurrences (lp_view p1) = lv_log_var_occurrences (lp_view p)"
    "lv_multiline (lp_view p1) = lv_multiline (lp_view p)" "same_rules (lp_lexer p) (lp_lexer p1)"
  shows "event_done tail b w p p' ev r"
  using assms same_rules_trans by (auto simp: event_done_def)

lemma lp_set_output_multiline [simp]: "lv_multiline (lp_view (lp_set_output ob p)) = lv_multiline (lp_view p)"
  by (simp add: lp_set_output_def)

lemma lp_parse_from:
  assumes "parse_begin a p = Some (Inr (ParseGoOn, p1))" "parse_loop a p1 = r"
  shows "lp_parse a p = r"
  using assms by (simp add: lp_parse_def)

lemma lp_parse_event:
  assumes ready: "event_ready tail b w N p pend ts" and len: "length ts < 2 ^ 30 - 4"
    and w: "small_text w" "tail \<noteq> []"
  shows "\<exists>p' ev r. next_event pend ts = (ev, r) \<and> lp_parse a p = Some (Inr ((Success, action_of r), p')) \<and>
    event_done tail b w p p' ev r \<and> (ev \<noteq> [] \<longrightarrow> w \<noteq> [])"
proof -
  from ready obtain q where input: "lp_input p = user_buffer tail b w q False" "feeds tail b w (lp_lexer p) q False ts"
    and captures: "lx_rule_id_to_capture (lp_lexer p) = (\<lambda>_. None)"
    and ob: "ob_ok (lp_output p)" "ob_pos (lp_output p) = 0" "\<not> ob_has_header (lp_output p)"
    and start: "lp_has_start_of_log p = (pend \<noteq> None)"
    and pend: "\<And>t. pend = Some t \<Longrightarrow> tok_shows w (lp_start_of_log_message p) t \<and> piece_ok N t \<and> w \<noteq> []"
    and ok: "\<And>t. t \<in> set ts \<Longrightarrow> t \<noteq> end_piece \<Longrightarrow> piece_ok N t"
    unfolding event_ready_def by blast
  define p1 where "p1 = lp_set_output ((lp_output p)\<lparr>ob_has_delimiters := lx_has_delimiters (lp_lexer p)\<rparr>) p"
  have p1: "lp_input p1 = lp_input p" "lp_lexer p1 = lp_lexer p" "ob_ok (lp_output p1)" "ob_pos (lp_output p1) = 0"
    "\<not> ob_has_header (lp_output p1)" "lp_has_start_of_log p1 = lp_has_start_of_log p"
    "lp_start_of_log_message p1 = lp_start_of_log_message p" "ob_size (lp_output p1) = ob_size (lp_output p)"
    "lv_log_var_occurrences (lp_view p1) = lv_log_var_occurrences (lp_view p)"
    "lv_multiline (lp_view p1) = lv_multiline (lp_view p)"
    using ob by (simp_all add: p1_def)
  have begin1: "parse_begin a p = (if lp_has_start_of_log p1 then parse_first (lp_start_of_log_message p1) p1
      else cbind (lp_get_next_symbol p1) (\<lambda>((err, optional_next_token), p2).
        if err \<noteq> Success then Some (Inr (ParseReturn err a, p2))
        else case optional_next_token of
               None \<Rightarrow> Some (Inl BadOptionalAccess)
             | Some next_token \<Rightarrow>
                 cbind (Some (is_leading_newline p2 next_token)) (\<lambda>leading.
                   if leading then Some (parse_leading_newline next_token p2)
                   else parse_first next_token p2)))"
    using ob(2) by (simp add: parse_begin_def p1_def)
  show ?thesis
  proof (cases pend)
    case (Some t)
    note t = pend [OF Some]
    have "\<exists>p2 p' ev r. parse_first (lp_start_of_log_message p1) p1 = Some (Inr (ParseGoOn, p2)) \<and>
      event_from t ts = (ev, r) \<and> parse_loop a p2 = Some (Inr ((Success, action_of r), p')) \<and>
      event_done tail b w p1 p' ev r"
      by (rule parse_from_piece [where N = N]) (use p1 t input captures ok len w in auto)
    then obtain p2 p' ev r where r: "parse_first (lp_start_of_log_message p1) p1 = Some (Inr (ParseGoOn, p2))"
      "event_from t ts = (ev, r)" "parse_loop a p2 = Some (Inr ((Success, action_of r), p'))"
      "event_done tail b w p1 p' ev r" by blast
    from r(1) begin1 start p1(6) Some have "parse_begin a p = Some (Inr (ParseGoOn, p2))" by simp
    from lp_parse_from [OF this r(3)] event_done_same [OF r(4)] p1 r(2) Some t show ?thesis by auto
  next
    case None
    obtain t ts' where ts: "ts = t # ts'" using input(2) by (cases ts) auto
    from input(2) ts obtain tok lx' q' f' where
      s: "lx_scan (lp_lexer p) (user_buffer tail b w q False) = Some (Inr ((Success, Some tok), lx', user_buffer tail b w q' f'))"
        "tok_shows w tok t" "same_rules (lp_lexer p) lx'"
      and next_feeds: "t = end_piece \<and> ts' = [] \<or> snd t \<noteq> [] \<and> q' \<le> length w \<and> feeds tail b w lx' q' f' ts' \<and> feeds tail b w lx' q' False ts'"
      by (auto elim!: feeds_ConsE)
    define p2 where "p2 = p1\<lparr>lp_lexer := lx', lp_input := user_buffer tail b w q' f'\<rparr>"
    have sym: "lp_get_next_symbol p1 = Some (Inr ((Success, Some tok), p2))"
      using next_symbol [of p1] s(1) p1(1,2) input(1) by (simp add: p2_def)
    have p2: "lp_input p2 = user_buffer tail b w q' f'" "lp_lexer p2 = lx'" "lp_output p2 = lp_output p1"
      "lp_view p2 = lp_view p1" by (simp_all add: p2_def)
    have begin2: "parse_begin a p = cbind (Some (is_leading_newline p2 tok)) (\<lambda>leading.
        if leading then Some (parse_leading_newline tok p2) else parse_first tok p2)"
      using begin1 sym start p1(6) None by simp
    have rules: "same_rules (lp_lexer p) (lp_lexer p2)" using s(3) p2(2) by simp
    have captures2: "lx_rule_id_to_capture (lp_lexer p2) = (\<lambda>_. None)"
      using rules captures by (simp add: same_rules_def)
    have mem: "lp_memory p2 GivenStorage = user_storage w tail" by (simp add: p2(1) lp_memory_def)
    show ?thesis
    proof (cases "t = end_piece")
      case True
      have ty: "tk_type tok = Inr 0" using s(2) True by (simp add: tok_shows_def tk_type_def cTokenEndTypes_def)
      have "3 \<le> ob_size (lp_output p2)" using p1(3) p2(3) by (simp add: ob_ok_def cStaticByteBuffSize_def)
      then have "0 < ob_size (lp_output p2)" and one: "1 < ob_size (lp_output p2)" by simp_all
      from ob_set_token_ok [OF _ this(1), of tok] p1(3) p2(3) obtain ob1 where
        ob1: "ob_set_token 0 tok (lp_output p2) = Inr ob1" "ob_ok ob1" "ob_size ob1 = ob_size (lp_output p2)"
          "\<not> ob_has_header ob1" using p1(5) by auto
      let ?p = "lp_set_output (ob_set_pos 1 ob1) p2"
      have lead: "is_leading_newline p2 tok = Inr False"
        using ty p1(5) p2(3) by (simp add: is_leading_newline_def del: rbind_eq_Inr)
      have "parse_first tok p2 = Some (Inr (ParseReturn Success CompressAndFinish, ?p))"
        using ty ob1(1) by (simp add: parse_first_def del: rbind_eq_Inr)
      with begin2 lead have "parse_begin a p = Some (Inr (ParseReturn Success CompressAndFinish, ?p))" by simp
      then have "lp_parse a p = Some (Inr ((Success, CompressAndFinish), ?p))" by (simp add: lp_parse_def)
      moreover have "ob_holds w (ob_set_pos 1 ob1) []"
        using ob1 one by (simp add: ob_holds_def ob_first_def ob_set_pos_ok)
      then have "event_done tail b w p ?p [] None"
        using rules p1 p2 reads_log_simps(1) [of ?p] by (simp add: event_done_def parses_on_def)
      ultimately show ?thesis using None ts True by (auto simp: action_of_def)
    next
      case False
      with next_feeds have nf: "snd t \<noteq> []" "q' \<le> length w" "feeds tail b w lx' q' f' ts'" "feeds tail b w lx' q' False ts'"
        by auto
      have okt: "piece_ok N t" using ok False ts by simp
      obtain c str where "snd t = c # str" using nf(1) by (cases "snd t") auto
      from shows_nonempty(3) [OF s(2) this] have w0: "w \<noteq> []" by auto
      have h: "\<not> ob_has_header (lp_output p2)" using p1(5) p2(3) by simp
      note lead = leading_piece [OF s(2) okt nf(1) mem w(2) h]
      show ?thesis
      proof (cases "piece_type t = symbol_num TokenHeader \<and> opens_line t")
        case True
        from parse_leading_piece [OF s(2) _ w(1), of p2] True p1(3) p2(3) h obtain ob1 m where
          pl: "parse_leading_newline tok p2 = Inr (ParseReturn Success Compress, (lp_set_output ob1 p2)
            \<lparr>lp_start_of_log_message := m, lp_input := ib_set_consumed_pos (lp_input p2) (tk_start_pos tok),
             lp_has_start_of_log := True\<rparr>)" "ob_holds w ob1 [newline_piece]" "tok_shows w m (rest_piece t)" by auto
        let ?p = "(lp_set_output ob1 p2)
            \<lparr>lp_start_of_log_message := m, lp_input := ib_set_consumed_pos (lp_input p2) (tk_start_pos tok),
             lp_has_start_of_log := True\<rparr>"
        have "lp_parse a p = Some (Inr ((Success, Compress), ?p))"
          using begin2 lead True pl(1) by (simp add: lp_parse_def)
        moreover have "event_done tail b w p ?p [newline_piece] (Some (Some (rest_piece t), ts'))"
          using pl nf rules p1 p2 reads_log_simps(2) [of ?p tail b w q' f' "tk_start_pos tok"]
          by (simp add: event_done_def parses_on_def)
        ultimately show ?thesis using None ts True False w0 by (auto simp: action_of_def)
      next
        case plain: False
        have "\<exists>p3 p' ev r. parse_first tok p2 = Some (Inr (ParseGoOn, p3)) \<and>
          event_from t ts' = (ev, r) \<and> parse_loop a p3 = Some (Inr ((Success, action_of r), p')) \<and>
          event_done tail b w p2 p' ev r"
          by (rule parse_from_piece [where N = N, OF s(2) okt _ captures2 p2(1)]) (use p1 p2 nf ok len w w0 ts in auto)
        then obtain p3 p' ev r where r: "parse_first tok p2 = Some (Inr (ParseGoOn, p3))"
          "event_from t ts' = (ev, r)" "parse_loop a p3 = Some (Inr ((Success, action_of r), p'))"
          "event_done tail b w p2 p' ev r" by blast
        have "is_leading_newline p2 tok = Inr False" using lead plain by simp
        with begin2 r(1) have "parse_begin a p = Some (Inr (ParseGoOn, p3))" by simp
        from lp_parse_from [OF this r(3)] event_done_same [OF r(4)] p1 p2 rules r(2) None ts False plain w0
        show ?thesis by auto
      qed
    qed
  qed
qed

section \<open>Metadata\<close>

text \<open>The pieces of an event are pieces of the log, or begin or end at a newline in one.\<close>

lemma event_rest_ok:
  assumes "\<And>t. t \<in> set ts \<Longrightarrow> t \<noteq> end_piece \<Longrightarrow> piece_ok N t" "1 < N" "event_rest h ts = (ev, r)"
  shows "(\<forall>t \<in> set ev. piece_ok N t) \<and>
    (\<forall>pend ts'. r = Some (pend, ts') \<longrightarrow> (\<forall>t. pend = Some t \<longrightarrow> piece_ok N t) \<and> set ts' \<subseteq> set ts)"
  using assms(1,3)
proof (induction ts arbitrary: ev r)
  case (Cons t ts)
  obtain ev' r' where e: "event_rest h ts = (ev', r')" by force
  have nl: "piece_ok N newline_piece" using assms(2) by (simp add: piece_ok_def cTokenUncaughtStringTypes_def)
  have rest: "piece_ok N (rest_piece t)" if "piece_ok N t" using that by (simp add: piece_ok_def)
  show ?case
  proof (cases "t = end_piece")
    case False
    with Cons.prems have t: "piece_ok N t" by simp
    have IH: "(\<forall>t \<in> set ev'. piece_ok N t) \<and>
        (\<forall>pend ts'. r' = Some (pend, ts') \<longrightarrow> (\<forall>t. pend = Some t \<longrightarrow> piece_ok N t) \<and> set ts' \<subseteq> set ts)"
      by (rule Cons.IH [OF _ e]) (use Cons.prems(1) in simp)
    consider "ev = [t]" "r = Some (None, ts)" | "ev = [newline_piece]" "r = Some (Some (rest_piece t), ts)"
      | "ev = t # ev'" "r = r'"
      using Cons.prems(2) False e by (auto split: if_splits)
    then show ?thesis
    proof cases
      case 3
      with IH t show ?thesis by fastforce
    qed (use t nl rest [OF t] in auto)
  qed (use Cons.prems in simp)
qed simp

lemma next_event_ok:
  assumes ts: "\<And>t. t \<in> set ts \<Longrightarrow> t \<noteq> end_piece \<Longrightarrow> piece_ok N t" and N: "1 < N"
    and pend: "\<And>t. pend = Some t \<Longrightarrow> piece_ok N t" and ev: "next_event pend ts = (ev, r)"
  shows "(\<forall>t \<in> set ev. piece_ok N t) \<and>
    (\<forall>pend' ts'. r = Some (pend', ts') \<longrightarrow> (\<forall>t. pend' = Some t \<longrightarrow> piece_ok N t) \<and> set ts' \<subseteq> set ts)"
proof -
  have from_ok: "(\<forall>t \<in> set ev. piece_ok N t) \<and>
      (\<forall>pend ts''. r = Some (pend, ts'') \<longrightarrow> (\<forall>t. pend = Some t \<longrightarrow> piece_ok N t) \<and> set ts'' \<subseteq> set ts')"
    if "event_from t ts' = (ev, r)" "piece_ok N t" "set ts' \<subseteq> set ts" for t ts'
  proof -
    obtain ev' r' where e: "event_rest (piece_type t = symbol_num TokenHeader) ts' = (ev', r')" by force
    have "(\<forall>t \<in> set ev'. piece_ok N t) \<and>
        (\<forall>pend ts''. r' = Some (pend, ts'') \<longrightarrow> (\<forall>t. pend = Some t \<longrightarrow> piece_ok N t) \<and> set ts'' \<subseteq> set ts')"
      by (rule event_rest_ok [OF _ N e]) (use that(3) ts in blast)
    moreover have "ev = t # ev'" "r = r'" using that(1) e by (simp_all add: event_from_def)
    ultimately show ?thesis using that(2) by simp
  qed
  show ?thesis
  proof (cases pend)
    case (Some t)
    with from_ok [of t ts] pend ev show ?thesis by simp
  next
    case None
    show ?thesis
    proof (cases ts)
      case (Cons t ts')
      have nl: "piece_ok N newline_piece" using N by (simp add: piece_ok_def cTokenUncaughtStringTypes_def)
      show ?thesis
      proof (cases "t = end_piece")
        case True
        with Cons None ev show ?thesis by simp
      next
        case False
        with ts Cons have t: "piece_ok N t" by simp
        then have rest: "piece_ok N (rest_piece t)" by (simp add: piece_ok_def)
        have sub: "set ts' \<subseteq> set ts" using Cons by auto
        show ?thesis
        proof (cases "piece_type t = symbol_num TokenHeader \<and> opens_line t")
          case True
          with False ev None Cons have "ev = [newline_piece]" "r = Some (Some (rest_piece t), ts')" by simp_all
          with nl rest sub show ?thesis by simp
        next
          case other: False
          with False ev None Cons have "event_from t ts' = (ev, r)" by (simp split: if_splits)
          from from_ok [OF this t sub] sub show ?thesis by blast
        qed
      qed
    qed (use None ev in simp)
  qed
qed

text \<open>
  What a view shows of an event: its string is the text of the event, and the tokens of a type are
  found by the indexes kept for that type.
\<close>

definition event_shown :: "memory \<Rightarrow> log_event_view \<Rightarrow> log_piece list \<Rightarrow> bool" where
  "event_shown mem v ev \<longleftrightarrow> view_reads mem v ev \<and>
     (\<exists>v'. lv_to_string mem v = Inr (pieces_text ev, v')) \<and>
     (\<forall>ty < length (lv_log_var_occurrences v). lv_log_var_occurrences v ! ty =
        map (Pair (bf_active_storage (ob_storage (lv_output v))))
          (filter (\<lambda>i. piece_type (ev ! (i - ob_first (lv_output v))) = ty)
             [ob_first (lv_output v)..<ob_first (lv_output v) + length ev]))"

lemma metadata_shows:
  fixes p :: log_parser and ev :: "log_piece list"
  assumes h: "ob_holds w (lp_output p) ev" and mem: "lp_memory p GivenStorage = user_storage w tail"
    and ok: "\<And>t. t \<in> set ev \<Longrightarrow> piece_ok N t" and w: "ev \<noteq> [] \<Longrightarrow> w \<noteq> []" "tail \<noteq> []"
    and occ: "lv_log_var_occurrences (lp_view p) = replicate N []"
  shows "\<exists>v. generate_log_event_view_metadata p = Inr (p\<lparr>lp_view := v\<rparr>) \<and> lv_output v = lp_output p \<and>
    length (lv_log_var_occurrences v) = N \<and> event_shown (lp_memory p) v ev"
proof -
  let ?ob = "lp_output p" and ?f = "ob_first (lp_output p)"
  let ?occ = "\<lambda>i ty. map (Pair (bf_active_storage (ob_storage ?ob)))
    (filter (\<lambda>j. piece_type (ev ! (j - ?f)) = ty) [?f..<i])"
  let ?P = "\<lambda>i (v :: log_event_view, n :: nat). lv_output v = ?ob \<and> length (lv_log_var_occurrences v) = N \<and>
    (\<forall>ty < N. lv_log_var_occurrences v ! ty = ?occ i ty)"
  have ob: "ob_ok ?ob" "ob_pos ?ob = ?f + length ev" "ob_pos ?ob < ob_size ?ob" using h by (auto simp: ob_holds_def ob_ok_def)
  have "\<exists>t. rfold (metadata_token (lp_memory p)) [?f..<?f + length ev] (lp_view p, 0) = Inr t \<and> ?P (?f + length ev) t"
  proof (rule rfold_upt_total)
    fix i s assume i: "?f \<le> i" "i < ?f + length ev" "?P i s"
    obtain v n where s: "s = (v, n)" by force
    let ?t = "ob_cell ?ob i" and ?piece = "ev ! (i - ?f)"
    have lt: "i - ?f < length ev" using i by simp
    then have t: "tok_shows w ?t ?piece" using h i(1) by (auto simp: ob_holds_def dest!: spec [of _ "i - ?f"])
    have okp: "piece_ok N ?piece" using ok lt by simp
    note ty = piece_ok_type [OF okp t]
    have get: "ob_get_token i ?ob = Inr ?t" using ob_get_token_ok [OF ob(1)] ob(2,3) i(2) by simp
    have "ev \<noteq> []" using lt by auto
    note w(1) [OF this]
    from shows_delimiter [where mem = "lp_memory p", OF t mem this w(2)] obtain str where
      d: "tk_get_delimiter (lp_memory p) ?t = Inr str" by blast
    let ?v = "v\<lparr>lv_log_var_occurrences := (lv_log_var_occurrences v)
      [piece_type ?piece := lv_log_var_occurrences v ! piece_type ?piece @ [(bf_active_storage (ob_storage ?ob), i)]]\<rparr>"
    have "metadata_token (lp_memory p) i s = Inr (?v, if str = [CHR 0x0A] \<and> n = 0 then i else n)"
      using i(3) get ty d s by (simp add: metadata_token_def lv_add_token_def lv_get_variables_def del: rbind_eq_Inr)
    moreover have "?P (Suc i) (?v, if str = [CHR 0x0A] \<and> n = 0 then i else n)"
      using i ty s by (auto simp: nth_list_update)
    ultimately show "\<exists>s'. metadata_token (lp_memory p) i s = Inr s' \<and> ?P (Suc i) s'" by blast
  qed (use occ in auto)
  then obtain v n where v: "rfold (metadata_token (lp_memory p)) [?f..<?f + length ev] (lp_view p, 0) = Inr (v, n)"
    "?P (?f + length ev) (v, n)" by auto
  define v' where "v' = (if ob_has_header (lv_output v) \<and> 0 < n \<and> n + 1 < ob_pos (lv_output v)
    then v\<lparr>lv_multiline := True\<rparr> else v)"
  have v': "lv_output v' = ?ob" "lv_log_var_occurrences v' = lv_log_var_occurrences v" using v(2) by (simp_all add: v'_def)
  have "generate_log_event_view_metadata p = Inr (p\<lparr>lp_view := v'\<rparr>)"
    using v(1) ob(2) by (simp add: generate_log_event_view_metadata_def v'_def del: rbind_eq_Inr)
  moreover have reads: "view_reads (lp_memory p) v' ev"
    using h ob(1,2) shows_token_reads [where mem = "lp_memory p", OF _ mem] v'(1) by (auto simp: view_reads_def ob_holds_def)
  moreover from lv_to_string_reads [OF reads] obtain v1 where "lv_to_string (lp_memory p) v' = Inr (pieces_text ev, v1)" by blast
  ultimately show ?thesis using v(2) v' by (auto simp: event_shown_def)
qed

section \<open>Parsing a log in memory\<close>

text \<open>
  The parser between two calls on a log, with \<open>q\<close> the offset it has returned: \<open>pend\<close> is the piece it
  has kept and \<open>ts\<close> the pieces still to be scanned.
\<close>

definition bp_ready ::
  "string \<Rightarrow> input_buffer \<Rightarrow> string \<Rightarrow> nat \<Rightarrow> buffer_parser \<Rightarrow> nat \<Rightarrow> log_piece option \<Rightarrow> log_piece list \<Rightarrow> bool" where
  "bp_ready tail b w N bp q pend ts \<longleftrightarrow>
     (let p = bp_log_parser bp
      in ib_set_storage (lp_input p) (user_storage w tail) (length w) q True = user_buffer tail b w q False \<and>
         q \<le> length w \<and> feeds tail b w (lp_lexer p) q False ts \<and>
         lx_rule_id_to_capture (lp_lexer p) = (\<lambda>_. None) \<and> ob_ok (lp_output p) \<and>
         length (lv_log_var_occurrences (lp_view p)) = N \<and> lp_has_start_of_log p = (pend \<noteq> None) \<and>
         (\<forall>t. pend = Some t \<longrightarrow> tok_shows w (lp_start_of_log_message p) t \<and> piece_ok N t \<and> w \<noteq> []) \<and>
         (\<forall>t \<in> set ts. t \<noteq> end_piece \<longrightarrow> piece_ok N t))"

lemma lp_memory_view [simp]: "lp_memory (p\<lparr>lp_view := v\<rparr>) = lp_memory p"
  by (simp add: lp_memory_def)

lemma small_u32: "small_text w \<Longrightarrow> n \<le> length w \<Longrightarrow> u32 n = n"
  by (simp add: small_text_def)

lemma bp_parse_next_event_ready:
  assumes ready: "bp_ready tail b w N bp q pend ts" and len: "length ts < 2 ^ 30 - 4"
    and w: "small_text w" "tail \<noteq> []" and N: "1 < N"
  shows "\<exists>ev r q' bp'. next_event pend ts = (ev, r) \<and>
    bp_parse_next_event (user_storage w tail) (length w) q True bp = Some (Inr (Success, q', bp')) \<and>
    event_shown (lp_memory (bp_log_parser bp')) (lp_view (bp_log_parser bp')) ev \<and>
    bp_done bp' = (bp_done bp \<or> r = None) \<and>
    (\<forall>pend' ts'. r = Some (pend', ts') \<longrightarrow> bp_ready tail b w N bp' q' pend' ts')"
proof -
  define p where "p = lp_set_input_buffer (user_storage w tail) (length w) q True (lp_reset_log_event_view (bp_log_parser bp))"
  from ready have q: "q \<le> length w" by (simp add: bp_ready_def Let_def)
  have p: "lp_input p = user_buffer tail b w q False" "lp_lexer p = lp_lexer (bp_log_parser bp)"
    "lp_output p = ob_reset (lp_output (bp_log_parser bp))"
    "lv_log_var_occurrences (lp_view p) = replicate N []"
    using ready by (auto simp: p_def bp_ready_def Let_def lp_set_input_buffer_def lp_reset_log_event_view_def lv_reset_def map_replicate_const)
  have ob: "ob_ok (lp_output p)" "ob_pos (lp_output p) = 0" "\<not> ob_has_header (lp_output p)"
    using ready ob_reset_ok p(3) by (auto simp: bp_ready_def Let_def ob_reset_def bf_reset_def)
  have "event_ready tail b w N p pend ts"
    using ready p ob by (auto simp: event_ready_def bp_ready_def Let_def p_def lp_set_input_buffer_def lp_reset_log_event_view_def)
  from lp_parse_event [OF this len w, of NoAction] obtain p' ev r where
    r: "next_event pend ts = (ev, r)" "lp_parse NoAction p = Some (Inr ((Success, action_of r), p'))"
    "event_done tail b w p p' ev r" "ev \<noteq> [] \<Longrightarrow> w \<noteq> []" by blast
  have parts: "\<forall>t \<in> set ev. piece_ok N t"
    "\<And>pend' ts'. r = Some (pend', ts') \<Longrightarrow> (\<forall>t. pend' = Some t \<longrightarrow> piece_ok N t) \<and> set ts' \<subseteq> set ts"
    using next_event_ok [OF _ N _ r(1)] ready by (auto simp: bp_ready_def Let_def)
  from r(3) have reads: "reads_log tail b w p'" and h: "ob_holds w (lp_output p') ev"
    by (simp_all add: event_done_def parses_on_def)
  have "\<exists>v. generate_log_event_view_metadata p' = Inr (p'\<lparr>lp_view := v\<rparr>) \<and> lv_output v = lp_output p' \<and>
    length (lv_log_var_occurrences v) = N \<and> event_shown (lp_memory p') v ev"
    by (rule metadata_shows [OF h reads_log_memory [OF reads]]) (use parts(1) r(3,4) w p(4) in \<open>auto simp: event_done_def\<close>)
  then obtain v where v: "generate_log_event_view_metadata p' = Inr (p'\<lparr>lp_view := v\<rparr>)" "lv_output v = lp_output p'"
    "length (lv_log_var_occurrences v) = N" "event_shown (lp_memory p') v ev" by blast
  define bp' where "bp' = bp\<lparr>bp_log_parser := p'\<lparr>lp_view := v\<rparr>,
    bp_done := (if action_of r = CompressAndFinish then True else bp_done bp)\<rparr>"
  have "bp_parse_next_event (user_storage w tail) (length w) q True bp =
      Some (Inr (Success, ib_pos (lp_input p'), bp'))"
    using r(2) v(1) small_u32 [OF w(1)] q
    by (simp add: bp_parse_next_event_def parse_and_generate_metadata_def p_def bp'_def lp_get_input_pos_def Let_def
        del: rbind_eq_Inr)
  moreover have "bp_ready tail b w N bp' (ib_pos (lp_input p')) pend' ts'" if "r = Some (pend', ts')" for pend' ts'
  proof -
    have cont: "ib_pos (lp_input p') \<le> length w" "feeds tail b w (lp_lexer p') (ib_pos (lp_input p')) False ts'"
      "lp_has_start_of_log p' = (pend' \<noteq> None)" "\<And>t. pend' = Some t \<Longrightarrow> tok_shows w (lp_start_of_log_message p') t"
      using r(3) that by (auto simp: event_done_def parses_on_def)
    have ev0: "pend' \<noteq> None \<Longrightarrow> ev \<noteq> []"
      using that r(1) by (cases "(pend, ts)" rule: next_event.cases)
        (auto simp: event_from_def Let_def split: if_splits prod.splits)
    from reads have "ib_set_storage (lp_input p') (user_storage w tail) (length w) (ib_pos (lp_input p')) True =
        user_buffer tail b w (ib_pos (lp_input p')) False"
      unfolding reads_log_def using user_buffer_again by blast
    moreover have "lx_rule_id_to_capture (lp_lexer p') = (\<lambda>_. None)"
      using r(3) p(2) ready by (simp add: event_done_def same_rules_def bp_ready_def Let_def)
    moreover have "ob_ok (lp_output p')" using h by (simp add: ob_holds_def)
    moreover have "\<forall>t \<in> set ts'. t \<noteq> end_piece \<longrightarrow> piece_ok N t"
      using parts(2) [OF that] ready by (auto simp: bp_ready_def Let_def)
    ultimately show ?thesis using cont v(2,3) parts(2) [OF that] ev0 r(4)
      by (auto simp: bp_ready_def Let_def bp'_def)
  qed
  moreover have "bp_done bp' = (bp_done bp \<or> r = None)" by (cases r) (simp_all add: bp'_def action_of_def)
  moreover have "event_shown (lp_memory (bp_log_parser bp')) (lp_view (bp_log_parser bp')) ev"
    using v(4) by (simp add: bp'_def)
  ultimately show ?thesis using r(1) by blast
qed

text \<open>A client that parses the whole log, event after event, until the parser is done.\<close>

inductive buffer_session ::
  "char storage \<Rightarrow> nat \<Rightarrow> nat \<Rightarrow> buffer_parser \<Rightarrow> buffer_parser list \<Rightarrow> bool" for buf sz where
  session_last: "bp_parse_next_event buf sz q True bp = Some (Inr (Success, q', bp')) \<Longrightarrow> bp_done bp' \<Longrightarrow>
    buffer_session buf sz q bp [bp']"
| session_event: "bp_parse_next_event buf sz q True bp = Some (Inr (Success, q', bp')) \<Longrightarrow> \<not> bp_done bp' \<Longrightarrow>
    buffer_session buf sz q' bp' bps \<Longrightarrow> buffer_session buf sz q bp (bp' # bps)"

abbreviation bp_shows :: "buffer_parser \<Rightarrow> log_piece list \<Rightarrow> bool" where
  "bp_shows bp ev \<equiv> event_shown (lp_memory (bp_log_parser bp)) (lp_view (bp_log_parser bp)) ev"

lemma session_splits:
  assumes "bp_ready tail b w N bp q pend ts" "\<not> bp_done bp" "length ts < 2 ^ 30 - 4"
    and w: "small_text w" "tail \<noteq> []" and N: "1 < N"
  shows "\<exists>bps. buffer_session (user_storage w tail) (length w) q bp bps \<and> list_all2 bp_shows bps (split_events pend ts)"
  using assms(1-3)
proof (induction pend ts arbitrary: bp q rule: split_events.induct)
  case (1 pend ts)
  from bp_parse_next_event_ready [OF "1.prems"(1,3) w N] obtain ev r q' bp' where
    s: "next_event pend ts = (ev, r)"
      "bp_parse_next_event (user_storage w tail) (length w) q True bp = Some (Inr (Success, q', bp'))"
      "bp_shows bp' ev" "bp_done bp' = (r = None)"
      "\<And>pend' ts'. r = Some (pend', ts') \<Longrightarrow> bp_ready tail b w N bp' q' pend' ts'"
    using "1.prems"(2) by auto
  show ?case
  proof (cases r)
    case None
    then have "split_events pend ts = [ev]" using s(1) by (subst split_events.simps) simp
    with session_last [OF s(2)] s(3,4) None show ?thesis by (intro exI [of _ "[bp']"]) simp
  next
    case (Some x)
    obtain pend' ts' where x: "x = (pend', ts')" by force
    have "length ts' < 2 ^ 30 - 4" using next_event_shorter [of pend ts ev pend' ts'] s(1) Some x "1.prems"(3) by simp
    from "1.IH" [OF s(1) [symmetric] Some x [symmetric] s(5) _ this] Some x s(4) obtain bps where
      bps: "buffer_session (user_storage w tail) (length w) q' bp' bps" "list_all2 bp_shows bps (split_events pend' ts')"
      by auto
    have "split_events pend ts = ev # split_events pend' ts'"
      using s(1) Some x by (subst split_events.simps) simp
    with session_event [OF s(2) _ bps(1)] s(3,4) Some bps(2) show ?thesis
      by (intro exI [of _ "bp' # bps"]) simp
  qed
qed

end
