(* ===== verification/Log_Session.thy ===== *)
theory Log_Session
  imports Log_Parser_Correct
begin

text \<open>
  A whole log in the memory of the caller, from the schema to the events: the lexer that the rules
  of a schema give, and the calls of a \<^verbatim>\<open>BufferParser\<close> until it is done.
\<close>

section \<open>The lexer of a schema\<close>

text \<open>The ids of the rules are ids of symbols.\<close>

definition symbols_ok :: "lexer \<Rightarrow> bool" where
  "symbols_ok lx \<longleftrightarrow> map fst (lx_id_symbol lx) = [0..<length (lx_symbol_id lx)] \<and>
     (\<forall>(name, i) \<in> set (lx_symbol_id lx). i < length (lx_symbol_id lx) \<and> (name \<noteq> ''$end'' \<longrightarrow> 0 < i)) \<and>
     (\<forall>rule \<in> set (lx_rules lx). 0 < lr_variable_id rule \<and> lr_variable_id rule < length (lx_symbol_id lx)) \<and>
     lx_rule_id_to_capture lx = (\<lambda>_. None) \<and> 2 \<le> length (lx_symbol_id lx)"

lemma symbols_ok_new: "symbols_ok parser_new"
  by (simp add: symbols_ok_def parser_new_def parser_symbols_def lx_new_def upt_conv_Cons)

lemma AList_update_new: "k \<notin> fst ` set xs \<Longrightarrow> AList.update k v xs = xs @ [(k, v)]"
  by (induction xs) auto

lemma symbols_ok_rule:
  assumes ok: "symbols_ok lx" and name: "name \<noteq> ''$end''"
  shows "symbols_ok (parser_add_rule name rule lx)"
proof (cases "map_of (lx_symbol_id lx) name")
  case (Some i)
  then have "(name, i) \<in> set (lx_symbol_id lx)" by (rule map_of_SomeD)
  with ok name Some show ?thesis by (auto simp: symbols_ok_def parser_add_rule_def lx_add_rule_def)
next
  case None
  let ?n = "length (lx_symbol_id lx)"
  have "fst ` set (lx_id_symbol lx) = {0..<?n}"
    using ok by (metis symbols_ok_def atLeastLessThan_upt image_set)
  then have "AList.update ?n name (lx_id_symbol lx) = lx_id_symbol lx @ [(?n, name)]"
    by (intro AList_update_new) simp
  with ok None show ?thesis
    by (fastforce simp: symbols_ok_def parser_add_rule_def lx_add_rule_def Let_def less_Suc_eq)
qed

text \<open>Adding a rule keeps the delimiters and the rules there are.\<close>

lemma add_rule_keeps [simp]:
  "lx_is_delimiter (parser_add_rule name rule lx) = lx_is_delimiter lx"
  "lx_has_delimiters (parser_add_rule name rule lx) = lx_has_delimiters lx"
  by (simp_all add: parser_add_rule_def lx_add_rule_def Let_def split: option.split)

lemma add_rule_rules: "\<exists>i. lx_rules (parser_add_rule name rule lx) = lx_rules lx @ [\<lparr>lr_variable_id = i, lr_regex = rule\<rparr>]"
  by (simp add: parser_add_rule_def lx_add_rule_def Let_def split: option.split)

lemma set_delimiters_keeps:
  "lx_set_delimiters ds lx = Inr lx' \<Longrightarrow> symbols_ok lx' = symbols_ok lx \<and> lx_rules lx' = lx_rules lx \<and> lx_has_delimiters lx'"
  by (auto simp: lx_set_delimiters_def symbols_ok_def split: if_splits)

lemma delimiters_set:
  "rfold lp_set_delimiters ds lx = Inr lx' \<Longrightarrow> symbols_ok lx \<Longrightarrow> lx_has_delimiters lx \<or> (\<forall>i. \<not> lx_is_delimiter lx i) \<Longrightarrow>
     symbols_ok lx' \<and> lx_rules lx' = lx_rules lx \<and> (lx_has_delimiters lx' \<or> (\<forall>i. \<not> lx_is_delimiter lx' i))"
proof (induction ds arbitrary: lx)
  case (Cons d ds)
  then obtain lx1 where s: "lp_set_delimiters d lx = Inr lx1" "rfold lp_set_delimiters ds lx1 = Inr lx'" by auto
  have "symbols_ok lx1 \<and> lx_rules lx1 = lx_rules lx \<and> (lx_has_delimiters lx1 \<or> (\<forall>i. \<not> lx_is_delimiter lx1 i))"
    using s(1) Cons.prems(2,3) set_delimiters_keeps
    by (fastforce simp: lp_set_delimiters_def split: parser_ast.splits)
  with Cons.IH [OF s(2)] show ?case by auto
qed simp

definition names_ok :: "schema_ast \<Rightarrow> bool" where
  "names_ok ast \<longleftrightarrow> (\<forall>var \<in> set (sa_schema_vars ast). case var of SchemaVarAST _ name _ \<Rightarrow> name \<noteq> ''$end'' | _ \<Rightarrow> True)"

lemma schema_vars_added:
  "rfold lp_add_schema_var vars (lx, ds) = Inr (lx', ds') \<Longrightarrow> symbols_ok lx \<Longrightarrow>
     (\<forall>var \<in> set vars. case var of SchemaVarAST _ name _ \<Rightarrow> name \<noteq> ''$end'' | _ \<Rightarrow> True) \<Longrightarrow>
     symbols_ok lx' \<and> set (lx_rules lx) \<subseteq> set (lx_rules lx') \<and> lx_has_delimiters lx' = lx_has_delimiters lx"
proof (induction vars arbitrary: lx ds)
  case (Cons var vars)
  then obtain s1 where s1: "lp_add_schema_var var (lx, ds) = Inr s1" "rfold lp_add_schema_var vars s1 = Inr (lx', ds')" by auto
  from s1(1) obtain line name regex where var: "var = SchemaVarAST line name regex"
    by (auto simp: lp_add_schema_var_def split: parser_ast.splits)
  from s1(1) var obtain rule ds1 where s1': "s1 = (parser_add_rule name rule lx, ds1)"
    by (auto simp: lp_add_schema_var_def Let_def split: prod.splits)
  from Cons.prems(3) var have "name \<noteq> ''$end''" by simp
  from symbols_ok_rule [OF Cons.prems(2) this, of rule] Cons.IH [of "parser_add_rule name rule lx" ds1] s1(2) s1'
    Cons.prems(3) add_rule_rules [of name rule lx]
  show ?case by auto
qed simp

lemma schema_lexer:
  assumes add: "lp_add_rules ast parser_new = Inr lx" and names: "names_ok ast"
  shows "symbols_ok lx" "lx_has_delimiters lx" "\<exists>v. rules_match (lx_rules lx) [10] v"
proof -
  from add obtain lx1 ds lx2 ds' where
    a: "rfold lp_set_delimiters (sa_delimiters ast) parser_new = Inr lx1" "ds = filter (lx_is_delimiter lx1) [0..<cSizeOfByte]"
      "ds \<noteq> []" "rfold lp_add_schema_var (sa_schema_vars ast) (parser_add_token ''newLine'' 10 lx1, ds) = Inr (lx, ds')"
    by (auto simp: lp_add_rules_def Let_def split: if_splits)
  have "lx_has_delimiters parser_new \<or> (\<forall>i. \<not> lx_is_delimiter parser_new i)" by (simp add: parser_new_def lx_new_def)
  note d = delimiters_set [OF a(1) symbols_ok_new this]
  have has: "lx_has_delimiters lx1" using d a(2,3) by auto
  have "symbols_ok (parser_add_token ''newLine'' 10 lx1)"
    unfolding parser_add_token_def by (rule symbols_ok_rule) (use d in simp_all)
  note added = schema_vars_added [OF a(4) this] 
  have names': "\<forall>var \<in> set (sa_schema_vars ast). case var of SchemaVarAST _ name _ \<Rightarrow> name \<noteq> ''$end'' | _ \<Rightarrow> True"
    using names by (simp add: names_ok_def)
  note added = added [OF this]
  show "symbols_ok lx" "lx_has_delimiters lx" using added has by (simp_all add: parser_add_token_def)
  from add_rule_rules [of "''newLine''" "mk_literal 10" lx1] obtain i where
    "lx_rules (parser_add_rule ''newLine'' (mk_literal 10) lx1) = lx_rules lx1 @ [\<lparr>lr_variable_id = i, lr_regex = mk_literal 10\<rparr>]"
    by blast
  then have "\<lparr>lr_variable_id = i, lr_regex = mk_literal 10\<rparr> \<in> set (lx_rules (parser_add_token ''newLine'' 10 lx1))"
    by (simp add: parser_add_token_def)
  with added have "\<lparr>lr_variable_id = i, lr_regex = mk_literal 10\<rparr> \<in> set (lx_rules lx)" by blast
  moreover have "[10] \<in> regex_lang (mk_literal 10)" by (simp add: mk_defs cSizeOfByte_def)
  ultimately show "\<exists>v. rules_match (lx_rules lx) [10] v" unfolding rules_match_def by force
qed

section \<open>The pieces of a log\<close>

lemma log_tokens_pieces:
  assumes "log_tokens A delim w pre l ts" "\<exists>v. A [10] v" "\<And>u v. A u v \<Longrightarrow> 0 < v \<and> v < N" "1 < N"
  shows "ends_once ts \<and> (\<forall>t \<in> set ts. t \<noteq> end_piece \<longrightarrow> piece_ok N t)"
  using assms(1)
proof (induction rule: log_tokens.induct)
  case (tokens_end pre)
  show ?case by simp
next
  case (tokens_text l l' pre ts)
  then show ?case using assms(4) by (simp add: cTokenUncaughtStringTypes_def cTokenEndTypes_def piece_ok_def)
next
  case (tokens_var pre' pre l l' ids ts)
  obtain v where v: "v \<in> set ids"
    using tokens_var.hyps(6)
  proof
    assume "var_end A delim w pre' l l'"
    with tokens_var.hyps(5) that show thesis by (auto simp: var_end_def)
  next
    assume "l' = Suc l \<and> w ! l = CHR 0x0A \<and> (\<forall>v. v \<in> set ids \<longleftrightarrow> A [10] v)"
    with assms(2) that show thesis by auto
  qed
  have ids: "\<forall>v \<in> set ids. 0 < v \<and> v < N" using tokens_var.hyps(5) assms(3) by blast
  obtain v1 vs where "ids = v1 # vs" using v by (cases ids) auto
  with ids tokens_var.IH show ?case by (auto simp: piece_ok_def cTokenEndTypes_def)
qed

lemma feeds_length: "feeds tail b w lx p f ts \<Longrightarrow> length ts \<le> length (concat (map snd ts)) + 1"
proof (induction rule: feeds.induct)
  case (feeds_piece lx p f t lx' p' f' piece ts)
  then have "1 \<le> length (snd piece)" by (cases "snd piece") auto
  with feeds_piece.IH show ?case by simp
qed simp

section \<open>All the events of a log\<close>

lemma buffer_parser_session:
  assumes add: "lp_add_rules ast parser_new = Inr lx" "names_ok ast"
    and rules: "plain_lexer_rules (lx_rules lx) n" "ord [] = []"
    and nonempty: "\<forall>v. \<not> rules_match (lx_rules lx) [] v" "\<forall>v. \<not> rules_match (lx_rules lx) [cCharStartOfFile] v"
    and start: "rules_match (lx_rules lx) (cCharStartOfFile # u) v"
    and w: "length w < 2 ^ 30 - 8" "tail \<noteq> []"
  shows "\<exists>p bp bps ts. log_parser_new ord junk ast = Some (Inr p) \<and>
    bp_reset \<lparr>bp_log_parser = p, bp_done = False\<rparr> = Inr bp \<and>
    buffer_session (user_storage w tail) (length w) 0 bp bps \<and>
    log_tokens (rules_match (lx_rules lx)) (lx_is_delimiter lx) w [cCharStartOfFile] 0 ts \<and>
    list_all2 bp_shows bps (split_events None ts) \<and> concat (map pieces_text (split_events None ts)) = w"
proof -
  note lx = schema_lexer [OF add]
  from lx(3) obtain v1 where newline: "rules_match (lx_rules lx) (10 # []) v1" by blast
  from rules_lexer_starts [of lx n ord, OF rules lx(2) nonempty(1) newline start] obtain lx1 d q where
    g: "lx_generate ord lx = Some (Inr lx1)" "lexing_dfa d" "dfa_accepts d = rules_match (lx_rules lx)"
      "dfa_run d 0 [cCharStartOfFile] = Some q" "lx_id_symbol lx1 = lx_id_symbol lx" and
    starts: "\<And>b. ib_pos b = 0 \<Longrightarrow> \<exists>lx2. lx_prepend_start_of_file_char b (lx_reset lx1) = Inr lx2 \<and>
       started_at d (lx_is_delimiter lx) lx2 q \<and> lx_rule_id_to_capture lx2 = lx_rule_id_to_capture lx" by blast
  define p where "p = \<lparr>lp_lexer = lx1, lp_input = ib_new junk, lp_has_start_of_log = False,
          lp_start_of_log_message = token_default, lp_view = lv_new lx1\<rparr>"
  have new: "log_parser_new ord junk ast = Some (Inr p)"
    using add(1) g(1) by (simp add: log_parser_new_def p_def del: rbind_eq_Inr)
  let ?b = "ib_reset (ib_new junk)"
  have "ib_pos ?b = 0" by (simp add: ib_reset_def bf_reset_def Let_def)
  from starts [OF this] obtain lx2 where
    lx2: "lx_prepend_start_of_file_char ?b (lx_reset lx1) = Inr lx2" "started_at d (lx_is_delimiter lx) lx2 q"
      "lx_rule_id_to_capture lx2 = lx_rule_id_to_capture lx" by blast
  define bp where "bp = \<lparr>bp_log_parser = p\<lparr>lp_input := ?b, lp_lexer := lx2\<rparr>, bp_done = False\<rparr>"
  have reset: "bp_reset \<lparr>bp_log_parser = p, bp_done = False\<rparr> = Inr bp"
    using lx2(1) by (simp add: bp_reset_def lp_reset_def p_def bp_def Let_def del: rbind_eq_Inr)
  have small: "small_text w" using w(1) by (simp add: small_text_def)
  have "\<not> ds_is_accepting (df_states d ! q)"
  proof
    assume "ds_is_accepting (df_states d ! q)"
    with g(4) have "dfa_accepts d [cCharStartOfFile] (hd (ds_matching_variable_ids (df_states d ! q)))"
      by (simp add: dfa_accepts_def ds_is_accepting_def)
    with nonempty(2) g(3) show False by simp
  qed
  from started_feeds [OF small g(2) lx2(2) this] obtain ts where
    ts: "feeds tail ?b w lx2 0 False ts" "token_chain d (lx_is_delimiter lx) w q 0 ts" by blast
  from chain_log_tokens [OF ts(2) g(4)] g(3)
  have tokens: "log_tokens (rules_match (lx_rules lx)) (lx_is_delimiter lx) w [cCharStartOfFile] 0 ts" by simp
  let ?N = "length (lx_symbol_id lx)"
  have N: "1 < ?N" "length (lx_id_symbol lx) = ?N"
    using lx(1) by (auto simp: symbols_ok_def dest: arg_cong [where f = length])
  have ids: "rules_match (lx_rules lx) u v \<Longrightarrow> 0 < v \<and> v < ?N" for u v
    using lx(1) by (auto simp: rules_match_def symbols_ok_def)
  note pieces = log_tokens_pieces [OF tokens lx(3) ids N(1)]
  have all: "concat (map snd ts) = w" using token_chain_text [OF ts(2)] by simp
  with feeds_length [OF ts(1)] w(1) have len: "length ts < 2 ^ 30 - 4" using all by simp
  have "bp_ready tail ?b w ?N bp 0 None ts"
    using ts(1) lx2(3) lx(1) ob_new_ok pieces N(2) g(5) user_buffer_again [of ?b ?b]
    by (auto simp: bp_ready_def Let_def bp_def p_def lv_new_def symbols_ok_def)
  from session_splits [OF this _ len small w(2) N(1)] obtain bps where
    bps: "buffer_session (user_storage w tail) (length w) 0 bp bps" "list_all2 bp_shows bps (split_events None ts)"
    by (auto simp: bp_def)
  have "concat (map pieces_text (split_events None ts)) = w"
    using split_events_text [of ts None] pieces all by (simp add: pending_text_def pieces_text_def)
  with new reset bps tokens show ?thesis by blast
qed


definition demo_schema :: schema_ast where
  "demo_schema = \<lparr>sa_schema_vars = [SchemaVarAST 1 ''header'' (mk_literal 104), SchemaVarAST 2 ''x'' (mk_literal 97)],
     sa_delimiters = [DelimiterStringAST [32]], sa_file_path = []\<rparr>"

definition demo_schema_lexer :: lexer where
  "demo_schema_lexer = lx_add_rule 7 (variable_rule [32, cCharStartOfFile] (mk_literal 97))
     (lx_add_rule 5 (header_rule (mk_literal 104)) (lx_add_rule 6 (mk_literal 10)
       (parser_new\<lparr>lx_has_delimiters := True, lx_is_delimiter := \<lambda>i. i = 32 \<or> i = cCharStartOfFile,
          lx_symbol_id := parser_symbols @ [(''x'', 7)],
          lx_id_symbol := map (\<lambda>(name, i). (i, name)) parser_symbols @ [(7, ''x'')]\<rparr>)))"

lemma demo_delimiters: "filter (\<lambda>i. i = 32 \<or> i = cCharStartOfFile) [0..<cSizeOfByte] = [32, cCharStartOfFile]"
  by code_simp

lemma demo_byte: "\<not> cSizeOfByte \<le> 32"
  by (simp add: cSizeOfByte_def)

lemma demo_bytes: "cCharStartOfFile < cSizeOfByte" "10 < cSizeOfByte" "32 < cSizeOfByte" "97 < cSizeOfByte" "104 < cSizeOfByte"
  by (simp_all add: cSizeOfByte_def cCharStartOfFile_def)

lemma demo_schema_rules: "lp_add_rules demo_schema parser_new = Inr demo_schema_lexer"
  by (simp add: lp_add_rules_def demo_schema_def lp_set_delimiters_def lx_set_delimiters_def demo_delimiters demo_byte
     
      lp_add_schema_var_def parser_add_token_def parser_add_rule_def demo_schema_lexer_def
      parser_new_def parser_symbols_def lx_new_def lx_add_rule_def mk_defs del: rbind_eq_Inr)

lemma demo_schema_plain: "\<exists>n. plain_lexer_rules (lx_rules demo_schema_lexer) n"
  by (simp add: plain_lexer_rules_def demo_schema_lexer_def lx_add_rule_def parser_new_def lx_new_def rules_captures_def
      variable_rule_def header_rule_def group_of_literals_def set_negative_captures_def shares_loop_def
      lexical_rule_get_captures_def nfa_of_rules_def lexical_rule_add_to_nfa_def new_state_def
      new_accepting_state_def nfa_empty_def nfa_emplace_def generate_id_def nfa_size_def mk_defs
      add_to_nfa_with_negative_captures_def add_with_negative_captures_def get_negative_captures_def
      add_root_interval_def nfa_update_state_def nfa_set_root_def Let_def cCharStartOfFile_def
      get_subtree_positive_captures_def ast_fresh_def split: prod.splits)

lemma demo_group:
  "in_ranges c (group_effective_ranges (group_of_literals [32, cCharStartOfFile])) \<longleftrightarrow> c = 32 \<or> c = cCharStartOfFile"
  by (subst effective_ranges_sound)
    (simp_all add: group_of_literals_def in_ranges_def cUnicodeMax_def cCharStartOfFile_def, auto)


end
