(* ===== verification/Lalr_Generate.thy ===== *)
theory Lalr_Generate
  imports Log_Parser Ordered_Containers
begin

text \<open>
  \<^verbatim>\<open>parser_types.hpp\<close> and the generation of \<^verbatim>\<open>Lalr1Parser.tpp\<close>: from
  the lexical rules and the productions of a grammar to the tables of the parser. A pointer to a
  production is its index, a pointer to an item set the index \<^verbatim>\<open>m_index\<close> it was given.
\<close>

section \<open>Productions, matched symbols and items\<close>

text \<open>
  A matched symbol is a token or a non-terminal with the production it was reduced by, its children
  and the syntax tree its semantic rule made. A semantic rule is a function of the children, whose
  tokens it reads in the memory of the input; that it moves the trees of the children away is not
  kept, no one looks at them again.
\<close>

datatype 'a matched_symbol =
    MatchedToken token
  | NonTerminal nat "'a matched_symbol list" "'a option"

type_synonym 'a semantic_rule = "memory \<Rightarrow> 'a matched_symbol list \<Rightarrow> 'a option res"

record 'a production =
  pr_index :: nat
  pr_head :: nat
  pr_body :: "nat list"
  pr_semantic_rule :: "'a semantic_rule option"

definition pr_is_epsilon :: "'a production \<Rightarrow> bool" where
  "pr_is_epsilon p \<longleftrightarrow> pr_body p = []"

definition token_cast :: "'a matched_symbol list \<Rightarrow> nat \<Rightarrow> token res" where
  "token_cast symbols i =
     (if length symbols \<le> i then Inl OutOfRange
      else case symbols ! i of MatchedToken t \<Rightarrow> Inr t | NonTerminal _ _ _ \<Rightarrow> Inl BadVariantAccess)"

definition non_terminal_cast :: "'a matched_symbol list \<Rightarrow> nat \<Rightarrow> 'a matched_symbol res" where
  "non_terminal_cast symbols i =
     (if length symbols \<le> i then Inl OutOfRange
      else case symbols ! i of MatchedToken _ \<Rightarrow> Inl BadVariantAccess | nt \<Rightarrow> Inr nt)"

definition get_parser_ast :: "'a matched_symbol \<Rightarrow> 'a res" where
  "get_parser_ast nt =
     (case nt of
        NonTerminal _ _ (Some ast) \<Rightarrow> Inr ast
      | NonTerminal _ _ None \<Rightarrow> Inl RuntimeError
      | MatchedToken _ \<Rightarrow> Inl BadVariantAccess)"

record item =
  it_production :: nat
  it_dot :: nat
  it_lookahead :: nat

definition cNullSymbol :: nat where
  "cNullSymbol = 10000000"

abbreviation mk_item :: "nat \<Rightarrow> nat \<Rightarrow> nat \<Rightarrow> item" where
  "mk_item p d l \<equiv> \<lparr>it_production = p, it_dot = d, it_lookahead = l\<rparr>"

definition item_key :: "item \<Rightarrow> nat \<times> nat \<times> nat" where
  "item_key i = (it_production i, it_dot i, it_lookahead i)"

definition item_less :: "item less" where
  "item_less a b \<longleftrightarrow> item_key a < item_key b"

text \<open>The dot of an item never is beyond the body.\<close>

definition has_dot_at_end :: "'a production list \<Rightarrow> item \<Rightarrow> bool" where
  "has_dot_at_end g i \<longleftrightarrow> it_dot i = length (pr_body (g ! it_production i))"

definition it_next_symbol :: "'a production list \<Rightarrow> item \<Rightarrow> nat" where
  "it_next_symbol g i = pr_body (g ! it_production i) ! it_dot i"

section \<open>State\<close>

text \<open>\<^verbatim>\<open>Action = std::variant<bool, ItemSet*, Production*>\<close>.\<close>

datatype action = ActBool bool | ActShift nat | ActReduce nat

record item_set =
  is_index :: nat
  is_kernel :: "item list"
  is_closure :: "item list"
  is_next :: "nat \<Rightarrow> nat option"
  is_actions :: "action list"

definition item_set_new :: item_set where
  "item_set_new = \<lparr>is_index = 2 ^ 32 - 1, is_kernel = [], is_closure = [], is_next = (\<lambda>_. None), is_actions = []\<rparr>"

type_synonym item_sets = "(item list \<times> item_set) list"

record 'a lalr1_parser =
  la_lexer :: lexer
  la_terminals :: "nat list"
  la_nullable :: "nat list"
  la_lr0_item_sets :: item_sets
  la_lr1_item_sets :: item_sets
  la_firsts :: "nat \<Rightarrow> nat list option"
  la_spontaneous_map :: "nat \<Rightarrow> nat list"
  la_propagate_map :: "(item \<times> item list) list"
  la_go_to_table :: "nat \<Rightarrow> (nat \<times> nat) list"
  la_productions :: "'a production list"
  la_productions_map :: "((string \<times> string list) \<times> nat) list"
  la_non_terminals :: "(nat \<times> nat list) list"
  la_root_production_id :: nat
  la_root_item_set :: "nat option"
  la_parse_stack_matches :: "'a matched_symbol list"
  la_parse_stack_states :: "nat list"
  la_next_token :: "token option"
  la_input_buffer :: input_buffer

definition lalr_new :: "(nat \<Rightarrow> char) \<Rightarrow> 'a lalr1_parser" where
  "lalr_new junk =
     \<lparr>la_lexer = parser_new,
      la_terminals = sset_insert_all (<)
        (map symbol_num [TokenEnd, TokenUncaughtString, TokenInt, TokenFloat, TokenHex, TokenHeader, TokenNewline]) [],
      la_nullable = [], la_lr0_item_sets = [], la_lr1_item_sets = [], la_firsts = (\<lambda>_. None),
      la_spontaneous_map = (\<lambda>_. []), la_propagate_map = [], la_go_to_table = (\<lambda>_. []),
      la_productions = [], la_productions_map = [], la_non_terminals = [], la_root_production_id = 0,
      la_root_item_set = None, la_parse_stack_matches = [], la_parse_stack_states = [],
      la_next_token = None, la_input_buffer = ib_new junk\<rparr>"

section \<open>Lexical rules and productions\<close>

definition symbol_is_token :: "'a lalr1_parser \<Rightarrow> nat \<Rightarrow> bool" where
  "symbol_is_token la s \<longleftrightarrow> s \<in> set (la_terminals la)"

definition symbol_id_at :: "lexer \<Rightarrow> string \<Rightarrow> nat" where
  "symbol_id_at lx name = (case map_of (lx_symbol_id lx) name of Some i \<Rightarrow> i | None \<Rightarrow> 0)"

definition la_add_rule :: "string \<Rightarrow> regex_ast \<Rightarrow> 'a lalr1_parser \<Rightarrow> 'a lalr1_parser" where
  "la_add_rule name rule la =
     (let lx = parser_add_rule name rule (la_lexer la)
      in la\<lparr>la_lexer := lx, la_terminals := sset_insert (<) (symbol_id_at lx name) (la_terminals la)\<rparr>)"

definition la_add_token :: "string \<Rightarrow> nat \<Rightarrow> 'a lalr1_parser \<Rightarrow> 'a lalr1_parser" where
  "la_add_token name rule_char la = la_add_rule name (mk_literal rule_char) la"

definition la_add_token_group :: "string \<Rightarrow> group \<Rightarrow> 'a lalr1_parser \<Rightarrow> 'a lalr1_parser" where
  "la_add_token_group name rule_group la = la_add_rule name (mk_group rule_group) la"

definition la_add_token_chain :: "string \<Rightarrow> nat list \<Rightarrow> 'a lalr1_parser \<Rightarrow> 'a lalr1_parser res" where
  "la_add_token_chain name chain la =
     (case chain of
        c0 # c1 # cs \<Rightarrow>
          Inr (la_add_rule name
            (fold (\<lambda>c rule_chain. mk_cat rule_chain (mk_literal c)) cs (mk_cat (mk_literal c0) (mk_literal c1))) la)
      | _ \<Rightarrow> Inl AssertFailed)"

text \<open>A name gets the next id when it has none.\<close>

definition intern_symbol :: "string \<Rightarrow> lexer \<Rightarrow> nat \<times> lexer" where
  "intern_symbol name lx =
     (case map_of (lx_symbol_id lx) name of
        Some i \<Rightarrow> (i, lx)
      | None \<Rightarrow>
          let i = length (lx_symbol_id lx)
          in (i, lx\<lparr>lx_symbol_id := lx_symbol_id lx @ [(name, i)],
                    lx_id_symbol := AList.update i name (lx_id_symbol lx)\<rparr>))"

fun intern_symbols :: "string list \<Rightarrow> lexer \<Rightarrow> nat list \<times> lexer" where
  "intern_symbols [] lx = ([], lx)"
| "intern_symbols (name # names) lx =
     (let (i, lx1) = intern_symbol name lx; (is, lx2) = intern_symbols names lx1 in (i # is, lx2))"

text \<open>
  \<^verbatim>\<open>add_production\<close> up to the root production: whether a production was created is
  the second result.
\<close>

definition add_one_production ::
  "string \<Rightarrow> string list \<Rightarrow> 'a semantic_rule option \<Rightarrow> 'a lalr1_parser \<Rightarrow> nat \<times> bool \<times> 'a lalr1_parser" where
  "add_one_production head body semantic_rule la =
     (let (h, lx1) = intern_symbol head (la_lexer la); n = length (la_productions la)
      in case map_of (la_productions_map la) (head, body) of
           Some k \<Rightarrow>
             (n, False, la\<lparr>la_lexer := lx1,
                la_productions := (la_productions la)[k := (la_productions la ! k)\<lparr>pr_semantic_rule := semantic_rule\<rparr>]\<rparr>)
         | None \<Rightarrow>
             let (b, lx2) = intern_symbols body lx1;
                 ps = (case map_of (la_non_terminals la) h of None \<Rightarrow> [] | Some ps \<Rightarrow> ps)
             in (n, True, la\<lparr>la_lexer := lx2,
                   la_non_terminals := AList.update h (ps @ [n]) (la_non_terminals la),
                   la_productions_map := la_productions_map la @ [((head, body), n)],
                   la_productions := la_productions la @
                     [\<lparr>pr_index = n, pr_head = h, pr_body = b, pr_semantic_rule = semantic_rule\<rparr>]\<rparr>))"

definition la_add_production ::
  "string \<Rightarrow> string list \<Rightarrow> 'a semantic_rule option \<Rightarrow> 'a lalr1_parser \<Rightarrow> nat \<times> 'a lalr1_parser" where
  "la_add_production head body semantic_rule la =
     (let (n, created, la1) = add_one_production head body semantic_rule la
      in if created \<and> length (la_productions la1) = 1
         then let (root, _, la2) = add_one_production ''$START_PRIME'' [head] None la1
              in (n, la2\<lparr>la_root_production_id := root\<rparr>)
         else (n, la1))"

section \<open>Closures\<close>

text \<open>\<^verbatim>\<open>lr_closure_helper\<close>: the closure, and the next symbol if it has to be expanded.\<close>

definition lr_closure_helper ::
  "'a lalr1_parser \<Rightarrow> item list \<Rightarrow> item \<Rightarrow> item list \<times> nat option" where
  "lr_closure_helper la closure item =
     (if sset_contains item_less item closure then (closure, None)
      else let closure' = sset_insert item_less item closure
           in if has_dot_at_end (la_productions la) item then (closure', None)
              else let next_symbol = it_next_symbol (la_productions la) item
                   in if symbol_is_token la next_symbol then (closure', None)
                      else (closure', Some next_symbol))"

partial_function (option) item_closure_loop ::
  "'a lalr1_parser \<Rightarrow> (item \<Rightarrow> nat \<Rightarrow> item list res) \<Rightarrow> item list \<Rightarrow> item list \<Rightarrow> item list res option" where
  "item_closure_loop la expand q closure =
     (if q = [] then Some (Inr closure)
      else case lr_closure_helper la closure (last q) of
             (closure', None) \<Rightarrow> item_closure_loop la expand (butlast q) closure'
           | (closure', Some next_symbol) \<Rightarrow>
               (case expand (last q) next_symbol of
                  Inl e \<Rightarrow> Some (Inl e)
                | Inr items \<Rightarrow> item_closure_loop la expand (butlast q @ items) closure'))"

definition lr0_expand :: "'a lalr1_parser \<Rightarrow> item \<Rightarrow> nat \<Rightarrow> item list res" where
  "lr0_expand la item next_symbol =
     (case map_of (la_non_terminals la) next_symbol of
        None \<Rightarrow> Inl AssertFailed
      | Some ps \<Rightarrow> Inr (map (\<lambda>p. mk_item p 0 cNullSymbol) ps))"

definition generate_lr0_closure :: "'a lalr1_parser \<Rightarrow> item_set \<Rightarrow> item_set res option" where
  "generate_lr0_closure la s =
     cbind (item_closure_loop la (lr0_expand la) (is_kernel s) (is_closure s))
       (\<lambda>closure. Some (Inr (s\<lparr>is_closure := closure\<rparr>)))"

text \<open>The lookaheads of the items that the symbols after the dot give, from \<open>pos\<close> on.\<close>

fun lookaheads_after :: "'a lalr1_parser \<Rightarrow> nat \<Rightarrow> nat list \<Rightarrow> nat list res" where
  "lookaheads_after la lookahead [] = Inr [lookahead]"
| "lookaheads_after la lookahead (symbol # symbols) =
     (case la_firsts la symbol of
        None \<Rightarrow> Inl UndefinedBehavior
      | Some symbol_firsts \<Rightarrow>
          if symbol \<in> set (la_nullable la)
          then rbind (lookaheads_after la lookahead symbols) (\<lambda>ls. Inr (symbol_firsts @ ls))
          else Inr symbol_firsts)"

definition lr1_expand :: "'a lalr1_parser \<Rightarrow> item \<Rightarrow> nat \<Rightarrow> item list res" where
  "lr1_expand la item next_symbol =
     rbind (lookaheads_after la (it_lookahead item)
              (drop (it_dot item + 1) (pr_body (la_productions la ! it_production item)))) (\<lambda>lookaheads.
       case map_of (la_non_terminals la) next_symbol of
         None \<Rightarrow> Inl OutOfRange
       | Some ps \<Rightarrow> Inr (concat (map (\<lambda>p. map (mk_item p 0) lookaheads) ps)))"

definition generate_lr1_closure :: "'a lalr1_parser \<Rightarrow> item_set \<Rightarrow> item_set res option" where
  "generate_lr1_closure la s =
     cbind (item_closure_loop la (lr1_expand la) (is_kernel s) (is_closure s))
       (\<lambda>closure. Some (Inr (s\<lparr>is_closure := closure\<rparr>)))"

section \<open>The kernels of the LR(0) automaton\<close>

definition sets_get :: "nat \<Rightarrow> item_sets \<Rightarrow> item_set res" where
  "sets_get i m = (case find (\<lambda>(_, s). is_index s = i) m of None \<Rightarrow> Inl UndefinedBehavior | Some (_, s) \<Rightarrow> Inr s)"

definition sets_update :: "nat \<Rightarrow> (item_set \<Rightarrow> item_set) \<Rightarrow> item_sets \<Rightarrow> item_sets" where
  "sets_update i f m = map (\<lambda>(k, s). if is_index s = i then (k, f s) else (k, s)) m"

definition go_to_kernel :: "'a production list \<Rightarrow> nat \<Rightarrow> item list \<Rightarrow> item list" where
  "go_to_kernel g next_symbol closure =
     sset_insert_all item_less
       (map (\<lambda>i. mk_item (it_production i) (it_dot i + 1) (it_lookahead i))
         (filter (\<lambda>i. \<not> has_dot_at_end g i \<and> it_next_symbol g i = next_symbol) closure)) []"

text \<open>The result is the new item set, if there is one.\<close>

definition go_to :: "nat \<Rightarrow> nat \<Rightarrow> 'a lalr1_parser \<Rightarrow> (nat option \<times> 'a lalr1_parser) res" where
  "go_to from next_symbol la =
     rbind (sets_get from (la_lr0_item_sets la)) (\<lambda>from_item_set.
       let kernel = go_to_kernel (la_productions la) next_symbol (is_closure from_item_set)
       in if kernel = [] then Inr (None, la)
          else let (new, next_index) =
                     (case smap_find (lex_less item_less) kernel (la_lr0_item_sets la) of
                        Some s \<Rightarrow> (False, is_index s)
                      | None \<Rightarrow> (True, length (la_lr0_item_sets la)));
                   sets1 = sets_update from (\<lambda>s. s\<lparr>is_next := (is_next s)(next_symbol \<mapsto> next_index)\<rparr>)
                     (la_lr0_item_sets la);
                   sets2 = (if new
                     then smap_assign (lex_less item_less) kernel
                            (item_set_new\<lparr>is_kernel := kernel, is_index := next_index\<rparr>) sets1
                     else sets1)
               in Inr (if new then Some next_index else None,
                    la\<lparr>la_lr0_item_sets := sets2,
                       la_go_to_table := (la_go_to_table la)
                         (from := smap_assign (<) next_symbol next_index (la_go_to_table la from))\<rparr>))"

definition lr0_go_to_symbol ::
  "nat \<Rightarrow> nat \<Rightarrow> nat list \<times> 'a lalr1_parser \<Rightarrow> (nat list \<times> 'a lalr1_parser) res" where
  "lr0_go_to_symbol from next_symbol = (\<lambda>(unused_item_sets, la).
     rbind (go_to from next_symbol la) (\<lambda>(new_item_set, la').
       Inr (case new_item_set of None \<Rightarrow> unused_item_sets | Some i \<Rightarrow> unused_item_sets @ [i], la')))"

text \<open>The non-terminals are an unordered map, which \<open>key_order\<close> enumerates.\<close>

definition lr0_round ::
  "(nat list \<Rightarrow> nat list) \<Rightarrow> nat list \<times> 'a lalr1_parser \<Rightarrow> (nat list \<times> 'a lalr1_parser) res option" where
  "lr0_round key_order = (\<lambda>(unused_item_sets, la).
     let from = last unused_item_sets
     in cbind (Some (sets_get from (la_lr0_item_sets la))) (\<lambda>s.
          cbind (generate_lr0_closure la s) (\<lambda>s'.
            Some (rfold (lr0_go_to_symbol from) (la_terminals la @ key_order (map fst (la_non_terminals la)))
              (butlast unused_item_sets,
               la\<lparr>la_lr0_item_sets := sets_update from (\<lambda>_. s') (la_lr0_item_sets la)\<rparr>)))))"

partial_function (option) lr0_loop ::
  "(nat list \<Rightarrow> nat list) \<Rightarrow> nat list \<Rightarrow> 'a lalr1_parser \<Rightarrow> 'a lalr1_parser res option" where
  "lr0_loop key_order unused_item_sets la =
     (if unused_item_sets = [] then Some (Inr la)
      else case lr0_round key_order (unused_item_sets, la) of
             None \<Rightarrow> None
           | Some (Inl e) \<Rightarrow> Some (Inl e)
           | Some (Inr (unused_item_sets', la')) \<Rightarrow> lr0_loop key_order unused_item_sets' la')"

definition generate_lr0_kernels :: "(nat list \<Rightarrow> nat list) \<Rightarrow> 'a lalr1_parser \<Rightarrow> 'a lalr1_parser res option" where
  "generate_lr0_kernels key_order la =
     (if length (la_productions la) \<le> la_root_production_id la then Some (Inl UndefinedBehavior)
      else let kernel = [mk_item (la_root_production_id la) 0 cNullSymbol]; i = length (la_lr0_item_sets la)
           in lr0_loop key_order [i]
                (la\<lparr>la_lr0_item_sets := smap_assign (lex_less item_less) kernel
                   (item_set_new\<lparr>is_kernel := kernel, is_index := i\<rparr>) (la_lr0_item_sets la)\<rparr>))"

section \<open>FIRST sets\<close>

definition firsts_at :: "(nat \<Rightarrow> nat list option) \<Rightarrow> nat \<Rightarrow> nat list" where
  "firsts_at firsts s = (case firsts s of None \<Rightarrow> [] | Some f \<Rightarrow> f)"

text \<open>The loop over a body; the second result says that all its symbols are nullable.\<close>

fun first_body ::
  "nat \<Rightarrow> nat list \<Rightarrow> nat list \<Rightarrow> (nat \<Rightarrow> nat list option) \<Rightarrow> (nat \<Rightarrow> nat list option) \<times> bool" where
  "first_body head nullable [] firsts = (firsts, True)"
| "first_body head nullable (s # body) firsts =
     (let firsts1 = firsts(s \<mapsto> firsts_at firsts s);
          firsts2 = firsts1(head \<mapsto> sset_insert_all (<) (firsts_at firsts1 s) (firsts_at firsts1 head))
      in if s \<in> set nullable then first_body head nullable body firsts2 else (firsts2, False))"

type_synonym first_state = "(nat \<Rightarrow> nat list option) \<times> nat list \<times> bool"

text \<open>\<^verbatim>\<open>changed = changed || m_nullable.insert(head).second\<close>.\<close>

definition note_nullable :: "nat \<Rightarrow> nat list \<times> bool \<Rightarrow> nat list \<times> bool" where
  "note_nullable head = (\<lambda>(nullable, changed).
     if changed then (nullable, changed)
     else (sset_insert (<) head nullable, head \<notin> set nullable))"

definition first_production :: "'a production \<Rightarrow> first_state \<Rightarrow> first_state" where
  "first_production p = (\<lambda>(firsts, nullable, changed).
     let f = firsts_at firsts (pr_head p); firsts1 = firsts(pr_head p \<mapsto> f)
     in if pr_is_epsilon p
        then let (nullable', changed') = note_nullable (pr_head p) (nullable, changed)
             in (firsts1, nullable', changed')
        else let (firsts2, all_nullable) = first_body (pr_head p) nullable (pr_body p) firsts1;
                 (nullable', changed') =
                   (if all_nullable then note_nullable (pr_head p) (nullable, changed) else (nullable, changed))
             in (firsts2, nullable', changed' \<or> length (firsts_at firsts2 (pr_head p)) \<noteq> length f))"

partial_function (option) first_loop ::
  "'a production list \<Rightarrow> (nat \<Rightarrow> nat list option) \<Rightarrow> nat list \<Rightarrow> ((nat \<Rightarrow> nat list option) \<times> nat list) option" where
  "first_loop g firsts nullable =
     (case fold first_production g (firsts, nullable, False) of
        (firsts', nullable', changed) \<Rightarrow>
          if changed then first_loop g firsts' nullable' else Some (firsts', nullable'))"

definition generate_first_sets :: "'a lalr1_parser \<Rightarrow> 'a lalr1_parser option" where
  "generate_first_sets la =
     map_option (\<lambda>(firsts, nullable). la\<lparr>la_firsts := firsts, la_nullable := nullable\<rparr>)
       (first_loop (la_productions la)
         (fold (\<lambda>s firsts. if firsts s = None then firsts(s \<mapsto> [s]) else firsts) (la_terminals la) (la_firsts la))
         (la_nullable la))"

section \<open>The LR(1) item sets\<close>

definition propagate_insert :: "item \<Rightarrow> item \<Rightarrow> (item \<times> item list) list \<Rightarrow> (item \<times> item list) list" where
  "propagate_insert item_from item_to m =
     smap_assign item_less item_from
       (sset_insert item_less item_to
         (case smap_find item_less item_from m of None \<Rightarrow> [] | Some items \<Rightarrow> items)) m"

definition note_lookahead :: "item \<Rightarrow> item \<Rightarrow> 'a lalr1_parser \<Rightarrow> 'a lalr1_parser" where
  "note_lookahead l0_item l1_item la =
     (let p = it_production l1_item
      in if it_lookahead l1_item \<noteq> cNullSymbol
         then la\<lparr>la_spontaneous_map := (la_spontaneous_map la)
                (p := sset_insert (<) (it_lookahead l1_item) (la_spontaneous_map la p))\<rparr>
         else if it_dot l1_item < length (pr_body (la_productions la ! p))
         then la\<lparr>la_propagate_map :=
                propagate_insert l0_item (mk_item p (it_dot l1_item + 1) cNullSymbol) (la_propagate_map la)\<rparr>
         else la)"

definition note_lookaheads :: "item \<Rightarrow> 'a lalr1_parser \<Rightarrow> 'a lalr1_parser res option" where
  "note_lookaheads l0_item la =
     cbind (generate_lr1_closure la (item_set_new\<lparr>is_kernel := [l0_item]\<rparr>))
       (\<lambda>temp_item_set. Some (Inr (fold (note_lookahead l0_item) (is_closure temp_item_set) la)))"

definition kernel_items :: "item_sets \<Rightarrow> item list" where
  "kernel_items m = concat (map (\<lambda>(_, s). is_kernel s) m)"

type_synonym lookahead_map = "item \<Rightarrow> nat list"

definition initial_lookahead :: "'a lalr1_parser \<Rightarrow> item \<Rightarrow> lookahead_map \<Rightarrow> lookahead_map" where
  "initial_lookahead la l0_item lookaheads =
     (let ls = sset_insert_all (<) (la_spontaneous_map la (it_production l0_item)) (lookaheads l0_item)
      in lookaheads(l0_item :=
           if it_production l0_item = la_root_production_id la
           then sset_insert (<) (symbol_num TokenEnd) ls else ls))"

definition propagate_one :: "item \<Rightarrow> item \<Rightarrow> lookahead_map \<times> bool \<Rightarrow> lookahead_map \<times> bool" where
  "propagate_one item_from item_to = (\<lambda>(lookaheads, changed).
     let after = sset_insert_all (<) (lookaheads item_from) (lookaheads item_to)
     in (lookaheads(item_to := after), changed \<or> length (lookaheads item_to) < length after))"

definition propagate_round :: "(item \<times> item list) list \<Rightarrow> lookahead_map \<Rightarrow> lookahead_map \<times> bool" where
  "propagate_round m lookaheads =
     fold (\<lambda>(item_from, items). fold (propagate_one item_from) items) m (lookaheads, False)"

partial_function (option) propagate_loop ::
  "(item \<times> item list) list \<Rightarrow> lookahead_map \<Rightarrow> lookahead_map option" where
  "propagate_loop m lookaheads =
     (case propagate_round m lookaheads of
        (lookaheads', changed) \<Rightarrow> if changed then propagate_loop m lookaheads' else Some lookaheads')"

definition lr1_kernel :: "lookahead_map \<Rightarrow> item list \<Rightarrow> item list" where
  "lr1_kernel lookaheads l0_kernel =
     sset_insert_all item_less
       (concat (map (\<lambda>i. map (\<lambda>l. mk_item (it_production i) (it_dot i) l) (lookaheads i)) l0_kernel)) []"

definition make_lr1_item_set ::
  "lookahead_map \<Rightarrow> item list \<times> item_set \<Rightarrow> 'a lalr1_parser \<Rightarrow> 'a lalr1_parser res option" where
  "make_lr1_item_set lookaheads = (\<lambda>(_, l0_set) la.
     let kernel = lr1_kernel lookaheads (is_kernel l0_set);
         root = (\<exists>i \<in> set (is_kernel l0_set). it_production i = la_root_production_id la \<and> it_dot i = 0)
     in cbind (generate_lr1_closure la (item_set_new\<lparr>is_kernel := kernel\<rparr>)) (\<lambda>s.
          Some (Inr (la\<lparr>la_root_item_set := if root then Some (is_index l0_set) else la_root_item_set la,
            la_lr1_item_sets := smap_assign (lex_less item_less) kernel
              (s\<lparr>is_index := is_index l0_set\<rparr>) (la_lr1_item_sets la)\<rparr>))))"

text \<open>The transitions, to the item sets that are there.\<close>

definition link_item_set :: "(nat \<Rightarrow> (nat \<times> nat) list) \<Rightarrow> item_sets \<Rightarrow> item_set \<Rightarrow> item_set" where
  "link_item_set table sets s =
     s\<lparr>is_next := fold (\<lambda>(symbol, i) nxt.
         if \<exists>(_, s') \<in> set sets. is_index s' = i then nxt(symbol \<mapsto> i) else nxt)
       (table (is_index s)) (is_next s)\<rparr>"

definition generate_lr1_item_sets :: "'a lalr1_parser \<Rightarrow> 'a lalr1_parser res option" where
  "generate_lr1_item_sets la =
     cbind (cfold note_lookaheads (kernel_items (la_lr0_item_sets la)) la) (\<lambda>la1.
       case propagate_loop (la_propagate_map la1)
              (fold (initial_lookahead la1) (kernel_items (la_lr0_item_sets la1)) (\<lambda>_. [])) of
         None \<Rightarrow> None
       | Some lookaheads \<Rightarrow>
           cbind (cfold (make_lr1_item_set lookaheads) (la_lr0_item_sets la1) la1) (\<lambda>la2.
             Some (Inr (la2\<lparr>la_lr1_item_sets :=
               map (\<lambda>(k, s). (k, link_item_set (la_go_to_table la2) (la_lr1_item_sets la2) s))
                 (la_lr1_item_sets la2)\<rparr>))))"

section \<open>The parsing table\<close>

text \<open>A slot that holds a \<^verbatim>\<open>bool\<close> is taken to be free.\<close>

definition action_is_bool :: "action \<Rightarrow> bool" where
  "action_is_bool a \<longleftrightarrow> (case a of ActBool _ \<Rightarrow> True | _ \<Rightarrow> False)"

definition set_action :: "nat \<Rightarrow> action \<Rightarrow> action list \<Rightarrow> action list res" where
  "set_action i a actions = (if i < length actions then Inr (actions[i := a]) else Inl UndefinedBehavior)"

definition get_action :: "nat \<Rightarrow> action list \<Rightarrow> action res" where
  "get_action i actions = (if i < length actions then Inr (actions ! i) else Inl UndefinedBehavior)"

definition add_shift :: "(nat \<Rightarrow> nat option) \<Rightarrow> nat \<Rightarrow> action list \<Rightarrow> action list res" where
  "add_shift nxt symbol actions =
     (case nxt symbol of
        None \<Rightarrow> Inl AssertFailed
      | Some i \<Rightarrow>
          rbind (get_action symbol actions) (\<lambda>a.
            if action_is_bool a then set_action symbol (ActShift i) actions
            else if a = ActShift i then Inr actions else Inl RuntimeError))"

definition add_reduce :: "nat \<Rightarrow> nat \<Rightarrow> action list \<Rightarrow> action list res" where
  "add_reduce p lookahead actions =
     rbind (get_action lookahead actions) (\<lambda>a.
       if action_is_bool a then set_action lookahead (ActReduce p) actions else Inl RuntimeError)"

definition add_item_action ::
  "'a lalr1_parser \<Rightarrow> (nat \<Rightarrow> nat option) \<Rightarrow> item \<Rightarrow> action list \<Rightarrow> action list res" where
  "add_item_action la nxt item actions =
     (if \<not> has_dot_at_end (la_productions la) item
      then let symbol = it_next_symbol (la_productions la) item
           in if \<not> symbol_is_token la symbol \<and> map_of (la_non_terminals la) symbol = None then Inr actions
              else add_shift nxt symbol actions
      else if it_production item = la_root_production_id la
      then set_action (symbol_num TokenEnd) (ActBool True) actions
      else add_reduce (it_production item) (it_lookahead item) actions)"

definition item_set_actions :: "'a lalr1_parser \<Rightarrow> item_set \<Rightarrow> action list res" where
  "item_set_actions la s =
     rfold (add_item_action la (is_next s)) (is_closure s)
       (take (length (lx_symbol_id (la_lexer la)))
          (is_actions s @ replicate (length (lx_symbol_id (la_lexer la)) - length (is_actions s)) (ActBool False)))"

fun add_actions :: "'a lalr1_parser \<Rightarrow> item_sets \<Rightarrow> item_sets res" where
  "add_actions la [] = Inr []"
| "add_actions la ((k, s) # m) =
     rbind (item_set_actions la s) (\<lambda>actions.
       rbind (add_actions la m) (\<lambda>m'. Inr ((k, s\<lparr>is_actions := actions\<rparr>) # m')))"

definition generate_lalr1_action :: "'a lalr1_parser \<Rightarrow> 'a lalr1_parser res" where
  "generate_lalr1_action la =
     rbind (add_actions la (la_lr1_item_sets la)) (\<lambda>m. Inr (la\<lparr>la_lr1_item_sets := m\<rparr>))"

definition generate_lalr1_parsing_table :: "'a lalr1_parser \<Rightarrow> 'a lalr1_parser res" where
  "generate_lalr1_parsing_table la = generate_lalr1_action la"

definition la_generate ::
  "((nat \<times> nat) list \<Rightarrow> (nat \<times> nat) list) \<Rightarrow> (nat list \<Rightarrow> nat list) \<Rightarrow> 'a lalr1_parser \<Rightarrow>
     'a lalr1_parser res option" where
  "la_generate ord key_order la =
     cbind (lx_generate ord (la_lexer la)) (\<lambda>lx.
       if la_productions la = [] then Some (Inl AssertFailed)
       else cbind (generate_lr0_kernels key_order (la\<lparr>la_lexer := lx\<rparr>)) (\<lambda>la1.
         case generate_first_sets la1 of
           None \<Rightarrow> None
         | Some la2 \<Rightarrow>
             cbind (generate_lr1_item_sets la2) (\<lambda>la3. Some (generate_lalr1_parsing_table la3))))"

end
