(* ===== verification/Schema_Rules.thy ===== *)
theory Schema_Rules
  imports Lalr_Generate
begin

text \<open>
  The semantic rules of \<^verbatim>\<open>SchemaParser.cpp\<close>: what a production of the schema
  grammar makes of the syntax trees of its children.
\<close>

section \<open>Syntax trees\<close>

text \<open>
  The classes derived from \<^verbatim>\<open>ParserAST\<close> that a schema parser makes: the trees of a
  schema, the schema itself, and \<^verbatim>\<open>ParserValue\<close> of a regex.
\<close>

datatype schema_value = NodeValue parser_ast | SchemaValue schema_ast | RegexValue regex_ast

type_synonym schema_symbol = "schema_value matched_symbol"
type_synonym schema_rule = "schema_value semantic_rule"

text \<open>\<^verbatim>\<open>dynamic_cast\<close> on pointers: \<open>None\<close> is the null pointer.\<close>

fun as_identifier :: "schema_value option \<Rightarrow> string option" where
  "as_identifier (Some (NodeValue (IdentifierAST name))) = Some name"
| "as_identifier _ = None"

fun as_schema :: "schema_value option \<Rightarrow> schema_ast option" where
  "as_schema (Some (SchemaValue s)) = Some s"
| "as_schema _ = None"

fun as_literal :: "regex_ast \<Rightarrow> nat option" where
  "as_literal (ReLiteral b c) = Some c"
| "as_literal _ = None"

fun as_group :: "regex_ast \<Rightarrow> group option" where
  "as_group (ReGroup b g) = Some g"
| "as_group _ = None"

fun as_integer :: "regex_ast \<Rightarrow> nat list option" where
  "as_integer (ReInteger b ds) = Some ds"
| "as_integer _ = None"

text \<open>Following a pointer.\<close>

definition deref :: "'b option \<Rightarrow> 'b res" where
  "deref p = (case p of None \<Rightarrow> Inl NullDeref | Some x \<Rightarrow> Inr x)"

text \<open>
  The tree of a child: \<^verbatim>\<open>release_parser_ast\<close>, \<^verbatim>\<open>get_parser_ast\<close>, and
  \<^verbatim>\<open>get\<close>, which casts without a check.
\<close>

definition release_ast :: "schema_symbol list \<Rightarrow> nat \<Rightarrow> schema_value option res" where
  "release_ast m i =
     rbind (non_terminal_cast m i) (\<lambda>nt. case nt of NonTerminal _ _ ast \<Rightarrow> Inr ast | _ \<Rightarrow> Inl BadVariantAccess)"

definition ast_of :: "schema_symbol list \<Rightarrow> nat \<Rightarrow> schema_value res" where
  "ast_of m i = rbind (non_terminal_cast m i) get_parser_ast"

definition regex_of :: "schema_symbol list \<Rightarrow> nat \<Rightarrow> regex_ast res" where
  "regex_of m i = rbind (ast_of m i) (\<lambda>v. case v of RegexValue r \<Rightarrow> Inr r | _ \<Rightarrow> Inl UndefinedBehavior)"

text \<open>\<^verbatim>\<open>dynamic_cast<IdentifierAST&>\<close> throws when the class is another.\<close>

definition identifier_of :: "schema_symbol list \<Rightarrow> nat \<Rightarrow> string res" where
  "identifier_of m i =
     rbind (ast_of m i) (\<lambda>v. case as_identifier (Some v) of Some name \<Rightarrow> Inr name | None \<Rightarrow> Inl BadCast)"

text \<open>
  The vectors of a schema hold pointers to any tree; only trees of these classes are ever put there.
\<close>

definition node_of :: "schema_symbol list \<Rightarrow> nat \<Rightarrow> parser_ast res" where
  "node_of m i = rbind (release_ast m i) (\<lambda>v. case v of Some (NodeValue a) \<Rightarrow> Inr a | _ \<Rightarrow> Inl UndefinedBehavior)"

text \<open>\<^verbatim>\<open>token_cast(i).to_string().at(0)\<close>, and a \<^verbatim>\<open>char\<close> as \<^verbatim>\<open>uint32_t\<close>.\<close>

definition token_char :: "memory \<Rightarrow> schema_symbol list \<Rightarrow> nat \<Rightarrow> char res" where
  "token_char mem m i =
     rbind (token_cast m i) (\<lambda>t. rbind (tk_to_string mem t) (\<lambda>(str, _).
       if str = [] then Inl OutOfRange else Inr (hd str)))"

definition char_u32 :: "char \<Rightarrow> nat" where
  "char_u32 c = (let n = of_char c in if n < 128 then n else n + (2 ^ 32 - 256))"

abbreviation regex_value :: "regex_ast \<Rightarrow> schema_value option" where
  "regex_value r \<equiv> Some (RegexValue r)"

section \<open>Identifiers, variables and the schema\<close>

definition new_identifier_rule :: schema_rule where
  "new_identifier_rule mem m = rbind (token_char mem m 0) (\<lambda>c. Inr (Some (NodeValue (IdentifierAST [c]))))"

definition existing_identifier_rule :: schema_rule where
  "existing_identifier_rule mem m =
     rbind (release_ast m 0) (\<lambda>parser_ast.
       rbind (deref (as_identifier parser_ast)) (\<lambda>name. rbind (token_char mem m 1) (\<lambda>c.
         rbind (identifier_add_character c (IdentifierAST name)) (\<lambda>ast. Inr (Some (NodeValue ast))))))"

definition schema_var_rule :: schema_rule where
  "schema_var_rule mem m =
     rbind (identifier_of m 1) (\<lambda>name. rbind (regex_of m 3) (\<lambda>regex. rbind (token_cast m 2) (\<lambda>t.
       Inr (Some (NodeValue (SchemaVarAST (tk_line_num t) name regex))))))"

definition new_schema_rule :: schema_rule where
  "new_schema_rule mem m = Inr (Some (SchemaValue schema_ast_new))"

definition new_schema_rule_with_var :: schema_rule where
  "new_schema_rule_with_var mem m =
     rbind (node_of m 0) (\<lambda>var. rbind (sa_add_schema_var var (-1) schema_ast_new) (\<lambda>s. Inr (Some (SchemaValue s))))"

definition new_schema_rule_with_delimiters :: schema_rule where
  "new_schema_rule_with_delimiters mem m =
     rbind (node_of m 2) (\<lambda>ds. Inr (Some (SchemaValue (sa_add_delimiters ds schema_ast_new))))"

definition existing_schema_rule_with_delimiter :: schema_rule where
  "existing_schema_rule_with_delimiter mem m =
     rbind (release_ast m 0) (\<lambda>v. rbind (node_of m 4) (\<lambda>ds. rbind (deref (as_schema v)) (\<lambda>s.
       Inr (Some (SchemaValue (sa_add_delimiters ds s))))))"

definition existing_schema_rule :: schema_rule where
  "existing_schema_rule mem m =
     rbind (release_ast m 0) (\<lambda>v. rbind (node_of m 2) (\<lambda>var. rbind (deref (as_schema v)) (\<lambda>s.
       rbind (sa_add_schema_var var (-1) s) (\<lambda>s'. Inr (Some (SchemaValue s'))))))"

definition identity_rule_ParserASTSchema :: schema_rule where
  "identity_rule_ParserASTSchema mem m =
     rbind (release_ast m 0) (\<lambda>v. Inr (map_option SchemaValue (as_schema v)))"

section \<open>Regexes\<close>

text \<open>The address \<^verbatim>\<open>make_unique\<close> gives a capture is an argument.\<close>

definition regex_capture_rule :: "(memory \<Rightarrow> schema_symbol list \<Rightarrow> nat) \<Rightarrow> schema_rule" where
  "regex_capture_rule alloc mem m =
     rbind (identifier_of m 3) (\<lambda>name. rbind (regex_of m 5) (\<lambda>r.
       rbind (mk_capture (Some r) (Some (Capture (alloc mem m) name))) (\<lambda>c. Inr (regex_value c))))"

definition regex_identity_rule :: schema_rule where
  "regex_identity_rule mem m = rbind (regex_of m 0) (\<lambda>r. Inr (regex_value r))"

definition regex_middle_identity_rule :: schema_rule where
  "regex_middle_identity_rule mem m = rbind (regex_of m 1) (\<lambda>r. Inr (regex_value r))"

definition regex_cat_rule :: schema_rule where
  "regex_cat_rule mem m =
     rbind (regex_of m 0) (\<lambda>l. rbind (regex_of m 1) (\<lambda>r. Inr (regex_value (mk_cat l r))))"

definition regex_or_rule :: schema_rule where
  "regex_or_rule mem m =
     rbind (regex_of m 0) (\<lambda>l. rbind (regex_of m 2) (\<lambda>r. Inr (regex_value (mk_or l r))))"

definition regex_match_zero_or_more_rule :: schema_rule where
  "regex_match_zero_or_more_rule mem m =
     rbind (regex_of m 0) (\<lambda>r. Inr (regex_value (mk_or mk_empty (mk_mult r 1 0))))"

definition regex_match_one_or_more_rule :: schema_rule where
  "regex_match_one_or_more_rule mem m = rbind (regex_of m 0) (\<lambda>r. Inr (regex_value (mk_mult r 1 0)))"

definition regex_match_zero_or_one_rule :: schema_rule where
  "regex_match_zero_or_one_rule mem m = rbind (regex_of m 0) (\<lambda>r. Inr (regex_value (mk_or mk_empty r)))"

text \<open>
  The digits of an integer, the most significant first. \<^verbatim>\<open>pow(10, i)\<close> does not fit
  into \<^verbatim>\<open>uint32_t\<close> for \<open>i \<ge> 10\<close>, and converting it is undefined.
\<close>

fun digits_loop :: "nat list \<Rightarrow> nat \<Rightarrow> nat res" where
  "digits_loop [] reps = Inr reps"
| "digits_loop (d # ds) reps =
     (if 10 \<le> length ds then Inl UndefinedBehavior
      else digits_loop ds (u32 (reps + u32 (d * 10 ^ length ds))))"

definition integer_of :: "schema_symbol list \<Rightarrow> nat \<Rightarrow> nat res" where
  "integer_of m i =
     rbind (regex_of m i) (\<lambda>r. rbind (deref (as_integer r)) (\<lambda>ds. digits_loop ds 0))"

definition regex_match_exactly_rule :: schema_rule where
  "regex_match_exactly_rule mem m =
     rbind (integer_of m 2) (\<lambda>reps. rbind (regex_of m 0) (\<lambda>r. Inr (regex_value (mk_mult r reps reps))))"

definition regex_match_range_rule :: schema_rule where
  "regex_match_range_rule mem m =
     rbind (integer_of m 2) (\<lambda>mn. rbind (integer_of m 4) (\<lambda>mx. rbind (regex_of m 0) (\<lambda>r.
       Inr (regex_value (if mn = 0 then mk_or mk_empty (mk_mult r 1 mx) else mk_mult r mn mx)))))"

section \<open>Groups\<close>

abbreviation group_value :: "group res \<Rightarrow> schema_value option res" where
  "group_value g \<equiv> rbind g (\<lambda>g. Inr (regex_value (mk_group g)))"

definition regex_add_literal_existing_group_rule :: schema_rule where
  "regex_add_literal_existing_group_rule mem m =
     rbind (regex_of m 0) (\<lambda>l. rbind (regex_of m 1) (\<lambda>r. group_value (group_add_literal (as_group l) (as_literal r))))"

definition regex_add_range_existing_group_rule :: schema_rule where
  "regex_add_range_existing_group_rule mem m =
     rbind (regex_of m 0) (\<lambda>l. rbind (regex_of m 1) (\<lambda>r. group_value (group_add_group (as_group l) (as_group r))))"

definition regex_add_literal_new_group_rule :: schema_rule where
  "regex_add_literal_new_group_rule mem m =
     rbind (regex_of m 1) (\<lambda>r. group_value (group_of_literal (as_literal r)))"

definition regex_add_range_new_group_rule :: schema_rule where
  "regex_add_range_new_group_rule mem m =
     rbind (regex_of m 1) (\<lambda>r. group_value (group_of_group (as_group r)))"

definition regex_complement_incomplete_group_rule :: schema_rule where
  "regex_complement_incomplete_group_rule mem m = Inr (regex_value (mk_group group_default))"

definition regex_range_rule :: schema_rule where
  "regex_range_rule mem m =
     rbind (regex_of m 0) (\<lambda>l. rbind (regex_of m 2) (\<lambda>r.
       group_value (group_of_literal_range (as_literal l) (as_literal r))))"

section \<open>Literals, integers and shorthands\<close>

definition regex_literal_rule :: schema_rule where
  "regex_literal_rule mem m = rbind (token_char mem m 0) (\<lambda>c. Inr (regex_value (mk_literal (char_u32 c))))"

definition regex_cancel_literal_rule :: schema_rule where
  "regex_cancel_literal_rule mem m = rbind (token_char mem m 1) (\<lambda>c. Inr (regex_value (mk_literal (char_u32 c))))"

definition regex_existing_integer_rule :: schema_rule where
  "regex_existing_integer_rule mem m =
     rbind (regex_of m 0) (\<lambda>r. rbind (token_char mem m 1) (\<lambda>c.
       rbind (deref (as_integer r)) (\<lambda>ds. Inr (regex_value (mk_integer_snoc ds (char_u32 c))))))"

definition regex_new_integer_rule :: schema_rule where
  "regex_new_integer_rule mem m = rbind (token_char mem m 0) (\<lambda>c. Inr (regex_value (mk_integer (char_u32 c))))"

definition make_digit_group :: group where
  "make_digit_group = group_min_max (of_char CHR ''0'') (of_char CHR ''9'')"

definition regex_digit_rule :: schema_rule where
  "regex_digit_rule mem m = Inr (regex_value (mk_group make_digit_group))"

definition regex_non_digit_rule :: schema_rule where
  "regex_non_digit_rule mem m = Inr (regex_value (mk_group (group_do_negate make_digit_group)))"

definition regex_wildcard_rule :: schema_rule where
  "regex_wildcard_rule mem m = Inr (regex_value (mk_group (group_set_is_wildcard_true (group_min_max 0 cUnicodeMax))))"

definition regex_vertical_tab_rule :: schema_rule where
  "regex_vertical_tab_rule mem m = Inr (regex_value (mk_literal 11))"

definition regex_form_feed_rule :: schema_rule where
  "regex_form_feed_rule mem m = Inr (regex_value (mk_literal 12))"

definition regex_tab_rule :: schema_rule where
  "regex_tab_rule mem m = Inr (regex_value (mk_literal 9))"

definition regex_char_return_rule :: schema_rule where
  "regex_char_return_rule mem m = Inr (regex_value (mk_literal 13))"

definition regex_newline_rule :: schema_rule where
  "regex_newline_rule mem m = Inr (regex_value (mk_literal 10))"

definition make_white_space_group :: group where
  "make_white_space_group = group_of_literals (of_char (CHR '' '') # control_white_space_chars)"

definition regex_white_space_rule :: schema_rule where
  "regex_white_space_rule mem m = Inr (regex_value (mk_group make_white_space_group))"

definition regex_non_white_space_rule :: schema_rule where
  "regex_non_white_space_rule mem m = Inr (regex_value (mk_group (group_do_negate make_white_space_group)))"

definition make_word_group :: group where
  "make_word_group =
     group_push_literal (of_char CHR ''_'') (group_add_range (of_char CHR ''0'') (of_char CHR ''9'')
       (group_add_range (of_char CHR ''A'') (of_char CHR ''Z'')
         (group_min_max (of_char CHR ''a'') (of_char CHR ''z''))))"

definition regex_word_rule :: schema_rule where
  "regex_word_rule mem m = Inr (regex_value (mk_group make_word_group))"

definition regex_non_word_rule :: schema_rule where
  "regex_non_word_rule mem m = Inr (regex_value (mk_group (group_do_negate make_word_group)))"

section \<open>Delimiters\<close>

definition existing_delimiter_string_rule :: schema_rule where
  "existing_delimiter_string_rule mem m =
     rbind (release_ast m 0) (\<lambda>parser_ast. rbind (regex_of m 1) (\<lambda>r.
       rbind (deref (as_literal r)) (\<lambda>d.
         case parser_ast of
           Some (NodeValue a) \<Rightarrow> rbind (delimiter_add_delimiter d a) (\<lambda>a'. Inr (Some (NodeValue a')))
         | _ \<Rightarrow> Inl NullDeref)))"

definition new_delimiter_string_rule :: schema_rule where
  "new_delimiter_string_rule mem m =
     rbind (regex_of m 0) (\<lambda>r. rbind (deref (as_literal r)) (\<lambda>d. Inr (Some (NodeValue (DelimiterStringAST [d])))))"

end
