(* ===== verification/Lalr_Parse.thy ===== *)
theory Lalr_Parse
  imports Lalr_Generate
begin

text \<open>
  \<^verbatim>\<open>Lalr1Parser.tpp\<close>: parsing with the generated tables, and the report of a syntax
  error. A result is \<open>None\<close> when a loop does not end.
\<close>

section \<open>Tokens\<close>

definition la_memory :: "'a lalr1_parser \<Rightarrow> memory" where
  "la_memory la = bf_storage (ib_storage (la_input_buffer la))"

definition la_reset :: "'a lalr1_parser \<Rightarrow> 'a lalr1_parser" where
  "la_reset la = la\<lparr>la_next_token := None, la_parse_stack_states := [], la_parse_stack_matches := [],
     la_input_buffer := ib_reset (la_input_buffer la), la_lexer := lx_reset (la_lexer la)\<rparr>"

definition la_get_next_symbol :: "'a lalr1_parser \<Rightarrow> (token \<times> 'a lalr1_parser) res option" where
  "la_get_next_symbol la =
     (case la_next_token la of
        Some t \<Rightarrow> Some (Inr (t, la\<lparr>la_next_token := None\<rparr>))
      | None \<Rightarrow>
          cbind (lx_scan (la_lexer la) (la_input_buffer la)) (\<lambda>((err, optional_token), lx, input).
            if err \<noteq> Success then Some (Inl RuntimeError)
            else case optional_token of
                   None \<Rightarrow> Some (Inl BadOptionalAccess)
                 | Some t \<Rightarrow> Some (Inr (t, la\<lparr>la_lexer := lx, la_input_buffer := input\<rparr>))))"

section \<open>One action\<close>

text \<open>The symbols of a body are taken off the stacks, the last one first.\<close>

fun pop_symbols ::
  "nat \<Rightarrow> 'a matched_symbol list \<Rightarrow> nat list \<times> 'a matched_symbol list \<Rightarrow>
     ('a matched_symbol list \<times> nat list \<times> 'a matched_symbol list) res" where
  "pop_symbols 0 symbols (states, matches) = Inr (symbols, states, matches)"
| "pop_symbols (Suc n) symbols (states, matches) =
     (case (states, matches) of
        (_ # states', m # matches') \<Rightarrow> pop_symbols n (m # symbols) (states', matches')
      | _ \<Rightarrow> Inl UndefinedBehavior)"

definition la_actions :: "'a lalr1_parser \<Rightarrow> action list res" where
  "la_actions la =
     (case la_parse_stack_states la of
        [] \<Rightarrow> Inl UndefinedBehavior
      | i # _ \<Rightarrow> rbind (sets_get i (la_lr1_item_sets la)) (\<lambda>s. Inr (is_actions s)))"

text \<open>The semantic rule runs with the input up to the next token consumed.\<close>

definition run_semantic_rule ::
  "nat \<Rightarrow> token \<Rightarrow> 'a matched_symbol list \<Rightarrow> 'a lalr1_parser \<Rightarrow> ('a option \<times> 'a lalr1_parser) res" where
  "run_semantic_rule reduce next_token symbols la =
     (case pr_semantic_rule (la_productions la ! reduce) of
        None \<Rightarrow> Inr (None, la)
      | Some rule \<Rightarrow>
          let pos = (if tk_start_pos next_token = 0 then ib_size (la_input_buffer la) - 1
                     else tk_start_pos next_token - 1);
              la' = la\<lparr>la_input_buffer := ib_set_consumed_pos (la_input_buffer la) pos\<rparr>
          in rbind (rule (la_memory la') symbols) (\<lambda>ast. Inr (ast, la')))"

definition la_reduce :: "nat \<Rightarrow> token \<Rightarrow> 'a lalr1_parser \<Rightarrow> 'a lalr1_parser res" where
  "la_reduce reduce next_token la =
     rbind (pop_symbols (length (pr_body (la_productions la ! reduce))) []
              (la_parse_stack_states la, la_parse_stack_matches la)) (\<lambda>(symbols, states, matches).
       let la1 = la\<lparr>la_next_token := Some next_token, la_parse_stack_states := states,
                    la_parse_stack_matches := matches\<rparr>
       in rbind (run_semantic_rule reduce next_token symbols la1) (\<lambda>(ast, la2).
            rbind (la_actions la2) (\<lambda>actions.
              rbind (get_action (pr_head (la_productions la2 ! reduce)) actions) (\<lambda>a.
                case a of
                  ActShift i \<Rightarrow>
                    Inr (la2\<lparr>la_parse_stack_states := i # la_parse_stack_states la2,
                      la_parse_stack_matches := NonTerminal reduce symbols ast # la_parse_stack_matches la2\<rparr>)
                | _ \<Rightarrow> Inl BadVariantAccess))))"

text \<open>No action for the symbol, the end of the parse, or a step.\<close>

datatype 'a symbol_outcome = SymbolRefused | SymbolAccepted | SymbolTaken "'a lalr1_parser"

definition la_parse_symbol :: "nat \<Rightarrow> token \<Rightarrow> 'a lalr1_parser \<Rightarrow> 'a symbol_outcome res" where
  "la_parse_symbol type_id next_token la =
     rbind (la_actions la) (\<lambda>actions. rbind (get_action type_id actions) (\<lambda>a.
       case a of
         ActBool is_accepting \<Rightarrow> Inr (if is_accepting then SymbolAccepted else SymbolRefused)
       | ActShift i \<Rightarrow>
           Inr (SymbolTaken (la\<lparr>la_parse_stack_states := i # la_parse_stack_states la,
             la_parse_stack_matches := MatchedToken next_token # la_parse_stack_matches la\<rparr>))
       | ActReduce p \<Rightarrow> rbind (la_reduce p next_token la) (\<lambda>la'. Inr (SymbolTaken la'))))"

fun try_types :: "nat list \<Rightarrow> token \<Rightarrow> 'a lalr1_parser \<Rightarrow> 'a symbol_outcome res" where
  "try_types [] next_token la = Inr SymbolRefused"
| "try_types (type_id # types) next_token la =
     rbind (la_parse_symbol type_id next_token la) (\<lambda>r.
       case r of SymbolRefused \<Rightarrow> try_types types next_token la | _ \<Rightarrow> Inr r)"

definition la_parse_advance :: "token \<Rightarrow> 'a lalr1_parser \<Rightarrow> 'a symbol_outcome res" where
  "la_parse_advance next_token la =
     (case tk_type_ids next_token of None \<Rightarrow> Inl NullDeref | Some types \<Rightarrow> try_types types next_token la)"

section \<open>The report of a syntax error\<close>

text \<open>
  The loop of \<^verbatim>\<open>get_line_num\<close>: after the children of a non-terminal have been put
  on the stack, the last of them is taken off.
\<close>

partial_function (option) get_line_num_loop :: "'a matched_symbol list \<Rightarrow> nat res option" where
  "get_line_num_loop symbols =
     (case symbols of
        [] \<Rightarrow> Some (Inl AssertFailed)
      | MatchedToken t # _ \<Rightarrow> Some (Inr (tk_line_num t))
      | NonTerminal p ms ast # rest \<Rightarrow> get_line_num_loop (tl (rev ms @ NonTerminal p ms ast # rest)))"

definition get_line_num :: "'a matched_symbol \<Rightarrow> nat res option" where
  "get_line_num top_symbol = get_line_num_loop [top_symbol]"

definition unescape :: "char \<Rightarrow> string" where
  "unescape c =
     (if c = CHR 0x09 then [CHR 0x5C, CHR ''t''] else if c = CHR 0x0D then [CHR 0x5C, CHR ''r'']
      else if c = CHR 0x0A then [CHR 0x5C, CHR ''n''] else if c = CHR 0x0B then [CHR 0x5C, CHR ''v'']
      else if c = CHR 0x0C then [CHR 0x5C, CHR ''f''] else [c])"

fun symbol_weight :: "'a matched_symbol \<Rightarrow> nat" where
  "symbol_weight (MatchedToken t) = 1"
| "symbol_weight (NonTerminal p ms ast) = Suc (sum_list (map symbol_weight ms))"

text \<open>The top of the stack is the head of the list.\<close>

function get_input_after_last_newline :: "memory \<Rightarrow> 'a matched_symbol list \<Rightarrow> string \<Rightarrow> string res" where
  "get_input_after_last_newline mem [] error_message_reversed = Inr (rev error_message_reversed)"
| "get_input_after_last_newline mem (MatchedToken t # matches) error_message_reversed =
     rbind (tk_to_string mem t) (\<lambda>(str, _).
       if str = [CHR 0x0D] \<or> str = [CHR 0x0A] then Inr (rev error_message_reversed)
       else get_input_after_last_newline mem matches (error_message_reversed @ rev str))"
| "get_input_after_last_newline mem (NonTerminal p ms ast # matches) error_message_reversed =
     get_input_after_last_newline mem (rev ms @ matches) error_message_reversed"
  by pat_completeness auto
termination
  by (relation "measure (\<lambda>(mem, matches, acc). sum_list (map symbol_weight matches))")
    (simp_all add: rev_map [symmetric] sum_list_rev del: rev_map)

definition has_newline :: "string \<Rightarrow> bool" where
  "has_newline str \<longleftrightarrow> CHR 0x0A \<in> set str \<or> CHR 0x0D \<in> set str"

definition is_end_token :: "token \<Rightarrow> bool res" where
  "is_end_token t = rbind (tk_type t) (\<lambda>ty. Inr (ty = symbol_num TokenEnd))"

partial_function (option) until_newline_loop ::
  "string \<Rightarrow> 'a lalr1_parser \<Rightarrow> (string \<times> 'a lalr1_parser) res option" where
  "until_newline_loop rest_of_line la =
     (case la_get_next_symbol la of
        None \<Rightarrow> None
      | Some (Inl e) \<Rightarrow> Some (Inl e)
      | Some (Inr (t, la')) \<Rightarrow>
          (case tk_to_string (la_memory la') t of
             Inl e \<Rightarrow> Some (Inl e)
           | Inr (str, _) \<Rightarrow>
               if has_newline str then Some (Inr (rest_of_line, la'))
               else (case is_end_token t of
                       Inl e \<Rightarrow> Some (Inl e)
                     | Inr is_end \<Rightarrow>
                         if is_end then Some (Inr (rest_of_line @ str, la'))
                         else until_newline_loop (rest_of_line @ str) la')))"

definition get_input_until_next_newline ::
  "token \<Rightarrow> 'a lalr1_parser \<Rightarrow> (string \<times> 'a lalr1_parser) res option" where
  "get_input_until_next_newline error_token la =
     cbind (Some (is_end_token error_token)) (\<lambda>is_end.
       cbind (Some (tk_to_string (la_memory la) error_token)) (\<lambda>(str, _).
         cbind (if has_newline str \<or> is_end then Some (Inr ([], la)) else until_newline_loop [] la)
           (\<lambda>(rest_of_line, la'). Some (Inr (rest_of_line @ [CHR 0x0A], la')))))"

definition id_symbol_at :: "lexer \<Rightarrow> nat \<Rightarrow> string" where
  "id_symbol_at lx i = (case map_of (lx_id_symbol lx) i of None \<Rightarrow> [] | Some name \<Rightarrow> name)"

text \<open>What the state expects: the symbols of the slots that do not hold a \<^verbatim>\<open>bool\<close>.\<close>

definition expected_symbol :: "lexer \<Rightarrow> nat \<Rightarrow> string" where
  "expected_symbol lx i =
     [CHR 0x27] @
     (case lx_get_highest_priority_rule i lx of
        Some (ReLiteral _ c) \<Rightarrow> unescape (char_of c)
      | _ \<Rightarrow> id_symbol_at lx i) @ [CHR 0x27, CHR '','']"

definition expected_symbols :: "lexer \<Rightarrow> action list \<Rightarrow> string" where
  "expected_symbols lx actions =
     concat (map (\<lambda>i. if action_is_bool (actions ! i) then [] else expected_symbol lx i) [0..<length actions])"

definition report_error :: "'a lalr1_parser \<Rightarrow> (string \<times> 'a lalr1_parser) res option" where
  "report_error la =
     (if la_next_token la \<noteq> None then Some (Inl AssertFailed)
      else case la_parse_stack_matches la of
        [] \<Rightarrow> Some (Inl AssertFailed)
      | top_symbol # matches \<Rightarrow>
          cbind (get_line_num top_symbol) (\<lambda>line_num.
          cbind (Some (token_cast [top_symbol] 0)) (\<lambda>token.
          cbind (Some (get_input_after_last_newline (la_memory la) matches [])) (\<lambda>consumed_input.
          cbind (get_input_until_next_newline token (la\<lparr>la_parse_stack_matches := []\<rparr>)) (\<lambda>(rest_of_line, la').
          cbind (Some (is_end_token token)) (\<lambda>is_end.
          cbind (Some (tk_to_string (la_memory la') token)) (\<lambda>(str, _).
          cbind (if is_end \<and> consumed_input = [] then Some (Inr (''empty file'', ''^'' @ [CHR 0x0A]))
                 else cbind (Some (la_actions la')) (\<lambda>actions.
                   Some (Inr
                     (butlast (''expected '' @ expected_symbols (la_lexer la') actions) @
                        '' before '' @ [CHR 0x27] @ unescape (if str = [] then CHR 0x00 else hd str) @ [CHR 0x27] @
                        '' token'',
                      replicate (length consumed_input + 10) (CHR '' '') @ ''^'' @ [CHR 0x0A]))))
            (\<lambda>(error_type, error_indicator).
               Some (Inr (''Schema:'' @ dec (u32 (line_num + 1)) @ '':'' @ dec (length consumed_input + 1) @
                 '': error: '' @ error_type @ [CHR 0x0A] @ replicate 10 (CHR '' '') @
                 consumed_input @ str @ rest_of_line @ error_indicator, la'))))))))))"

section \<open>Parsing\<close>

text \<open>The result of a parse: the tree, or the message of the exception for a syntax error.\<close>

datatype 'a parse_verdict = ParsedTree "'a matched_symbol" | SyntaxError string

partial_function (option) la_parse_loop ::
  "('r, char) read_fun \<Rightarrow> 'a lalr1_parser \<Rightarrow> 'r \<Rightarrow> (bool \<times> 'a lalr1_parser \<times> 'r) res option" where
  "la_parse_loop read la reader =
     (case ib_read_if_safe read (la_input_buffer la) reader of
        Inl e \<Rightarrow> Some (Inl e)
      | Inr (_, input, reader') \<Rightarrow>
          (case la_get_next_symbol (la\<lparr>la_input_buffer := input\<rparr>) of
             None \<Rightarrow> None
           | Some (Inl e) \<Rightarrow> Some (Inl e)
           | Some (Inr (next_terminal, la1)) \<Rightarrow>
               (case la_parse_advance next_terminal la1 of
                  Inl e \<Rightarrow> Some (Inl e)
                | Inr SymbolRefused \<Rightarrow>
                    Some (Inr (False, la1\<lparr>la_parse_stack_matches :=
                      MatchedToken next_terminal # la_parse_stack_matches la1\<rparr>, reader'))
                | Inr SymbolAccepted \<Rightarrow> Some (Inr (True, la1, reader'))
                | Inr (SymbolTaken la2) \<Rightarrow> la_parse_loop read la2 reader')))"

definition la_parse ::
  "('r, char) read_fun \<Rightarrow> 'a lalr1_parser \<Rightarrow> 'r \<Rightarrow> ('a parse_verdict \<times> 'a lalr1_parser \<times> 'r) res option" where
  "la_parse read la reader =
     (let la1 = la_reset la
      in case la_root_item_set la1 of
           None \<Rightarrow> Some (Inl NullDeref)
         | Some root \<Rightarrow>
             cbind (la_parse_loop read (la1\<lparr>la_parse_stack_states := [root]\<rparr>) reader) (\<lambda>(accept, la2, reader').
               if \<not> accept
               then cbind (report_error la2) (\<lambda>(msg, la3). Some (Inr (SyntaxError msg, la3, reader')))
               else case la_parse_stack_matches la2 of
                      [m] \<Rightarrow>
                        cbind (Some (non_terminal_cast [m] 0)) (\<lambda>tree.
                          Some (Inr (ParsedTree tree, la2\<lparr>la_parse_stack_matches := []\<rparr>, reader')))
                    | _ \<Rightarrow> Some (Inl AssertFailed)))"

end
