(* ===== verification/Schema_Grammar.thy ===== *)
theory Schema_Grammar
  imports Schema_Rules Lalr_Parse File_Reader
begin

text \<open>
  The lexical rules and the productions of \<^verbatim>\<open>SchemaParser.cpp\<close>, and the parser of
  schema files and strings they give.
\<close>

section \<open>Lexical rules\<close>

text \<open>
  \<^verbatim>\<open>m_special_regex_characters\<close>, an unordered map: \<open>order\<close> enumerates it.
\<close>

definition special_regex_names :: "(char \<times> string) list" where
  "special_regex_names =
    [(CHR ''('', ''Lparen''), (CHR '')'', ''Rparen''), (CHR ''*'', ''Star''), (CHR ''+'', ''Plus''),
     (CHR ''-'', ''Dash''), (CHR ''.'', ''Dot''), (CHR ''['', ''Lbracket''), (CHR '']'', ''Rbracket''),
     (CHR 0x5C, ''Backslash''), (CHR ''^'', ''Hat''), (CHR ''{'', ''Lbrace''), (CHR ''}'', ''Rbrace''),
     (CHR ''|'', ''Vbar''), (CHR ''<'', ''Langle''), (CHR ''>'', ''Rangle''),
     (CHR ''?'', ''QuestionMark'')]"

type_synonym special_order = "(char \<times> string) list \<Rightarrow> (char \<times> string) list"

text \<open>The calls that add the rules, in their order.\<close>

datatype token_rule =
    CharToken string char
  | RangeToken string char char
  | GroupToken string group
  | ChainToken string string

definition add_token_rule :: "token_rule \<Rightarrow> 'a lalr1_parser \<Rightarrow> 'a lalr1_parser res" where
  "add_token_rule rule la =
     (case rule of
        CharToken name c \<Rightarrow> Inr (la_add_token name (char_u32 c) la)
      | RangeToken name a b \<Rightarrow> Inr (la_add_token_group name (group_min_max (char_u32 a) (char_u32 b)) la)
      | GroupToken name g \<Rightarrow> Inr (la_add_token_group name g la)
      | ChainToken name chain \<Rightarrow> la_add_token_chain name (map char_u32 chain) la)"

definition comment_characters :: group where
  "comment_characters = group_push_literal 10 (group_push_literal 13 group_default)"

definition schema_token_rules :: "token_rule list" where
  "schema_token_rules =
    [CharToken ''Tab'' (CHR 0x09), CharToken ''NewLine'' (CHR 0x0A),
     CharToken ''VerticalTab'' (CHR 0x0B), CharToken ''FormFeed'' (CHR 0x0C),
     CharToken ''CarriageReturn'' (CHR 0x0D), CharToken ''Space'' (CHR '' ''),
     CharToken ''Bang'' (CHR ''!''), CharToken ''Quotation'' (CHR 0x22), CharToken ''Hash'' (CHR ''#''),
     CharToken ''DollarSign'' (CHR ''$''), CharToken ''Percent'' (CHR ''%''),
     CharToken ''Ampersand'' (CHR ''&''), CharToken ''Apostrophe'' (CHR 0x27),
     CharToken ''Comma'' (CHR '',''), CharToken ''ForwardSlash'' (CHR ''/''),
     RangeToken ''Numeric'' (CHR ''0'') (CHR ''9''), CharToken ''Colon'' (CHR '':''),
     CharToken ''SemiColon'' (CHR '';''), CharToken ''Equal'' (CHR ''=''), CharToken ''At'' (CHR ''@''),
     RangeToken ''AlphaNumeric'' (CHR ''a'') (CHR ''z''),
     RangeToken ''AlphaNumeric'' (CHR ''A'') (CHR ''Z''),
     RangeToken ''AlphaNumeric'' (CHR ''0'') (CHR ''9''), CharToken ''Underscore'' (CHR ''_''),
     CharToken ''Backtick'' (CHR 0x60), CharToken ''Tilde'' (CHR ''~''), CharToken ''d'' (CHR ''d''),
     CharToken ''f'' (CHR ''f''), CharToken ''n'' (CHR ''n''), CharToken ''r'' (CHR ''r''),
     CharToken ''s'' (CHR ''s''), CharToken ''t'' (CHR ''t''), CharToken ''v'' (CHR ''v''),
     CharToken ''w'' (CHR ''w''), CharToken ''D'' (CHR ''D''), CharToken ''S'' (CHR ''S''),
     CharToken ''W'' (CHR ''W''), ChainToken ''Delimiters'' ''delimiters'',
     GroupToken ''CommentCharacters'' comment_characters,
     RangeToken ''IdentifierCharacters'' (CHR ''a'') (CHR ''z''),
     RangeToken ''IdentifierCharacters'' (CHR ''A'') (CHR ''Z''),
     RangeToken ''IdentifierCharacters'' (CHR ''0'') (CHR ''9''),
     CharToken ''IdentifierCharacters'' (CHR ''_''),
     RangeToken ''DelimiterCharacters'' (CHR ''!'') (CHR ''~''),
     CharToken ''DelimiterCharacters'' (CHR '' '')]"

definition schema_add_lexical_rules :: "special_order \<Rightarrow> 'a lalr1_parser \<Rightarrow> 'a lalr1_parser res" where
  "schema_add_lexical_rules order la =
     rfold add_token_rule (map (\<lambda>(c, name). CharToken name c) (order special_regex_names) @ schema_token_rules) la"

section \<open>Productions\<close>

type_synonym schema_production = "string \<times> string list \<times> schema_rule option"

definition schema_productions :: "schema_production list" where
  "schema_productions =
    [(''Schema'', [''Comment''], Some new_schema_rule),
     (''Schema'', [''SchemaVar''], Some new_schema_rule_with_var),
     (''Schema'', [''Delimiters'', ''Colon'', ''DelimiterString''], Some new_schema_rule_with_delimiters),
     (''Schema'', [''Schema'', ''PortableNewLine''], Some identity_rule_ParserASTSchema),
     (''Schema'', [''Schema'', ''PortableNewLine'', ''Comment''], Some identity_rule_ParserASTSchema),
     (''Schema'', [''Schema'', ''PortableNewLine'', ''SchemaVar''], Some existing_schema_rule),
     (''Schema'', [''Schema'', ''PortableNewLine'', ''Delimiters'', ''Colon'', ''DelimiterString''], Some existing_schema_rule_with_delimiter)]"

definition line_productions :: "schema_production list" where
  "line_productions =
    [(''DelimiterString'', [''DelimiterString'', ''DelimiterCharacter''], Some existing_delimiter_string_rule),
     (''DelimiterString'', [''DelimiterString'', ''WhiteSpaceCharacter''], Some existing_delimiter_string_rule),
     (''DelimiterString'', [''DelimiterCharacter''], Some new_delimiter_string_rule),
     (''DelimiterString'', [''WhiteSpaceCharacter''], Some new_delimiter_string_rule),
     (''DelimiterCharacter'', [''DelimiterCharacters''], Some regex_literal_rule),
     (''PortableNewLine'', [''CarriageReturn'', ''NewLine''], None),
     (''PortableNewLine'', [''NewLine''], None),
     (''Comment'', [''ForwardSlash'', ''ForwardSlash'', ''Text''], None),
     (''Text'', [''Text'', ''CommentCharacters''], None),
     (''Text'', [''CommentCharacters''], None),
     (''Text'', [''Text'', ''Delimiters''], None),
     (''Text'', [''Delimiters''], None)]"

definition variable_productions :: "schema_production list" where
  "variable_productions =
    [(''SchemaVar'', [''WhitespaceStar'', ''Identifier'', ''Colon'', ''Regex''], Some schema_var_rule),
     (''Identifier'', [''Identifier'', ''IdentifierCharacters''], Some existing_identifier_rule),
     (''Identifier'', [''IdentifierCharacters''], Some new_identifier_rule),
     (''WhitespaceStar'', [''WhitespaceStar'', ''Space''], None),
     (''WhitespaceStar'', [], None)]"

definition regex_productions :: "schema_production list" where
  "regex_productions =
    [(''Regex'', [''Or''], Some regex_identity_rule),
     (''Or'', [''Or'', ''Vbar'', ''Concat''], Some regex_or_rule),
     (''Or'', [''Concat''], Some regex_identity_rule),
     (''Concat'', [''Concat'', ''Quantity''], Some regex_cat_rule),
     (''Concat'', [''Concat'', ''CompleteGroup''], Some regex_cat_rule),
     (''Concat'', [''Quantity''], Some regex_identity_rule),
     (''Concat'', [''CompleteGroup''], Some regex_identity_rule),
     (''Quantity'', [''CompleteGroup'', ''Star''], Some regex_match_zero_or_more_rule),
     (''Quantity'', [''CompleteGroup'', ''Plus''], Some regex_match_one_or_more_rule),
     (''Quantity'', [''CompleteGroup'', ''QuestionMark''], Some regex_match_zero_or_one_rule),
     (''Quantity'', [''CompleteGroup'', ''Lbrace'', ''Integer'', ''Rbrace''], Some regex_match_exactly_rule),
     (''Quantity'', [''CompleteGroup'', ''Lbrace'', ''Integer'', ''Comma'', ''Integer'', ''Rbrace''], Some regex_match_range_rule),
     (''CompleteGroup'', [''IncompleteGroup'', ''Rbracket''], Some regex_identity_rule),
     (''CompleteGroup'', [''Wildcard''], Some regex_identity_rule),
     (''CompleteGroup'', [''Shorthand''], Some regex_identity_rule),
     (''CompleteGroup'', [''Literal''], Some regex_identity_rule),
     (''CompleteGroup'', [''Dash''], Some regex_literal_rule)]"

definition group_productions :: "schema_production list" where
  "group_productions =
    [(''IncompleteGroup'', [''IncompleteGroup'', ''LiteralRange''], Some regex_add_range_existing_group_rule),
     (''IncompleteGroup'', [''IncompleteGroup'', ''Shorthand''], Some regex_add_range_existing_group_rule),
     (''IncompleteGroup'', [''IncompleteGroup'', ''Literal''], Some regex_add_literal_existing_group_rule),
     (''IncompleteGroup'', [''Lbracket'', ''LiteralRange''], Some regex_add_range_new_group_rule),
     (''IncompleteGroup'', [''Lbracket'', ''Shorthand''], Some regex_add_range_new_group_rule),
     (''IncompleteGroup'', [''Lbracket'', ''Literal''], Some regex_add_literal_new_group_rule),
     (''IncompleteGroup'', [''Lbracket'', ''Hat''], Some regex_complement_incomplete_group_rule),
     (''LiteralRange'', [''Literal'', ''Dash'', ''Literal''], Some regex_range_rule)]"

definition literal_productions :: "(memory \<Rightarrow> schema_symbol list \<Rightarrow> nat) \<Rightarrow> schema_production list" where
  "literal_productions alloc =
    [(''Literal'', [''Space''], Some regex_literal_rule),
     (''Literal'', [''Bang''], Some regex_literal_rule),
     (''Literal'', [''Quotation''], Some regex_literal_rule),
     (''Literal'', [''Hash''], Some regex_literal_rule),
     (''Literal'', [''DollarSign''], Some regex_literal_rule),
     (''Literal'', [''Percent''], Some regex_literal_rule),
     (''Literal'', [''Ampersand''], Some regex_literal_rule),
     (''Literal'', [''Apostrophe''], Some regex_literal_rule),
     (''Literal'', [''Comma''], Some regex_literal_rule),
     (''Literal'', [''ForwardSlash''], Some regex_literal_rule),
     (''Literal'', [''AlphaNumeric''], Some regex_literal_rule),
     (''Literal'', [''Colon''], Some regex_literal_rule),
     (''Literal'', [''SemiColon''], Some regex_literal_rule),
     (''Literal'', [''Equal''], Some regex_literal_rule),
     (''Literal'', [''At''], Some regex_literal_rule),
     (''Literal'', [''Underscore''], Some regex_literal_rule),
     (''Literal'', [''Backtick''], Some regex_literal_rule),
     (''Literal'', [''Tilde''], Some regex_literal_rule),
     (''Literal'', [''Lparen'', ''QuestionMark'', ''Langle'', ''Identifier'', ''Rangle'', ''Regex'', ''Rparen''], Some (regex_capture_rule alloc)),
     (''Literal'', [''Lparen'', ''Regex'', ''Rparen''], Some regex_middle_identity_rule)]"

definition shorthand_productions :: "schema_production list" where
  "shorthand_productions =
    [(''Literal'', [''WhiteSpaceCharacter''], Some regex_identity_rule),
     (''WhiteSpaceCharacter'', [''Backslash'', ''t''], Some regex_tab_rule),
     (''WhiteSpaceCharacter'', [''Backslash'', ''n''], Some regex_newline_rule),
     (''WhiteSpaceCharacter'', [''Backslash'', ''v''], Some regex_vertical_tab_rule),
     (''WhiteSpaceCharacter'', [''Backslash'', ''f''], Some regex_form_feed_rule),
     (''WhiteSpaceCharacter'', [''Backslash'', ''r''], Some regex_char_return_rule),
     (''Integer'', [''Integer'', ''Numeric''], Some regex_existing_integer_rule),
     (''Integer'', [''Numeric''], Some regex_new_integer_rule),
     (''Wildcard'', [''Dot''], Some regex_wildcard_rule),
     (''Shorthand'', [''Backslash'', ''d''], Some regex_digit_rule),
     (''Shorthand'', [''Backslash'', ''D''], Some regex_non_digit_rule),
     (''Shorthand'', [''Backslash'', ''s''], Some regex_white_space_rule),
     (''Shorthand'', [''Backslash'', ''S''], Some regex_non_white_space_rule),
     (''Shorthand'', [''Backslash'', ''w''], Some regex_word_rule),
     (''Shorthand'', [''Backslash'', ''W''], Some regex_non_word_rule)]"

definition special_productions :: "special_order \<Rightarrow> schema_production list" where
  "special_productions order =
     map (\<lambda>(c, name). (''Literal'', [''Backslash'', name], Some regex_cancel_literal_rule)) (order special_regex_names)"

definition all_productions ::
  "(memory \<Rightarrow> schema_symbol list \<Rightarrow> nat) \<Rightarrow> special_order \<Rightarrow> schema_production list" where
  "all_productions alloc order =
     schema_productions @ line_productions @ variable_productions @ regex_productions @ group_productions @
     literal_productions alloc @ special_productions order @ shorthand_productions"

definition schema_add_productions ::
  "(memory \<Rightarrow> schema_symbol list \<Rightarrow> nat) \<Rightarrow> special_order \<Rightarrow> schema_value lalr1_parser \<Rightarrow>
     schema_value lalr1_parser" where
  "schema_add_productions alloc order la =
     fold (\<lambda>(head, body, rule) la. snd (la_add_production head body rule la)) (all_productions alloc order) la"

section \<open>The schema parser\<close>

definition schema_parser_new ::
  "(memory \<Rightarrow> schema_symbol list \<Rightarrow> nat) \<Rightarrow> special_order \<Rightarrow> ((nat \<times> nat) list \<Rightarrow> (nat \<times> nat) list) \<Rightarrow>
     (nat list \<Rightarrow> nat list) \<Rightarrow> (nat \<Rightarrow> char) \<Rightarrow> schema_value lalr1_parser res option" where
  "schema_parser_new alloc order ord key_order junk =
     cbind (Some (schema_add_lexical_rules order (lalr_new junk))) (\<lambda>la.
       la_generate ord key_order (schema_add_productions alloc order la))"

text \<open>The syntax error of a schema is the message of a \<^verbatim>\<open>runtime_error\<close>.\<close>

definition generate_schema_ast ::
  "('r, char) read_fun \<Rightarrow> schema_value lalr1_parser \<Rightarrow> 'r \<Rightarrow> ((string + schema_ast option) \<times> 'r) res option" where
  "generate_schema_ast read la reader =
     cbind (la_parse read la reader) (\<lambda>(verdict, la', reader').
       case verdict of
         SyntaxError msg \<Rightarrow> Some (Inr (Inl msg, reader'))
       | ParsedTree m \<Rightarrow> cbind (Some (release_ast [m] 0)) (\<lambda>ast. Some (Inr (Inr (as_schema ast), reader'))))"

text \<open>The two readers. The one over a string keeps no position: it starts anew with every call.\<close>

definition schema_file_read :: "(file_reader, char) read_fun" where
  "schema_file_read schema_reader count =
     (let (_, bytes, schema_reader') = fr_read False schema_reader count
      in (if bytes = [] then EndOfFile else Success, bytes, schema_reader'))"

definition schema_string_read :: "string \<Rightarrow> (unit, char) read_fun" where
  "schema_string_read schema_string reader count =
     (let unparsed_string_pos = 0;
          count' = (if length schema_string < unparsed_string_pos + count
                    then length schema_string - unparsed_string_pos else count)
      in if count' = 0 then (EndOfFile, [], reader)
         else (Success, take count' (drop unparsed_string_pos schema_string), reader))"

definition try_schema_file ::
  "(string \<Rightarrow> fopen_result) \<Rightarrow> schema_value lalr1_parser res option \<Rightarrow> string \<Rightarrow>
     (string + schema_ast option) res option" where
  "try_schema_file fopen schema_parser schema_file_path =
     (let (error_code, schema_reader) = fr_try_open fopen schema_file_path fr_new
      in if error_code \<noteq> Success then Some (Inl RuntimeError)
         else cbind schema_parser (\<lambda>sp.
           cbind (generate_schema_ast schema_file_read sp schema_reader) (\<lambda>(schema_ast, _).
             Some (Inr schema_ast))))"

definition try_schema_string ::
  "schema_value lalr1_parser res option \<Rightarrow> string \<Rightarrow> (string + schema_ast option) res option" where
  "try_schema_string schema_parser schema_string =
     cbind schema_parser (\<lambda>sp.
       cbind (generate_schema_ast (schema_string_read schema_string) sp ()) (\<lambda>(schema_ast, _).
         Some (Inr schema_ast)))"

end
