(* ===== verification/Lalr_Closure.thy ===== *)
theory Lalr_Closure
  imports Lalr_Generate
begin

text \<open>
  The closure loops of \<^verbatim>\<open>Lalr1Parser.tpp\<close>: they end, and a closure is the least set of
  items that holds the kernel and the items its items expand to.
\<close>

section \<open>Items in order\<close>

lemma item_key_inj: "inj item_key"
  by (rule injI) (simp add: item_key_def)

interpretation items: keyed_order item_less item_key
  by unfold_locales (simp add: item_less_def)

interpretation kernels: keyed_order "lex_less item_less" "map item_key"
  by unfold_locales (rule items.lex_less_key)

lemma insert_items [simp]: "set (sset_insert item_less i xs) = insert i (set xs)"
  by (rule items.insert_inj [OF item_key_inj])

lemma contains_items [simp]: "sset_contains item_less i xs \<longleftrightarrow> i \<in> set xs"
  by (rule items.contains_inj [OF item_key_inj])

lemma insert_all_items [simp]: "set (sset_insert_all item_less xs ys) = set xs \<union> set ys"
  by (induction xs arbitrary: ys) (auto simp: sset_insert_all_def)

lemma map_key_inj: "map item_key k = map item_key k' \<longleftrightarrow> k = k'"
  by (simp add: inj_map_eq_map item_key_inj)

section \<open>What an item expands to\<close>

definition expands_to ::
  "'a lalr1_parser \<Rightarrow> (item \<Rightarrow> nat \<Rightarrow> item list res) \<Rightarrow> item \<Rightarrow> item list res" where
  "expands_to la expand i =
     (if has_dot_at_end (la_productions la) i then Inr []
      else if symbol_is_token la (it_next_symbol (la_productions la) i) then Inr []
      else expand i (it_next_symbol (la_productions la) i))"

inductive_set closure_items :: "(item \<Rightarrow> item list res) \<Rightarrow> item set \<Rightarrow> item set" for E K where
  closure_kernel: "i \<in> K \<Longrightarrow> i \<in> closure_items E K"
| closure_step: "i \<in> closure_items E K \<Longrightarrow> E i = Inr items \<Longrightarrow> j \<in> set items \<Longrightarrow> j \<in> closure_items E K"

lemma closure_helper_step:
  "lr_closure_helper la closure i = (closure', next_symbol) \<longleftrightarrow>
     (if i \<in> set closure then closure' = closure \<and> next_symbol = None
      else closure' = sset_insert item_less i closure \<and>
        next_symbol = (if has_dot_at_end (la_productions la) i then None
          else if symbol_is_token la (it_next_symbol (la_productions la) i) then None
          else Some (it_next_symbol (la_productions la) i)))"
  by (auto simp: lr_closure_helper_def Let_def)

text \<open>The loop in one equation.\<close>

lemma item_closure_loop_round:
  "item_closure_loop la expand q closure =
     (if q = [] then Some (Inr closure)
      else if last q \<in> set closure then item_closure_loop la expand (butlast q) closure
      else case expands_to la expand (last q) of
             Inl e \<Rightarrow> Some (Inl e)
           | Inr items \<Rightarrow> item_closure_loop la expand (butlast q @ items) (sset_insert item_less (last q) closure))"
  by (subst item_closure_loop.simps)
    (auto simp: lr_closure_helper_def expands_to_def Let_def split: sum.splits)

definition item_closure_inv ::
  "'a lalr1_parser \<Rightarrow> (item \<Rightarrow> nat \<Rightarrow> item list res) \<Rightarrow> item set \<Rightarrow> item list \<Rightarrow> item list \<Rightarrow> bool" where
  "item_closure_inv la expand K q closure \<longleftrightarrow> K \<subseteq> set q \<union> set closure \<and>
     set q \<union> set closure \<subseteq> closure_items (expands_to la expand) K \<and> items.ordered closure \<and>
     (\<forall>i \<in> set closure. \<exists>js. expands_to la expand i = Inr js \<and> set js \<subseteq> set q \<union> set closure)"

lemma set_butlast_last: "q \<noteq> [] \<Longrightarrow> set q = insert (last q) (set (butlast q))"
  by (induction q) auto

lemma item_closure_inv_skip:
  assumes "item_closure_inv la expand K q closure" "q \<noteq> []" "last q \<in> set closure"
  shows "item_closure_inv la expand K (butlast q) closure"
proof -
  have "set q \<union> set closure = set (butlast q) \<union> set closure"
    using set_butlast_last [OF assms(2)] assms(3) by auto
  with assms(1) show ?thesis unfolding item_closure_inv_def by simp
qed

lemma item_closure_inv_add:
  assumes inv: "item_closure_inv la expand K q closure" and q: "q \<noteq> []" and e: "expands_to la expand (last q) = Inr js"
  shows "item_closure_inv la expand K (butlast q @ js) (sset_insert item_less (last q) closure)"
proof -
  have set_q: "set q = insert (last q) (set (butlast q))"
    by (rule set_butlast_last [OF q])
  have "last q \<in> closure_items (expands_to la expand) K" using inv set_q by (auto simp: item_closure_inv_def)
  then have "set js \<subseteq> closure_items (expands_to la expand) K" using closure_step [where E = "expands_to la expand"] e by blast
  then show ?thesis
    unfolding item_closure_inv_def
  proof (intro conjI)
    show "K \<subseteq> set (butlast q @ js) \<union> set (sset_insert item_less (last q) closure)"
      using inv set_q by (auto simp: item_closure_inv_def)
    show "items.ordered (sset_insert item_less (last q) closure)"
      using inv items.insert_ordered by (auto simp: item_closure_inv_def)
    show "\<forall>i \<in> set (sset_insert item_less (last q) closure).
        \<exists>js'. expands_to la expand i = Inr js' \<and> set js' \<subseteq> set (butlast q @ js) \<union> set (sset_insert item_less (last q) closure)"
    proof
      fix i assume "i \<in> set (sset_insert item_less (last q) closure)"
      then consider "i = last q" | "i \<in> set closure" by auto
      then show "\<exists>js'. expands_to la expand i = Inr js' \<and> set js' \<subseteq> set (butlast q @ js) \<union> set (sset_insert item_less (last q) closure)"
      proof cases
        case 1
        with e show ?thesis by auto
      next
        case 2
        with inv obtain js' where "expands_to la expand i = Inr js'" "set js' \<subseteq> set q \<union> set closure"
          by (auto simp: item_closure_inv_def)
        with set_q show ?thesis by auto
      qed
    qed
  qed (use inv set_q in \<open>auto simp: item_closure_inv_def\<close>)
qed

lemma item_closure_inv_done:
  assumes "item_closure_inv la expand K [] closure"
  shows "set closure = closure_items (expands_to la expand) K \<and> items.ordered closure"
proof -
  have "i \<in> set closure" if "i \<in> closure_items (expands_to la expand) K" for i
    using that by (induction rule: closure_items.induct) (use assms in \<open>fastforce simp: item_closure_inv_def\<close>)+
  with assms show ?thesis by (auto simp: item_closure_inv_def)
qed

text \<open>What a closure is if the loop returns one.\<close>

lemma item_closure_loop_exact:
  assumes "item_closure_loop la expand q closure = Some (Inr closure')" "item_closure_inv la expand K q closure"
  shows "set closure' = closure_items (expands_to la expand) K \<and> items.ordered closure'"
proof -
  have "r = Inr closure' \<Longrightarrow> item_closure_inv la expand K q closure \<Longrightarrow>
      set closure' = closure_items (expands_to la expand) K \<and> items.ordered closure'"
    if "item_closure_loop la expand q closure = Some r" for q closure r
    using that
  proof (induction arbitrary: closure' rule: item_closure_loop.raw_induct [rotated, consumes 1, case_names 1])
    case (1 f la expand q closure r)
    show ?case
    proof (cases "q = []")
      case True
      with "1.hyps" "1.prems" have "closure = closure'" "item_closure_inv la expand K [] closure" by auto
      with item_closure_inv_done [of la expand K closure] show ?thesis by simp
    next
      case False
      note q = this
      obtain c1 nxt where h: "lr_closure_helper la closure (last q) = (c1, nxt)" by force
      show ?thesis
      proof (cases "last q \<in> set closure")
        case True
        with h have "c1 = closure" "nxt = None" by (simp_all add: closure_helper_step)
        with 1 q h item_closure_inv_skip [OF "1.prems"(2) q True] show ?thesis by simp
      next
        case new: False
        show ?thesis
        proof (cases nxt)
          case None
          with h new have e: "c1 = sset_insert item_less (last q) closure" "expands_to la expand (last q) = Inr []"
            by (auto simp: closure_helper_step expands_to_def split: if_splits)
          from item_closure_inv_add [OF "1.prems"(2) q e(2)] 1 q h None e(1) show ?thesis by simp
        next
          case (Some s)
          with h new have e: "c1 = sset_insert item_less (last q) closure"
            "expands_to la expand (last q) = expand (last q) s"
            by (auto simp: closure_helper_step expands_to_def split: if_splits)
          show ?thesis
          proof (cases "expand (last q) s")
            case (Inl x)
            with 1 q h Some show ?thesis by auto
          next
            case (Inr js)
            with e have "expands_to la expand (last q) = Inr js" by simp
            from item_closure_inv_add [OF "1.prems"(2) q this] 1 q h Some Inr e(1) show ?thesis by simp
          qed
        qed
      qed
    qed
  qed
  with assms show ?thesis by blast
qed

text \<open>The loop ends when there are finitely many items to be found.\<close>

lemma item_closure_loop_ends:
  assumes "finite C" "\<And>i items. i \<in> C \<Longrightarrow> expands_to la expand i = Inr items \<Longrightarrow> set items \<subseteq> C"
  shows "set q \<subseteq> C \<Longrightarrow> \<exists>r. item_closure_loop la expand q closure = Some r"
proof (induction "card (C - set closure)" arbitrary: q closure rule: less_induct)
  case less
  note bigger = less.hyps
  show ?case
    using less.prems
  proof (induction "length q" arbitrary: q rule: less_induct)
    case less
    show ?case
    proof (cases "q = []")
      case False
      note q = this
      have sub: "set (butlast q) \<subseteq> C" "last q \<in> C" using less.prems set_butlast_last [OF q] by auto
      show ?thesis
      proof (cases "last q \<in> set closure")
        case True
        have "length (butlast q) < length q" using q by simp
        from less.hyps [OF this sub(1)] q True show ?thesis by (subst item_closure_loop_round) simp
      next
        case new: False
        show ?thesis
        proof (cases "expands_to la expand (last q)")
          case (Inl e)
          with q new show ?thesis by (subst item_closure_loop_round) simp
        next
          case (Inr js)
          have "C - set (sset_insert item_less (last q) closure) \<subset> C - set closure" using sub(2) new by auto
          then have "card (C - set (sset_insert item_less (last q) closure)) < card (C - set closure)"
            using assms(1) by (simp add: psubset_card_mono)
          from bigger [OF this, of "butlast q @ js"] sub(1) assms(2) [OF sub(2) Inr] q new Inr
          show ?thesis by (subst item_closure_loop_round) simp
        qed
      qed
    qed (subst item_closure_loop_round, simp)
  qed
qed

end
