(* ===== verification/Lalr_Kernels.thy ===== *)
theory Lalr_Kernels
  imports Lalr_Closure "HOL-Library.Multiset"
begin

text \<open>
  The LR(0) item sets that \<^verbatim>\<open>generate_lr0_kernels\<close> builds: every item set is closed,
  and the table of transitions leads from an item set to the item set of the moved items.
\<close>

section \<open>Collections of item sets\<close>

definition sets_ok :: "item_sets \<Rightarrow> bool" where
  "sets_ok m \<longleftrightarrow> kernels.ordered (map fst m) \<and> distinct (map (is_index \<circ> snd) m) \<and>
     (is_index \<circ> snd) ` set m = {..<length m} \<and> (\<forall>(k, s) \<in> set m. is_kernel s = k)"

text \<open>What the collection holds, up to the transitions and actions of the item sets.\<close>

definition sets_view :: "item_sets \<Rightarrow> (item list \<times> nat \<times> item list) set" where
  "sets_view m = (\<lambda>(k, s). (k, is_index s, is_closure s)) ` set m"

lemma sets_view_iff: "(k, i, c) \<in> sets_view m \<longleftrightarrow> (\<exists>s. (k, s) \<in> set m \<and> is_index s = i \<and> is_closure s = c)"
  by (auto simp: sets_view_def)

lemma sets_get_mem: "sets_get i m = Inr s \<Longrightarrow> \<exists>k. (k, s) \<in> set m \<and> is_index s = i"
  by (auto simp: sets_get_def find_Some_iff split: option.splits) (metis nth_mem)

lemma sets_get_iff:
  assumes "distinct (map (is_index \<circ> snd) m)"
  shows "sets_get i m = Inr s \<longleftrightarrow> (\<exists>k. (k, s) \<in> set m \<and> is_index s = i)"
proof
  assume "\<exists>k. (k, s) \<in> set m \<and> is_index s = i"
  then obtain k where k: "(k, s) \<in> set m" "is_index s = i" by blast
  then obtain k' s' where f: "find (\<lambda>(_, s). is_index s = i) m = Some (k', s')"
    by (cases "find (\<lambda>(_, s). is_index s = i) m") (auto simp: find_None_iff)
  then have s': "(k', s') \<in> set m" "is_index s' = i" by (auto simp: find_Some_iff) (metis nth_mem)
  have "inj_on (is_index \<circ> snd) (set m)" using assms by (simp add: distinct_map)
  from inj_onD [OF this, of "(k, s)" "(k', s')"] k s' have "s = s'" by simp
  with f show "sets_get i m = Inr s" by (simp add: sets_get_def)
qed (rule sets_get_mem)

lemma sets_view_index:
  assumes "distinct (map (is_index \<circ> snd) m)" "(k, i, c) \<in> sets_view m" "(k', i, c') \<in> sets_view m"
  shows "k = k' \<and> c = c'"
proof -
  from assms(2,3) obtain s s' where s: "(k, s) \<in> set m" "is_index s = i" "is_closure s = c"
    "(k', s') \<in> set m" "is_index s' = i" "is_closure s' = c'" by (auto simp: sets_view_iff)
  have "inj_on (is_index \<circ> snd) (set m)" using assms(1) by (simp add: distinct_map)
  from inj_onD [OF this, of "(k, s)" "(k', s')"] s show ?thesis by simp
qed

lemma sets_view_bound:
  assumes "sets_ok m" "(k, i, c) \<in> sets_view m"
  shows "i < length m"
proof -
  from assms(2) obtain s where "(k, s) \<in> set m" "is_index s = i" by (auto simp: sets_view_iff)
  then have "i \<in> (is_index \<circ> snd) ` set m" by (force simp: image_iff)
  with assms(1) show ?thesis by (simp only: sets_ok_def lessThan_iff)
qed

text \<open>Updates that keep the index.\<close>

lemma sets_update_keys:
  assumes "\<And>s. is_index (f s) = is_index s"
  shows "map fst (sets_update i f m) = map fst m" "map (is_index \<circ> snd) (sets_update i f m) = map (is_index \<circ> snd) m"
    "length (sets_update i f m) = length m"
  using assms by (auto simp: sets_update_def)

lemma sets_update_ok:
  assumes f: "\<And>s. is_index (f s) = is_index s" "\<And>s. is_kernel (f s) = is_kernel s" and ok: "sets_ok m"
  shows "sets_ok (sets_update i f m)"
proof -
  note keys = sets_update_keys [of f i m, OF f(1)]
  have "(is_index \<circ> snd) ` set m = {..<length m}" using ok by (simp only: sets_ok_def)
  then have "(is_index \<circ> snd) ` set (sets_update i f m) = {..<length m}"
    by (simp only: set_map [symmetric] keys)
  moreover have "\<forall>(k, s) \<in> set (sets_update i f m). is_kernel s = k"
    using ok f(2) by (auto simp: sets_ok_def sets_update_def split: if_splits)
  ultimately show ?thesis using ok unfolding sets_ok_def keys by blast
qed

lemma sets_update_view:
  assumes "\<And>s. is_index (f s) = is_index s" "\<And>s. is_closure (f s) = is_closure s"
  shows "sets_view (sets_update i f m) = sets_view m"
proof -
  have "(\<lambda>(k, s). (k, is_index s, is_closure s)) (case x of (k, s) \<Rightarrow> if is_index s = i then (k, f s) else (k, s)) =
      (\<lambda>(k, s). (k, is_index s, is_closure s)) x" for x
    using assms by (cases x) simp
  then show ?thesis unfolding sets_view_def sets_update_def set_map image_image by (rule image_cong [OF refl])
qed

lemma sets_add:
  assumes ok: "sets_ok m" and new: "k \<notin> fst ` set m"
  shows "set (smap_assign (lex_less item_less) k s m) = insert (k, s) (set m)"
    "is_index s = length m \<Longrightarrow> is_kernel s = k \<Longrightarrow> sets_ok (smap_assign (lex_less item_less) k s m)"
    "length (smap_assign (lex_less item_less) k s m) = Suc (length m)"
proof -
  let ?m = "smap_assign (lex_less item_less) k s m"
  have ms: "mset ?m = add_mset (k, s) (mset m)"
    using new
  proof (induction m)
    case (Cons e m)
    obtain l u where e: "e = (l, u)" by (cases e)
    have "map item_key k \<noteq> map item_key l" using Cons.prems e by (auto simp: map_key_inj)
    then consider "map item_key k < map item_key l" | "map item_key l < map item_key k" by (metis linorder_neqE)
    then show ?case
    proof cases
      case 1
      with kernels.lt_simps(1) [OF 1] e show ?thesis by simp
    next
      case 2
      have "k \<notin> fst ` set m" using Cons.prems by simp
      note IH = Cons.IH [OF this]
      show ?thesis by (simp add: e IH kernels.lt_simps(1,2) [OF 2])
    qed
  qed simp
  then show set_eq: "set ?m = insert (k, s) (set m)" by (metis set_mset_add_mset_insert set_mset_mset)
  show len: "length ?m = Suc (length m)" using ms by (metis size_add_mset size_mset)
  assume index: "is_index s = length m" and kernel: "is_kernel s = k"
  have "mset (map (is_index \<circ> snd) ?m) = mset (length m # map (is_index \<circ> snd) m)"
    using ms index by simp
  moreover have "distinct (length m # map (is_index \<circ> snd) m)"
  proof -
    have "set (map (is_index \<circ> snd) m) = {..<length m}" using ok by (simp add: sets_ok_def)
    then have "length m \<notin> set (map (is_index \<circ> snd) m)" by (metis lessThan_iff less_irrefl)
    with ok show ?thesis unfolding sets_ok_def distinct.simps by blast
  qed
  ultimately have "distinct (map (is_index \<circ> snd) ?m)" by (metis mset_eq_imp_distinct_iff)
  moreover have "(is_index \<circ> snd) ` set ?m = {..<length ?m}"
    using ok index by (simp add: set_eq len sets_ok_def lessThan_Suc)
  ultimately show "sets_ok ?m" using ok kernels.assign_map_ordered [of m k s] kernel set_eq
    by (auto simp: sets_ok_def)
qed

section \<open>Moving over a symbol\<close>

definition lr0_closure_of :: "'a lalr1_parser \<Rightarrow> item set \<Rightarrow> item set" where
  "lr0_closure_of la = closure_items (expands_to la (lr0_expand la))"

lemma lr0_closure_same [simp]:
  "lr0_closure_of (la\<lparr>la_lr0_item_sets := m\<rparr>) = lr0_closure_of la"
  "lr0_closure_of (la\<lparr>la_go_to_table := t\<rparr>) = lr0_closure_of la"
proof -
  have "expands_to (la\<lparr>la_lr0_item_sets := m\<rparr>) (lr0_expand (la\<lparr>la_lr0_item_sets := m\<rparr>)) = expands_to la (lr0_expand la)"
    "expands_to (la\<lparr>la_go_to_table := t\<rparr>) (lr0_expand (la\<lparr>la_go_to_table := t\<rparr>)) = expands_to la (lr0_expand la)"
    by (rule ext; simp add: expands_to_def lr0_expand_def symbol_is_token_def)+
  then show "lr0_closure_of (la\<lparr>la_lr0_item_sets := m\<rparr>) = lr0_closure_of la"
    "lr0_closure_of (la\<lparr>la_go_to_table := t\<rparr>) = lr0_closure_of la" by (simp_all add: lr0_closure_of_def)
qed

lemma go_to_kernel_iff:
  "j \<in> set (go_to_kernel g x c) \<longleftrightarrow> (\<exists>i \<in> set c. \<not> has_dot_at_end g i \<and> it_next_symbol g i = x \<and>
     j = mk_item (it_production i) (it_dot i + 1) (it_lookahead i))"
  by (auto simp: go_to_kernel_def)

lemma go_to_kernel_ordered: "items.ordered (go_to_kernel g x c)"
  unfolding go_to_kernel_def by (rule items.insert_all_ordered) simp

text \<open>What \<open>go_to\<close> does to the collection and the table.\<close>

lemma go_to_effect:
  assumes go: "go_to src x la = Inr (new, la')" and ok: "sets_ok (la_lr0_item_sets la)"
    and view: "(k, src, c) \<in> sets_view (la_lr0_item_sets la)"
  shows "\<exists>m' t'. la' = la\<lparr>la_lr0_item_sets := m', la_go_to_table := t'\<rparr> \<and> sets_ok m' \<and>
    (let k' = go_to_kernel (la_productions la) x c; m = la_lr0_item_sets la; t = la_go_to_table la
     in if k' = [] then m' = m \<and> t' = t \<and> new = None
        else (\<exists>j. t' = t(src := smap_assign (<) x j (t src)) \<and>
          (if k' \<in> fst ` set m
           then new = None \<and> sets_view m' = sets_view m \<and> length m' = length m \<and> (\<exists>c'. (k', j, c') \<in> sets_view m)
           else j = length m \<and> new = Some j \<and> sets_view m' = insert (k', j, []) (sets_view m) \<and> length m' = Suc (length m))))"
proof -
  let ?m = "la_lr0_item_sets la" and ?t = "la_go_to_table la"
  obtain s where s: "sets_get src ?m = Inr s" using go by (auto simp: go_to_def)
  from sets_get_mem [OF s] have "is_closure s = c"
    using ok view sets_view_index [of ?m _ src "is_closure s" k c] by (auto simp: sets_ok_def sets_view_iff)
  define k' where "k' = go_to_kernel (la_productions la) x c"
  show ?thesis
  proof (cases "k' = []")
    case True
    with go s \<open>is_closure s = c\<close> have "la' = la" "new = None" by (auto simp: go_to_def k'_def Let_def)
    with ok True show ?thesis by (intro exI [of _ ?m] exI [of _ ?t]) (simp add: k'_def [symmetric])
  next
    case False
    show ?thesis
    proof (cases "smap_find (lex_less item_less) k' ?m")
      case (Some s')
      let ?m' = "sets_update src (\<lambda>s. s\<lparr>is_next := (is_next s)(x \<mapsto> is_index s')\<rparr>) ?m"
      from kernels.find_mem [OF Some] have mem: "(k', s') \<in> set ?m" by (auto simp: map_key_inj)
      have "new = None" "la' = la\<lparr>la_lr0_item_sets := ?m', la_go_to_table := ?t(src := smap_assign (<) x (is_index s') (?t src))\<rparr>"
        using go s \<open>is_closure s = c\<close> False Some by (auto simp: go_to_def k'_def Let_def)
      moreover have "k' \<in> fst ` set ?m" "(k', is_index s', is_closure s') \<in> sets_view ?m"
        using mem by (force simp: sets_view_iff)+
      moreover have "sets_view ?m' = sets_view ?m" "sets_ok ?m'" "length ?m' = length ?m"
        using ok by (simp_all add: sets_update_view sets_update_ok sets_update_keys(3))
      ultimately show ?thesis using False
        by (intro exI [of _ ?m'] exI [of _ "?t(src := smap_assign (<) x (is_index s') (?t src))"])
          (auto simp: k'_def [symmetric] Let_def)
    next
      case None
      let ?m1 = "sets_update src (\<lambda>s. s\<lparr>is_next := (is_next s)(x \<mapsto> length ?m)\<rparr>) ?m"
      let ?s = "item_set_new\<lparr>is_kernel := k', is_index := length ?m\<rparr>"
      let ?m' = "smap_assign (lex_less item_less) k' ?s ?m1"
      have m1: "sets_view ?m1 = sets_view ?m" "sets_ok ?m1" "length ?m1 = length ?m" "map fst ?m1 = map fst ?m"
        using ok by (simp_all add: sets_update_view sets_update_ok sets_update_keys)
      have fresh: "k' \<notin> fst ` set ?m" using None by (auto simp: kernels.find_None)
      then have fresh1: "k' \<notin> fst ` set ?m1" using m1(4) by (metis list.set_map)
      have "new = Some (length ?m)" "la' = la\<lparr>la_lr0_item_sets := ?m', la_go_to_table := ?t(src := smap_assign (<) x (length ?m) (?t src))\<rparr>"
        using go s \<open>is_closure s = c\<close> False None by (auto simp: go_to_def k'_def Let_def)
      moreover have "sets_ok ?m'" using sets_add(2) [OF m1(2) fresh1, of ?s] m1(3) by simp
      moreover have "length ?m' = Suc (length ?m)" using sets_add(3) [OF m1(2) fresh1, of ?s] m1(3) by simp
      moreover have "sets_view ?m' = insert (k', length ?m, []) (sets_view ?m)"
        using sets_add(1) [OF m1(2) fresh1, of ?s] m1(1) by (simp add: sets_view_def item_set_new_def)
      ultimately show ?thesis using False fresh
        by (intro exI [of _ ?m'] exI [of _ "?t(src := smap_assign (<) x (length ?m) (?t src))"])
          (auto simp: k'_def [symmetric] Let_def)
    qed
  qed
qed

section \<open>The invariant of the loop\<close>

text \<open>What the productions of a parser rely on.\<close>

definition grammar_ok :: "'a lalr1_parser \<Rightarrow> bool" where
  "grammar_ok la \<longleftrightarrow>
     (let g = la_productions la; root = la_root_production_id la
      in (\<forall>h ps. map_of (la_non_terminals la) h = Some ps \<longrightarrow> (\<forall>p \<in> set ps. p < length g \<and> pr_head (g ! p) = h)) \<and>
         root < length g \<and> length (pr_body (g ! root)) = 1 \<and>
         (\<forall>p < length g. pr_head (g ! root) \<notin> set (pr_body (g ! p))))"

definition item_ok :: "'a production list \<Rightarrow> item \<Rightarrow> bool" where
  "item_ok g i \<longleftrightarrow> it_production i < length g \<and> it_dot i \<le> length (pr_body (g ! it_production i)) \<and>
     it_lookahead i = cNullSymbol"

definition kernel_ok :: "'a lalr1_parser \<Rightarrow> nat \<Rightarrow> item list \<Rightarrow> bool" where
  "kernel_ok la i k \<longleftrightarrow>
     (if i = 0 then k = [mk_item (la_root_production_id la) 0 cNullSymbol]
      else k \<noteq> [] \<and> items.ordered k \<and> (\<forall>it \<in> set k. item_ok (la_productions la) it \<and> 0 < it_dot it))"

lemma kernel_items_ok: "grammar_ok la \<Longrightarrow> kernel_ok la i k \<Longrightarrow> it \<in> set k \<Longrightarrow> item_ok (la_productions la) it"
  by (auto simp: kernel_ok_def grammar_ok_def item_ok_def Let_def split: if_splits)

lemma lr0_expands_items:
  assumes "grammar_ok la" "expands_to la (lr0_expand la) i = Inr js" "j \<in> set js"
  shows "\<exists>p. j = mk_item p 0 cNullSymbol \<and> p < length (la_productions la) \<and>
    pr_head (la_productions la ! p) = it_next_symbol (la_productions la) i \<and> \<not> has_dot_at_end (la_productions la) i"
  using assms by (auto simp: expands_to_def lr0_expand_def grammar_ok_def Let_def split: if_splits option.splits)

lemma lr0_closure_ok:
  assumes g: "grammar_ok la" and k: "\<And>i. i \<in> K \<Longrightarrow> item_ok (la_productions la) i"
  shows "i \<in> lr0_closure_of la K \<Longrightarrow> item_ok (la_productions la) i"
  unfolding lr0_closure_of_def
proof (induction rule: closure_items.induct)
  case (closure_step i js j)
  from lr0_expands_items [OF g closure_step.hyps(2,3)] show ?case by (auto simp: item_ok_def)
qed (rule k)

text \<open>The items with the dot in front are those of the productions an item expands to.\<close>

lemma lr0_closure_moved:
  assumes "i \<in> lr0_closure_of la K" "grammar_ok la" "0 < it_dot i"
  shows "i \<in> K"
  using assms(1) unfolding lr0_closure_of_def
  by cases (use assms(3) lr0_expands_items [OF assms(2)] in fastforce)+

lemma moved_kernel_ok:
  assumes g: "grammar_ok la" and c: "\<And>i. i \<in> set c \<Longrightarrow> item_ok (la_productions la) i"
    and k: "go_to_kernel (la_productions la) x c \<noteq> []" and "j \<noteq> 0"
  shows "kernel_ok la j (go_to_kernel (la_productions la) x c)"
  using assms go_to_kernel_ordered
  by (auto simp: kernel_ok_def go_to_kernel_iff item_ok_def has_dot_at_end_def dest!: c)

definition go_to_done ::
  "'a production list \<Rightarrow> item_sets \<Rightarrow> (nat \<Rightarrow> (nat \<times> nat) list) \<Rightarrow> nat \<Rightarrow> item list \<Rightarrow> nat \<Rightarrow> bool" where
  "go_to_done g m t i c x \<longleftrightarrow>
     (case smap_find (<) x (t i) of
        None \<Rightarrow> go_to_kernel g x c = []
      | Some j \<Rightarrow> go_to_kernel g x c \<noteq> [] \<and> (\<exists>c'. (go_to_kernel g x c, j, c') \<in> sets_view m))"

text \<open>An item set that has been processed for the symbols \<open>xs\<close>.\<close>

definition set_processed ::
  "'a lalr1_parser \<Rightarrow> nat set \<Rightarrow> item list \<Rightarrow> nat \<Rightarrow> item list \<Rightarrow> bool" where
  "set_processed la xs k i c \<longleftrightarrow> set c = lr0_closure_of la (set k) \<and> items.ordered c \<and>
     (\<forall>x. if x \<in> xs then go_to_done (la_productions la) (la_lr0_item_sets la) (la_go_to_table la) i c x
          else smap_find (<) x (la_go_to_table la i) = None)"

definition lr0_inv :: "nat set \<Rightarrow> nat set \<Rightarrow> nat list \<Rightarrow> 'a lalr1_parser \<Rightarrow> bool" where
  "lr0_inv xs skip unused la \<longleftrightarrow>
     (let m = la_lr0_item_sets la; t = la_go_to_table la
      in sets_ok m \<and> m \<noteq> [] \<and> distinct unused \<and> set unused \<union> skip \<subseteq> {..<length m} \<and> set unused \<inter> skip = {} \<and>
         (\<forall>i. num.ordered (map fst (t i))) \<and> (\<forall>i \<ge> length m. t i = []) \<and>
         (\<forall>k i c. (k, i, c) \<in> sets_view m \<longrightarrow> kernel_ok la i k \<and>
            (i \<notin> skip \<longrightarrow> (if i \<in> set unused then c = [] \<and> t i = [] else set_processed la xs k i c))))"

lemma go_to_done_mono:
  assumes "go_to_done g m t i c x" "sets_view m \<subseteq> sets_view m'" "t' i = t i"
  shows "go_to_done g m' t' i c x"
  using assms unfolding go_to_done_def by (auto split: option.splits)

lemma set_processed_mono:
  assumes "set_processed la xs k i c" "sets_view (la_lr0_item_sets la) \<subseteq> sets_view m'" "t' i = la_go_to_table la i"
  shows "set_processed (la\<lparr>la_lr0_item_sets := m', la_go_to_table := t'\<rparr>) xs k i c"
  using assms go_to_done_mono [of "la_productions la" "la_lr0_item_sets la" "la_go_to_table la" i c _ m' t']
  by (auto simp: set_processed_def)

lemma kernel_ok_same [simp]:
  "kernel_ok (la\<lparr>la_lr0_item_sets := m\<rparr>) = kernel_ok la" "kernel_ok (la\<lparr>la_go_to_table := t\<rparr>) = kernel_ok la"
  by (intro ext; simp add: kernel_ok_def)+

lemma grammar_ok_same [simp]:
  "grammar_ok (la\<lparr>la_lr0_item_sets := m\<rparr>) = grammar_ok la" "grammar_ok (la\<lparr>la_go_to_table := t\<rparr>) = grammar_ok la"
  by (simp_all add: grammar_ok_def)

text \<open>Looking from the item set \<open>src\<close>, closed to \<open>c\<close>, over the symbols of \<open>xs\<close>.\<close>

definition go_to_inv ::
  "'a lalr1_parser \<Rightarrow> nat set \<Rightarrow> nat \<Rightarrow> item list \<Rightarrow> item list \<Rightarrow> nat list \<Rightarrow> nat list \<times> 'a lalr1_parser \<Rightarrow> bool" where
  "go_to_inv la0 xs src k c ys = (\<lambda>(unused, la).
     (\<exists>m t. la = la0\<lparr>la_lr0_item_sets := m, la_go_to_table := t\<rparr>) \<and> lr0_inv xs {src} unused la \<and>
     (k, src, c) \<in> sets_view (la_lr0_item_sets la) \<and> set_processed la (set ys) k src c)"

lemma go_to_inv_step:
  assumes g: "grammar_ok la0" and inv: "go_to_inv la0 xs src k c ys (unused, la)"
    and step: "lr0_go_to_symbol src x (unused, la) = Inr (unused', la')"
  shows "go_to_inv la0 xs src k c (ys @ [x]) (unused', la')"
proof -
  let ?m = "la_lr0_item_sets la" and ?t = "la_go_to_table la" and ?g = "la_productions la"
  from inv obtain m t where la: "la = la0\<lparr>la_lr0_item_sets := m, la_go_to_table := t\<rparr>"
    and i: "lr0_inv xs {src} unused la" and v: "(k, src, c) \<in> sets_view ?m" and p: "set_processed la (set ys) k src c"
    by (auto simp: go_to_inv_def)
  have g': "grammar_ok la" using g la by simp
  from i have ok: "sets_ok ?m" "?m \<noteq> []" "distinct unused" "set unused \<union> {src} \<subseteq> {..<length ?m}" "src \<notin> set unused"
    "\<And>i. num.ordered (map fst (?t i))" "\<And>i. i \<ge> length ?m \<Longrightarrow> ?t i = []"
    "\<And>k i c. (k, i, c) \<in> sets_view ?m \<Longrightarrow> kernel_ok la i k"
    "\<And>k i c. (k, i, c) \<in> sets_view ?m \<Longrightarrow> i \<noteq> src \<Longrightarrow>
       (if i \<in> set unused then c = [] \<and> ?t i = [] else set_processed la xs k i c)"
    by (auto simp: lr0_inv_def Let_def)
  from step obtain new where go: "go_to src x la = Inr (new, la')"
    and unused': "unused' = (case new of None \<Rightarrow> unused | Some i \<Rightarrow> unused @ [i])"
    by (auto simp: lr0_go_to_symbol_def)
  define k' where "k' = go_to_kernel ?g x c"
  from go_to_effect [OF go ok(1) v, unfolded Let_def, folded k'_def] obtain m' t' where la': "la' = la\<lparr>la_lr0_item_sets := m', la_go_to_table := t'\<rparr>"
    "sets_ok m'" and e: "if k' = [] then m' = ?m \<and> t' = ?t \<and> new = None
        else (\<exists>j. t' = ?t(src := smap_assign (<) x j (?t src)) \<and>
          (if k' \<in> fst ` set ?m
           then new = None \<and> sets_view m' = sets_view ?m \<and> length m' = length ?m \<and> (\<exists>c'. (k', j, c') \<in> sets_view ?m)
           else j = length ?m \<and> new = Some j \<and> sets_view m' = insert (k', j, []) (sets_view ?m) \<and> length m' = Suc (length ?m)))"
    by blast
  have form: "\<exists>m t. la' = la0\<lparr>la_lr0_item_sets := m, la_go_to_table := t\<rparr>" using la la'(1) by auto
  have src: "(if x' \<in> set ys then go_to_done ?g ?m ?t src c x' else smap_find (<) x' (?t src) = None)" for x'
    using p by (simp add: set_processed_def)
  have cl: "set c = lr0_closure_of la (set k)" "items.ordered c" using p by (simp_all add: set_processed_def)
  show ?thesis
  proof (cases "k' = []")
    case True
    with e have same: "m' = ?m" "t' = ?t" "new = None" by simp_all
    have "la' = la" using la'(1) same by simp
    moreover have "if x' \<in> set (ys @ [x]) then go_to_done ?g ?m ?t src c x' else smap_find (<) x' (?t src) = None" for x'
    proof (cases "x' \<in> set ys")
      case True
      with src [of x'] show ?thesis by simp
    next
      case no: False
      with src [of x'] have "smap_find (<) x' (?t src) = None" by simp
      with True no show ?thesis by (auto simp: go_to_done_def k'_def)
    qed
    then have "set_processed la (set (ys @ [x])) k src c"
      using cl unfolding set_processed_def by blast
    ultimately show ?thesis using inv unused' same(3) by (simp add: go_to_inv_def)
  next
    case False
    with e obtain j where t': "t' = ?t(src := smap_assign (<) x j (?t src))" and
      cases: "if k' \<in> fst ` set ?m
           then new = None \<and> sets_view m' = sets_view ?m \<and> length m' = length ?m \<and> (\<exists>c'. (k', j, c') \<in> sets_view ?m)
           else j = length ?m \<and> new = Some j \<and> sets_view m' = insert (k', j, []) (sets_view ?m) \<and> length m' = Suc (length ?m)"
      by auto
    have mono: "sets_view ?m \<subseteq> sets_view m'" and target: "\<exists>c'. (k', j, c') \<in> sets_view m'" and len: "length ?m \<le> length m'"
      using cases by (auto split: if_splits)
    have find: "smap_find (<) x' (t' src) = (if x' = x then Some j else smap_find (<) x' (?t src))" for x'
      using num.find_assign [OF ok(6)] t' by simp
    have done_src: "set_processed la' (set (ys @ [x])) k src c"
      unfolding set_processed_def la'(1)
    proof (intro conjI allI)
      fix x'
      show "if x' \<in> set (ys @ [x])
          then go_to_done (la_productions (la\<lparr>la_lr0_item_sets := m', la_go_to_table := t'\<rparr>))
            (la_lr0_item_sets (la\<lparr>la_lr0_item_sets := m', la_go_to_table := t'\<rparr>))
            (la_go_to_table (la\<lparr>la_lr0_item_sets := m', la_go_to_table := t'\<rparr>)) src c x'
          else smap_find (<) x' (la_go_to_table (la\<lparr>la_lr0_item_sets := m', la_go_to_table := t'\<rparr>) src) = None"
      proof (cases "x' = x")
        case True
        with find [of x'] False target show ?thesis by (simp add: go_to_done_def k'_def)
      next
        case neq: False
        with find [of x'] have same: "smap_find (<) x' (t' src) = smap_find (<) x' (?t src)" by simp
        show ?thesis
        proof (cases "x' \<in> set ys")
          case True
          with src [of x'] have "go_to_done ?g ?m ?t src c x'" by simp
          with same mono True show ?thesis by (auto simp: go_to_done_def split: option.splits)
        qed (use neq same src [of x'] in simp)
      qed
    qed (use cl in simp_all)
    have kernels': "kernel_ok la' i1 k1" if "(k1, i1, c1) \<in> sets_view m'" for k1 i1 c1
    proof (cases "(k1, i1, c1) \<in> sets_view ?m")
      case True
      with ok(8) la'(1) show ?thesis by simp
    next
      case new: False
      with that cases have k1: "k1 = k'" "i1 = length ?m" by (auto split: if_splits)
      have "item_ok ?g it" if "it \<in> set c" for it
        using lr0_closure_ok [OF g' kernel_items_ok [OF g' ok(8) [OF v]]] that cl(1) by simp
      from moved_kernel_ok [OF g' this, of c x i1] False k1 ok(2) la'(1) show ?thesis by (simp add: k'_def)
    qed
    have others: "if i1 \<in> set unused' then c1 = [] \<and> t' i1 = [] else set_processed la' xs k1 i1 c1"
      if "(k1, i1, c1) \<in> sets_view m'" "i1 \<noteq> src" for k1 i1 c1
    proof (cases "(k1, i1, c1) \<in> sets_view ?m")
      case True
      then have "i1 < length ?m" by (rule sets_view_bound [OF ok(1)])
      then have "i1 \<in> set unused' \<longleftrightarrow> i1 \<in> set unused" using unused' cases by (auto split: if_splits)
      with ok(9) [OF True that(2)] set_processed_mono [of la xs k1 i1 c1 m' t'] mono t' that(2) la'(1)
      show ?thesis by (auto split: if_splits)
    next
      case False
      with that cases have k1: "i1 = length ?m" "c1 = []" "new = Some (length ?m)" by (auto split: if_splits)
      with unused' ok(7) [of i1] t' that(2) show ?thesis by simp
    qed
    have unused_ok: "distinct unused'" "set unused' \<union> {src} \<subseteq> {..<length m'}" "src \<notin> set unused'"
      using unused' cases ok(3-5) len by (auto split: if_splits option.splits)
    have "num.ordered (map fst (t' i1))" for i1
      using ok(6) num.assign_map_ordered [OF ok(6)] t' by simp
    moreover have "t' i1 = []" if "i1 \<ge> length m'" for i1
      using that ok(4,7) len t' by auto
    moreover have "m' \<noteq> []" using len ok(2) by auto
    ultimately have "lr0_inv xs {src} unused' la'"
      unfolding lr0_inv_def Let_def
    proof (intro conjI allI impI)
      fix k1 i1 c1 assume "(k1, i1, c1) \<in> sets_view (la_lr0_item_sets la')"
      then have v1: "(k1, i1, c1) \<in> sets_view m'" using la'(1) by simp
      then show "kernel_ok la' i1 k1" by (rule kernels')
      assume "i1 \<notin> {src}"
      then have "i1 \<noteq> src" by simp
      have tbl: "la_go_to_table la' = t'" using la'(1) by simp
      from others [OF v1 \<open>i1 \<noteq> src\<close>]
      show "if i1 \<in> set unused' then c1 = [] \<and> la_go_to_table la' i1 = [] else set_processed la' xs k1 i1 c1" unfolding tbl .
    qed (use la' unused_ok in auto)
    moreover have "(k, src, c) \<in> sets_view (la_lr0_item_sets la')" using v mono la'(1) by auto
    ultimately show ?thesis using form done_src by (simp add: go_to_inv_def)
  qed
qed

section \<open>The loop\<close>

lemma closure_start: "item_closure_inv la expand (set k) k []"
  using closure_kernel by (fastforce simp: item_closure_inv_def)

lemma sets_update_at:
  assumes "sets_ok m" "sets_get i m = Inr s"
  shows "sets_update i (\<lambda>_. f s) m = sets_update i f m"
proof -
  have dist: "distinct (map (is_index \<circ> snd) m)" using assms(1) by (simp only: sets_ok_def)
  have same: "s1 = s" if "(k, s1) \<in> set m" "is_index s1 = i" for k s1
  proof -
    from sets_get_iff [OF dist, of i s1] that have "sets_get i m = Inr s1" by blast
    with assms(2) show ?thesis by simp
  qed
  show ?thesis unfolding sets_update_def by (rule map_cong [OF refl]) (auto dest: same)
qed

lemma sets_close_view:
  "sets_view (sets_update i (\<lambda>s. s\<lparr>is_closure := c\<rparr>) m) = {(k, j, if j = i then c else c1) |k j c1. (k, j, c1) \<in> sets_view m}"
proof (intro set_eqI iffI)
  fix e assume "e \<in> sets_view (sets_update i (\<lambda>s. s\<lparr>is_closure := c\<rparr>) m)"
  then obtain k s where "(k, s) \<in> set m" "e = (if is_index s = i then (k, i, c) else (k, is_index s, is_closure s))"
    by (auto simp: sets_view_def sets_update_def split: if_splits)
  then show "e \<in> {(k, j, if j = i then c else c1) |k j c1. (k, j, c1) \<in> sets_view m}"
    by (auto simp: sets_view_iff)
next
  fix e assume "e \<in> {(k, j, if j = i then c else c1) |k j c1. (k, j, c1) \<in> sets_view m}"
  then obtain k s where ks: "(k, s) \<in> set m" "e = (k, is_index s, if is_index s = i then c else is_closure s)"
    by (auto simp: sets_view_iff)
  let ?s = "if is_index s = i then s\<lparr>is_closure := c\<rparr> else s"
  have "(k, ?s) \<in> set (sets_update i (\<lambda>s. s\<lparr>is_closure := c\<rparr>) m)"
    using ks(1) by (force simp: sets_update_def)
  moreover have "e = (\<lambda>(k, s). (k, is_index s, is_closure s)) (k, ?s)" using ks(2) by simp
  ultimately show "e \<in> sets_view (sets_update i (\<lambda>s. s\<lparr>is_closure := c\<rparr>) m)" unfolding sets_view_def by (rule rev_image_eqI)
qed

lemma rfold_prefix:
  assumes "rfold f xs s = Inr t" "P [] s"
    and "\<And>ys x s s'. P ys s \<Longrightarrow> f x s = Inr s' \<Longrightarrow> P (ys @ [x]) s'"
  shows "P xs t"
proof -
  have "rfold f zs s = Inr t \<Longrightarrow> P ys s \<Longrightarrow> P (ys @ zs) t" for ys zs s
  proof (induction zs arbitrary: ys s)
    case (Cons x zs)
    from Cons.prems(1) obtain s1 where "f x s = Inr s1" "rfold f zs s1 = Inr t" by auto
    with Cons.IH [of s1 "ys @ [x]"] assms(3) Cons.prems(2) show ?case by simp
  qed simp
  from this [of xs s "[]"] assms(1,2) show ?thesis by simp
qed

lemma lr0_round_inv:
  assumes g: "grammar_ok la" and zs: "zs = la_terminals la @ key_order (map fst (la_non_terminals la))"
    and inv: "lr0_inv (set zs) {} unused la"
    and unused: "unused \<noteq> []" and round: "lr0_round key_order (unused, la) = Some (Inr (unused', la'))"
  shows "lr0_inv (set zs) {} unused' la' \<and>
    (\<exists>m t. la' = la\<lparr>la_lr0_item_sets := m, la_go_to_table := t\<rparr>)"
proof -
  let ?m = "la_lr0_item_sets la" and ?t = "la_go_to_table la"
  define src where "src = last unused"
  have src_in: "src \<in> set unused" using unused by (simp add: src_def)
  from inv have ok: "sets_ok ?m" "?m \<noteq> []" "distinct unused" "set unused \<subseteq> {..<length ?m}"
    "\<And>i. num.ordered (map fst (?t i))" "\<And>i. i \<ge> length ?m \<Longrightarrow> ?t i = []"
    "\<And>k i c. (k, i, c) \<in> sets_view ?m \<Longrightarrow> kernel_ok la i k"
    "\<And>k i c. (k, i, c) \<in> sets_view ?m \<Longrightarrow>
       (if i \<in> set unused then c = [] \<and> ?t i = [] else set_processed la (set zs) k i c)"
    by (auto simp: lr0_inv_def Let_def)
  from round obtain s s' where s: "sets_get src ?m = Inr s" "generate_lr0_closure la s = Some (Inr s')"
    and f: "rfold (lr0_go_to_symbol src) zs
      (butlast unused, la\<lparr>la_lr0_item_sets := sets_update src (\<lambda>_. s') ?m\<rparr>) = Inr (unused', la')"
    by (auto simp: lr0_round_def src_def zs Let_def cbind_def split: option.splits sum.splits)
  from sets_get_mem [OF s(1)] obtain k where k: "(k, s) \<in> set ?m" "is_index s = src" by blast
  have kernel: "is_kernel s = k" using ok(1) k(1) by (auto simp: sets_ok_def)
  have v: "(k, src, is_closure s) \<in> sets_view ?m" using k by (auto simp: sets_view_iff)
  then have empty: "is_closure s = []" "?t src = []" using ok(8) [OF v] src_in by simp_all
  from s(2) obtain c where c: "item_closure_loop la (lr0_expand la) k [] = Some (Inr c)" "s' = s\<lparr>is_closure := c\<rparr>"
    by (auto simp: generate_lr0_closure_def kernel empty(1) cbind_def split: option.splits sum.splits)
  from item_closure_loop_exact [OF c(1) closure_start] have cl: "set c = lr0_closure_of la (set k)" "items.ordered c"
    by (simp_all add: lr0_closure_of_def)
  define m1 where "m1 = sets_update src (\<lambda>s. s\<lparr>is_closure := c\<rparr>) ?m"
  let ?la1 = "la\<lparr>la_lr0_item_sets := m1\<rparr>"
  have m1: "sets_update src (\<lambda>_. s') ?m = m1"
    using sets_update_at [OF ok(1) s(1), of "\<lambda>s. s\<lparr>is_closure := c\<rparr>"] c(2) by (simp add: m1_def)
  have m1_ok: "sets_ok m1" "length m1 = length ?m" using ok(1) by (simp_all add: m1_def sets_update_ok sets_update_keys(3))
  have view1: "sets_view m1 = {(k, j, if j = src then c else c1) |k j c1. (k, j, c1) \<in> sets_view ?m}"
    by (simp add: m1_def sets_close_view)
  have v1: "(k, src, c) \<in> sets_view m1" using v view1 by auto
  have split: "set unused = insert src (set (butlast unused))" "src \<notin> set (butlast unused)" "distinct (butlast unused)"
  proof -
    have "unused = butlast unused @ [src]" using unused by (simp add: src_def)
    then have "distinct (butlast unused @ [src])" "set unused = set (butlast unused @ [src])" using ok(3) by metis+
    then show "set unused = insert src (set (butlast unused))" "src \<notin> set (butlast unused)" "distinct (butlast unused)" by auto
  qed
  have step_ok: "if i1 \<in> set (butlast unused) then c1 = [] \<and> ?t i1 = [] else set_processed ?la1 (set zs) k1 i1 c1"
    if "(k1, i1, c1) \<in> sets_view m1" "i1 \<noteq> src" for k1 i1 c1
  proof -
    have old: "(k1, i1, c1) \<in> sets_view ?m" using that view1 by auto
    have "go_to_done (la_productions la) m1 ?t i1 c1 x" if "go_to_done (la_productions la) ?m ?t i1 c1 x" for x
      using that view1 unfolding go_to_done_def by (auto split: option.splits)
    with ok(8) [OF old] split(1) that(2) show ?thesis by (auto simp: set_processed_def)
  qed
  have "lr0_inv (set zs) {src} (butlast unused) ?la1"
    unfolding lr0_inv_def Let_def
  proof (intro conjI allI impI)
    show "kernel_ok ?la1 i1 k1" if "(k1, i1, c1) \<in> sets_view (la_lr0_item_sets ?la1)" for k1 i1 c1
      using that view1 ok(7) by auto
    show "if i1 \<in> set (butlast unused) then c1 = [] \<and> la_go_to_table ?la1 i1 = [] else set_processed ?la1 (set zs) k1 i1 c1"
      if "(k1, i1, c1) \<in> sets_view (la_lr0_item_sets ?la1)" "i1 \<notin> {src}" for k1 i1 c1
      using step_ok [of k1 i1 c1] that by simp
  qed (use ok m1_ok split in auto)
  moreover have "set_processed ?la1 (set []) k src c" using cl empty(2) by (simp add: set_processed_def)
  ultimately have start: "go_to_inv la (set zs) src k c [] (butlast unused, ?la1)"
    using v1 by (auto simp: go_to_inv_def intro!: exI [of _ m1] exI [of _ ?t])
  have "go_to_inv la (set zs) src k c zs (unused', la')"
    by (rule rfold_prefix [OF f [unfolded m1], where P = "go_to_inv la (set zs) src k c"])
      (use start go_to_inv_step [OF g] in \<open>auto simp: prod_eq_iff\<close>)
  then have final: "lr0_inv (set zs) {src} unused' la'" "(k, src, c) \<in> sets_view (la_lr0_item_sets la')"
    "set_processed la' (set zs) k src c" "\<exists>m t. la' = la\<lparr>la_lr0_item_sets := m, la_go_to_table := t\<rparr>"
    by (auto simp: go_to_inv_def)
  have "k1 = k \<and> c1 = c" if "(k1, src, c1) \<in> sets_view (la_lr0_item_sets la')" for k1 c1
    using sets_view_index [OF _ that final(2)] final(1) by (simp add: lr0_inv_def Let_def sets_ok_def)
  then have last_set: "set_processed la' (set zs) k1 src c1" if "(k1, src, c1) \<in> sets_view (la_lr0_item_sets la')" for k1 c1
    using final(3) that by blast
  note fin = final(1) [unfolded lr0_inv_def Let_def]
  have "lr0_inv (set zs) {} unused' la'"
    unfolding lr0_inv_def Let_def
  proof (intro conjI allI impI)
    fix k1 i1 c1 assume v1: "(k1, i1, c1) \<in> sets_view (la_lr0_item_sets la')"
    with fin show "kernel_ok la' i1 k1" by blast
    show "if i1 \<in> set unused' then c1 = [] \<and> la_go_to_table la' i1 = [] else set_processed la' (set zs) k1 i1 c1"
    proof (cases "i1 = src")
      case True
      with last_set v1 fin show ?thesis by auto
    next
      case False
      with fin v1 show ?thesis by blast
    qed
  qed (use fin in blast)+
  with final(4) show ?thesis by simp
qed

lemma lr0_loop_inv:
  assumes "lr0_loop key_order unused la = Some (Inr la')" "grammar_ok la"
    and zs: "zs = la_terminals la @ key_order (map fst (la_non_terminals la))" and "lr0_inv (set zs) {} unused la"
  shows "lr0_inv (set zs) {} [] la' \<and> (\<exists>m t. la' = la\<lparr>la_lr0_item_sets := m, la_go_to_table := t\<rparr>)"
proof -
  have "r = Inr la' \<Longrightarrow> grammar_ok la \<Longrightarrow> zs = la_terminals la @ key_order (map fst (la_non_terminals la)) \<Longrightarrow>
      lr0_inv (set zs) {} unused la \<Longrightarrow>
      lr0_inv (set zs) {} [] la' \<and> (\<exists>m t. la' = la\<lparr>la_lr0_item_sets := m, la_go_to_table := t\<rparr>)"
    if "lr0_loop key_order unused la = Some r" for unused la r
    using that
  proof (induction arbitrary: la' rule: lr0_loop.raw_induct [rotated, consumes 1, case_names 1])
    case (1 f key_order unused la r)
    show ?case
    proof (cases "unused = []")
      case True
      with 1 have "la' = la" by simp
      then show ?thesis using 1(3-) True by (auto intro!: exI [of _ "la_lr0_item_sets la"] exI [of _ "la_go_to_table la"])
    next
      case False
      with "1.hyps" "1.prems"(1) obtain unused1 la1 where
        r: "lr0_round key_order (unused, la) = Some (Inr (unused1, la1))" "f key_order unused1 la1 = Some (Inr la')"
        by (auto split: option.splits sum.splits)
      from lr0_round_inv [OF "1.prems"(2,3,4) False r(1)] obtain m t where
        l: "lr0_inv (set zs) {} unused1 la1" "la1 = la\<lparr>la_lr0_item_sets := m, la_go_to_table := t\<rparr>" by blast
      have "lr0_inv (set zs) {} [] la' \<and> (\<exists>m t. la' = la1\<lparr>la_lr0_item_sets := m, la_go_to_table := t\<rparr>)"
        by (rule "1.IH" [OF r(2) refl]) (use l "1.prems"(2,3) in auto)
      with l(2) show ?thesis by auto
    qed
  qed
  with assms show ?thesis by blast
qed

text \<open>The item sets that the generation starts from, and what it ends with.\<close>

lemma generate_lr0_kernels_inv:
  assumes gen: "generate_lr0_kernels key_order la = Some (Inr la')" and g: "grammar_ok la"
    and fresh: "la_lr0_item_sets la = []" "la_go_to_table la = (\<lambda>_. [])"
    and zs: "zs = la_terminals la @ key_order (map fst (la_non_terminals la))"
  shows "lr0_inv (set zs) {} [] la' \<and> (\<exists>m t. la' = la\<lparr>la_lr0_item_sets := m, la_go_to_table := t\<rparr>)"
proof -
  let ?k = "[mk_item (la_root_production_id la) 0 cNullSymbol]"
  let ?m = "[(?k, item_set_new\<lparr>is_kernel := ?k, is_index := 0\<rparr>)]"
  let ?la = "la\<lparr>la_lr0_item_sets := ?m\<rparr>"
  have loop: "lr0_loop key_order [0] ?la = Some (Inr la')"
    using gen fresh(1) by (auto simp: generate_lr0_kernels_def Let_def split: if_splits)
  have "sets_view ?m = {(?k, 0, [])}" by (simp add: sets_view_def item_set_new_def)
  then have "lr0_inv (set zs) {} [0] ?la"
    using fresh(2) by (simp add: lr0_inv_def sets_ok_def kernel_ok_def lessThan_Suc)
  from lr0_loop_inv [OF loop _ _ this] g zs obtain m t where
    "lr0_inv (set zs) {} [] la'" "la' = ?la\<lparr>la_lr0_item_sets := m, la_go_to_table := t\<rparr>" by auto
  then show ?thesis by auto
qed

end
