(* ===== verification/Lalr_Tables.thy ===== *)
theory Lalr_Tables
  imports Lalr_Kernels
begin

text \<open>
  The LR(1) item sets and the parsing table: what an entry of the table says about the items of
  its state.
\<close>

section \<open>Items without their lookaheads\<close>

definition item_core :: "item \<Rightarrow> item" where
  "item_core i = i\<lparr>it_lookahead := cNullSymbol\<rparr>"

lemma item_core_simps [simp]:
  "it_production (item_core i) = it_production i" "it_dot (item_core i) = it_dot i"
  "it_lookahead (item_core i) = cNullSymbol"
  "has_dot_at_end g (item_core i) = has_dot_at_end g i" "it_next_symbol g (item_core i) = it_next_symbol g i"
  by (simp_all add: item_core_def has_dot_at_end_def it_next_symbol_def)

lemma item_core_ok: "item_ok g i \<Longrightarrow> item_core i = i"
  by (simp add: item_ok_def item_core_def)

text \<open>The cores of a closure with lookaheads are in the closure without them.\<close>

lemma lr1_closure_core:
  assumes "\<And>i. i \<in> K \<Longrightarrow> item_core i \<in> lr0_closure_of la K0"
  shows "i \<in> closure_items (expands_to la (lr1_expand la)) K \<Longrightarrow> item_core i \<in> lr0_closure_of la K0"
proof (induction rule: closure_items.induct)
  case (closure_step i js j)
  let ?s = "it_next_symbol (la_productions la) i"
  from closure_step.hyps(2,3) have open_item: "\<not> has_dot_at_end (la_productions la) i" "\<not> symbol_is_token la ?s"
    by (auto simp: expands_to_def split: if_splits)
  with closure_step.hyps(2,3) obtain ps p l where p: "map_of (la_non_terminals la) ?s = Some ps" "p \<in> set ps" "j = mk_item p 0 l"
    by (auto simp: expands_to_def lr1_expand_def split: option.splits)
  have "expands_to la (lr0_expand la) (item_core i) = Inr (map (\<lambda>p. mk_item p 0 cNullSymbol) ps)"
    using open_item p(1) by (simp add: expands_to_def lr0_expand_def)
  moreover have "item_core j \<in> set (map (\<lambda>p. mk_item p 0 cNullSymbol) ps)" using p by (simp add: item_core_def)
  ultimately show ?case
    using closure_step.IH closure_items.closure_step [where E = "expands_to la (lr0_expand la)"]
    unfolding lr0_closure_of_def by blast
qed (rule assms)

section \<open>What the later steps keep\<close>

definition keeps_lr0 :: "'a lalr1_parser \<Rightarrow> 'a lalr1_parser \<Rightarrow> bool" where
  "keeps_lr0 la la' \<longleftrightarrow> la_productions la' = la_productions la \<and> la_terminals la' = la_terminals la \<and>
     la_non_terminals la' = la_non_terminals la \<and> la_root_production_id la' = la_root_production_id la \<and>
     la_firsts la' = la_firsts la \<and> la_nullable la' = la_nullable la \<and>
     la_lr0_item_sets la' = la_lr0_item_sets la \<and> la_go_to_table la' = la_go_to_table la \<and> la_lexer la' = la_lexer la"

lemma keeps_lr0_refl [simp]: "keeps_lr0 la la"
  by (simp add: keeps_lr0_def)

lemma keeps_lr0_trans: "keeps_lr0 la la1 \<Longrightarrow> keeps_lr0 la1 la2 \<Longrightarrow> keeps_lr0 la la2"
  by (simp add: keeps_lr0_def)

lemma keeps_lr0_upd [simp]:
  "keeps_lr0 la (la'\<lparr>la_spontaneous_map := a\<rparr>) = keeps_lr0 la la'" "keeps_lr0 la (la'\<lparr>la_propagate_map := b\<rparr>) = keeps_lr0 la la'"
  "keeps_lr0 la (la'\<lparr>la_lr1_item_sets := c\<rparr>) = keeps_lr0 la la'" "keeps_lr0 la (la'\<lparr>la_root_item_set := d\<rparr>) = keeps_lr0 la la'"
  by (simp_all add: keeps_lr0_def)

lemma keeps_expands:
  assumes "keeps_lr0 la la'"
  shows "expands_to la' (lr0_expand la') = expands_to la (lr0_expand la)"
    "expands_to la' (lr1_expand la') = expands_to la (lr1_expand la)"
proof -
  have l: "lookaheads_after la' l ss = lookaheads_after la l ss" for l ss
    using assms by (induction ss) (simp_all add: keeps_lr0_def split: option.split)
  have f: "la_productions la' = la_productions la" "la_terminals la' = la_terminals la"
    "la_non_terminals la' = la_non_terminals la"
    using assms by (simp_all add: keeps_lr0_def)
  have t: "symbol_is_token la' = symbol_is_token la" by (rule ext) (simp add: symbol_is_token_def f)
  have e0: "lr0_expand la' = lr0_expand la" by (rule ext)+ (simp only: lr0_expand_def f)
  have e1: "lr1_expand la' = lr1_expand la" by (rule ext)+ (simp only: lr1_expand_def f l)
  show "expands_to la' (lr0_expand la') = expands_to la (lr0_expand la)"
    by (rule ext) (simp only: expands_to_def e0 t f)
  show "expands_to la' (lr1_expand la') = expands_to la (lr1_expand la)"
    by (rule ext) (simp only: expands_to_def e1 t f)
qed

lemma keeps_closure: "keeps_lr0 la la' \<Longrightarrow> lr0_closure_of la' = lr0_closure_of la"
  by (simp add: lr0_closure_of_def keeps_expands)

lemma keeps_inv: "keeps_lr0 la la' \<Longrightarrow> lr0_inv xs skip unused la' = lr0_inv xs skip unused la"
proof -
  assume k: "keeps_lr0 la la'"
  note c = keeps_closure [OF k]
  from k have f: "la_productions la' = la_productions la" "la_root_production_id la' = la_root_production_id la"
    "la_lr0_item_sets la' = la_lr0_item_sets la" "la_go_to_table la' = la_go_to_table la"
    by (simp_all add: keeps_lr0_def)
  have p: "set_processed la' = set_processed la" by (rule ext)+ (simp only: set_processed_def c f)
  have o: "kernel_ok la' = kernel_ok la" by (rule ext)+ (simp only: kernel_ok_def c f)
  show "lr0_inv xs skip unused la' = lr0_inv xs skip unused la" by (simp only: lr0_inv_def p o c f)
qed

lemma keeps_grammar: "keeps_lr0 la la' \<Longrightarrow> grammar_ok la' = grammar_ok la"
  by (simp add: grammar_ok_def keeps_lr0_def)

lemma cfold_invariant:
  assumes "cfold f xs s = Some (Inr t)" "P s"
    and "\<And>x s s'. x \<in> set xs \<Longrightarrow> P s \<Longrightarrow> f x s = Some (Inr s') \<Longrightarrow> P s'"
  shows "P t"
  using assms
proof (induction xs arbitrary: s)
  case (Cons x xs)
  from Cons.prems(1) obtain s1 where "f x s = Some (Inr s1)" "cfold f xs s1 = Some (Inr t)"
    by (auto simp: cbind_def split: option.splits sum.splits)
  with Cons.IH [of s1] Cons.prems(2,3) show ?case by auto
qed simp

lemma note_lookahead_keeps: "keeps_lr0 la la' \<Longrightarrow> keeps_lr0 la (note_lookahead i j la')"
  by (simp add: note_lookahead_def Let_def)

lemma note_lookaheads_keeps:
  assumes "note_lookaheads i la = Some (Inr la')"
  shows "keeps_lr0 la la'"
proof -
  have "keeps_lr0 la1 la2 \<Longrightarrow> keeps_lr0 la1 (fold (note_lookahead i) js la2)" for la1 la2 :: "'a lalr1_parser" and js
    by (induction js arbitrary: la2) (simp_all add: note_lookahead_keeps)
  from this [of la la] assms show ?thesis
    by (auto simp: note_lookaheads_def cbind_def split: option.splits sum.splits)
qed

section \<open>The LR(1) item sets\<close>

definition lr1_set_ok :: "'a lalr1_parser \<Rightarrow> item_set \<Rightarrow> bool" where
  "lr1_set_ok la s \<longleftrightarrow> (\<exists>k c. (k, is_index s, c) \<in> sets_view (la_lr0_item_sets la) \<and>
     (\<forall>i \<in> set (is_closure s). item_core i \<in> set c)) \<and>
     (\<forall>x j. is_next s x = Some j \<longrightarrow> smap_find (<) x (la_go_to_table la (is_index s)) = Some j) \<and>
     is_actions s = []"

definition lr1_inv :: "'a lalr1_parser \<Rightarrow> bool" where
  "lr1_inv la \<longleftrightarrow> (\<forall>(k, s) \<in> set (la_lr1_item_sets la). lr1_set_ok la s) \<and>
     (\<forall>i. la_root_item_set la = Some i \<longrightarrow> i = 0)"

lemma keeps_set_ok: "keeps_lr0 la la' \<Longrightarrow> lr1_set_ok la' s = lr1_set_ok la s"
  by (simp add: lr1_set_ok_def keeps_lr0_def)

lemma make_lr1_item_set_inv:
  assumes make: "make_lr1_item_set lookaheads (k, l0_set) la = Some (Inr la')"
    and inv: "lr0_inv xs {} [] la" "grammar_ok la" "(k, l0_set) \<in> set (la_lr0_item_sets la)" and ok: "lr1_inv la"
  shows "keeps_lr0 la la' \<and> lr1_inv la'"
proof -
  let ?m = "la_lr0_item_sets la" and ?i = "is_index l0_set"
  have v: "(k, ?i, is_closure l0_set) \<in> sets_view ?m" using inv(3) by (auto simp: sets_view_iff)
  from inv(1) have m: "sets_ok ?m" and p: "set_processed la xs k ?i (is_closure l0_set)" and kok: "kernel_ok la ?i k"
    using v by (auto simp: lr0_inv_def Let_def)
  have kernel: "is_kernel l0_set = k" using m inv(3) by (auto simp: sets_ok_def)
  have cl: "set (is_closure l0_set) = lr0_closure_of la (set k)" using p by (simp add: set_processed_def)
  let ?k1 = "lr1_kernel lookaheads k"
  from make obtain s where s: "generate_lr1_closure la (item_set_new\<lparr>is_kernel := ?k1\<rparr>) = Some (Inr s)"
    and la': "la' = la\<lparr>la_root_item_set := if \<exists>i \<in> set k. it_production i = la_root_production_id la \<and> it_dot i = 0
        then Some ?i else la_root_item_set la,
      la_lr1_item_sets := smap_assign (lex_less item_less) ?k1 (s\<lparr>is_index := ?i\<rparr>) (la_lr1_item_sets la)\<rparr>"
    by (auto simp: make_lr1_item_set_def Let_def kernel cbind_def split: option.splits sum.splits)
  from s obtain c where c: "item_closure_loop la (lr1_expand la) ?k1 [] = Some (Inr c)" "is_closure s = c" "is_next s = (\<lambda>_. None)" "is_actions s = []"
    by (auto simp: generate_lr1_closure_def item_set_new_def cbind_def split: option.splits sum.splits)
  from item_closure_loop_exact [OF c(1) closure_start] have c_set: "set c = closure_items (expands_to la (lr1_expand la)) (set ?k1)" by simp
  have "item_core i \<in> lr0_closure_of la (set k)" if "i \<in> set ?k1" for i
  proof -
    from that obtain j where j: "j \<in> set k" "it_production i = it_production j" "it_dot i = it_dot j"
      by (auto simp: lr1_kernel_def)
    have "item_core i = item_core j" using j(2,3) by (simp add: item_core_def)
    also have "\<dots> = j" using kernel_items_ok [OF inv(2) kok j(1)] by (rule item_core_ok)
    finally show ?thesis using j(1) by (simp add: lr0_closure_of_def closure_kernel)
  qed
  from lr1_closure_core [OF this] c_set cl c(2) have "\<forall>i \<in> set (is_closure s). item_core i \<in> set (is_closure l0_set)" by blast
  with v c(3,4) have new: "lr1_set_ok la (s\<lparr>is_index := ?i\<rparr>)" by (auto simp: lr1_set_ok_def)
  have keeps: "keeps_lr0 la la'" by (simp add: la')
  have "lr1_set_ok la s1" if "(k1, s1) \<in> set (la_lr1_item_sets la')" for k1 s1
    using that kernels.assign_map_set [of ?k1 "s\<lparr>is_index := ?i\<rparr>" "la_lr1_item_sets la"] ok new
    by (auto simp: la' lr1_inv_def)
  moreover have "j = 0" if "la_root_item_set la' = Some j" for j
  proof (cases "\<exists>i \<in> set k. it_production i = la_root_production_id la \<and> it_dot i = 0")
    case True
    with that la' have "j = ?i" by simp
    with True kok show ?thesis by (auto simp: kernel_ok_def split: if_splits)
  next
    case False
    with that la' ok show ?thesis by (simp add: lr1_inv_def)
  qed
  ultimately show ?thesis using keeps keeps_set_ok [OF keeps] by (auto simp: lr1_inv_def)
qed

lemma link_item_set_next:
  assumes "is_next (link_item_set table sets s) x = Some j"
  shows "(x, j) \<in> set (table (is_index s)) \<or> is_next s x = Some j"
proof -
  have "fold (\<lambda>(symbol, i) nxt. if \<exists>(_, s') \<in> set sets. is_index s' = i then nxt(symbol \<mapsto> i) else nxt) xs nxt x = Some j \<Longrightarrow>
      (x, j) \<in> set xs \<or> nxt x = Some j" for xs nxt
  proof (induction xs arbitrary: nxt)
    case (Cons e xs)
    obtain y i where e: "e = (y, i)" by force
    let ?nxt = "if \<exists>(_, s') \<in> set sets. is_index s' = i then nxt(y \<mapsto> i) else nxt"
    from Cons.IH [of ?nxt] Cons.prems have "(x, j) \<in> set xs \<or> ?nxt x = Some j" by (simp add: e)
    then show ?case by (cases "x = y") (auto simp: e split: if_splits)
  qed simp
  from this [OF assms [unfolded link_item_set_def, simplified]] show ?thesis .
qed

lemma generate_lr1_item_sets_inv:
  assumes gen: "generate_lr1_item_sets la = Some (Inr la')" and inv: "lr0_inv xs {} [] la" "grammar_ok la"
    and fresh: "la_lr1_item_sets la = []" "la_root_item_set la = None"
  shows "keeps_lr0 la la' \<and> lr1_inv la'"
proof -
  from gen obtain la1 lookaheads la2 where
    a: "cfold note_lookaheads (kernel_items (la_lr0_item_sets la)) la = Some (Inr la1)"
      "cfold (make_lr1_item_set lookaheads) (la_lr0_item_sets la1) la1 = Some (Inr la2)"
      "la' = la2\<lparr>la_lr1_item_sets := map (\<lambda>(k, s). (k, link_item_set (la_go_to_table la2) (la_lr1_item_sets la2) s)) (la_lr1_item_sets la2)\<rparr>"
    by (auto simp: generate_lr1_item_sets_def cbind_def split: option.splits sum.splits)
  have "keeps_lr0 la la1 \<and> la_lr1_item_sets la1 = [] \<and> la_root_item_set la1 = None"
  proof (rule cfold_invariant [OF a(1)])
    fix i and s s' :: "'a lalr1_parser"
    assume s: "keeps_lr0 la s \<and> la_lr1_item_sets s = [] \<and> la_root_item_set s = None" "note_lookaheads i s = Some (Inr s')"
    have "la_lr1_item_sets (fold (note_lookahead i) js s) = la_lr1_item_sets s \<and>
        la_root_item_set (fold (note_lookahead i) js s) = la_root_item_set s" for js and s :: "'a lalr1_parser"
      by (induction js arbitrary: s) (simp_all add: note_lookahead_def Let_def)
    with s note_lookaheads_keeps [OF s(2)] keeps_lr0_trans
    show "keeps_lr0 la s' \<and> la_lr1_item_sets s' = [] \<and> la_root_item_set s' = None"
      by (auto simp: note_lookaheads_def cbind_def split: option.splits sum.splits)
  qed (use fresh in simp)
  then have la1: "keeps_lr0 la la1" "lr1_inv la1" by (simp_all add: lr1_inv_def)
  have "keeps_lr0 la1 la2 \<and> lr1_inv la2"
  proof (rule cfold_invariant [OF a(2)])
    fix e and s s' :: "'a lalr1_parser"
    assume e: "e \<in> set (la_lr0_item_sets la1)" and s: "keeps_lr0 la1 s \<and> lr1_inv s" "make_lr1_item_set lookaheads e s = Some (Inr s')"
    obtain k l0 where kl: "e = (k, l0)" by force
    from s(1) la1(1) have "keeps_lr0 la s" using keeps_lr0_trans by blast
    then have "lr0_inv xs {} [] s" "grammar_ok s" using keeps_inv keeps_grammar inv by blast+
    moreover have "(k, l0) \<in> set (la_lr0_item_sets s)" using e kl s(1) by (simp add: keeps_lr0_def)
    ultimately have "keeps_lr0 s s' \<and> lr1_inv s'"
      using make_lr1_item_set_inv [OF s(2) [unfolded kl]] s(1) by blast
    with s(1) show "keeps_lr0 la1 s' \<and> lr1_inv s'" using keeps_lr0_trans by blast
  qed (use la1 in simp)
  then have la2: "keeps_lr0 la1 la2" "lr1_inv la2" by simp_all
  have keeps2: "keeps_lr0 la la2" using keeps_lr0_trans [OF la1(1) la2(1)] .
  then have "lr0_inv xs {} [] la2" using keeps_inv inv(1) by blast
  then have tbl: "num.ordered (map fst (la_go_to_table la2 i))" for i by (simp add: lr0_inv_def Let_def)
  have "lr1_set_ok la2 (link_item_set (la_go_to_table la2) (la_lr1_item_sets la2) s)"
    if "lr1_set_ok la2 s" for s
  proof -
    have "smap_find (<) x (la_go_to_table la2 (is_index s)) = Some j"
      if n: "is_next (link_item_set (la_go_to_table la2) (la_lr1_item_sets la2) s) x = Some j" for x j
      using link_item_set_next [OF n] num.find_iff [OF tbl] \<open>lr1_set_ok la2 s\<close> by (auto simp: lr1_set_ok_def)
    with that show ?thesis by (auto simp: lr1_set_ok_def link_item_set_def)
  qed
  moreover have "lr1_set_ok la' = lr1_set_ok la2" by (rule ext, rule keeps_set_ok) (simp add: a(3))
  ultimately have "lr1_set_ok la' s" if "(k, s) \<in> set (la_lr1_item_sets la')" for k s
    using that la2(2) by (auto simp: a(3) lr1_inv_def)
  moreover have "la_root_item_set la' = la_root_item_set la2" by (simp add: a(3))
  ultimately have "lr1_inv la'" using la2(2) by (auto simp: lr1_inv_def)
  with keeps2 show ?thesis by (simp add: a(3))
qed


section \<open>The actions\<close>

text \<open>What an action of a state stands for, in the items of the state and the transitions.\<close>

definition entry_ok :: "'a lalr1_parser \<Rightarrow> item set \<Rightarrow> nat \<Rightarrow> nat \<Rightarrow> action \<Rightarrow> bool" where
  "entry_ok la c i x a \<longleftrightarrow>
     (case a of
        ActBool b \<Rightarrow> b \<longrightarrow> x = symbol_num TokenEnd \<and> mk_item (la_root_production_id la) 1 cNullSymbol \<in> c
      | ActShift j \<Rightarrow> smap_find (<) x (la_go_to_table la i) = Some j
      | ActReduce p \<Rightarrow> p \<noteq> la_root_production_id la \<and>
          mk_item p (length (pr_body (la_productions la ! p))) cNullSymbol \<in> c)"

lemma complete_item_core:
  "has_dot_at_end (la_productions la) it \<Longrightarrow>
     item_core it = mk_item (it_production it) (length (pr_body (la_productions la ! it_production it))) cNullSymbol"
  by (simp add: item_core_def has_dot_at_end_def)

lemma add_item_action_ok:
  assumes add: "add_item_action la nxt it actions = Inr actions'" and g: "grammar_ok la"
    and it: "item_core it \<in> c" and nxt: "\<And>x j. nxt x = Some j \<Longrightarrow> smap_find (<) x (la_go_to_table la i) = Some j"
    and ok: "\<And>x. x < length actions \<Longrightarrow> entry_ok la c i x (actions ! x)" and x: "x < length actions'"
  shows "entry_ok la c i x (actions' ! x)"
proof -
  have set_ok: "entry_ok la c i x (actions' ! x)"
    if "set_action y a actions = Inr actions'" "entry_ok la c i y a" for y a
    using that ok x by (cases "x = y") (auto simp: set_action_def split: if_splits)
  show ?thesis
  proof (cases "has_dot_at_end (la_productions la) it")
    case open_item: False
    let ?s = "it_next_symbol (la_productions la) it"
    show ?thesis
    proof (cases "\<not> symbol_is_token la ?s \<and> map_of (la_non_terminals la) ?s = None")
      case True
      with add open_item ok x show ?thesis by (simp add: add_item_action_def Let_def)
    next
      case False
      with add open_item have "add_shift nxt ?s actions = Inr actions'"
        by (simp add: add_item_action_def Let_def del: de_Morgan_conj)
      then obtain j where "nxt ?s = Some j" "set_action ?s (ActShift j) actions = Inr actions' \<or> actions' = actions"
        by (auto simp: add_shift_def split: option.splits if_splits)
      with nxt set_ok [of ?s "ActShift j"] ok x show ?thesis by (auto simp: entry_ok_def)
    qed
  next
    case True
    note core = complete_item_core [OF True]
    from g have root: "length (pr_body (la_productions la ! la_root_production_id la)) = 1"
      by (simp add: grammar_ok_def Let_def)
    show ?thesis
    proof (cases "it_production it = la_root_production_id la")
      case eq: True
      with add True have "set_action (symbol_num TokenEnd) (ActBool True) actions = Inr actions'"
        by (simp add: add_item_action_def)
      moreover have "entry_ok la c i (symbol_num TokenEnd) (ActBool True)"
        using core eq root it by (simp add: entry_ok_def)
      ultimately show ?thesis by (rule set_ok)
    next
      case ne: False
      with add True have "set_action (it_lookahead it) (ActReduce (it_production it)) actions = Inr actions'"
        by (auto simp: add_item_action_def add_reduce_def split: if_splits)
      moreover have "entry_ok la c i (it_lookahead it) (ActReduce (it_production it))"
        using core ne it by (simp add: entry_ok_def)
      ultimately show ?thesis by (rule set_ok)
    qed
  qed
qed

lemma item_set_actions_ok:
  assumes acts: "item_set_actions la s = Inr actions" and g: "grammar_ok la" and none: "is_actions s = []"
    and items: "\<And>it. it \<in> set (is_closure s) \<Longrightarrow> item_core it \<in> c"
    and nxt: "\<And>x j. is_next s x = Some j \<Longrightarrow> smap_find (<) x (la_go_to_table la i) = Some j"
  shows "\<forall>x < length actions. entry_ok la c i x (actions ! x)"
  using acts unfolding item_set_actions_def
proof (rule rfold_invariant)
  show "\<forall>x < length (take (length (lx_symbol_id (la_lexer la)))
      (is_actions s @ replicate (length (lx_symbol_id (la_lexer la)) - length (is_actions s)) (ActBool False))).
    entry_ok la c i x (take (length (lx_symbol_id (la_lexer la)))
      (is_actions s @ replicate (length (lx_symbol_id (la_lexer la)) - length (is_actions s)) (ActBool False)) ! x)"
    by (simp add: none entry_ok_def)
next
  fix it as as'
  assume "it \<in> set (is_closure s)" "\<forall>x < length as. entry_ok la c i x (as ! x)"
    "add_item_action la (is_next s) it as = Inr as'"
  with add_item_action_ok [OF _ g items nxt] show "\<forall>x < length as'. entry_ok la c i x (as' ! x)" by blast
qed

end
