(* ===== verification/Lalr_First.thy ===== *)
theory Lalr_First
  imports Lalr_Generate
begin

text \<open>
  The FIRST sets and the nullable symbols that \<^verbatim>\<open>generate_first_sets\<close> computes are
  exactly those of the grammar, and its loop ends.
\<close>

section \<open>FIRST and nullable symbols of a grammar\<close>

inductive nullable_symbol :: "'a production list \<Rightarrow> nat \<Rightarrow> bool" for g where
  nullable_production: "p \<in> set g \<Longrightarrow> (\<And>s. s \<in> set (pr_body p) \<Longrightarrow> nullable_symbol g s) \<Longrightarrow>
    nullable_symbol g (pr_head p)"

inductive first_symbol :: "'a production list \<Rightarrow> nat set \<Rightarrow> nat \<Rightarrow> nat \<Rightarrow> bool" for g T where
  first_terminal: "s \<in> T \<Longrightarrow> first_symbol g T s s"
| first_production: "p \<in> set g \<Longrightarrow> pr_body p = ys @ y # zs \<Longrightarrow> (\<And>x. x \<in> set ys \<Longrightarrow> nullable_symbol g x) \<Longrightarrow>
    first_symbol g T y s \<Longrightarrow> first_symbol g T (pr_head p) s"

lemma first_symbol_terminal: "first_symbol g T x s \<Longrightarrow> s \<in> T"
  by (induction rule: first_symbol.induct)

text \<open>The symbols of a body that come after nullable symbols only.\<close>

fun reach_symbols :: "nat set \<Rightarrow> nat list \<Rightarrow> nat set" where
  "reach_symbols N [] = {}"
| "reach_symbols N (s # body) = insert s (if s \<in> N then reach_symbols N body else {})"

lemma reach_symbols_iff: "y \<in> reach_symbols N body \<longleftrightarrow> (\<exists>ys zs. body = ys @ y # zs \<and> set ys \<subseteq> N)"
proof (induction body)
  case (Cons s body)
  show ?case
  proof
    assume "y \<in> reach_symbols N (s # body)"
    then consider "y = s" | "s \<in> N" "y \<in> reach_symbols N body" by (auto split: if_splits)
    then show "\<exists>ys zs. s # body = ys @ y # zs \<and> set ys \<subseteq> N"
    proof cases
      case 1
      then show ?thesis by (intro exI [of _ "[]"] exI [of _ body]) simp
    next
      case 2
      with Cons.IH obtain ys zs where "body = ys @ y # zs" "set ys \<subseteq> N" by blast
      with 2 show ?thesis by (intro exI [of _ "s # ys"] exI [of _ zs]) simp
    qed
  next
    assume "\<exists>ys zs. s # body = ys @ y # zs \<and> set ys \<subseteq> N"
    then obtain ys zs where e: "s # body = ys @ y # zs" "set ys \<subseteq> N" by blast
    with Cons.IH show "y \<in> reach_symbols N (s # body)" by (cases ys) auto
  qed
qed simp

section \<open>One production\<close>

text \<open>The state as sets; every list in it is sorted.\<close>

abbreviation first_set :: "(nat \<Rightarrow> nat list option) \<Rightarrow> nat \<Rightarrow> nat set" where
  "first_set firsts x \<equiv> set (firsts_at firsts x)"

definition firsts_ok :: "(nat \<Rightarrow> nat list option) \<Rightarrow> bool" where
  "firsts_ok firsts \<longleftrightarrow> (\<forall>x. num.ordered (firsts_at firsts x))"

lemma ordered_length: "num.ordered xs \<Longrightarrow> length xs = card (set xs)"
  using num.ordered_distinct by (simp add: distinct_card)

lemma insert_all_num: "set (sset_insert_all (<) xs ys) = set xs \<union> set (ys :: nat list)"
  using num.insert_all_keys [of xs ys] by simp

lemma insert_num: "set (sset_insert (<) x xs) = insert (x :: nat) (set xs)"
  using num.insert_inj by simp

lemma firsts_at_upd [simp]:
  "firsts_at (firsts(x \<mapsto> f)) y = (if y = x then f else firsts_at firsts y)"
  by (simp add: firsts_at_def)

lemma first_body_sets:
  assumes "first_body head nullable body firsts = (firsts', b)" "firsts_ok firsts"
  shows "firsts_ok firsts' \<and> b = (set body \<subseteq> set nullable) \<and> (\<forall>x. x \<noteq> head \<longrightarrow> firsts_at firsts' x = firsts_at firsts x) \<and>
    first_set firsts' head = first_set firsts head \<union> (\<Union>y \<in> reach_symbols (set nullable) body. first_set firsts y)"
  using assms
proof (induction body arbitrary: firsts)
  case (Cons s body)
  define firsts2 where "firsts2 = (firsts(s \<mapsto> firsts_at firsts s))(head \<mapsto>
    sset_insert_all (<) (firsts_at (firsts(s \<mapsto> firsts_at firsts s)) s) (firsts_at (firsts(s \<mapsto> firsts_at firsts s)) head))"
  have ok: "firsts_ok firsts2"
    using Cons.prems(2) num.insert_all_ordered by (auto simp: firsts_ok_def firsts2_def)
  have at: "first_set firsts2 head = first_set firsts head \<union> first_set firsts s"
    "\<And>x. x \<noteq> head \<Longrightarrow> firsts_at firsts2 x = firsts_at firsts x"
    by (auto simp: insert_all_num firsts2_def)
  have at': "first_set firsts2 x = (if x = head then first_set firsts head \<union> first_set firsts s else first_set firsts x)" for x
    using at by simp
  show ?case
  proof (cases "s \<in> set nullable")
    case True
    with Cons.prems(1) have e: "first_body head nullable body firsts2 = (firsts', b)" by (simp add: Let_def firsts2_def)
    have "firsts_ok firsts' \<and> b = (set body \<subseteq> set nullable) \<and> (\<forall>x. x \<noteq> head \<longrightarrow> firsts_at firsts' x = firsts_at firsts2 x) \<and>
      first_set firsts' head = first_set firsts2 head \<union> (\<Union>y \<in> reach_symbols (set nullable) body. first_set firsts2 y)"
      by (rule Cons.IH [OF e ok])
    then have "firsts_ok firsts'" "b = (set body \<subseteq> set nullable)" "\<And>x. x \<noteq> head \<Longrightarrow> firsts_at firsts' x = firsts_at firsts2 x"
      and f: "first_set firsts' head = first_set firsts2 head \<union> (\<Union>y \<in> reach_symbols (set nullable) body. first_set firsts2 y)"
      by blast+
    moreover have "first_set firsts' head = first_set firsts head \<union>
        (\<Union>y \<in> reach_symbols (set nullable) (s # body). first_set firsts y)"
      unfolding f at' using True by (auto split: if_splits)
    ultimately show ?thesis using True at(2) by simp
  next
    case False
    with Cons.prems(1) have "firsts' = firsts2" "\<not> b" by (simp_all add: Let_def firsts2_def)
    with ok at False show ?thesis by simp
  qed
qed simp

text \<open>What one production adds, and what it says when nothing has changed.\<close>

definition first_grows :: "'a production \<Rightarrow> first_state \<Rightarrow> first_state \<Rightarrow> bool" where
  "first_grows p st st' \<longleftrightarrow>
     (case (st, st') of ((firsts, nullable, c), (firsts', nullable', c')) \<Rightarrow>
        firsts_ok firsts' \<and>
        (\<forall>x. first_set firsts' x = (if x = pr_head p
           then first_set firsts x \<union> (\<Union>y \<in> reach_symbols (set nullable) (pr_body p). first_set firsts y)
           else first_set firsts x)) \<and>
        set nullable \<subseteq> set nullable' \<and>
        (set nullable' = set nullable \<or>
           set nullable' = insert (pr_head p) (set nullable) \<and> set (pr_body p) \<subseteq> set nullable) \<and>
        (c \<longrightarrow> c') \<and>
        (\<not> c' \<longrightarrow> (\<forall>x. first_set firsts' x = first_set firsts x) \<and> set nullable' = set nullable \<and>
           (set (pr_body p) \<subseteq> set nullable \<longrightarrow> pr_head p \<in> set nullable)) \<and>
        (c' \<longrightarrow> c \<or> first_set firsts' (pr_head p) \<noteq> first_set firsts (pr_head p) \<or> set nullable' \<noteq> set nullable))"

lemma note_nullable_sets:
  "note_nullable h (nullable, c) = (nullable', c') \<Longrightarrow>
     set nullable' = (if c then set nullable else insert h (set nullable)) \<and> c' = (c \<or> h \<notin> set nullable)"
  by (auto simp: note_nullable_def insert_num split: if_splits)

lemma first_production_grows:
  assumes "firsts_ok firsts"
  shows "first_grows p (firsts, nullable, c) (first_production p (firsts, nullable, c))"
proof -
  let ?h = "pr_head p" and ?N = "set nullable"
  let ?firsts1 = "firsts(?h \<mapsto> firsts_at firsts ?h)"
  have ok1: "firsts_ok ?firsts1" and at1: "\<And>x. firsts_at ?firsts1 x = firsts_at firsts x"
    using assms by (simp_all add: firsts_ok_def)
  obtain firsts2 b where body: "first_body ?h nullable (pr_body p) ?firsts1 = (firsts2, b)" by force
  note sets = first_body_sets [OF body ok1, unfolded at1]
  obtain nullable' c1 where nn: "(if b then note_nullable ?h (nullable, c) else (nullable, c)) = (nullable', c1)" by force
  have len: "length (firsts_at firsts2 ?h) \<noteq> length (firsts_at firsts ?h) \<longleftrightarrow> first_set firsts2 ?h \<noteq> first_set firsts ?h"
  proof -
    have ord: "num.ordered (firsts_at firsts2 ?h)" "num.ordered (firsts_at firsts ?h)"
      using sets assms by (simp_all add: firsts_ok_def)
    have "first_set firsts ?h \<subseteq> first_set firsts2 ?h" using sets by blast
    then show ?thesis using ordered_length [OF ord(1)] ordered_length [OF ord(2)]
      by (metis List.finite_set card_subset_eq)
  qed
  have st: "first_production p (firsts, nullable, c) =
      (firsts2, nullable', c1 \<or> length (firsts_at firsts2 ?h) \<noteq> length (firsts_at firsts ?h))"
  proof (cases "pr_is_epsilon p")
    case True
    with body have "firsts2 = ?firsts1" "b" by (simp_all add: pr_is_epsilon_def)
    with True nn show ?thesis by (simp add: first_production_def Let_def split: prod.splits)
  next
    case False
    with body nn show ?thesis by (simp add: first_production_def Let_def split: prod.splits)
  qed
  have nn': "set nullable' = (if b \<and> \<not> c then insert ?h ?N else ?N)" "c1 = (c \<or> b \<and> ?h \<notin> ?N)"
    using nn note_nullable_sets [of ?h nullable c nullable' c1] by (auto split: if_splits)
  define U where "U = (\<Union>y \<in> reach_symbols ?N (pr_body p). first_set firsts y)"
  have f2: "first_set firsts2 x = (if x = ?h then first_set firsts x \<union> U else first_set firsts x)" for x
    using sets by (simp add: U_def)
  have b: "b = (set (pr_body p) \<subseteq> ?N)" and ok2: "firsts_ok firsts2" using sets by blast+
  have quiet: "(\<forall>x. first_set firsts2 x = first_set firsts x) \<longleftrightarrow> first_set firsts2 ?h = first_set firsts ?h"
    using f2 by metis
  show ?thesis
    unfolding st first_grows_def prod.case len quiet U_def [symmetric]
    using f2 ok2 nn' b by (cases b; cases c; simp; blast)
qed

section \<open>A round\<close>

definition first_sound :: "'a production list \<Rightarrow> nat set \<Rightarrow> (nat \<Rightarrow> nat list option) \<Rightarrow> nat list \<Rightarrow> bool" where
  "first_sound g T firsts nullable \<longleftrightarrow> (\<forall>x. \<forall>s \<in> first_set firsts x. first_symbol g T x s) \<and>
     (\<forall>x \<in> set nullable. nullable_symbol g x) \<and> (\<forall>s \<in> T. s \<in> first_set firsts s) \<and> firsts_ok firsts"

lemma grows_sound:
  assumes grows: "first_grows p (firsts, nullable, c) (firsts', nullable', c')" and p: "p \<in> set g"
    and sound: "first_sound g T firsts nullable"
  shows "first_sound g T firsts' nullable'"
proof -
  note gr = grows [unfolded first_grows_def prod.case]
  have firsts': "\<And>x. first_set firsts' x = (if x = pr_head p
      then first_set firsts x \<union> (\<Union>y \<in> reach_symbols (set nullable) (pr_body p). first_set firsts y)
      else first_set firsts x)" and ok: "firsts_ok firsts'"
    and nullable': "set nullable' = set nullable \<or>
      set nullable' = insert (pr_head p) (set nullable) \<and> set (pr_body p) \<subseteq> set nullable"
    using gr by blast+
  have old: "\<And>x s. s \<in> first_set firsts x \<Longrightarrow> first_symbol g T x s" "\<And>x. x \<in> set nullable \<Longrightarrow> nullable_symbol g x"
    "\<And>s. s \<in> T \<Longrightarrow> s \<in> first_set firsts s" using sound by (auto simp: first_sound_def)
  have "first_symbol g T x s" if s: "s \<in> first_set firsts' x" for x s
  proof (cases "s \<in> first_set firsts x")
    case False
    with s firsts' obtain y where y: "x = pr_head p" "y \<in> reach_symbols (set nullable) (pr_body p)" "s \<in> first_set firsts y"
      by (auto split: if_splits)
    from y(2) obtain ys zs where "pr_body p = ys @ y # zs" "set ys \<subseteq> set nullable" by (auto simp: reach_symbols_iff)
    with p old y show ?thesis by (auto intro!: first_symbol.first_production)
  qed (rule old(1))
  moreover have "nullable_symbol g x" if "x \<in> set nullable'" for x
  proof (cases "x \<in> set nullable")
    case False
    with that nullable' have "x = pr_head p" "set (pr_body p) \<subseteq> set nullable" by auto
    with nullable_production [OF p] old(2) show ?thesis by blast
  qed (rule old(2))
  moreover have "s \<in> first_set firsts' s" if "s \<in> T" for s using old(3) [OF that] firsts' by auto
  ultimately show ?thesis using ok by (simp add: first_sound_def)
qed

text \<open>What is known, as a set of facts that only grows.\<close>

definition first_facts :: "(nat \<Rightarrow> nat list option) \<Rightarrow> nat list \<Rightarrow> (nat \<times> nat option) set" where
  "first_facts firsts nullable = {(x, Some s) |x s. s \<in> first_set firsts x} \<union> {(x, None) |x. x \<in> set nullable}"

definition fact_space :: "'a production list \<Rightarrow> nat set \<Rightarrow> (nat \<times> nat option) set" where
  "fact_space g T = (T \<union> pr_head ` set g) \<times> insert None (Some ` T)"

lemma first_facts_space:
  "first_sound g T firsts nullable \<Longrightarrow> first_facts firsts nullable \<subseteq> fact_space g T"
  by (fastforce simp: first_facts_def first_sound_def fact_space_def first_symbol_terminal
      elim: first_symbol.cases nullable_symbol.cases)

definition closed_under :: "'a production \<Rightarrow> (nat \<Rightarrow> nat list option) \<Rightarrow> nat list \<Rightarrow> bool" where
  "closed_under p firsts nullable \<longleftrightarrow>
     (\<forall>y \<in> reach_symbols (set nullable) (pr_body p). first_set firsts y \<subseteq> first_set firsts (pr_head p)) \<and>
     (set (pr_body p) \<subseteq> set nullable \<longrightarrow> pr_head p \<in> set nullable)"

lemma first_round:
  assumes "first_sound g T firsts nullable" "set ps \<subseteq> set g"
    and "fold first_production ps (firsts, nullable, c) = (firsts', nullable', c')"
  shows "first_sound g T firsts' nullable' \<and> first_facts firsts nullable \<subseteq> first_facts firsts' nullable' \<and>
    (c \<longrightarrow> c') \<and> (c' \<longrightarrow> c \<or> first_facts firsts nullable \<noteq> first_facts firsts' nullable') \<and>
    (\<not> c' \<longrightarrow> (\<forall>x. first_set firsts' x = first_set firsts x) \<and> set nullable' = set nullable \<and>
       (\<forall>p \<in> set ps. closed_under p firsts nullable))"
  using assms
proof (induction ps arbitrary: firsts nullable c)
  case Nil
  then show ?case by simp
next
  case (Cons p ps)
  obtain firsts1 nullable1 c1 where st: "first_production p (firsts, nullable, c) = (firsts1, nullable1, c1)"
    by (metis prod_cases3)
  have "firsts_ok firsts" using Cons.prems(1) by (simp add: first_sound_def)
  note grows = first_production_grows [OF this, of p nullable c, unfolded st]
  note gr = grows [unfolded first_grows_def prod.case]
  have sound1: "first_sound g T firsts1 nullable1" by (rule grows_sound [OF grows]) (use Cons.prems in auto)
  have "fold first_production ps (firsts1, nullable1, c1) = (firsts', nullable', c')" using Cons.prems(3) st by simp
  from Cons.IH [OF sound1 _ this] Cons.prems(2) have rest: "first_sound g T firsts' nullable'"
    "first_facts firsts1 nullable1 \<subseteq> first_facts firsts' nullable'" "c1 \<longrightarrow> c'"
    "c' \<longrightarrow> c1 \<or> first_facts firsts1 nullable1 \<noteq> first_facts firsts' nullable'"
    "\<not> c' \<longrightarrow> (\<forall>x. first_set firsts' x = first_set firsts1 x) \<and> set nullable' = set nullable1 \<and>
       (\<forall>p \<in> set ps. closed_under p firsts1 nullable1)" by auto
  have sub: "first_facts firsts nullable \<subseteq> first_facts firsts1 nullable1"
    using gr by (auto simp: first_facts_def)
  have grow1: "c1 \<longrightarrow> c \<or> first_facts firsts nullable \<noteq> first_facts firsts1 nullable1"
  proof (intro impI)
    assume c1
    with gr consider c | "first_set firsts1 (pr_head p) \<noteq> first_set firsts (pr_head p)" | "set nullable1 \<noteq> set nullable"
      by blast
    then show "c \<or> first_facts firsts nullable \<noteq> first_facts firsts1 nullable1"
    proof cases
      case 2
      have "first_set fs x = {s. (x, Some s) \<in> first_facts fs n}" for fs n x by (simp add: first_facts_def)
      with 2 show ?thesis by metis
    next
      case 3
      have "set n = {x. (x, None) \<in> first_facts fs n}" for fs n by (simp add: first_facts_def)
      with 3 show ?thesis by metis
    qed simp
  qed
  have quiet: "(\<forall>x. first_set firsts' x = first_set firsts x) \<and> set nullable' = set nullable \<and>
      (\<forall>p \<in> set (p # ps). closed_under p firsts nullable)" if "\<not> c'"
  proof -
    have c1: "\<not> c1" using rest(3) that by blast
    then have same: "\<And>x. first_set firsts1 x = first_set firsts x" "set nullable1 = set nullable"
      and null: "set (pr_body p) \<subseteq> set nullable \<longrightarrow> pr_head p \<in> set nullable"
      using gr by blast+
    have "first_set firsts1 (pr_head p) =
        first_set firsts (pr_head p) \<union> (\<Union>y \<in> reach_symbols (set nullable) (pr_body p). first_set firsts y)"
      using gr by simp
    then have "closed_under p firsts nullable" using same(1) null by (auto simp: closed_under_def)
    moreover have "closed_under q firsts nullable" if "q \<in> set ps" for q
      using that rest(5) \<open>\<not> c'\<close> same by (simp add: closed_under_def)
    ultimately show ?thesis using rest(5) that same by simp
  qed
  have "c' \<longrightarrow> c \<or> first_facts firsts nullable \<noteq> first_facts firsts' nullable'"
    using rest(2,4) grow1 sub by blast
  moreover have "c \<longrightarrow> c'" using gr rest(3) by blast
  ultimately show ?case using rest(1,2) sub quiet by blast
qed

section \<open>The loop\<close>

lemma first_loop_exact:
  assumes "first_sound g T firsts nullable" "finite T"
  shows "\<exists>firsts' nullable'. first_loop g firsts nullable = Some (firsts', nullable') \<and>
    first_sound g T firsts' nullable' \<and> (\<forall>p \<in> set g. closed_under p firsts' nullable')"
  using assms(1)
proof (induction "card (fact_space g T - first_facts firsts nullable)" arbitrary: firsts nullable rule: less_induct)
  case less
  obtain firsts1 nullable1 c where st: "fold first_production g (firsts, nullable, False) = (firsts1, nullable1, c)"
    by (metis prod_cases3)
  from first_round [OF less.prems order_refl st] have r: "first_sound g T firsts1 nullable1"
    "first_facts firsts nullable \<subseteq> first_facts firsts1 nullable1"
    "c \<Longrightarrow> first_facts firsts nullable \<noteq> first_facts firsts1 nullable1"
    "\<not> c \<Longrightarrow> (\<forall>x. first_set firsts1 x = first_set firsts x) \<and> set nullable1 = set nullable \<and>
       (\<forall>p \<in> set g. closed_under p firsts nullable)" by blast+
  show ?case
  proof (cases c)
    case True
    have fin: "finite (fact_space g T)" using assms(2) by (simp add: fact_space_def)
    have "fact_space g T - first_facts firsts1 nullable1 \<subset> fact_space g T - first_facts firsts nullable"
      using r(2) r(3) [OF True] first_facts_space [OF r(1)] by blast
    then have "card (fact_space g T - first_facts firsts1 nullable1) < card (fact_space g T - first_facts firsts nullable)"
      using fin by (simp add: psubset_card_mono)
    from less.hyps [OF this r(1)] True st show ?thesis by (subst first_loop.simps) simp
  next
    case False
    with r(1,4) st show ?thesis by (subst first_loop.simps) (simp add: closed_under_def)
  qed
qed

lemma closed_complete:
  assumes sound: "first_sound g T firsts nullable" and closed: "\<forall>p \<in> set g. closed_under p firsts nullable"
  shows "set nullable = {x. nullable_symbol g x}" "first_set firsts x = {s. first_symbol g T x s}"
proof -
  have "x \<in> set nullable" if "nullable_symbol g x" for x
    using that by (induction rule: nullable_symbol.induct) (use closed in \<open>auto simp: closed_under_def\<close>)
  with sound show null: "set nullable = {x. nullable_symbol g x}" by (auto simp: first_sound_def)
  have "s \<in> first_set firsts x" if "first_symbol g T x s" for x s
    using that
  proof (induction rule: first_symbol.induct)
    case (first_production p ys y zs s)
    have "y \<in> reach_symbols (set nullable) (pr_body p)"
      using first_production.hyps(2,3) null by (auto simp: reach_symbols_iff)
    with closed first_production.hyps(1) first_production.IH show ?case by (auto simp: closed_under_def)
  qed (use sound in \<open>auto simp: first_sound_def\<close>)
  with sound show "first_set firsts x = {s. first_symbol g T x s}" by (auto simp: first_sound_def)
qed

lemma initial_firsts:
  "firsts_at (fold (\<lambda>s firsts. if firsts s = None then firsts(s \<mapsto> [s]) else firsts) ts (\<lambda>_. None)) x =
     (if x \<in> set ts then [x] else [])"
proof -
  have "fold (\<lambda>s firsts. if firsts s = None then firsts(s \<mapsto> [s]) else firsts) ts m x =
      (if m x \<noteq> None then m x else if x \<in> set ts then Some [x] else None)" for m
    by (induction ts arbitrary: m) auto
  then show ?thesis by (simp add: firsts_at_def)
qed

lemma generate_first_sets_exact:
  assumes "la_firsts la = (\<lambda>_. None)" "la_nullable la = []"
  shows "\<exists>firsts nullable. generate_first_sets la = Some (la\<lparr>la_firsts := firsts, la_nullable := nullable\<rparr>) \<and>
    set nullable = {x. nullable_symbol (la_productions la) x} \<and>
    (\<forall>x. first_set firsts x = {s. first_symbol (la_productions la) (set (la_terminals la)) x s})"
proof -
  let ?firsts = "fold (\<lambda>s firsts. if firsts s = None then firsts(s \<mapsto> [s]) else firsts) (la_terminals la) (\<lambda>_. None)"
  have "first_sound (la_productions la) (set (la_terminals la)) ?firsts []"
    by (auto simp: first_sound_def firsts_ok_def initial_firsts intro: first_terminal)
  from first_loop_exact [OF this] obtain firsts nullable where
    l: "first_loop (la_productions la) ?firsts [] = Some (firsts, nullable)"
      "first_sound (la_productions la) (set (la_terminals la)) firsts nullable"
      "\<forall>p \<in> set (la_productions la). closed_under p firsts nullable" by auto
  from l(1) assms have "generate_first_sets la = Some (la\<lparr>la_firsts := firsts, la_nullable := nullable\<rparr>)"
    by (simp add: generate_first_sets_def)
  with closed_complete [OF l(2,3)] show ?thesis by blast
qed

end
