(* ===== verification/Lalr_Automaton.thy ===== *)
theory Lalr_Automaton
  imports Lalr_Tables Lalr_First
begin

text \<open>
  The parsing table that the generation ends with is a table of the LR(0) automaton of the grammar:
  what an action stands for, where a transition leads to, and where the items of the root
  production are.
\<close>

section \<open>States and transitions\<close>

definition state_items :: "'a lalr1_parser \<Rightarrow> nat \<Rightarrow> item set" where
  "state_items la i = {it. \<exists>k c. (k, i, c) \<in> sets_view (la_lr0_item_sets la) \<and> it \<in> set c}"

definition state_next :: "'a lalr1_parser \<Rightarrow> nat \<Rightarrow> nat \<Rightarrow> nat option" where
  "state_next la i x = smap_find (<) x (la_go_to_table la i)"

definition automaton_ok :: "'a lalr1_parser \<Rightarrow> bool" where
  "automaton_ok la \<longleftrightarrow> grammar_ok la \<and> (\<exists>xs. lr0_inv xs {} [] la)"

lemma automaton_view:
  assumes "automaton_ok la" "(k, i, c) \<in> sets_view (la_lr0_item_sets la)"
  shows "state_items la i = set c" "set c = lr0_closure_of la (set k)" "kernel_ok la i k"
    "state_next la i x = Some j \<Longrightarrow> \<exists>c'. (go_to_kernel (la_productions la) x c, j, c') \<in> sets_view (la_lr0_item_sets la)"
proof -
  from assms obtain xs where inv: "lr0_inv xs {} [] la" by (auto simp: automaton_ok_def)
  with assms(2) have ok: "sets_ok (la_lr0_item_sets la)" "kernel_ok la i k" "set_processed la xs k i c"
    by (auto simp: lr0_inv_def Let_def)
  from ok(1) have d: "distinct (map (is_index \<circ> snd) (la_lr0_item_sets la))" unfolding sets_ok_def by blast
  show "state_items la i = set c"
    using sets_view_index [OF d assms(2)] assms(2) unfolding state_items_def by blast
  show "set c = lr0_closure_of la (set k)" using ok(3) unfolding set_processed_def by blast
  show "kernel_ok la i k" by (rule ok(2))
  from ok(3) have "go_to_done (la_productions la) (la_lr0_item_sets la) (la_go_to_table la) i c x \<or>
      smap_find (<) x (la_go_to_table la i) = None"
    unfolding set_processed_def by meson
  then show "\<exists>c'. (go_to_kernel (la_productions la) x c, j, c') \<in> sets_view (la_lr0_item_sets la)"
    if "state_next la i x = Some j"
    using that by (auto simp: state_next_def go_to_done_def)
qed

lemma automaton_state:
  assumes "automaton_ok la" "state_next la i x = Some j"
  shows "\<exists>k c. (k, i, c) \<in> sets_view (la_lr0_item_sets la)"
proof -
  from assms obtain xs where inv: "lr0_inv xs {} [] la" by (auto simp: automaton_ok_def)
  have "i < length (la_lr0_item_sets la)"
    using inv assms(2) by (cases "i < length (la_lr0_item_sets la)") (simp_all add: lr0_inv_def Let_def state_next_def)
  moreover have "(is_index \<circ> snd) ` set (la_lr0_item_sets la) = {..<length (la_lr0_item_sets la)}"
    using inv by (simp only: lr0_inv_def Let_def sets_ok_def)
  ultimately have "i \<in> (is_index \<circ> snd) ` set (la_lr0_item_sets la)" by blast
  then obtain e where "e \<in> set (la_lr0_item_sets la)" "is_index (snd e) = i" by (metis comp_apply imageE)
  then have "(fst e, i, is_closure (snd e)) \<in> sets_view (la_lr0_item_sets la)"
    by (auto simp: sets_view_iff intro!: exI [of _ "snd e"])
  then show ?thesis by blast
qed

text \<open>A transition moves the dot, and never leads back to the start.\<close>

lemma state_next_moves:
  assumes ok: "automaton_ok la" and nxt: "state_next la i x = Some j" and it: "mk_item p (Suc d) l \<in> state_items la j"
  shows "mk_item p d l \<in> state_items la i \<and> d < length (pr_body (la_productions la ! p)) \<and>
    pr_body (la_productions la ! p) ! d = x"
proof -
  let ?g = "la_productions la"
  from automaton_state [OF ok nxt] obtain k c where i: "(k, i, c) \<in> sets_view (la_lr0_item_sets la)" by blast
  note c = automaton_view(1) [OF ok i] and closed = automaton_view(2,3) [OF ok i]
  from automaton_view(4) [OF ok i nxt] obtain c' where
    j: "(go_to_kernel ?g x c, j, c') \<in> sets_view (la_lr0_item_sets la)" by blast
  from automaton_view(1,2) [OF ok j] it have "mk_item p (Suc d) l \<in> lr0_closure_of la (set (go_to_kernel ?g x c))" by simp
  from lr0_closure_moved [OF this] ok have "mk_item p (Suc d) l \<in> set (go_to_kernel ?g x c)"
    by (simp add: automaton_ok_def)
  then obtain it0 where it0: "it0 \<in> set c" "\<not> has_dot_at_end ?g it0" "it_next_symbol ?g it0 = x"
    "it_production it0 = p" "it_dot it0 = d" "it_lookahead it0 = l"
    by (auto simp: go_to_kernel_iff)
  have g: "grammar_ok la" using ok by (simp add: automaton_ok_def)
  have "item_ok ?g it0"
    using lr0_closure_ok [OF g kernel_items_ok [OF g closed(2)]] it0(1) closed(1) by blast
  moreover have "it0 = mk_item p d l" using it0(4-6) by simp
  ultimately show ?thesis
    using it0(1-3) c by (auto simp: item_ok_def has_dot_at_end_def it_next_symbol_def)
qed

lemma state_next_not_start:
  assumes ok: "automaton_ok la"
  shows "state_next la i x \<noteq> Some 0"
proof
  assume nxt: "state_next la i x = Some 0"
  from automaton_state [OF ok nxt] obtain k c where i: "(k, i, c) \<in> sets_view (la_lr0_item_sets la)" by blast
  from automaton_view(4) [OF ok i nxt] obtain c' where
    j: "(go_to_kernel (la_productions la) x c, 0, c') \<in> sets_view (la_lr0_item_sets la)" by blast
  from automaton_view(3) [OF ok j]
  have "go_to_kernel (la_productions la) x c = [mk_item (la_root_production_id la) 0 cNullSymbol]"
    by (simp add: kernel_ok_def)
  then have "mk_item (la_root_production_id la) 0 cNullSymbol \<in> set (go_to_kernel (la_productions la) x c)" by simp
  then show False by (auto simp: go_to_kernel_iff)
qed

lemma root_item_start:
  assumes ok: "automaton_ok la" and it: "mk_item (la_root_production_id la) 0 l \<in> state_items la i"
  shows "i = 0"
proof (rule ccontr)
  assume "i \<noteq> 0"
  let ?root = "la_root_production_id la" and ?g = "la_productions la"
  from it obtain k c where i: "(k, i, c) \<in> sets_view (la_lr0_item_sets la)" by (auto simp: state_items_def)
  have g: "grammar_ok la" using ok by (simp add: automaton_ok_def)
  note view = automaton_view(1-3) [OF ok i]
  from view(3) \<open>i \<noteq> 0\<close> have dots: "\<forall>it \<in> set k. 0 < it_dot it" by (simp add: kernel_ok_def)
  from view it have "mk_item ?root 0 l \<in> lr0_closure_of la (set k)" by simp
  then show False
    unfolding lr0_closure_of_def
  proof cases
    case (closure_step i0 js)
    have "i0 \<in> lr0_closure_of la (set k)" using closure_step(1) by (simp add: lr0_closure_of_def)
    then have i0: "item_ok ?g i0"
      using lr0_closure_ok [OF g kernel_items_ok [OF g view(3)]] by blast
    from lr0_expands_items [OF g closure_step(2,3)] have
      "pr_head (?g ! ?root) = it_next_symbol ?g i0" "\<not> has_dot_at_end ?g i0" by auto
    with i0 have "pr_head (?g ! ?root) \<in> set (pr_body (?g ! it_production i0))"
      by (auto simp: it_next_symbol_def has_dot_at_end_def item_ok_def)
    with g i0 show False by (auto simp: grammar_ok_def Let_def item_ok_def)
  qed (use dots in auto)
qed

section \<open>The table\<close>

definition actions_ok :: "'a lalr1_parser \<Rightarrow> bool" where
  "actions_ok la \<longleftrightarrow>
     (\<forall>(k, s) \<in> set (la_lr1_item_sets la). \<forall>x < length (is_actions s).
        entry_ok la (state_items la (is_index s)) (is_index s) x (is_actions s ! x)) \<and>
     (\<forall>i. la_root_item_set la = Some i \<longrightarrow> i = 0)"

lemma table_entry:
  assumes "actions_ok la" "sets_get i (la_lr1_item_sets la) = Inr s" "get_action x (is_actions s) = Inr a"
  shows "entry_ok la (state_items la i) i x a"
  using assms sets_get_mem [OF assms(2)] by (force simp: actions_ok_def get_action_def split: if_splits)

lemma add_actions_mem:
  fixes la :: "'a lalr1_parser"
  assumes "add_actions la m = Inr m'" "(k, s') \<in> set m'"
  shows "\<exists>s actions. (k, s) \<in> set m \<and> item_set_actions la s = Inr actions \<and> s' = s\<lparr>is_actions := actions\<rparr>"
  using assms
proof (induction la m arbitrary: m' rule: add_actions.induct)
  case (2 la k0 s0 m)
  from 2(2) obtain actions m1 where "item_set_actions la s0 = Inr actions" "add_actions la m = Inr m1"
    "m' = (k0, s0\<lparr>is_actions := actions\<rparr>) # m1" by auto
  with 2(1) 2(3) show ?case by auto
qed simp

lemma generate_action_table:
  assumes gen: "generate_lalr1_parsing_table la = Inr la'" and lr1: "lr1_inv la" and ok: "automaton_ok la"
  shows "actions_ok la' \<and> automaton_ok la' \<and> (\<exists>m. la' = la\<lparr>la_lr1_item_sets := m\<rparr>)"
proof -
  from gen obtain m where m: "add_actions la (la_lr1_item_sets la) = Inr m" and la': "la' = la\<lparr>la_lr1_item_sets := m\<rparr>"
    by (auto simp: generate_lalr1_parsing_table_def generate_lalr1_action_def)
  have keeps: "keeps_lr0 la la'" by (simp add: la')
  have g: "grammar_ok la" using ok by (simp add: automaton_ok_def)
  have "entry_ok la (state_items la (is_index s')) (is_index s') x (is_actions s' ! x)"
    if s': "(k, s') \<in> set m" and x: "x < length (is_actions s')" for k s' x
  proof -
    from add_actions_mem [OF m s'] obtain s actions where s: "(k, s) \<in> set (la_lr1_item_sets la)"
      "item_set_actions la s = Inr actions" "s' = s\<lparr>is_actions := actions\<rparr>" by blast
    from lr1 s(1) have set_ok: "lr1_set_ok la s" by (auto simp: lr1_inv_def)
    then have "item_core it \<in> state_items la (is_index s)" if "it \<in> set (is_closure s)" for it
      using that unfolding lr1_set_ok_def state_items_def by blast
    with item_set_actions_ok [OF s(2) g] set_ok x s(3) show ?thesis by (auto simp: lr1_set_ok_def)
  qed
  moreover have "entry_ok la' = entry_ok la" by (rule ext)+ (simp add: la' entry_ok_def split: action.split)
  moreover have "state_items la' = state_items la" by (rule ext) (simp add: la' state_items_def)
  ultimately have "actions_ok la'" using lr1 by (auto simp: actions_ok_def lr1_inv_def la')
  moreover have "automaton_ok la'" using ok keeps_inv [OF keeps] keeps_grammar [OF keeps] by (simp add: automaton_ok_def)
  ultimately show ?thesis using la' by blast
qed

section \<open>What the generation ends with\<close>

lemma automaton_ok_firsts [simp]:
  "automaton_ok (la\<lparr>la_firsts := f, la_nullable := n\<rparr>) = automaton_ok la"
proof -
  let ?la = "la\<lparr>la_firsts := f, la_nullable := n\<rparr>"
  have "expands_to ?la (lr0_expand ?la) = expands_to la (lr0_expand la)"
    by (rule ext) (simp add: expands_to_def lr0_expand_def symbol_is_token_def)
  then have c: "lr0_closure_of ?la = lr0_closure_of la" by (simp add: lr0_closure_of_def)
  have f: "la_productions ?la = la_productions la" "la_root_production_id ?la = la_root_production_id la"
    "la_lr0_item_sets ?la = la_lr0_item_sets la" "la_go_to_table ?la = la_go_to_table la"
    "la_non_terminals ?la = la_non_terminals la" by simp_all
  have p: "set_processed ?la = set_processed la" by (rule ext)+ (simp only: set_processed_def c f)
  have o: "kernel_ok ?la = kernel_ok la" by (rule ext)+ (simp only: kernel_ok_def c f)
  show ?thesis by (simp only: automaton_ok_def grammar_ok_def lr0_inv_def p o c f)
qed

text \<open>A parser whose tables have not been generated.\<close>

definition no_tables :: "'a lalr1_parser \<Rightarrow> bool" where
  "no_tables la \<longleftrightarrow> la_lr0_item_sets la = [] \<and> la_lr1_item_sets la = [] \<and>
     (\<forall>i. la_go_to_table la i = []) \<and> la_root_item_set la = None"

lemma la_generate_tables:
  assumes gen: "la_generate ord key_order la = Some (Inr la')" and g: "grammar_ok la" and fresh: "no_tables la"
  shows "actions_ok la' \<and> automaton_ok la' \<and> la_productions la' = la_productions la \<and>
    la_root_production_id la' = la_root_production_id la"
proof -
  from gen obtain lx la1 la2 la3 where
    a: "generate_lr0_kernels key_order (la\<lparr>la_lexer := lx\<rparr>) = Some (Inr la1)" "generate_first_sets la1 = Some la2"
      "generate_lr1_item_sets la2 = Some (Inr la3)" "generate_lalr1_parsing_table la3 = Inr la'"
    by (auto simp: la_generate_def cbind_def split: option.splits sum.splits if_splits)
  let ?zs = "la_terminals la @ key_order (map fst (la_non_terminals la))"
  have "grammar_ok (la\<lparr>la_lexer := lx\<rparr>)" using g by (simp add: grammar_ok_def)
  with generate_lr0_kernels_inv [OF a(1), of ?zs] fresh obtain m t where
    la1: "lr0_inv (set ?zs) {} [] la1" "la1 = la\<lparr>la_lexer := lx, la_lr0_item_sets := m, la_go_to_table := t\<rparr>"
    by (auto simp: no_tables_def fun_eq_iff)
  then have "automaton_ok la1" using g by (auto simp: automaton_ok_def grammar_ok_def)
  moreover from a(2) obtain f n where la2: "la2 = la1\<lparr>la_firsts := f, la_nullable := n\<rparr>"
    by (auto simp: generate_first_sets_def split: option.splits prod.splits)
  ultimately have ok2: "automaton_ok la2" by simp
  then obtain xs where "lr0_inv xs {} [] la2" "grammar_ok la2" by (auto simp: automaton_ok_def)
  from generate_lr1_item_sets_inv [OF a(3) this] la2 la1(2) fresh
  have la3: "keeps_lr0 la2 la3" "lr1_inv la3" by (simp_all add: no_tables_def)
  from ok2 have "automaton_ok la3"
    using keeps_inv [OF la3(1)] keeps_grammar [OF la3(1)] by (simp add: automaton_ok_def)
  from generate_action_table [OF a(4) la3(2) this] la3(1) la2 la1(2) show ?thesis by (auto simp: keeps_lr0_def)
qed

end
