(* ===== verification/Lalr_Correct.thy ===== *)
theory Lalr_Correct
  imports Lalr_Automaton Lalr_Parse
begin

text \<open>
  The parse is correct: the stacks of the parser are a path of the automaton and the trees of what
  has been shifted, so that a tree the parse returns is a derivation of the start symbol whose
  leaves are the tokens the lexer has given.
\<close>

section \<open>Paths of the automaton\<close>

text \<open>The stack of states, the top first, with the symbols between them.\<close>

fun state_path :: "'a lalr1_parser \<Rightarrow> nat list \<Rightarrow> nat list \<Rightarrow> bool" where
  "state_path la [s] [] \<longleftrightarrow> s = 0"
| "state_path la (t # s # ss) (x # xs) \<longleftrightarrow> state_next la s x = Some t \<and> state_path la (s # ss) xs"
| "state_path la _ _ \<longleftrightarrow> False"

lemma state_path_length: "state_path la ss xs \<Longrightarrow> length ss = Suc (length xs)"
  by (induction la ss xs rule: state_path.induct) auto

lemma state_path_drop: "state_path la ss xs \<Longrightarrow> n \<le> length xs \<Longrightarrow> state_path la (drop n ss) (drop n xs)"
proof (induction la ss xs arbitrary: n rule: state_path.induct)
  case (2 la t s ss x xs)
  then show ?case by (cases n) auto
qed auto

lemma state_path_push: "state_path la (s # ss) xs \<Longrightarrow> state_next la s x = Some t \<Longrightarrow> state_path la (t # s # ss) (x # xs)"
  by simp

lemma start_item_dot:
  assumes ok: "automaton_ok la" and it: "mk_item p d l \<in> state_items la 0"
  shows "d = 0"
proof (rule ccontr)
  assume d: "d \<noteq> 0"
  from it obtain k c where i: "(k, 0, c) \<in> sets_view (la_lr0_item_sets la)" by (auto simp: state_items_def)
  from it automaton_view(1,2) [OF ok i] have "mk_item p d l \<in> lr0_closure_of la (set k)" by simp
  from lr0_closure_moved [OF this] ok d have "mk_item p d l \<in> set k" by (simp add: automaton_ok_def)
  with automaton_view(3) [OF ok i] d show False by (simp add: kernel_ok_def)
qed

text \<open>The symbols below a state with an item end with what is before its dot.\<close>

lemma state_path_handle:
  assumes ok: "automaton_ok la"
  shows "state_path la ss xs \<Longrightarrow> mk_item p d l \<in> state_items la (hd ss) \<Longrightarrow>
    d \<le> length xs \<and> rev (take d xs) = take d (pr_body (la_productions la ! p)) \<and>
    mk_item p 0 l \<in> state_items la (ss ! d)"
proof (induction d arbitrary: ss xs)
  case 0
  then show ?case by (cases ss) auto
next
  case (Suc d)
  from Suc.prems consider "ss = [0]" | t s ss' x xs' where "ss = t # s # ss'" "xs = x # xs'"
    by (cases "(la, ss, xs)" rule: state_path.cases) auto
  then show ?case
  proof cases
    case 1
    with start_item_dot [OF ok] Suc.prems(2) show ?thesis by force
  next
    case 2
    with Suc.prems have l: "state_next la s x = Some t" "state_path la (s # ss') xs'" by auto
    from state_next_moves [OF ok l(1)] Suc.prems(2) 2 have m: "mk_item p d l \<in> state_items la s"
      "d < length (pr_body (la_productions la ! p))" "pr_body (la_productions la ! p) ! d = x" by auto
    from Suc.IH [OF l(2)] m(1) 2 m(2,3) show ?thesis by (auto simp: take_Suc_conv_app_nth)
  qed
qed

section \<open>Derivation trees\<close>

definition rule_result :: "'a semantic_rule option \<Rightarrow> 'a matched_symbol list \<Rightarrow> 'a option \<Rightarrow> bool" where
  "rule_result rule symbols ast \<longleftrightarrow>
     (case rule of None \<Rightarrow> ast = None | Some f \<Rightarrow> \<exists>mem. f mem symbols = Inr ast)"

inductive parse_tree :: "'a production list \<Rightarrow> nat \<Rightarrow> 'a matched_symbol \<Rightarrow> bool" for g where
  tree_token: "tk_type_ids t = Some types \<Longrightarrow> x \<in> set types \<Longrightarrow> parse_tree g x (MatchedToken t)"
| tree_node: "p < length g \<Longrightarrow> list_all2 (parse_tree g) (pr_body (g ! p)) ms \<Longrightarrow>
    rule_result (pr_semantic_rule (g ! p)) ms ast \<Longrightarrow> x = pr_head (g ! p) \<Longrightarrow> parse_tree g x (NonTerminal p ms ast)"

inductive_simps parse_tree_simps: "parse_tree g x (MatchedToken t)" "parse_tree g x (NonTerminal p ms ast)"

fun fringe :: "'a matched_symbol \<Rightarrow> token list" where
  "fringe (MatchedToken t) = [t]"
| "fringe (NonTerminal p ms ast) = concat (map fringe ms)"

section \<open>The invariant of the parse\<close>

definition same_tables :: "'a lalr1_parser \<Rightarrow> 'a lalr1_parser \<Rightarrow> bool" where
  "same_tables la0 la \<longleftrightarrow> la_productions la = la_productions la0 \<and> la_lr1_item_sets la = la_lr1_item_sets la0"

definition stack_ok :: "'a lalr1_parser \<Rightarrow> 'a lalr1_parser \<Rightarrow> token list \<Rightarrow> bool" where
  "stack_ok la0 la ts \<longleftrightarrow> same_tables la0 la \<and>
     (\<exists>xs. state_path la0 (la_parse_stack_states la) xs \<and>
        list_all2 (parse_tree (la_productions la0)) xs (la_parse_stack_matches la)) \<and>
     concat (map fringe (rev (la_parse_stack_matches la))) = ts"

lemma pop_symbols_enough:
  "n \<le> length states \<Longrightarrow> n \<le> length matches \<Longrightarrow>
     pop_symbols n symbols (states, matches) = Inr (rev (take n matches) @ symbols, drop n states, drop n matches)"
proof (induction n arbitrary: symbols states matches)
  case (Suc n)
  then show ?case by (cases states; cases matches) auto
qed simp

lemma la_actions_top:
  assumes "la_actions la = Inr actions"
  shows "\<exists>i ss s. la_parse_stack_states la = i # ss \<and> sets_get i (la_lr1_item_sets la) = Inr s \<and> actions = is_actions s"
  using assms by (auto simp: la_actions_def split: list.splits)

lemma la_action_entry:
  assumes ok: "actions_ok la0" "same_tables la0 la" and a: "la_actions la = Inr actions" "get_action x actions = Inr a"
  shows "\<exists>i ss. la_parse_stack_states la = i # ss \<and> entry_ok la0 (state_items la0 i) i x a"
proof -
  from la_actions_top [OF a(1)] obtain i ss s where
    s: "la_parse_stack_states la = i # ss" "sets_get i (la_lr1_item_sets la) = Inr s" "actions = is_actions s" by blast
  from table_entry [OF ok(1), of i s x a] s a(2) ok(2) show ?thesis by (auto simp: same_tables_def)
qed

lemma push_ok:
  assumes ok: "actions_ok la0" and st: "stack_ok la0 la ts"
    and a: "la_actions la = Inr actions" "get_action x actions = Inr (ActShift i)"
    and m: "parse_tree (la_productions la0) x m"
  shows "stack_ok la0 (la\<lparr>la_parse_stack_states := i # la_parse_stack_states la,
    la_parse_stack_matches := m # la_parse_stack_matches la\<rparr>) (ts @ fringe m)"
proof -
  from st have same: "same_tables la0 la" by (simp add: stack_ok_def)
  from st obtain xs where xs: "state_path la0 (la_parse_stack_states la) xs"
    "list_all2 (parse_tree (la_productions la0)) xs (la_parse_stack_matches la)" by (auto simp: stack_ok_def)
  from la_action_entry [OF ok same a] obtain s ss where s: "la_parse_stack_states la = s # ss"
    "state_next la0 s x = Some i" by (auto simp: entry_ok_def state_next_def)
  have "state_path la0 (i # s # ss) (x # xs)" using state_path_push [of la0 s ss xs x i] xs(1) s by simp
  with xs(2) m s(1) st same show ?thesis
    by (auto simp: stack_ok_def same_tables_def intro!: exI [of _ "x # xs"])
qed

lemma run_semantic_rule_result:
  assumes "run_semantic_rule p t symbols la = Inr (ast, la')"
  shows "rule_result (pr_semantic_rule (la_productions la ! p)) symbols ast \<and>
    (\<exists>input. la' = la\<lparr>la_input_buffer := input\<rparr>)"
proof (cases "pr_semantic_rule (la_productions la ! p)")
  case None
  with assms have "ast = None" "la' = la" by (simp_all add: run_semantic_rule_def)
  with None show ?thesis by (auto simp: rule_result_def intro: exI [of _ "la_input_buffer la"])
next
  case (Some rule)
  define la1 where "la1 = la\<lparr>la_input_buffer := ib_set_consumed_pos (la_input_buffer la)
    (if tk_start_pos t = 0 then ib_size (la_input_buffer la) - 1 else tk_start_pos t - 1)\<rparr>"
  have "run_semantic_rule p t symbols la = rbind (rule (la_memory la1) symbols) (\<lambda>ast. Inr (ast, la1))"
    by (simp only: run_semantic_rule_def Some option.case Let_def la1_def)
  with assms have "rule (la_memory la1) symbols = Inr ast" "la' = la1" by auto
  with Some show ?thesis by (auto simp: rule_result_def la1_def)
qed

text \<open>A reduction finds the whole body on the stacks.\<close>

lemma reduce_ready:
  assumes ok: "actions_ok la0" "automaton_ok la0" and st: "stack_ok la0 la ts"
    and a: "la_actions la = Inr actions" "get_action x actions = Inr (ActReduce p)"
  shows "\<exists>symbols states matches. p < length (la_productions la0) \<and>
    pop_symbols (length (pr_body (la_productions la ! p))) [] (la_parse_stack_states la, la_parse_stack_matches la) =
      Inr (symbols, states, matches) \<and>
    list_all2 (parse_tree (la_productions la0)) (pr_body (la_productions la0 ! p)) symbols \<and>
    (\<forall>input nt. stack_ok la0 (la\<lparr>la_next_token := nt, la_parse_stack_states := states,
       la_parse_stack_matches := matches, la_input_buffer := input\<rparr>) (concat (map fringe (rev matches)))) \<and>
    concat (map fringe (rev matches)) @ concat (map fringe symbols) = ts"
proof -
  let ?g = "la_productions la0" and ?ss = "la_parse_stack_states la" and ?ms = "la_parse_stack_matches la"
  from st have same: "same_tables la0 la" by (simp add: stack_ok_def)
  then have g: "la_productions la = ?g" by (simp add: same_tables_def)
  from st obtain xs where xs: "state_path la0 ?ss xs" "list_all2 (parse_tree ?g) xs ?ms" by (auto simp: stack_ok_def)
  let ?n = "length (pr_body (?g ! p))"
  from la_action_entry [OF ok(1) same a] obtain s ss where s: "?ss = s # ss"
    "mk_item p ?n cNullSymbol \<in> state_items la0 s" by (auto simp: entry_ok_def)
  from state_path_handle [OF ok(2) xs(1), of p ?n cNullSymbol] s have h: "?n \<le> length xs"
    "rev (take ?n xs) = pr_body (?g ! p)" "mk_item p 0 cNullSymbol \<in> state_items la0 (?ss ! ?n)" by auto
  have len: "?n \<le> length ?ss" "?n \<le> length ?ms"
    using h(1) state_path_length [OF xs(1)] list_all2_lengthD [OF xs(2)] by simp_all
  from h(3) obtain k c where kc: "(k, ?ss ! ?n, c) \<in> sets_view (la_lr0_item_sets la0)" "mk_item p 0 cNullSymbol \<in> set c"
    by (auto simp: state_items_def)
  have gr: "grammar_ok la0" using ok(2) by (simp add: automaton_ok_def)
  have "item_ok ?g (mk_item p 0 cNullSymbol)"
    using lr0_closure_ok [OF gr kernel_items_ok [OF gr automaton_view(3) [OF ok(2) kc(1)]]]
      kc(2) automaton_view(2) [OF ok(2) kc(1)] by blast
  then have p: "p < length ?g" by (simp add: item_ok_def)
  have body: "list_all2 (parse_tree ?g) (pr_body (?g ! p)) (rev (take ?n ?ms))"
    using list_all2_takeI [OF xs(2), of ?n] by (subst h(2) [symmetric]) (simp only: list_all2_rev)
  have rest: "state_path la0 (drop ?n ?ss) (drop ?n xs)" "list_all2 (parse_tree ?g) (drop ?n xs) (drop ?n ?ms)"
    using state_path_drop [OF xs(1) h(1)] xs(2) by (simp_all add: list_all2_dropI)
  have "concat (map fringe (rev (drop ?n ?ms))) @ concat (map fringe (rev (take ?n ?ms))) =
      concat (map fringe (rev (take ?n ?ms @ drop ?n ?ms)))"
    by (simp only: rev_append map_append concat_append)
  also have "\<dots> = ts" using st by (simp add: stack_ok_def)
  finally have fr: "concat (map fringe (rev (drop ?n ?ms))) @ concat (map fringe (rev (take ?n ?ms))) = ts" .
  show ?thesis
    by (intro exI [of _ "rev (take ?n ?ms)"] exI [of _ "drop ?n ?ss"] exI [of _ "drop ?n ?ms"])
      (use p g len body rest same fr in \<open>auto simp: pop_symbols_enough stack_ok_def same_tables_def\<close>)
qed

lemma la_reduce_ok:
  assumes ok: "actions_ok la0" "automaton_ok la0" and st: "stack_ok la0 la ts"
    and a: "la_actions la = Inr actions" "get_action x actions = Inr (ActReduce p)"
    and red: "la_reduce p t la = Inr la'"
  shows "stack_ok la0 la' ts \<and> la_next_token la' = Some t"
proof -
  from reduce_ready [OF ok st a] obtain symbols states matches where
    p: "p < length (la_productions la0)" and
    pop: "pop_symbols (length (pr_body (la_productions la ! p))) [] (la_parse_stack_states la, la_parse_stack_matches la) =
      Inr (symbols, states, matches)" and
    body: "list_all2 (parse_tree (la_productions la0)) (pr_body (la_productions la0 ! p)) symbols" and
    rest: "\<And>input nt. stack_ok la0 (la\<lparr>la_next_token := nt, la_parse_stack_states := states,
       la_parse_stack_matches := matches, la_input_buffer := input\<rparr>) (concat (map fringe (rev matches)))" and
    fr: "concat (map fringe (rev matches)) @ concat (map fringe symbols) = ts" by blast
  let ?la1 = "la\<lparr>la_next_token := Some t, la_parse_stack_states := states, la_parse_stack_matches := matches\<rparr>"
  from red pop obtain ast la2 actions2 a2 where
    r0: "run_semantic_rule p t symbols ?la1 = Inr (ast, la2)" "la_actions la2 = Inr actions2"
      "get_action (pr_head (la_productions la2 ! p)) actions2 = Inr a2"
      "(case a2 of ActShift i \<Rightarrow> Inr (la2\<lparr>la_parse_stack_states := i # la_parse_stack_states la2,
        la_parse_stack_matches := NonTerminal p symbols ast # la_parse_stack_matches la2\<rparr>) | _ \<Rightarrow> Inl BadVariantAccess) = Inr la'"
    unfolding la_reduce_def Let_def by auto
  then obtain i where
    r: "run_semantic_rule p t symbols ?la1 = Inr (ast, la2)" "la_actions la2 = Inr actions2"
      "get_action (pr_head (la_productions la2 ! p)) actions2 = Inr (ActShift i)"
      "la' = la2\<lparr>la_parse_stack_states := i # la_parse_stack_states la2,
        la_parse_stack_matches := NonTerminal p symbols ast # la_parse_stack_matches la2\<rparr>"
    by (cases a2) auto
  from run_semantic_rule_result [OF r(1)] obtain input where
    res: "rule_result (pr_semantic_rule (la_productions la ! p)) symbols ast" and la2: "la2 = ?la1\<lparr>la_input_buffer := input\<rparr>"
    by auto
  have st2: "stack_ok la0 la2 (concat (map fringe (rev matches)))" using rest [of input "Some t"] la2 by simp
  have g: "la_productions la = la_productions la0" "la_productions la2 = la_productions la0"
    using st st2 by (simp_all add: stack_ok_def same_tables_def)
  have "parse_tree (la_productions la0) (pr_head (la_productions la2 ! p)) (NonTerminal p symbols ast)"
    using p body res g by (simp add: parse_tree_simps)
  from push_ok [OF ok(1) st2 r(2,3) this] fr r(4) la2 show ?thesis by simp
qed

section \<open>The steps of the loop\<close>

definition next_terminal ::
  "('r, char) read_fun \<Rightarrow> 'a lalr1_parser \<Rightarrow> 'r \<Rightarrow> token \<Rightarrow> 'a lalr1_parser \<Rightarrow> 'r \<Rightarrow> bool" where
  "next_terminal read la reader t la' reader' \<longleftrightarrow>
     (\<exists>done input. ib_read_if_safe read (la_input_buffer la) reader = Inr (done, input, reader') \<and>
        la_get_next_symbol (la\<lparr>la_input_buffer := input\<rparr>) = Some (Inr (t, la')))"

text \<open>The token that a step takes from the lexer, if it takes one.\<close>

definition scanned :: "'a lalr1_parser \<Rightarrow> token \<Rightarrow> token list" where
  "scanned la t = (if la_next_token la = None then [t] else [])"

inductive parse_steps ::
  "('r, char) read_fun \<Rightarrow> 'a lalr1_parser \<Rightarrow> 'r \<Rightarrow> token list \<Rightarrow> 'a lalr1_parser \<Rightarrow> 'r \<Rightarrow> bool" for read where
  steps_refl: "parse_steps read la reader [] la reader"
| steps_step: "next_terminal read la reader t la1 reader1 \<Longrightarrow> la_parse_advance t la1 = Inr (SymbolTaken la2) \<Longrightarrow>
    parse_steps read la2 reader1 ts la3 reader3 \<Longrightarrow> parse_steps read la reader (scanned la t @ ts) la3 reader3"

inductive_cases parse_steps_cases: "parse_steps read la reader ts la' reader'"

text \<open>The tokens of the stack, and the one that is to be looked at again.\<close>

definition parse_ok :: "'a lalr1_parser \<Rightarrow> 'a lalr1_parser \<Rightarrow> token list \<Rightarrow> bool" where
  "parse_ok la0 la ts \<longleftrightarrow> (\<exists>us. stack_ok la0 la us \<and>
     us @ (case la_next_token la of None \<Rightarrow> [] | Some t \<Rightarrow> [t]) = ts)"

lemma next_terminal_ok:
  assumes "next_terminal read la reader t la' reader'" "parse_ok la0 la ts"
  shows "\<exists>us. stack_ok la0 la' us \<and> la_next_token la' = None \<and> us @ [t] = ts @ scanned la t"
proof -
  from assms(1) obtain input where n: "la_get_next_symbol (la\<lparr>la_input_buffer := input\<rparr>) = Some (Inr (t, la'))"
    by (auto simp: next_terminal_def)
  from assms(2) obtain us where us: "stack_ok la0 la us"
    "us @ (case la_next_token la of None \<Rightarrow> [] | Some t \<Rightarrow> [t]) = ts" by (auto simp: parse_ok_def)
  have "la_productions la' = la_productions la \<and> la_lr1_item_sets la' = la_lr1_item_sets la \<and>
      la_parse_stack_states la' = la_parse_stack_states la \<and> la_parse_stack_matches la' = la_parse_stack_matches la \<and>
      la_next_token la' = None \<and> (\<forall>u. la_next_token la = Some u \<longrightarrow> u = t)"
    using n by (auto simp: la_get_next_symbol_def cbind_def split: option.splits sum.splits if_splits)
  with us show ?thesis
    by (intro exI [of _ us]) (auto simp: stack_ok_def same_tables_def scanned_def split: option.splits)
qed

lemma try_types_taken:
  assumes "try_types types t la = Inr r" "r \<noteq> SymbolRefused"
  shows "\<exists>x \<in> set types. la_parse_symbol x t la = Inr r"
  using assms
proof (induction types)
  case (Cons x types)
  then show ?case by (cases "la_parse_symbol x t la") (auto split: symbol_outcome.splits)
qed simp

lemma la_parse_advance_taken:
  assumes "la_parse_advance t la = Inr r" "r \<noteq> SymbolRefused"
  shows "\<exists>types x. tk_type_ids t = Some types \<and> x \<in> set types \<and> la_parse_symbol x t la = Inr r"
  using assms try_types_taken by (fastforce simp: la_parse_advance_def split: option.splits)

lemma la_parse_symbol_result:
  assumes "la_parse_symbol x t la = Inr r"
  obtains actions a where "la_actions la = Inr actions" "get_action x actions = Inr a"
    "\<And>b. a = ActBool b \<Longrightarrow> r = (if b then SymbolAccepted else SymbolRefused)"
    "\<And>i. a = ActShift i \<Longrightarrow> r = SymbolTaken (la\<lparr>la_parse_stack_states := i # la_parse_stack_states la,
       la_parse_stack_matches := MatchedToken t # la_parse_stack_matches la\<rparr>)"
    "\<And>p. a = ActReduce p \<Longrightarrow> \<exists>la'. la_reduce p t la = Inr la' \<and> r = SymbolTaken la'"
proof -
  from assms obtain actions a where a: "la_actions la = Inr actions" "get_action x actions = Inr a"
    by (auto simp: la_parse_symbol_def)
  show thesis using assms a by (intro that [OF a]) (auto simp: la_parse_symbol_def)
qed

lemma advance_ok:
  assumes ok: "actions_ok la0" "automaton_ok la0" and st: "stack_ok la0 la us" "la_next_token la = None"
    and adv: "la_parse_advance t la = Inr (SymbolTaken la')"
  shows "parse_ok la0 la' (us @ [t])"
proof -
  from la_parse_advance_taken [OF adv] obtain types x where
    x: "tk_type_ids t = Some types" "x \<in> set types" "la_parse_symbol x t la = Inr (SymbolTaken la')" by auto
  from x(3) obtain actions a where a: "la_actions la = Inr actions" "get_action x actions = Inr a"
    and bool: "\<And>b. a \<noteq> ActBool b"
    and shift: "\<And>i. a = ActShift i \<Longrightarrow> la' = la\<lparr>la_parse_stack_states := i # la_parse_stack_states la,
       la_parse_stack_matches := MatchedToken t # la_parse_stack_matches la\<rparr>"
    and reduce: "\<And>p. a = ActReduce p \<Longrightarrow> la_reduce p t la = Inr la'"
  proof (rule la_parse_symbol_result)
    fix actions a
    assume h: "la_actions la = Inr actions" "get_action x actions = Inr a"
      "\<And>b. a = ActBool b \<Longrightarrow> SymbolTaken la' = (if b then SymbolAccepted else SymbolRefused)"
      "\<And>i. a = ActShift i \<Longrightarrow> SymbolTaken la' = SymbolTaken (la\<lparr>la_parse_stack_states := i # la_parse_stack_states la,
         la_parse_stack_matches := MatchedToken t # la_parse_stack_matches la\<rparr>)"
      "\<And>p. a = ActReduce p \<Longrightarrow> \<exists>la1. la_reduce p t la = Inr la1 \<and> SymbolTaken la' = SymbolTaken la1"
    show thesis
    proof (rule that [OF h(1,2)])
      show "a \<noteq> ActBool b" for b using h(3) [of b] by (cases b) auto
    qed (use h(4,5) in auto)
  qed
  show ?thesis
  proof (cases a)
    case (ActShift i)
    have "parse_tree (la_productions la0) x (MatchedToken t)" using x(1,2) by (simp add: parse_tree_simps)
    from push_ok [OF ok(1) st(1) a(1) _ this] a(2) ActShift have
      "stack_ok la0 (la\<lparr>la_parse_stack_states := i # la_parse_stack_states la,
        la_parse_stack_matches := MatchedToken t # la_parse_stack_matches la\<rparr>) (us @ [t])" by simp
    with shift [OF ActShift] st(2) show ?thesis by (simp add: parse_ok_def)
  next
    case (ActReduce p)
    from la_reduce_ok [OF ok st(1) a(1) _ reduce [OF this]] a(2) ActReduce show ?thesis by (simp add: parse_ok_def)
  qed (use bool in simp)
qed

lemma parse_steps_ok:
  assumes "parse_steps read la reader ts la' reader'" and ok: "actions_ok la0" "automaton_ok la0"
  shows "parse_ok la0 la us \<Longrightarrow> parse_ok la0 la' (us @ ts)"
  using assms(1)
proof (induction arbitrary: us rule: parse_steps.induct)
  case (steps_step la reader t la1 reader1 la2 ts la3 reader3)
  from next_terminal_ok [OF steps_step.hyps(1) steps_step.prems] obtain vs where
    v: "stack_ok la0 la1 vs" "la_next_token la1 = None" "vs @ [t] = us @ scanned la t" by blast
  from steps_step.IH [OF advance_ok [OF ok v(1,2) steps_step.hyps(2)]] v(3) show ?case by simp
qed simp

text \<open>When the symbol is accepted, the stack holds one tree of the start symbol.\<close>

definition start_symbol :: "'a lalr1_parser \<Rightarrow> nat" where
  "start_symbol la = hd (pr_body (la_productions la ! la_root_production_id la))"

lemma accept_ok:
  assumes ok: "actions_ok la0" "automaton_ok la0" and st: "stack_ok la0 la us"
    and adv: "la_parse_advance t la = Inr SymbolAccepted"
  shows "\<exists>m types. la_parse_stack_matches la = [m] \<and> parse_tree (la_productions la0) (start_symbol la0) m \<and>
    us = fringe m \<and> tk_type_ids t = Some types \<and> symbol_num TokenEnd \<in> set types"
proof -
  let ?g = "la_productions la0" and ?root = "la_root_production_id la0"
  from la_parse_advance_taken [OF adv] obtain types x where
    x: "tk_type_ids t = Some types" "x \<in> set types" "la_parse_symbol x t la = Inr SymbolAccepted" by auto
  from x(3) obtain actions where a: "la_actions la = Inr actions" "get_action x actions = Inr (ActBool True)"
  proof (rule la_parse_symbol_result)
    fix actions a
    assume h: "la_actions la = Inr actions" "get_action x actions = Inr a"
      "\<And>b. a = ActBool b \<Longrightarrow> SymbolAccepted = (if b then SymbolAccepted else (SymbolRefused :: 'a symbol_outcome))"
      "\<And>i. a = ActShift i \<Longrightarrow> SymbolAccepted = SymbolTaken (la\<lparr>la_parse_stack_states := i # la_parse_stack_states la,
         la_parse_stack_matches := MatchedToken t # la_parse_stack_matches la\<rparr>)"
      "\<And>p. a = ActReduce p \<Longrightarrow> \<exists>la'. la_reduce p t la = Inr la' \<and> SymbolAccepted = SymbolTaken la'"
    show thesis
    proof (rule that [OF h(1)])
      show "get_action x actions = Inr (ActBool True)" using h(2-5) by (cases a) (auto split: if_splits)
    qed
  qed
  from st have same: "same_tables la0 la" by (simp add: stack_ok_def)
  from st obtain xs where xs: "state_path la0 (la_parse_stack_states la) xs"
    "list_all2 (parse_tree ?g) xs (la_parse_stack_matches la)" by (auto simp: stack_ok_def)
  from la_action_entry [OF ok(1) same a] obtain s ss where s: "la_parse_stack_states la = s # ss"
    "x = symbol_num TokenEnd" "mk_item ?root 1 cNullSymbol \<in> state_items la0 s" by (auto simp: entry_ok_def)
  have h: "1 \<le> length xs" "rev (take 1 xs) = take 1 (pr_body (?g ! ?root))"
    "mk_item ?root 0 cNullSymbol \<in> state_items la0 ((s # ss) ! 1)"
    using state_path_handle [OF ok(2) xs(1), of ?root 1 cNullSymbol] s by simp_all
  from h(1) obtain x1 xs1 where xs1: "xs = x1 # xs1" by (cases xs) auto
  with xs(1) s(1) obtain s1 ss1 where ss1: "ss = s1 # ss1" "state_next la0 s1 x1 = Some s" "state_path la0 ss xs1"
    by (cases ss) auto
  from root_item_start [OF ok(2) h(3)] ss1(1) have s0: "s1 = 0" by simp
  have "xs1 = []"
  proof (cases xs1)
    case (Cons y ys)
    with ss1(1,3) s0 obtain i where "state_next la0 i y = Some 0" by (cases ss1) auto
    with state_next_not_start [OF ok(2)] show ?thesis by blast
  qed simp
  with xs(2) xs1 obtain m where m: "la_parse_stack_matches la = [m]" "parse_tree ?g x1 m"
    by (auto simp: list_all2_Cons1)
  moreover have "x1 = start_symbol la0"
    using h(2) xs1 ok(2) by (cases "pr_body (?g ! ?root)") (auto simp: start_symbol_def automaton_ok_def grammar_ok_def Let_def)
  moreover have "us = fringe m" using st m(1) by (simp add: stack_ok_def)
  ultimately show ?thesis using x(1,2) s(2) by blast
qed

section \<open>The loop\<close>

lemma la_parse_loop_steps:
  assumes "la_parse_loop read la reader = Some (Inr (accept, la', reader'))"
  shows "\<exists>ts la1 reader1 t la2. parse_steps read la reader ts la1 reader1 \<and>
    next_terminal read la1 reader1 t la2 reader' \<and>
    (if accept then la_parse_advance t la2 = Inr SymbolAccepted \<and> la' = la2
     else la_parse_advance t la2 = Inr SymbolRefused \<and>
       la' = la2\<lparr>la_parse_stack_matches := MatchedToken t # la_parse_stack_matches la2\<rparr>)"
proof -
  have "r = Inr (accept, la', reader') \<Longrightarrow> \<exists>ts la1 reader1 t la2. parse_steps read la reader ts la1 reader1 \<and>
      next_terminal read la1 reader1 t la2 reader' \<and>
      (if accept then la_parse_advance t la2 = Inr SymbolAccepted \<and> la' = la2
       else la_parse_advance t la2 = Inr SymbolRefused \<and>
         la' = la2\<lparr>la_parse_stack_matches := MatchedToken t # la_parse_stack_matches la2\<rparr>)"
    if "la_parse_loop read la reader = Some r" for r
    using that
  proof (induction arbitrary: accept la' reader' rule: la_parse_loop.raw_induct [rotated, consumes 1, case_names 1])
    case (1 f read la reader r)
    from "1.hyps" "1.prems" obtain dn input reader1 t la1 o1 where
      s: "ib_read_if_safe read (la_input_buffer la) reader = Inr (dn, input, reader1)"
        "la_get_next_symbol (la\<lparr>la_input_buffer := input\<rparr>) = Some (Inr (t, la1))" "la_parse_advance t la1 = Inr o1"
      by (auto split: option.splits sum.splits prod.splits)
    have nt: "next_terminal read la reader t la1 reader1" using s(1,2) by (auto simp: next_terminal_def)
    show ?case
    proof (cases o1)
      case (SymbolTaken la2)
      with "1.hyps" "1.prems" s have "f read la2 reader1 = Some (Inr (accept, la', reader'))" by auto
      from "1.IH" [OF this refl] obtain ts la3 reader3 t3 la4 where
        i: "parse_steps read la2 reader1 ts la3 reader3" "next_terminal read la3 reader3 t3 la4 reader'"
          "if accept then la_parse_advance t3 la4 = Inr SymbolAccepted \<and> la' = la4
           else la_parse_advance t3 la4 = Inr SymbolRefused \<and>
             la' = la4\<lparr>la_parse_stack_matches := MatchedToken t3 # la_parse_stack_matches la4\<rparr>" by blast
      from steps_step [OF nt s(3) [unfolded SymbolTaken] i(1)] i(2,3) show ?thesis by blast
    qed (use "1.hyps" "1.prems" s nt steps_refl [of read la reader] in \<open>force split: if_splits\<close>)+
  qed
  with assms show ?thesis by blast
qed

text \<open>The state that a parse starts from.\<close>

definition parse_start :: "'a lalr1_parser \<Rightarrow> 'a lalr1_parser" where
  "parse_start la = (la_reset la)\<lparr>la_parse_stack_states := [0]\<rparr>"

lemma parse_start_ok: "parse_ok la (parse_start la) []"
  by (auto simp: parse_ok_def parse_start_def la_reset_def stack_ok_def same_tables_def intro!: exI [of _ "[]"])

lemma la_parse_tree_of_table:
  assumes ok: "actions_ok la" "automaton_ok la" and parse: "la_parse read la reader = Some (Inr (ParsedTree m, la', reader'))"
  shows "\<exists>ts la1 reader1 t la2 types. parse_steps read (parse_start la) reader ts la1 reader1 \<and>
    next_terminal read la1 reader1 t la2 reader' \<and> fringe m @ [t] = ts @ scanned la1 t \<and>
    tk_type_ids t = Some types \<and> symbol_num TokenEnd \<in> set types \<and>
    parse_tree (la_productions la) (start_symbol la) m"
proof -
  from parse obtain root la2 where r: "la_root_item_set la = Some root"
    "la_parse_loop read ((la_reset la)\<lparr>la_parse_stack_states := [root]\<rparr>) reader = Some (Inr (True, la2, reader'))"
    "la_parse_stack_matches la2 = [m]"
    by (auto simp: la_parse_def la_reset_def Let_def cbind_def non_terminal_cast_def
        split: option.splits sum.splits prod.splits if_splits list.splits matched_symbol.splits)
  from r(1) ok(1) have "root = 0" by (simp add: actions_ok_def)
  with la_parse_loop_steps [OF r(2)] obtain ts la1 reader1 t where
    s: "parse_steps read (parse_start la) reader ts la1 reader1" "next_terminal read la1 reader1 t la2 reader'"
      "la_parse_advance t la2 = Inr SymbolAccepted" by (auto simp: parse_start_def)
  from parse_steps_ok [OF s(1) ok parse_start_ok] have "parse_ok la la1 ts" by simp
  from next_terminal_ok [OF s(2) this] obtain us where us: "stack_ok la la2 us" "us @ [t] = ts @ scanned la1 t" by blast
  from accept_ok [OF ok us(1) s(3)] obtain m' types where a: "la_parse_stack_matches la2 = [m']"
    "parse_tree (la_productions la) (start_symbol la) m'" "us = fringe m'" "tk_type_ids t = Some types"
    "symbol_num TokenEnd \<in> set types" by blast
  from a(1) r(3) have "m' = m" by simp
  with s(1,2) us(2) a(2-5) show ?thesis by blast
qed

end
