(* ===== verification/Lalr_Properties.thy ===== *)
theory Lalr_Properties
  imports Lalr_Correct
begin

text \<open>
  The properties of the LALR(1) parser, over the grammars \<^verbatim>\<open>add_production\<close>
  builds, and a run of the generation and of the parse that is evaluated step by step.
\<close>

section \<open>The grammar that is built\<close>

definition symbol_ids_ok :: "lexer \<Rightarrow> bool" where
  "symbol_ids_ok lx \<longleftrightarrow> map snd (lx_symbol_id lx) = [0..<length (lx_symbol_id lx)] \<and> distinct (map fst (lx_symbol_id lx))"

definition start_name :: string where
  "start_name = ''$START_PRIME''"

text \<open>A symbol of a body is the id of a name, and not of the one that is kept for the root.\<close>

definition body_ok :: "lexer \<Rightarrow> nat list \<Rightarrow> bool" where
  "body_ok lx b \<longleftrightarrow> (\<forall>x \<in> set b. \<exists>name. name \<noteq> start_name \<and> map_of (lx_symbol_id lx) name = Some x)"

definition bodies_ok :: "'a lalr1_parser \<Rightarrow> bool" where
  "bodies_ok la \<longleftrightarrow> symbol_ids_ok (la_lexer la) \<and> (la_productions la = [] \<longrightarrow> la_productions_map la = []) \<and>
     (\<forall>h ps. map_of (la_non_terminals la) h = Some ps \<longrightarrow>
        (\<forall>p \<in> set ps. p < length (la_productions la) \<and> pr_head (la_productions la ! p) = h)) \<and>
     (\<forall>p < length (la_productions la). body_ok (la_lexer la) (pr_body (la_productions la ! p)))"

definition productions_ok :: "'a lalr1_parser \<Rightarrow> bool" where
  "productions_ok la \<longleftrightarrow> bodies_ok la \<and>
     (la_productions la \<noteq> [] \<longrightarrow> la_root_production_id la < length (la_productions la) \<and>
        length (pr_body (la_productions la ! la_root_production_id la)) = 1 \<and>
        map_of (lx_symbol_id (la_lexer la)) start_name = Some (pr_head (la_productions la ! la_root_production_id la)))"

lemma symbols_inj:
  assumes "symbol_ids_ok lx" "map_of (lx_symbol_id lx) a = Some i" "map_of (lx_symbol_id lx) b = Some i"
  shows "a = b"
proof -
  from assms(1) have d: "distinct (map snd (lx_symbol_id lx))" by (simp add: symbol_ids_ok_def)
  from assms(2,3) have "(a, i) \<in> set (lx_symbol_id lx)" "(b, i) \<in> set (lx_symbol_id lx)" by (simp_all add: map_of_SomeD)
  with d show ?thesis by (metis distinct_map eq_snd_iff fst_conv inj_onD)
qed

lemma productions_grammar_ok:
  assumes "productions_ok la" "la_productions la \<noteq> []"
  shows "grammar_ok la"
proof -
  let ?root = "la_productions la ! la_root_production_id la"
  from assms have s: "symbol_ids_ok (la_lexer la)" "map_of (lx_symbol_id (la_lexer la)) start_name = Some (pr_head ?root)"
    by (simp_all add: productions_ok_def bodies_ok_def)
  have "pr_head ?root \<notin> set (pr_body (la_productions la ! p))" if "p < length (la_productions la)" for p
  proof
    assume "pr_head ?root \<in> set (pr_body (la_productions la ! p))"
    with that assms(1) obtain name where "name \<noteq> start_name"
      "map_of (lx_symbol_id (la_lexer la)) name = Some (pr_head ?root)"
      unfolding productions_ok_def bodies_ok_def body_ok_def by blast
    with symbols_inj [OF s(1) s(2)] show False by blast
  qed
  with assms show ?thesis by (simp add: productions_ok_def bodies_ok_def grammar_ok_def Let_def)
qed

text \<open>Interning keeps the ids there are.\<close>

definition symbols_grow :: "lexer \<Rightarrow> lexer \<Rightarrow> bool" where
  "symbols_grow lx lx' \<longleftrightarrow> (\<forall>name i. map_of (lx_symbol_id lx) name = Some i \<longrightarrow> map_of (lx_symbol_id lx') name = Some i)"

lemma symbols_grow_refl [simp]: "symbols_grow lx lx"
  by (simp add: symbols_grow_def)

lemma symbols_grow_trans: "symbols_grow lx lx1 \<Longrightarrow> symbols_grow lx1 lx2 \<Longrightarrow> symbols_grow lx lx2"
  by (simp add: symbols_grow_def)

lemma body_ok_grow: "body_ok lx b \<Longrightarrow> symbols_grow lx lx' \<Longrightarrow> body_ok lx' b"
  by (fastforce simp: body_ok_def symbols_grow_def)

lemma intern_symbol_ok:
  assumes "intern_symbol name lx = (i, lx')" "symbol_ids_ok lx"
  shows "symbol_ids_ok lx' \<and> symbols_grow lx lx' \<and> map_of (lx_symbol_id lx') name = Some i"
proof (cases "map_of (lx_symbol_id lx) name")
  case None
  then have fresh: "name \<notin> fst ` set (lx_symbol_id lx)" by (simp add: map_of_eq_None_iff)
  with None assms show ?thesis
    by (auto simp: intern_symbol_def symbol_ids_ok_def symbols_grow_def map_add_def Let_def)
qed (use assms in \<open>auto simp: intern_symbol_def\<close>)

lemma intern_symbols_ok:
  "intern_symbols names lx = (is, lx') \<Longrightarrow> symbol_ids_ok lx \<Longrightarrow> start_name \<notin> set names \<Longrightarrow>
     symbol_ids_ok lx' \<and> symbols_grow lx lx' \<and> body_ok lx' is \<and> length is = length names"
proof (induction names arbitrary: lx "is" lx')
  case (Cons name names)
  obtain i lx1 where i: "intern_symbol name lx = (i, lx1)" by force
  obtain js lx2 where js: "intern_symbols names lx1 = (js, lx2)" by force
  from intern_symbol_ok [OF i Cons.prems(2)] have s1: "symbol_ids_ok lx1" "symbols_grow lx lx1"
    "map_of (lx_symbol_id lx1) name = Some i" by blast+
  from Cons.IH [OF js s1(1)] Cons.prems(3) have s2: "symbol_ids_ok lx2" "symbols_grow lx1 lx2" "body_ok lx2 js"
    "length js = length names" by auto
  from Cons.prems(1) i js have r: "is = i # js" "lx' = lx2" by simp_all
  from s1(3) s2(2) have "map_of (lx_symbol_id lx2) name = Some i" unfolding symbols_grow_def by blast
  with s2 Cons.prems(3) have "body_ok lx2 (i # js)" by (auto simp: body_ok_def intro!: exI [of _ name])
  with r s1(2) s2 symbols_grow_trans show ?case by auto
qed (simp add: body_ok_def)

text \<open>A production is appended, or the rule of one that is there is replaced.\<close>

lemma add_one_production_ok:
  assumes add: "add_one_production head body rule la = (n, created, la')" and ok: "bodies_ok la"
    and names: "start_name \<notin> set body"
  shows "bodies_ok la' \<and> symbols_grow (la_lexer la) (la_lexer la') \<and> la_root_production_id la' = la_root_production_id la \<and>
    n = length (la_productions la) \<and> created = (map_of (la_productions_map la) (head, body) = None) \<and>
    map_of (lx_symbol_id (la_lexer la')) head \<noteq> None \<and>
    (if created
     then \<exists>b. la_productions la' = la_productions la @ [\<lparr>pr_index = n,
            pr_head = the (map_of (lx_symbol_id (la_lexer la')) head), pr_body = b, pr_semantic_rule = rule\<rparr>] \<and>
            length b = length body
     else map pr_head (la_productions la') = map pr_head (la_productions la) \<and>
       map pr_body (la_productions la') = map pr_body (la_productions la))"
proof -
  obtain h lx1 where h: "intern_symbol head (la_lexer la) = (h, lx1)" by force
  from ok have s0: "symbol_ids_ok (la_lexer la)" by (simp add: bodies_ok_def)
  from intern_symbol_ok [OF h s0] have s1: "symbol_ids_ok lx1" "symbols_grow (la_lexer la) lx1"
    "map_of (lx_symbol_id lx1) head = Some h" by blast+
  show ?thesis
  proof (cases "map_of (la_productions_map la) (head, body)")
    case (Some k)
    let ?gs = "(la_productions la)[k := (la_productions la ! k)\<lparr>pr_semantic_rule := rule\<rparr>]"
    from add h Some have r: "la' = la\<lparr>la_lexer := lx1, la_productions := ?gs\<rparr>" "\<not> created" "n = length (la_productions la)"
      by (auto simp: add_one_production_def)
    have g: "pr_head (?gs ! p) = pr_head (la_productions la ! p)" "pr_body (?gs ! p) = pr_body (la_productions la ! p)"
      if "p < length (la_productions la)" for p
      using that by (cases "k = p"; simp)+
    have "map pr_head ?gs = map pr_head (la_productions la)" "map pr_body ?gs = map pr_body (la_productions la)"
      by (simp_all add: list_eq_iff_nth_eq g)
    moreover have "bodies_ok la'"
      using ok s1(1) body_ok_grow [OF _ s1(2)] by (auto simp: bodies_ok_def r g)
    ultimately show ?thesis using s1 r Some by simp
  next
    case None
    obtain b lx2 where b: "intern_symbols body lx1 = (b, lx2)" by force
    from intern_symbols_ok [OF b s1(1) names] have s2: "symbol_ids_ok lx2" "symbols_grow lx1 lx2" "body_ok lx2 b"
      "length b = length body" by blast+
    have h2: "map_of (lx_symbol_id lx2) head = Some h" using s1(3) s2(2) unfolding symbols_grow_def by blast
    let ?n = "length (la_productions la)" and ?ps = "case map_of (la_non_terminals la) h of None \<Rightarrow> [] | Some ps \<Rightarrow> ps"
    let ?p = "\<lparr>pr_index = ?n, pr_head = h, pr_body = b, pr_semantic_rule = rule\<rparr>"
    from add h None b have r: "la' = la\<lparr>la_lexer := lx2, la_non_terminals := AList.update h (?ps @ [?n]) (la_non_terminals la),
        la_productions_map := la_productions_map la @ [((head, body), ?n)], la_productions := la_productions la @ [?p]\<rparr>"
      "created" "n = ?n"
      by (auto simp: add_one_production_def Let_def)
    note grow = symbols_grow_trans [OF s1(2) s2(2)]
    have "p < Suc ?n \<and> pr_head ((la_productions la @ [?p]) ! p) = x"
      if "map_of (AList.update h (?ps @ [?n]) (la_non_terminals la)) x = Some ps" "p \<in> set ps" for x ps p
      using that ok
      by (cases "x = h") (auto simp: update_conv' bodies_ok_def nth_append less_Suc_eq split: option.splits)
    moreover have "body_ok lx2 (pr_body ((la_productions la @ [?p]) ! p))" if "p < Suc ?n" for p
      using that ok s2(3) body_ok_grow [OF _ grow] by (auto simp: bodies_ok_def nth_append less_Suc_eq)
    ultimately have "bodies_ok la'" using s2(1) by (simp add: r bodies_ok_def)
    then show ?thesis using r grow h2 s2(4) None by simp
  qed
qed

lemma la_add_production_keeps:
  assumes ok: "productions_ok la" and names: "head \<noteq> start_name" "start_name \<notin> set body"
  shows "productions_ok (snd (la_add_production head body rule la)) \<and>
    la_productions (snd (la_add_production head body rule la)) \<noteq> []"
proof -
  obtain n created la1 where a: "add_one_production head body rule la = (n, created, la1)" by (metis prod.exhaust)
  from ok have "bodies_ok la" by (simp add: productions_ok_def)
  from add_one_production_ok [OF a this names(2)]
  have b: "bodies_ok la1" "symbols_grow (la_lexer la) (la_lexer la1)" "la_root_production_id la1 = la_root_production_id la"
    "created = (map_of (la_productions_map la) (head, body) = None)" and
    c: "if created
     then \<exists>b. la_productions la1 = la_productions la @ [\<lparr>pr_index = n,
            pr_head = the (map_of (lx_symbol_id (la_lexer la1)) head), pr_body = b, pr_semantic_rule = rule\<rparr>] \<and>
            length b = length body
     else map pr_head (la_productions la1) = map pr_head (la_productions la) \<and>
       map pr_body (la_productions la1) = map pr_body (la_productions la)" by blast+
  show ?thesis
  proof (cases "la_productions la = []")
    case True
    then have "created" using ok b(4) by (simp add: productions_ok_def bodies_ok_def)
    with c True have one: "length (la_productions la1) = 1" by auto
    obtain root cr la2 where r: "add_one_production start_name [head] None la1 = (root, cr, la2)" by (metis prod.exhaust)
    have map1: "la_productions_map la1 = [((head, body), n)]"
      using a True ok \<open>created\<close>
      by (auto simp: add_one_production_def productions_ok_def bodies_ok_def Let_def split: prod.splits option.splits)
    from add_one_production_ok [OF r b(1)] names map1 one obtain b2 where
      f: "bodies_ok la2" "root = 1" "map_of (lx_symbol_id (la_lexer la2)) start_name \<noteq> None"
        "la_productions la2 = la_productions la1 @ [\<lparr>pr_index = root,
           pr_head = the (map_of (lx_symbol_id (la_lexer la2)) start_name), pr_body = b2, pr_semantic_rule = None\<rparr>]"
        "length b2 = 1"
      by (auto simp: start_name_def)
    have "snd (la_add_production head body rule la) = la2\<lparr>la_root_production_id := root\<rparr>"
      using a r one \<open>created\<close> by (simp add: la_add_production_def start_name_def)
    then show ?thesis using f one by (auto simp: productions_ok_def bodies_ok_def nth_append)
  next
    case False
    have "\<not> (created \<and> length (la_productions la1) = 1)" using c False by (cases created) auto
    then have eq: "snd (la_add_production head body rule la) = la1" using a by (auto simp: la_add_production_def)
    let ?root = "la_root_production_id la"
    from ok False have root: "?root < length (la_productions la)" "length (pr_body (la_productions la ! ?root)) = 1"
      "map_of (lx_symbol_id (la_lexer la)) start_name = Some (pr_head (la_productions la ! ?root))"
      by (simp_all add: productions_ok_def)
    have "?root < length (la_productions la1) \<and> pr_head (la_productions la1 ! ?root) = pr_head (la_productions la ! ?root) \<and>
        pr_body (la_productions la1 ! ?root) = pr_body (la_productions la ! ?root)"
    proof (cases created)
      case True
      with c root(1) show ?thesis by (auto simp: nth_append)
    next
      case False
      with c have m: "map pr_head (la_productions la1) = map pr_head (la_productions la)"
        "map pr_body (la_productions la1) = map pr_body (la_productions la)" by auto
      from map_eq_imp_length_eq [OF m(1)] have "length (la_productions la1) = length (la_productions la)" .
      with m root(1) show ?thesis by (metis nth_map)
    qed
    with root b eq show ?thesis by (auto simp: productions_ok_def symbols_grow_def)
  qed
qed

lemma la_add_rule_keeps:
  assumes "productions_ok la"
  shows "productions_ok (la_add_rule name rule la) \<and> la_productions (la_add_rule name rule la) = la_productions la"
proof -
  let ?lx = "parser_add_rule name rule (la_lexer la)"
  have "symbol_ids_ok (la_lexer la)" using assms by (simp add: productions_ok_def bodies_ok_def)
  then have "symbol_ids_ok ?lx \<and> symbols_grow (la_lexer la) ?lx"
    by (auto simp: parser_add_rule_def lx_add_rule_def symbol_ids_ok_def symbols_grow_def Let_def map_of_eq_None_iff
        split: option.splits)
  moreover from this body_ok_grow have "body_ok (la_lexer la) b \<Longrightarrow> body_ok ?lx b" for b by blast
  ultimately show ?thesis
    using assms by (auto simp: la_add_rule_def Let_def productions_ok_def bodies_ok_def symbols_grow_def)
qed

lemma lalr_new_productions_ok: "productions_ok (lalr_new junk)"
  by (simp add: productions_ok_def bodies_ok_def lalr_new_def symbol_ids_ok_def parser_new_def parser_symbols_def
      upt_rec)

section \<open>A run\<close>

text \<open>The grammar \<open>S \<rightarrow> \<epsilon>\<close> without lexical rules, and the empty input.\<close>

definition eps_grammar :: "unit lalr1_parser" where
  "eps_grammar = snd (la_add_production ''S'' [] None (lalr_new (\<lambda>_. CHR 0x00)))"

definition eps_nfa :: nfa where
  "eps_nfa = \<lparr>nf_states = [ns_new 0], nf_capture_to_tag_id_pair = (\<lambda>_. None), nf_root = 0,
     nf_state_id_generator = 1, nf_tag_id_generator = 0\<rparr>"

lemma eps_nfa: "nfa_of_rules [] = Inr eps_nfa"
  by (simp add: nfa_of_rules_def new_state_def nfa_empty_def nfa_emplace_def generate_id_def nfa_size_def
      nfa_set_root_def eps_nfa_def Let_def)

definition eps_config :: config where
  "eps_config = \<lparr>dc_nfa_state = 0, dc_tag_id_to_reg_ids = [], dc_history = [], dc_lookahead = []\<rparr>"

lemma eps_triples: "transition_triples eps_nfa [eps_config] = []"
  by (simp add: transition_triples_def eps_nfa_def eps_config_def ns_new_def)

lemma eps_closure: "spontaneous_closure eps_nfa eps_config = Some [eps_config]"
  by (simp add: spontaneous_closure_def closure_loop.simps sset_contains_def update_reachable_configs_def
     eps_nfa_def eps_config_def ns_new_def)

definition eps_dfa0 :: dfa where
  "eps_dfa0 = dfa_empty\<lparr>df_reg_handler := rh_new, df_states := [ds_new], df_num_regs := 0\<rparr>"

lemma eps_sel: "nf_capture_to_tag_id_pair eps_nfa = (\<lambda>_. None)" "nf_tag_id_generator eps_nfa = 0" "nf_root eps_nfa = 0"
  "ns_accepting (nf_states eps_nfa ! dc_nfa_state eps_config) = False"
  by (simp_all add: eps_nfa_def eps_config_def ns_new_def)

lemma eps_dfa0: "dfa_generate id eps_nfa = Some (Inr eps_dfa0)"
proof -
  have c: "spontaneous_closure eps_nfa \<lparr>dc_nfa_state = 0, dc_tag_id_to_reg_ids = [], dc_history = [], dc_lookahead = []\<rparr> = Some [eps_config]"
    using eps_closure by (simp add: eps_config_def)
  have d: "ns_accepting (nf_states eps_nfa ! 0) = False" "transition_triples eps_nfa [\<lparr>dc_nfa_state = 0, dc_tag_id_to_reg_ids = [], dc_history = [], dc_lookahead = []\<rparr>] = []"
    using eps_triples by (simp_all add: eps_nfa_def ns_new_def eps_config_def)
  show ?thesis
    by (simp add: d dfa_generate_def initialize_registers_def c create_or_get_dfa_state_def dfa_new_state_def dfa_state_add_config_def
     generate_loop.simps smap_at_def get_transitions_def eps_triples eps_dfa0_def dfa_empty_def Let_def rh_get_num_regs_def rh_new_def eps_sel u32_def config_less_def tag_ops_eq_def eps_config_def del: rbind_eq_Inr)
qed

definition eps_lexer0 :: lexer where
  "eps_lexer0 = (la_lexer eps_grammar)\<lparr>lx_dfa := Some eps_dfa0\<rparr>"
lemma eps_lexer0: "lx_generate id (la_lexer eps_grammar) = Some (Inr eps_lexer0)"
  by (simp add: lx_generate_def eps_lexer0_def eps_grammar_def la_add_production_def add_one_production_def lalr_new_def parser_new_def lx_new_def parser_symbols_def intern_symbol_def eps_nfa eps_dfa0 dfa_get_root_def Let_def eps_dfa0_def dfa_empty_def ds_new_def ds_get_transition_def eps_sel)

definition eps_productions :: "unit production list" where
  "eps_productions = [\<lparr>pr_index = 0, pr_head = 7, pr_body = [], pr_semantic_rule = None\<rparr>,
     \<lparr>pr_index = 1, pr_head = 8, pr_body = [7], pr_semantic_rule = None\<rparr>]"
lemma eps_parts: "la_productions eps_grammar = eps_productions" "la_non_terminals eps_grammar = [(7, [0]), (8, [1])]"
  "la_root_production_id eps_grammar = 1" "la_terminals eps_grammar = [0,1,2,3,4,5,6]" "la_go_to_table eps_grammar = (\<lambda>_. [])"
  "la_lr0_item_sets eps_grammar = []" "la_lr1_item_sets eps_grammar = []" "la_root_item_set eps_grammar = None"
  "la_firsts eps_grammar = (\<lambda>_. None)" "la_nullable eps_grammar = []" "la_spontaneous_map eps_grammar = (\<lambda>_. [])"
  "la_propagate_map eps_grammar = []" "la_input_buffer eps_grammar = ib_new (\<lambda>_. CHR 0x00)"
  by (simp_all add: eps_grammar_def la_add_production_def add_one_production_def lalr_new_def parser_new_def lx_new_def parser_symbols_def intern_symbol_def sset_insert_all_def eps_productions_def)

lemmas lr_eval = sset_contains_def has_dot_at_end_def it_next_symbol_def item_set_new_def sets_update_def symbol_is_token_def
  lr0_expand_def sset_insert_all_def item_less_def item_key_def lr0_go_to_symbol_def go_to_def go_to_kernel_def
  eps_parts eps_productions_def sets_get_def lr_closure_helper_def Let_def cNullSymbol_def

definition eps_lr0 :: item_sets where
  "eps_lr0 = [([mk_item 1 0 10000000], \<lparr>is_index = 0, is_kernel = [mk_item 1 0 10000000],
       is_closure = [mk_item 0 0 10000000, mk_item 1 0 10000000], is_next = [7 \<mapsto> 1], is_actions = []\<rparr>),
     ([mk_item 1 1 10000000], \<lparr>is_index = 1, is_kernel = [mk_item 1 1 10000000],
       is_closure = [mk_item 1 1 10000000], is_next = (\<lambda>_. None), is_actions = []\<rparr>)]"

definition eps_la1 :: "unit lalr1_parser" where
  "eps_la1 = eps_grammar\<lparr>la_lexer := eps_lexer0, la_lr0_item_sets := eps_lr0, la_go_to_table := (\<lambda>_. [])(0 := [(7, 1)])\<rparr>"

lemma eps_la1: "generate_lr0_kernels id (eps_grammar\<lparr>la_lexer := eps_lexer0\<rparr>) = Some (Inr eps_la1)"
  by (simp add: generate_lr0_kernels_def lr0_loop.simps lr0_round_def generate_lr0_closure_def
      item_closure_loop.simps lr_eval eps_la1_def eps_lr0_def del: rbind_eq_Inr)

definition eps_la2 :: "unit lalr1_parser" where
  "eps_la2 = eps_la1\<lparr>la_firsts := [0 \<mapsto> [0], 1 \<mapsto> [1], 2 \<mapsto> [2], 3 \<mapsto> [3], 4 \<mapsto> [4],
     5 \<mapsto> [5], 6 \<mapsto> [6], 7 \<mapsto> [], 8 \<mapsto> []], la_nullable := [7, 8]\<rparr>"

lemma eps_la2: "generate_first_sets eps_la1 = Some eps_la2"
  by (simp add: generate_first_sets_def first_loop.simps first_production_def note_nullable_def eps_la1_def
      lr_eval firsts_at_def pr_is_epsilon_def eps_la2_def)

lemmas lr1_eval = generate_lr1_item_sets_def kernel_items_def note_lookaheads_def generate_lr1_closure_def
  item_closure_loop.simps lr1_expand_def note_lookahead_def propagate_insert_def propagate_loop.simps propagate_round_def propagate_one_def
  initial_lookahead_def make_lr1_item_set_def lr1_kernel_def link_item_set_def

abbreviation "none_act \<equiv> ActBool False"

definition eps_actions :: "nat \<Rightarrow> action list" where
  "eps_actions i = (if i = 0 then [ActReduce 0, none_act, none_act, none_act, none_act, none_act, none_act, ActShift 1, none_act]
     else [ActBool True, none_act, none_act, none_act, none_act, none_act, none_act, none_act, none_act])"

lemma nine: "replicate 9 a = [a, a, a, a, a, a, a, a, a]" "[a0, a1, a2, a3, a4, a5, a6, a7, a8][7 := x] = [a0, a1, a2, a3, a4, a5, a6, x, a8]"
  by (simp_all add: eval_nat_numeral)

definition eps_lr1 :: item_sets where
  "eps_lr1 = [([mk_item 1 0 0], \<lparr>is_index = 0, is_kernel = [mk_item 1 0 0],
       is_closure = [mk_item 0 0 0, mk_item 1 0 0], is_next = [7 \<mapsto> 1], is_actions = eps_actions 0\<rparr>),
     ([mk_item 1 1 0], \<lparr>is_index = 1, is_kernel = [mk_item 1 1 0], is_closure = [mk_item 1 1 0],
       is_next = (\<lambda>_. None), is_actions = eps_actions 1\<rparr>)]"

definition eps_la3 :: "unit lalr1_parser" where
  "eps_la3 = eps_la2\<lparr>la_propagate_map := [(mk_item 1 0 10000000, [mk_item 1 1 10000000])], la_root_item_set := Some 0,
     la_lr1_item_sets := map (\<lambda>(k, s). (k, s\<lparr>is_actions := []\<rparr>)) eps_lr1\<rparr>"

lemma eps_la3: "generate_lr1_item_sets eps_la2 = Some (Inr eps_la3)"
  by (simp add: eps_la2_def eps_la1_def eps_lr0_def lr_eval lr1_eval eps_la3_def eps_lr1_def del: rbind_eq_Inr)

definition eps_parser :: "unit lalr1_parser" where
  "eps_parser = eps_la3\<lparr>la_lr1_item_sets := eps_lr1\<rparr>"

lemma eps_symbols: "length (lx_symbol_id eps_lexer0) = 9"
  by (simp add: eps_lexer0_def eps_grammar_def la_add_production_def add_one_production_def lalr_new_def
      parser_new_def lx_new_def parser_symbols_def intern_symbol_def)

lemma eps_table: "generate_lalr1_parsing_table eps_la3 = Inr eps_parser"
  by (simp add: generate_lalr1_parsing_table_def generate_lalr1_action_def item_set_actions_def eps_la3_def eps_la2_def eps_la1_def
     eps_symbols eps_lr1_def add_item_action_def add_shift_def add_reduce_def get_action_def set_action_def action_is_bool_def eps_parser_def eps_actions_def
     lr_eval nine del: rbind_eq_Inr)

lemma eps_generated: "la_generate id id eps_grammar = Some (Inr eps_parser)"
  using eps_lexer0 eps_la1 by (simp add: la_generate_def eps_la2 eps_la3 eps_table eps_parts eps_productions_def)

definition eps_read :: "(unit, char) read_fun" where "eps_read r n = (EndOfFile, [], ())"

definition eps_end :: token where
  "eps_end = lx_token (ib_new (\<lambda>_. CHR 0x00)) 0 0 0 (Some cTokenEndTypes)"
definition eps_buffer :: input_buffer where
  "eps_buffer = (ib_reset (ib_new (\<lambda>_. CHR 0x00)))\<lparr>ib_finished_reading_input := True\<rparr>"

lemma eps_scan: "lx_scan (lx_reset eps_lexer0) eps_buffer = Some (Inr ((Success, Some eps_end),
    (lx_reset eps_lexer0)\<lparr>lx_state := None\<rparr>, eps_buffer\<lparr>ib_log_fully_consumed := True\<rparr>))"
  by (simp add: lx_scan_def scan_loop.simps scan_round_def scan_note_match_def scan_note_delimiter_def scan_begin_def lx_reset_def
   ib_reset_def ib_new_def bf_reset_def bf_new_def ib_get_next_character_def Let_def lx_process_char_def scan_newline_def scan_decide_def eps_lexer0_def
   lx_root_def lx_get_dfa_def eps_dfa0_def dfa_empty_def dfa_get_root_def ds_new_def lx_deref_def ds_get_transition_def ds_is_accepting_def
    eps_grammar_def la_add_production_def add_one_production_def lalr_new_def
      parser_new_def lx_new_def parser_symbols_def intern_symbol_def cCharEOF_def scan_at_end_def eps_end_def lx_token_def eps_buffer_def)

lemma eps_start: "la_lexer (la_reset eps_parser) = lx_reset eps_lexer0"
  "la_input_buffer (la_reset eps_parser) = ib_reset (ib_new (\<lambda>_. CHR 0x00))"
  "la_root_item_set (la_reset eps_parser) = Some 0" "la_lr1_item_sets (la_reset eps_parser) = eps_lr1"
  "la_productions (la_reset eps_parser) = eps_productions" "la_next_token (la_reset eps_parser) = None"
  "la_parse_stack_matches (la_reset eps_parser) = []"
  by (simp_all add: la_reset_def eps_parser_def eps_la3_def eps_la2_def eps_la1_def eps_parts)

lemma eps_read_start: "ib_read_if_safe eps_read (ib_reset (ib_new (\<lambda>_. CHR 0x00))) () = Inr (EndOfFile, eps_buffer, ())"
  by (simp add: eps_buffer_def la_reset_def ib_reset_def ib_read_if_safe_def ib_read_is_safe_def ib_new_def
      bf_reset_def bf_new_def cStaticByteBuffSize_def ib_read_def bf_read_def eps_read_def st_write_def
      bf_active_def bf_storage_def bf_set_active_def Let_def)

lemma eps_read_on: "ib_read_if_safe eps_read (eps_buffer\<lparr>ib_log_fully_consumed := True\<rparr>) () =
    Inr (Success, eps_buffer\<lparr>ib_log_fully_consumed := True\<rparr>, ())"
  by (simp add: eps_buffer_def ib_read_if_safe_def ib_read_is_safe_def)

lemma eps_end_types: "tk_type_ids eps_end = Some [0]"
  by (simp add: eps_end_def lx_token_def cTokenEndTypes_def token_new_plain_def token_new_def)

lemma eps_parse: "\<exists>la. la_parse eps_read eps_parser () = Some (Inr (ParsedTree (NonTerminal 0 [] None), la, ()))"
  by (simp add: la_parse_def la_parse_loop.simps eps_start eps_read_start eps_read_on eps_scan la_get_next_symbol_def
    la_parse_advance_def eps_end_types la_parse_symbol_def la_actions_def la_reduce_def run_semantic_rule_def
    eps_lr1_def eps_actions_def eps_productions_def sets_get_def get_action_def non_terminal_cast_def Let_def del: rbind_eq_Inr)

section \<open>Properties\<close>


lemma eps_grammar_ok: "productions_ok eps_grammar" "la_productions eps_grammar \<noteq> []" "no_tables eps_grammar"
proof -
  have "productions_ok eps_grammar \<and> la_productions eps_grammar \<noteq> []"
    unfolding eps_grammar_def by (rule la_add_production_keeps) (simp_all add: lalr_new_productions_ok start_name_def)
  then show "productions_ok eps_grammar" "la_productions eps_grammar \<noteq> []"
    by blast+
  show "no_tables eps_grammar" by (simp add: no_tables_def eps_parts)
qed


text \<open>
  C9: the FIRST sets are exact: the loop of \<^verbatim>\<open>generate_first_sets\<close> ends, with
  the symbols that derive the empty string and, for every symbol, the terminals that a derivation
  from it can begin with.
\<close>

theorem first_sets_exact:
  "\<exists>firsts nullable. generate_first_sets (la\<lparr>la_firsts := \<lambda>_. None, la_nullable := []\<rparr>) =
      Some (la\<lparr>la_firsts := firsts, la_nullable := nullable\<rparr>) \<and>
    set nullable = {x. nullable_symbol (la_productions la) x} \<and>
    (\<forall>x. set (firsts_at firsts x) = {s. first_symbol (la_productions la) (set (la_terminals la)) x s})"
  using generate_first_sets_exact [of "la\<lparr>la_firsts := \<lambda>_. None, la_nullable := []\<rparr>"] by simp

text \<open>The items that a transition leads to.\<close>

definition moved_items :: "'a production list \<Rightarrow> nat \<Rightarrow> item set \<Rightarrow> item set" where
  "moved_items g x items = {mk_item (it_production i) (it_dot i + 1) (it_lookahead i) | i.
     i \<in> items \<and> \<not> has_dot_at_end g i \<and> it_next_symbol g i = x}"

lemma moved_items_kernel: "set (go_to_kernel g x c) = moved_items g x (set c)"
  by (auto simp: go_to_kernel_iff moved_items_def)

text \<open>
  C8: the LR(0) automaton is exact: the item sets have distinct indices and kernels, each is the
  closure of its kernel, and its transition by a symbol leads to the item set of the moved items,
  if there are any.
\<close>

theorem lr0_automaton_exact:
  assumes "productions_ok la" "la_productions la \<noteq> []" "no_tables la"
    and "generate_lr0_kernels key_order la = Some (Inr la')"
  shows "distinct (map fst (la_lr0_item_sets la')) \<and> distinct (map (is_index \<circ> snd) (la_lr0_item_sets la')) \<and>
    (\<forall>(k, s) \<in> set (la_lr0_item_sets la').
       set (is_closure s) = closure_items (expands_to la' (lr0_expand la')) (set k) \<and>
       (\<forall>x \<in> set (la_terminals la @ key_order (map fst (la_non_terminals la))).
          case state_next la' (is_index s) x of
            None \<Rightarrow> moved_items (la_productions la) x (set (is_closure s)) = {}
          | Some j \<Rightarrow> \<exists>(k', s') \<in> set (la_lr0_item_sets la'). is_index s' = j \<and>
              set k' = moved_items (la_productions la) x (set (is_closure s)) \<and> k' \<noteq> []))"
proof -
  let ?zs = "la_terminals la @ key_order (map fst (la_non_terminals la))" and ?m = "la_lr0_item_sets la'"
  have g: "grammar_ok la" using assms(1,2) by (rule productions_grammar_ok)
  from assms(3) have fresh: "la_lr0_item_sets la = []" "la_go_to_table la = (\<lambda>_. [])" by (auto simp: no_tables_def)
  from generate_lr0_kernels_inv [OF assms(4) g fresh refl] have inv: "lr0_inv (set ?zs) {} [] la'"
    and gs: "la_productions la' = la_productions la" by auto
  then have ok: "sets_ok ?m" by (simp add: lr0_inv_def Let_def)
  have set: "set (is_closure s) = closure_items (expands_to la' (lr0_expand la')) (set k) \<and>
      (\<forall>x \<in> set ?zs. case state_next la' (is_index s) x of
         None \<Rightarrow> moved_items (la_productions la) x (set (is_closure s)) = {}
       | Some j \<Rightarrow> \<exists>(k', s') \<in> set ?m. is_index s' = j \<and>
           set k' = moved_items (la_productions la) x (set (is_closure s)) \<and> k' \<noteq> [])"
    if ks: "(k, s) \<in> set ?m" for k s
  proof -
    have "(k, is_index s, is_closure s) \<in> sets_view ?m" using ks by (auto simp: sets_view_iff)
    with inv have p: "set_processed la' (set ?zs) k (is_index s) (is_closure s)" by (simp add: lr0_inv_def Let_def)
    have "case state_next la' (is_index s) x of
         None \<Rightarrow> moved_items (la_productions la) x (set (is_closure s)) = {}
       | Some j \<Rightarrow> \<exists>(k', s') \<in> set ?m. is_index s' = j \<and>
           set k' = moved_items (la_productions la) x (set (is_closure s)) \<and> k' \<noteq> []"
      if "x \<in> set ?zs" for x
    proof -
      from p that have d: "go_to_done (la_productions la) ?m (la_go_to_table la') (is_index s) (is_closure s) x"
        using gs unfolding set_processed_def by metis
      show ?thesis
      proof (cases "state_next la' (is_index s) x")
        case None
        with d show ?thesis by (simp add: go_to_done_def state_next_def flip: moved_items_kernel)
      next
        case (Some j)
        with d obtain c' where "go_to_kernel (la_productions la) x (is_closure s) \<noteq> []"
          "(go_to_kernel (la_productions la) x (is_closure s), j, c') \<in> sets_view ?m"
          by (auto simp: go_to_done_def state_next_def)
        then obtain s' where s': "(go_to_kernel (la_productions la) x (is_closure s), s') \<in> set ?m" "is_index s' = j"
          by (auto simp: sets_view_iff)
        with \<open>go_to_kernel (la_productions la) x (is_closure s) \<noteq> []\<close> moved_items_kernel
        have "\<exists>(k', s') \<in> set ?m. is_index s' = j \<and>
            set k' = moved_items (la_productions la) x (set (is_closure s)) \<and> k' \<noteq> []" by blast
        then show ?thesis unfolding Some option.case .
      qed
    qed
    with p show ?thesis unfolding set_processed_def lr0_closure_of_def by blast
  qed
  from ok have "kernels.ordered (map fst ?m)" and idx: "distinct (map (is_index \<circ> snd) ?m)"
    unfolding sets_ok_def by blast+
  from kernels.ordered_distinct [OF this(1)] have "distinct (map fst ?m)" unfolding distinct_map by blast
  with idx set show ?thesis by blast
qed

theorem lr0_automaton_exact_witness:
  "state_next eps_la1 0 7 = Some 1 \<and> distinct (map fst (la_lr0_item_sets eps_la1))"
proof -
  have "productions_ok (eps_grammar\<lparr>la_lexer := eps_lexer0\<rparr>)"
  proof -
    have "lx_symbol_id eps_lexer0 = lx_symbol_id (la_lexer eps_grammar)" by (simp add: eps_lexer0_def)
    with eps_grammar_ok(1) show ?thesis
      unfolding productions_ok_def bodies_ok_def symbol_ids_ok_def body_ok_def
      by (simp del: map_of_eq_Some_iff)
  qed
  from lr0_automaton_exact [OF this _ _ eps_la1] eps_grammar_ok(2,3)
  have "distinct (map fst (la_lr0_item_sets eps_la1))" by (simp add: no_tables_def)
  then show ?thesis by (simp add: state_next_def eps_la1_def)
qed

text \<open>
  C4: parsing is correct: a tree that \<^verbatim>\<open>parse\<close> returns is a derivation of the
  start symbol of the grammar, every node with the syntax tree its semantic rule makes of its
  children; its leaves, in order, are the tokens the lexer has returned up to the end token.
\<close>

theorem parse_returns_derivation:
  assumes "productions_ok la" "no_tables la" "la_generate ord key_order la = Some (Inr la')"
    and "la_parse read la' reader = Some (Inr (ParsedTree m, la'', reader'))"
  shows "parse_tree (la_productions la) (start_symbol la) m \<and>
    (\<exists>ts la1 reader1 t la2 types. parse_steps read (parse_start la') reader ts la1 reader1 \<and>
       next_terminal read la1 reader1 t la2 reader' \<and> fringe m @ [t] = ts @ scanned la1 t \<and>
       tk_type_ids t = Some types \<and> symbol_num TokenEnd \<in> set types)"
proof -
  have "la_productions la \<noteq> []" using assms(3) by (auto simp: la_generate_def cbind_def split: option.splits sum.splits if_splits)
  from la_generate_tables [OF assms(3) productions_grammar_ok [OF assms(1) this] assms(2)]
  have t: "actions_ok la'" "automaton_ok la'" "la_productions la' = la_productions la"
    "la_root_production_id la' = la_root_production_id la" by blast+
  from t(3,4) have "start_symbol la' = start_symbol la" by (simp add: start_symbol_def)
  with la_parse_tree_of_table [OF t(1,2) assms(4)] t(3) show ?thesis by metis
qed

theorem parse_returns_derivation_witness:
  "parse_tree (la_productions eps_grammar) (start_symbol eps_grammar) (NonTerminal 0 [] None)"
proof -
  from eps_parse obtain la where "la_parse eps_read eps_parser () = Some (Inr (ParsedTree (NonTerminal 0 [] None), la, ()))"
    by blast
  from parse_returns_derivation [OF eps_grammar_ok(1,3) eps_generated this] show ?thesis by (rule conjunct1)
qed

text \<open>
  C10: a reduction is always possible: whenever the table tells the parser to reduce, the symbols of
  the whole body are on top of the stacks, as trees, and a state is left below them, so that no
  \<^verbatim>\<open>pop\<close> or \<^verbatim>\<open>top\<close> is called on an empty stack.
\<close>

theorem reduction_finds_body:
  assumes "productions_ok la" "no_tables la" "la_generate ord key_order la = Some (Inr la')"
    and "parse_steps read (parse_start la') reader ts la1 reader1" "next_terminal read la1 reader1 t la2 reader2"
    and "la_actions la2 = Inr actions" "get_action x actions = Inr (ActReduce p)"
  shows "\<exists>symbols states matches.
    pop_symbols (length (pr_body (la_productions la2 ! p))) [] (la_parse_stack_states la2, la_parse_stack_matches la2) =
      Inr (symbols, states, matches) \<and> states \<noteq> [] \<and>
    list_all2 (parse_tree (la_productions la)) (pr_body (la_productions la2 ! p)) symbols"
proof -
  have "la_productions la \<noteq> []" using assms(3) by (auto simp: la_generate_def cbind_def split: option.splits sum.splits if_splits)
  from la_generate_tables [OF assms(3) productions_grammar_ok [OF assms(1) this] assms(2)]
  have t: "actions_ok la'" "automaton_ok la'" "la_productions la' = la_productions la" by blast+
  from parse_steps_ok [OF assms(4) t(1,2) parse_start_ok] have "parse_ok la' la1 ts" by simp
  from next_terminal_ok [OF assms(5) this] obtain us where us: "stack_ok la' la2 us" by blast
  have "la_productions la2 = la_productions la'" using us by (simp add: stack_ok_def same_tables_def)
  with reduce_ready [OF t(1,2) us assms(6,7)] t(3) obtain symbols states matches where
    r: "pop_symbols (length (pr_body (la_productions la2 ! p))) [] (la_parse_stack_states la2, la_parse_stack_matches la2) =
      Inr (symbols, states, matches)"
    "list_all2 (parse_tree (la_productions la)) (pr_body (la_productions la2 ! p)) symbols"
    and st: "\<And>input nt. stack_ok la' (la2\<lparr>la_next_token := nt, la_parse_stack_states := states,
       la_parse_stack_matches := matches, la_input_buffer := input\<rparr>) (concat (map fringe (rev matches)))" by auto
  from st [of "la_input_buffer la2" None] have "states \<noteq> []" by (auto simp: stack_ok_def)
  with r show ?thesis by blast
qed

lemma eps_terminal:
  "next_terminal eps_read (parse_start eps_parser) () eps_end
     ((parse_start eps_parser)\<lparr>la_lexer := (lx_reset eps_lexer0)\<lparr>lx_state := None\<rparr>,
        la_input_buffer := eps_buffer\<lparr>ib_log_fully_consumed := True\<rparr>\<rparr>) ()"
  by (simp add: next_terminal_def parse_start_def eps_start eps_read_start la_get_next_symbol_def eps_scan del: rbind_eq_Inr)

theorem reduction_finds_body_witness:
  "\<exists>symbols states matches. pop_symbols (length (pr_body (la_productions eps_parser ! 0))) [] ([0], []) =
    Inr (symbols, states, matches) \<and> states \<noteq> ([] :: nat list) \<and>
    list_all2 (parse_tree (la_productions eps_grammar)) [] (symbols :: unit matched_symbol list)"
proof -
  let ?la = "(parse_start eps_parser)\<lparr>la_lexer := (lx_reset eps_lexer0)\<lparr>lx_state := None\<rparr>,
        la_input_buffer := eps_buffer\<lparr>ib_log_fully_consumed := True\<rparr>\<rparr>"
  have p: "la_parse_stack_states ?la = [0]" "la_parse_stack_matches ?la = []"
    "la_productions ?la = eps_productions" "la_lr1_item_sets ?la = eps_lr1" "la_productions eps_parser = eps_productions"
    using eps_start by (simp_all add: parse_start_def la_reset_def)
  have "la_actions ?la = Inr (eps_actions 0)" by (simp add: la_actions_def p eps_lr1_def sets_get_def)
  note reduction = reduction_finds_body [OF eps_grammar_ok(1,3) eps_generated steps_refl eps_terminal this]
  have "get_action 0 (eps_actions 0) = Inr (ActReduce 0)" by (simp add: eps_actions_def get_action_def)
  moreover have "pr_body (eps_productions ! 0) = []" by (simp add: eps_productions_def)
  ultimately show ?thesis using reduction [of 0 0] unfolding p by simp
qed

text \<open>
  The part of the current line that an error report repeats depends on the tokens that have been
  consumed only: for stacks of trees \<^verbatim>\<open>get_input_after_last_newline\<close> returns
  what it returns for the leaves of the trees.
\<close>

theorem error_line_of_fringe:
  "get_input_after_last_newline mem matches acc =
     get_input_after_last_newline mem (map MatchedToken (rev (concat (map fringe (rev matches))))) acc"
proof (induction mem matches acc rule: get_input_after_last_newline.induct)
  case (2 mem t matches acc)
  then show ?case by (cases "tk_to_string mem t") (auto split: prod.splits)
qed simp_all

end
