(* ===== verification/Lalr_Entries.thy ===== *)
theory Lalr_Entries
  imports Lalr_Properties
begin

text \<open>
  A grammar that is built by calls of \<^verbatim>\<open>add_production\<close> consists of exactly the
  productions that were added, with their names replaced by ids, and of the root production.
\<close>

section \<open>The grammar of a list of calls\<close>

type_synonym 'a entry = "string \<times> string list \<times> 'a semantic_rule option"

abbreviation named :: "lexer \<Rightarrow> string \<Rightarrow> nat \<Rightarrow> bool" where
  "named lx name x \<equiv> map_of (lx_symbol_id lx) name = Some x"

definition names_production :: "lexer \<Rightarrow> string \<Rightarrow> string list \<Rightarrow> 'a production \<Rightarrow> bool" where
  "names_production lx head body p \<longleftrightarrow> named lx head (pr_head p) \<and> list_all2 (named lx) body (pr_body p)"

definition grammar_of :: "'a entry set \<Rightarrow> 'a lalr1_parser \<Rightarrow> bool" where
  "grammar_of es la \<longleftrightarrow>
     (\<forall>p \<in> set (la_productions la). \<exists>head body.
        names_production (la_lexer la) head body p \<and> (head, body, pr_semantic_rule p) \<in> es) \<and>
     (\<forall>(head, body, rule) \<in> es. map_of (la_productions_map la) (head, body) \<noteq> None) \<and>
     (\<forall>head body k. map_of (la_productions_map la) (head, body) = Some k \<longrightarrow>
        k < length (la_productions la) \<and> names_production (la_lexer la) head body (la_productions la ! k))"

lemma names_production_grow:
  "names_production lx head body p \<Longrightarrow> symbols_grow lx lx' \<Longrightarrow> names_production lx' head body p"
  by (auto simp: names_production_def symbols_grow_def elim: list_all2_mono)

lemma intern_symbols_names:
  "intern_symbols names lx = (is, lx') \<Longrightarrow> symbol_ids_ok lx \<Longrightarrow> start_name \<notin> set names \<Longrightarrow>
     list_all2 (named lx') names is"
proof (induction names arbitrary: lx "is" lx')
  case (Cons name names)
  obtain i lx1 where i: "intern_symbol name lx = (i, lx1)" by force
  obtain js lx2 where js: "intern_symbols names lx1 = (js, lx2)" by force
  from intern_symbol_ok [OF i Cons.prems(2)] have s1: "symbol_ids_ok lx1" "named lx1 name i" by blast+
  from Cons.prems(3) intern_symbols_ok [OF js s1(1)] have "symbols_grow lx1 lx2" by simp
  with s1(2) have "named lx2 name i" by (simp add: symbols_grow_def)
  with Cons.IH [OF js s1(1)] Cons.prems i js show ?case by auto
qed simp

lemma add_one_production_adds:
  assumes add: "add_one_production head body rule la = (n, created, la')" and ok: "bodies_ok la"
    and names: "start_name \<notin> set body" and g: "grammar_of es la"
  shows "grammar_of (insert (head, body, rule) es) la'"
proof -
  obtain h lx1 where h: "intern_symbol head (la_lexer la) = (h, lx1)" by force
  from ok have s0: "symbol_ids_ok (la_lexer la)" by (simp add: bodies_ok_def)
  from intern_symbol_ok [OF h s0] have s1: "symbol_ids_ok lx1" "symbols_grow (la_lexer la) lx1" "named lx1 head h" by blast+
  show ?thesis
  proof (cases "map_of (la_productions_map la) (head, body)")
    case (Some k)
    let ?gs = "(la_productions la)[k := (la_productions la ! k)\<lparr>pr_semantic_rule := rule\<rparr>]"
    from add h Some have r: "la' = la\<lparr>la_lexer := lx1, la_productions := ?gs\<rparr>" by (auto simp: add_one_production_def)
    from g Some have k: "k < length (la_productions la)" "names_production (la_lexer la) head body (la_productions la ! k)"
      by (auto simp: grammar_of_def)
    have n: "names_production lx hd b (?gs ! i) \<longleftrightarrow> names_production lx hd b (la_productions la ! i)" for lx hd b i
      using k(1) by (cases "i = k") (simp_all add: names_production_def)
    have "\<exists>hd b. names_production lx1 hd b p \<and> (hd, b, pr_semantic_rule p) \<in> insert (head, body, rule) es"
      if "p \<in> set ?gs" for p
    proof -
      from that obtain i where i: "i < length (la_productions la)" "p = ?gs ! i" by (auto simp: in_set_conv_nth)
      show ?thesis
      proof (cases "i = k")
        case True
        with i k names_production_grow [OF k(2) s1(2)] show ?thesis
          by (intro exI [of _ head] exI [of _ body]) (simp add: names_production_def)
      next
        case False
        with i(1) g obtain hd b where "names_production (la_lexer la) hd b (la_productions la ! i)"
          "(hd, b, pr_semantic_rule (la_productions la ! i)) \<in> es" unfolding grammar_of_def by (metis nth_mem)
        with False i names_production_grow [OF _ s1(2)] show ?thesis
          by (intro exI [of _ hd] exI [of _ b]) auto
      qed
    qed
    moreover have "\<forall>(hd, b, rl) \<in> insert (head, body, rule) es. map_of (la_productions_map la) (hd, b) \<noteq> None"
      using g Some by (auto simp: grammar_of_def)
    moreover have "k' < length (la_productions la) \<and> names_production lx1 hd b (?gs ! k')"
      if "map_of (la_productions_map la) (hd, b) = Some k'" for hd b k'
    proof -
      from g that have "k' < length (la_productions la)" "names_production (la_lexer la) hd b (la_productions la ! k')"
        by (auto simp: grammar_of_def)
      with names_production_grow [OF _ s1(2)] show ?thesis by (simp add: n)
    qed
    ultimately show ?thesis by (simp add: grammar_of_def r)
  next
    case None
    obtain b lx2 where b: "intern_symbols body lx1 = (b, lx2)" by force
    from intern_symbols_ok [OF b s1(1) names] have s2: "symbols_grow lx1 lx2" by blast
    note grow = symbols_grow_trans [OF s1(2) s2]
    have h2: "named lx2 head h" using s1(3) s2 by (simp add: symbols_grow_def)
    let ?n = "length (la_productions la)"
    let ?p = "\<lparr>pr_index = ?n, pr_head = h, pr_body = b, pr_semantic_rule = rule\<rparr>"
    from add h None b have r: "la_productions la' = la_productions la @ [?p]" "la_lexer la' = lx2"
      "la_productions_map la' = la_productions_map la @ [((head, body), ?n)]"
      by (auto simp: add_one_production_def Let_def)
    have p: "names_production lx2 head body ?p"
      using h2 intern_symbols_names [OF b s1(1) names] by (simp add: names_production_def)
    have "\<exists>hd bd. names_production lx2 hd bd q \<and> (hd, bd, pr_semantic_rule q) \<in> insert (head, body, rule) es"
      if "q \<in> set (la_productions la @ [?p])" for q
    proof (cases "q = ?p")
      case True
      with p show ?thesis by (intro exI [of _ head] exI [of _ body]) simp
    next
      case False
      with that g names_production_grow [OF _ grow] show ?thesis by (auto simp: grammar_of_def) blast
    qed
    moreover have "\<forall>(hd, bd, rl) \<in> insert (head, body, rule) es. map_of (la_productions_map la') (hd, bd) \<noteq> None"
      using g by (auto simp: grammar_of_def r map_add_def split: option.splits)
    moreover have "k < Suc ?n \<and> names_production lx2 hd bd ((la_productions la @ [?p]) ! k)"
      if "map_of (la_productions_map la') (hd, bd) = Some k" for hd bd k
    proof (cases "map_of (la_productions_map la) (hd, bd)")
      case (Some k')
      with that have "k = k'" by (simp add: r map_add_def)
      with Some g have "k < ?n" "names_production (la_lexer la) hd bd (la_productions la ! k)" by (auto simp: grammar_of_def)
      with names_production_grow [OF _ grow] show ?thesis by (simp add: nth_append)
    next
      case None
      with that have "hd = head" "bd = body" "k = ?n" by (auto simp: r map_add_def split: if_splits)
      with p show ?thesis by simp
    qed
    ultimately show ?thesis by (simp add: grammar_of_def r)
  qed
qed

section \<open>Building a grammar\<close>

definition add_productions :: "'a entry list \<Rightarrow> 'a lalr1_parser \<Rightarrow> 'a lalr1_parser" where
  "add_productions es la = fold (\<lambda>(head, body, rule) la. snd (la_add_production head body rule la)) es la"

definition entry_ok :: "'a entry \<Rightarrow> bool" where
  "entry_ok = (\<lambda>(head, body, rule). head \<noteq> start_name \<and> start_name \<notin> set body)"

lemma la_add_production_adds:
  assumes ok: "productions_ok la" "entry_ok (head, body, rule)" and g: "grammar_of es la" and ne: "la_productions la \<noteq> []"
  shows "grammar_of (insert (head, body, rule) es) (snd (la_add_production head body rule la))"
proof -
  obtain n created la1 where a: "add_one_production head body rule la = (n, created, la1)" by (metis prod.exhaust)
  from ok have b: "bodies_ok la" "start_name \<notin> set body" by (simp_all add: productions_ok_def entry_ok_def)
  from add_one_production_ok [OF a b] ne have "\<not> (created \<and> length (la_productions la1) = 1)" by (cases created) auto
  with a add_one_production_adds [OF a b g] show ?thesis by (auto simp: la_add_production_def)
qed

lemma la_add_first_production:
  assumes ok: "productions_ok la" "entry_ok (head, body, rule)" and e: "la_productions la = []"
  shows "grammar_of {(head, body, rule), (start_name, [head], None)} (snd (la_add_production head body rule la))"
proof -
  obtain n created la1 where a: "add_one_production head body rule la = (n, created, la1)" by (metis prod.exhaust)
  from ok have b: "bodies_ok la" "start_name \<notin> set body" "start_name \<notin> set [head]"
    by (auto simp: productions_ok_def entry_ok_def)
  have m: "la_productions_map la = []" using e b(1) by (simp add: bodies_ok_def)
  then have "grammar_of {} la" using e by (simp add: grammar_of_def)
  from add_one_production_adds [OF a b(1,2) this] have g: "grammar_of {(head, body, rule)} la1" .
  from add_one_production_ok [OF a b(1,2)] m e have c: created "bodies_ok la1" "length (la_productions la1) = 1" by auto
  obtain root cr la2 where r: "add_one_production start_name [head] None la1 = (root, cr, la2)" by (metis prod.exhaust)
  from add_one_production_adds [OF r c(2) b(3) g] have "grammar_of {(start_name, [head], None), (head, body, rule)} la2" .
  then have "grammar_of {(head, body, rule), (start_name, [head], None)} la2" by (simp add: insert_commute)
  then show ?thesis using a r c by (simp add: la_add_production_def start_name_def grammar_of_def)
qed

lemma add_productions_adds:
  "\<forall>e \<in> set es. entry_ok e \<Longrightarrow> productions_ok la \<Longrightarrow> la_productions la \<noteq> [] \<Longrightarrow> grammar_of es0 la \<Longrightarrow>
     productions_ok (add_productions es la) \<and> la_productions (add_productions es la) \<noteq> [] \<and>
     grammar_of (es0 \<union> set es) (add_productions es la)"
proof (induction es arbitrary: la es0)
  case (Cons e es)
  obtain head body rule where e: "e = (head, body, rule)" by (cases e) auto
  let ?la = "snd (la_add_production head body rule la)"
  from Cons.prems e have "entry_ok (head, body, rule)" by simp
  with Cons.prems have "productions_ok ?la" "la_productions ?la \<noteq> []" "grammar_of (insert e es0) ?la"
    using la_add_production_keeps [of la head body rule] la_add_production_adds [of la head body rule es0]
    by (simp_all add: entry_ok_def e)
  with Cons.IH [of ?la "insert e es0"] Cons.prems show ?case by (simp add: add_productions_def e)
qed (simp add: add_productions_def)

text \<open>
  The grammar of a parser that had no production before.
\<close>

lemma added_grammar:
  assumes "\<forall>e \<in> set ((head, body, rule) # es). entry_ok e" "productions_ok la" "la_productions la = []"
  shows "productions_ok (add_productions ((head, body, rule) # es) la) \<and>
    la_productions (add_productions ((head, body, rule) # es) la) \<noteq> [] \<and>
    grammar_of (insert (start_name, [head], None) (set ((head, body, rule) # es)))
      (add_productions ((head, body, rule) # es) la)"
proof -
  let ?la = "snd (la_add_production head body rule la)"
  from assms have "entry_ok (head, body, rule)" by simp
  with assms have "productions_ok ?la" "la_productions ?la \<noteq> []"
    "grammar_of {(head, body, rule), (start_name, [head], None)} ?la"
    using la_add_production_keeps [of la head body rule] la_add_first_production [of la head body rule]
    by (simp_all add: entry_ok_def)
  from add_productions_adds [OF _ this, of es] assms(1) show ?thesis
    by (simp add: add_productions_def insert_commute)
qed

text \<open>Ids name one symbol, so a production is what was added under its names.\<close>

lemma names_unique:
  assumes s: "symbol_ids_ok lx" and n: "names_production lx head body p" "names_production lx head' body' p"
  shows "head = head' \<and> body = body'"
proof -
  have "body = body'"
  proof (rule nth_equalityI)
    from n have "length body = length (pr_body p)" "length body' = length (pr_body p)"
      by (auto simp: names_production_def dest: list_all2_lengthD)
    then show "length body = length body'" by simp
    show "body ! i = body' ! i" if "i < length body" for i
      using that n symbols_inj [OF s] by (auto simp: names_production_def list_all2_conv_all_nth)
  qed
  with n symbols_inj [OF s] show ?thesis by (auto simp: names_production_def)
qed

lemma grammar_production:
  assumes "grammar_of es la" "productions_ok la" "(head, body, rule) \<in> es"
  shows "\<exists>p < length (la_productions la). names_production (la_lexer la) head body (la_productions la ! p) \<and>
    (head, body, pr_semantic_rule (la_productions la ! p)) \<in> es"
proof -
  from assms obtain k where k: "k < length (la_productions la)"
    "names_production (la_lexer la) head body (la_productions la ! k)" by (fastforce simp: grammar_of_def)
  with assms obtain head' body' where h: "names_production (la_lexer la) head' body' (la_productions la ! k)"
    "(head', body', pr_semantic_rule (la_productions la ! k)) \<in> es" unfolding grammar_of_def by (metis nth_mem)
  have "symbol_ids_ok (la_lexer la)" using assms(2) by (simp add: productions_ok_def bodies_ok_def)
  from names_unique [OF this k(2) h(1)] h k show ?thesis by blast
qed

end
