(* ===== verification/Schema_Types.thy ===== *)
theory Schema_Types
  imports Schema_Grammar Lalr_Entries
begin

text \<open>
  The semantic rules are type safe: every symbol of the schema grammar has a type of syntax trees,
  and a rule applied to trees of the types of its body makes a tree of the type of its head. So no
  unchecked cast and no null pointer is ever followed.
\<close>

section \<open>Types of syntax trees\<close>

datatype ast_type = TNone | TSchema | TVariable | TIdentifier | TDelimiters | TRegex | TLiteral | TInteger | TGroup

fun has_type :: "ast_type \<Rightarrow> schema_value option \<Rightarrow> bool" where
  "has_type TNone v \<longleftrightarrow> v = None"
| "has_type TSchema v \<longleftrightarrow> (case v of Some (SchemaValue s) \<Rightarrow> True | _ \<Rightarrow> False)"
| "has_type TVariable v \<longleftrightarrow> (case v of Some (NodeValue (SchemaVarAST l n r)) \<Rightarrow> True | _ \<Rightarrow> False)"
| "has_type TIdentifier v \<longleftrightarrow> (case v of Some (NodeValue (IdentifierAST n)) \<Rightarrow> True | _ \<Rightarrow> False)"
| "has_type TDelimiters v \<longleftrightarrow> (case v of Some (NodeValue (DelimiterStringAST ds)) \<Rightarrow> True | _ \<Rightarrow> False)"
| "has_type TRegex v \<longleftrightarrow> (case v of Some (RegexValue r) \<Rightarrow> True | _ \<Rightarrow> False)"
| "has_type TLiteral v \<longleftrightarrow> (case v of Some (RegexValue r) \<Rightarrow> as_literal r \<noteq> None | _ \<Rightarrow> False)"
| "has_type TInteger v \<longleftrightarrow> (case v of Some (RegexValue r) \<Rightarrow> as_integer r \<noteq> None | _ \<Rightarrow> False)"
| "has_type TGroup v \<longleftrightarrow> (case v of Some (RegexValue r) \<Rightarrow> as_group r \<noteq> None | _ \<Rightarrow> False)"

lemma has_type_cases:
  "has_type TNone v \<longleftrightarrow> v = None"
  "has_type TSchema v \<longleftrightarrow> (\<exists>s. v = Some (SchemaValue s))"
  "has_type TVariable v \<longleftrightarrow> (\<exists>l n r. v = Some (NodeValue (SchemaVarAST l n r)))"
  "has_type TIdentifier v \<longleftrightarrow> (\<exists>n. v = Some (NodeValue (IdentifierAST n)))"
  "has_type TDelimiters v \<longleftrightarrow> (\<exists>ds. v = Some (NodeValue (DelimiterStringAST ds)))"
  "has_type TRegex v \<longleftrightarrow> (\<exists>r. v = Some (RegexValue r))"
  "has_type TLiteral v \<longleftrightarrow> (\<exists>b c. v = Some (RegexValue (ReLiteral b c)))"
  "has_type TInteger v \<longleftrightarrow> (\<exists>b ds. v = Some (RegexValue (ReInteger b ds)))"
  "has_type TGroup v \<longleftrightarrow> (\<exists>b g. v = Some (RegexValue (ReGroup b g)))"
proof -
  have l: "as_literal r = Some c \<longleftrightarrow> (\<exists>b. r = ReLiteral b c)" for r c by (cases r) auto
  have i: "as_integer r = Some ds \<longleftrightarrow> (\<exists>b. r = ReInteger b ds)" for r ds by (cases r) auto
  have g: "as_group r = Some x \<longleftrightarrow> (\<exists>b. r = ReGroup b x)" for r x by (cases r) auto
  show "has_type TNone v \<longleftrightarrow> v = None"
    "has_type TSchema v \<longleftrightarrow> (\<exists>s. v = Some (SchemaValue s))"
    "has_type TVariable v \<longleftrightarrow> (\<exists>l n r. v = Some (NodeValue (SchemaVarAST l n r)))"
    "has_type TIdentifier v \<longleftrightarrow> (\<exists>n. v = Some (NodeValue (IdentifierAST n)))"
    "has_type TDelimiters v \<longleftrightarrow> (\<exists>ds. v = Some (NodeValue (DelimiterStringAST ds)))"
    "has_type TRegex v \<longleftrightarrow> (\<exists>r. v = Some (RegexValue r))"
    "has_type TLiteral v \<longleftrightarrow> (\<exists>b c. v = Some (RegexValue (ReLiteral b c)))"
    "has_type TInteger v \<longleftrightarrow> (\<exists>b ds. v = Some (RegexValue (ReInteger b ds)))"
    "has_type TGroup v \<longleftrightarrow> (\<exists>b g. v = Some (RegexValue (ReGroup b g)))"
    by (auto simp: l i g split: option.splits schema_value.splits parser_ast.splits)
qed

declare has_type.simps [simp del]

text \<open>The types of the non-terminals of the grammar; every other symbol is a terminal.\<close>

definition symbol_types :: "(string \<times> ast_type) list" where
  "symbol_types =
    [(''$START_PRIME'', TNone), (''Schema'', TSchema), (''DelimiterString'', TDelimiters),
     (''DelimiterCharacter'', TLiteral), (''PortableNewLine'', TNone), (''Comment'', TNone), (''Text'', TNone),
     (''SchemaVar'', TVariable), (''Identifier'', TIdentifier), (''WhitespaceStar'', TNone), (''Regex'', TRegex),
     (''Or'', TRegex), (''Concat'', TRegex), (''Quantity'', TRegex), (''CompleteGroup'', TRegex),
     (''IncompleteGroup'', TGroup), (''LiteralRange'', TGroup), (''Literal'', TRegex),
     (''WhiteSpaceCharacter'', TLiteral), (''Integer'', TInteger), (''Wildcard'', TRegex), (''Shorthand'', TGroup)]"

definition symbol_type :: "string \<Rightarrow> ast_type option" where
  "symbol_type name = map_of symbol_types name"

section \<open>Typed rules\<close>

text \<open>A token, or a non-terminal with a tree of its type.\<close>

definition child_ok :: "ast_type option \<Rightarrow> schema_symbol \<Rightarrow> bool" where
  "child_ok ty s \<longleftrightarrow>
     (case (ty, s) of
        (None, MatchedToken t) \<Rightarrow> True
      | (Some ty, NonTerminal p ms v) \<Rightarrow> has_type ty v
      | _ \<Rightarrow> False)"

text \<open>
  What is left to go wrong: a token whose text is empty or cannot be read, an exception for a group
  that is not made of literals or has a negated group in it, a range that is empty, and a repetition
  count of more than ten digits.
\<close>

definition unreadable :: "memory \<Rightarrow> schema_symbol \<Rightarrow> bool" where
  "unreadable mem s \<longleftrightarrow>
     (case s of
        MatchedToken t \<Rightarrow> (case tk_to_string mem t of Inl _ \<Rightarrow> True | Inr (str, _) \<Rightarrow> str = [])
      | NonTerminal _ _ _ \<Rightarrow> False)"

definition long_integer :: "schema_symbol \<Rightarrow> bool" where
  "long_integer s \<longleftrightarrow>
     (case s of
        NonTerminal p ms (Some (RegexValue (ReInteger b ds))) \<Rightarrow> 10 < length ds
      | _ \<Rightarrow> False)"

definition result_ok :: "memory \<Rightarrow> ast_type \<Rightarrow> schema_symbol list \<Rightarrow> schema_value option res \<Rightarrow> bool" where
  "result_ok mem ty m r \<longleftrightarrow>
     (case r of
        Inr v \<Rightarrow> has_type ty v
      | Inl e \<Rightarrow> e = RuntimeError \<or> e = AssertFailed \<or> e = UndefinedBehavior \<and> (\<exists>s \<in> set m. long_integer s) \<or>
          (\<exists>s \<in> set m. unreadable mem s))"

definition typed_rule :: "ast_type option list \<Rightarrow> schema_rule \<Rightarrow> ast_type \<Rightarrow> bool" where
  "typed_rule body rule ty \<longleftrightarrow> (\<forall>mem m. list_all2 child_ok body m \<longrightarrow> result_ok mem ty m (rule mem m))"

lemma child_simps:
  "child_ok None s \<longleftrightarrow> (\<exists>t. s = MatchedToken t)"
  "child_ok (Some ty) s \<longleftrightarrow> (\<exists>p ms v. s = NonTerminal p ms v \<and> has_type ty v)"
  by (auto simp: child_ok_def split: matched_symbol.splits)

lemma result_token:
  assumes "m ! i = MatchedToken t" "i < length m" "\<And>c. result_ok mem ty m (f c)"
  shows "result_ok mem ty m (rbind (token_char mem m i) f)"
proof (cases "unreadable mem (MatchedToken t)")
  case True
  from nth_mem [OF assms(2)] assms(1) have "MatchedToken t \<in> set m" by simp
  with True have any: "\<exists>s \<in> set m. unreadable mem s" by blast
  have "\<exists>e. token_char mem m i = Inl e"
    using True assms(1,2)
    by (cases "tk_to_string mem t") (auto simp: token_char_def token_cast_def unreadable_def)
  then obtain e where "token_char mem m i = Inl e" ..
  with any show ?thesis by (simp add: result_ok_def)
next
  case False
  then obtain c cs t' where "tk_to_string mem t = Inr (c # cs, t')"
    by (auto simp: unreadable_def neq_Nil_conv split: sum.splits prod.splits)
  with assms show ?thesis by (simp add: token_char_def token_cast_def)
qed

lemmas rule_eval = token_cast_def non_terminal_cast_def release_ast_def ast_of_def get_parser_ast_def
  regex_of_def identifier_of_def node_of_def deref_def

lemma result_simps:
  "result_ok mem ty m (Inr v) \<longleftrightarrow> has_type ty v" "result_ok mem ty m (Inl RuntimeError)"
  "result_ok mem ty m (Inl AssertFailed)"
  by (simp_all add: result_ok_def)

named_theorems typed_rules

lemma identifier_rules [typed_rules]:
  "typed_rule [None] new_identifier_rule TIdentifier"
  "typed_rule [Some TIdentifier, None] existing_identifier_rule TIdentifier"
  "typed_rule [Some TNone, Some TIdentifier, None, Some TRegex] schema_var_rule TVariable"
  by (auto simp: typed_rule_def list_all2_Cons1 child_simps rule_eval result_simps has_type_cases new_identifier_rule_def
      existing_identifier_rule_def schema_var_rule_def identifier_add_character_def intro!: result_token)

lemma schema_rules [typed_rules]:
  "typed_rule [Some TNone] new_schema_rule TSchema"
  "typed_rule [Some TVariable] new_schema_rule_with_var TSchema"
  "typed_rule [None, None, Some TDelimiters] new_schema_rule_with_delimiters TSchema"
  "typed_rule [Some TSchema, Some TNone, None, None, Some TDelimiters] existing_schema_rule_with_delimiter TSchema"
  "typed_rule [Some TSchema, Some TNone, Some TVariable] existing_schema_rule TSchema"
  "typed_rule [Some TSchema, Some TNone] identity_rule_ParserASTSchema TSchema"
  "typed_rule [Some TSchema, Some TNone, Some TNone] identity_rule_ParserASTSchema TSchema"
  by (auto simp: typed_rule_def list_all2_Cons1 child_simps rule_eval result_simps has_type_cases new_schema_rule_def
      new_schema_rule_with_var_def new_schema_rule_with_delimiters_def existing_schema_rule_with_delimiter_def
      existing_schema_rule_def identity_rule_ParserASTSchema_def sa_add_schema_var_def Let_def)

lemma delimiter_rules [typed_rules]:
  "typed_rule [Some TDelimiters, Some TLiteral] existing_delimiter_string_rule TDelimiters"
  "typed_rule [Some TLiteral] new_delimiter_string_rule TDelimiters"
  by (auto simp: typed_rule_def list_all2_Cons1 child_simps rule_eval result_simps has_type_cases
      existing_delimiter_string_rule_def new_delimiter_string_rule_def delimiter_add_delimiter_def intro!: result_token)


lemma regex_rules [typed_rules]:
  "typed_rule [None, None, None, Some TIdentifier, None, Some TRegex, None] (regex_capture_rule alloc) TRegex"
  "typed_rule [Some TRegex] regex_identity_rule TRegex"
  "typed_rule [Some TLiteral] regex_identity_rule TRegex"
  "typed_rule [Some TGroup] regex_identity_rule TRegex"
  "typed_rule [Some TGroup, None] regex_identity_rule TRegex"
  "typed_rule [None, Some TRegex, None] regex_middle_identity_rule TRegex"
  "typed_rule [Some TRegex, Some TRegex] regex_cat_rule TRegex"
  "typed_rule [Some TRegex, None, Some TRegex] regex_or_rule TRegex"
  "typed_rule [Some TRegex, None] regex_match_zero_or_more_rule TRegex"
  "typed_rule [Some TRegex, None] regex_match_one_or_more_rule TRegex"
  "typed_rule [Some TRegex, None] regex_match_zero_or_one_rule TRegex"
  by (auto simp: typed_rule_def list_all2_Cons1 child_simps rule_eval result_simps has_type_cases regex_capture_rule_def
      mk_capture_def regex_identity_rule_def regex_middle_identity_rule_def regex_cat_rule_def regex_or_rule_def
      regex_match_zero_or_more_rule_def regex_match_one_or_more_rule_def regex_match_zero_or_one_rule_def)

lemma digits_loop_error: "digits_loop ds reps = Inl e \<Longrightarrow> e = UndefinedBehavior \<and> 10 < length ds"
  by (induction ds arbitrary: reps) (auto split: if_splits)

lemma integer_of_typed:
  assumes "m ! i = NonTerminal p ms v" "has_type TInteger v" "i < length m"
  shows "(\<exists>n. integer_of m i = Inr n) \<or> integer_of m i = Inl UndefinedBehavior \<and> long_integer (m ! i)"
proof -
  from assms obtain b ds where v: "v = Some (RegexValue (ReInteger b ds))" by (auto simp: has_type_cases)
  with assms have "integer_of m i = digits_loop ds 0" by (simp add: integer_of_def rule_eval)
  with digits_loop_error [of ds 0] assms(1) v show ?thesis by (cases "digits_loop ds 0") (auto simp: long_integer_def)
qed

lemma repeat_rules [typed_rules]:
  "typed_rule [Some TRegex, None, Some TInteger, None] regex_match_exactly_rule TRegex"
  "typed_rule [Some TRegex, None, Some TInteger, None, Some TInteger, None] regex_match_range_rule TRegex"
proof -
  show "typed_rule [Some TRegex, None, Some TInteger, None] regex_match_exactly_rule TRegex"
    unfolding typed_rule_def
  proof (intro allI impI)
    fix mem m assume "list_all2 child_ok [Some TRegex, None, Some TInteger, None] m"
    then obtain s0 s1 s2 s3 where m: "m = [s0, s1, s2, s3]" and c: "child_ok (Some TRegex) s0" "child_ok (Some TInteger) s2"
      by (auto simp: list_all2_Cons1)
    from c(2) m integer_of_typed [of m 2] have i: "(\<exists>n. integer_of m 2 = Inr n) \<or>
        integer_of m 2 = Inl UndefinedBehavior \<and> long_integer s2" by (auto simp: child_simps)
    from c(1) m obtain r where "regex_of m 0 = Inr r" by (auto simp: child_simps rule_eval result_simps has_type_cases)
    with i m show "result_ok mem TRegex m (regex_match_exactly_rule mem m)"
      by (auto simp: regex_match_exactly_rule_def result_ok_def has_type_cases)
  qed
  show "typed_rule [Some TRegex, None, Some TInteger, None, Some TInteger, None] regex_match_range_rule TRegex"
    unfolding typed_rule_def
  proof (intro allI impI)
    fix mem m assume "list_all2 child_ok [Some TRegex, None, Some TInteger, None, Some TInteger, None] m"
    then obtain s0 s1 s2 s3 s4 s5 where m: "m = [s0, s1, s2, s3, s4, s5]" and
      c: "child_ok (Some TRegex) s0" "child_ok (Some TInteger) s2" "child_ok (Some TInteger) s4"
      by (auto simp: list_all2_Cons1)
    from c(2) m integer_of_typed [of m 2] have i2: "(\<exists>n. integer_of m 2 = Inr n) \<or>
        integer_of m 2 = Inl UndefinedBehavior \<and> long_integer s2" by (auto simp: child_simps)
    from c(3) m integer_of_typed [of m 4] have i4: "(\<exists>n. integer_of m 4 = Inr n) \<or>
        integer_of m 4 = Inl UndefinedBehavior \<and> long_integer s4" by (auto simp: child_simps)
    from c(1) m obtain r where "regex_of m 0 = Inr r" by (auto simp: child_simps rule_eval result_simps has_type_cases)
    with i2 i4 m show "result_ok mem TRegex m (regex_match_range_rule mem m)"
      by (auto simp: regex_match_range_rule_def result_ok_def has_type_cases)
  qed
qed

lemma group_rules [typed_rules]:
  "typed_rule [Some TGroup, Some TRegex] regex_add_literal_existing_group_rule TGroup"
  "typed_rule [Some TGroup, Some TGroup] regex_add_range_existing_group_rule TGroup"
  "typed_rule [None, Some TRegex] regex_add_literal_new_group_rule TGroup"
  "typed_rule [None, Some TGroup] regex_add_range_new_group_rule TGroup"
  "typed_rule [None, None] regex_complement_incomplete_group_rule TGroup"
  "typed_rule [Some TRegex, None, Some TRegex] regex_range_rule TGroup"
  by (auto simp: typed_rule_def list_all2_Cons1 child_simps rule_eval result_simps has_type_cases mk_group_def
      regex_add_literal_existing_group_rule_def regex_add_range_existing_group_rule_def
      regex_add_literal_new_group_rule_def regex_add_range_new_group_rule_def
      regex_complement_incomplete_group_rule_def regex_range_rule_def group_add_literal_def group_add_group_def
      group_of_literal_def group_of_group_def group_of_literal_range_def split: option.splits)

lemma literal_rules [typed_rules]:
  "typed_rule [None] regex_literal_rule TRegex" "typed_rule [None] regex_literal_rule TLiteral"
  "typed_rule [None, None] regex_cancel_literal_rule TRegex"
  "typed_rule [Some TInteger, None] regex_existing_integer_rule TInteger"
  "typed_rule [None] regex_new_integer_rule TInteger"
  by (auto simp: typed_rule_def list_all2_Cons1 child_simps rule_eval result_simps has_type_cases mk_literal_def mk_integer_def
      mk_integer_snoc_def regex_literal_rule_def regex_cancel_literal_rule_def regex_existing_integer_rule_def
      regex_new_integer_rule_def intro!: result_token)

lemma constant_rules [typed_rules]:
  "typed_rule [None] regex_wildcard_rule TRegex"
  "typed_rule [None, None] regex_digit_rule TGroup" "typed_rule [None, None] regex_non_digit_rule TGroup"
  "typed_rule [None, None] regex_white_space_rule TGroup" "typed_rule [None, None] regex_non_white_space_rule TGroup"
  "typed_rule [None, None] regex_word_rule TGroup" "typed_rule [None, None] regex_non_word_rule TGroup"
  "typed_rule [None, None] regex_tab_rule TLiteral" "typed_rule [None, None] regex_newline_rule TLiteral"
  "typed_rule [None, None] regex_vertical_tab_rule TLiteral" "typed_rule [None, None] regex_form_feed_rule TLiteral"
  "typed_rule [None, None] regex_char_return_rule TLiteral"
  by (simp_all add: typed_rule_def result_ok_def has_type_cases mk_literal_def mk_group_def regex_wildcard_rule_def
      regex_digit_rule_def regex_non_digit_rule_def regex_white_space_rule_def regex_non_white_space_rule_def
      regex_word_rule_def regex_non_word_rule_def regex_tab_rule_def regex_newline_rule_def
      regex_vertical_tab_rule_def regex_form_feed_rule_def regex_char_return_rule_def)

section \<open>The grammar\<close>

text \<open>A production without a rule makes no tree.\<close>

definition production_typed :: "schema_production \<Rightarrow> bool" where
  "production_typed = (\<lambda>(head, body, rule).
     \<exists>ty. symbol_type head = Some ty \<and>
       (case rule of None \<Rightarrow> ty = TNone | Some f \<Rightarrow> typed_rule (map symbol_type body) f ty))"

lemma symbol_type_simps: "symbol_type name = map_of symbol_types name"
  by (simp add: symbol_type_def)

lemma productions_typed:
  "\<forall>p \<in> set schema_productions. production_typed p"
  "\<forall>p \<in> set line_productions. production_typed p"
  "\<forall>p \<in> set variable_productions. production_typed p"
  "\<forall>p \<in> set regex_productions. production_typed p"
  "\<forall>p \<in> set group_productions. production_typed p"
  "\<forall>p \<in> set (literal_productions alloc). production_typed p"
  "\<forall>p \<in> set shorthand_productions. production_typed p"
  by (simp_all add: schema_productions_def line_productions_def variable_productions_def regex_productions_def
      group_productions_def literal_productions_def shorthand_productions_def production_typed_def
      symbol_type_def symbol_types_def typed_rules)

lemma special_typed:
  assumes "set (order special_regex_names) = set special_regex_names"
  shows "\<forall>p \<in> set (special_productions order). production_typed p"
proof -
  have "\<forall>(c, name) \<in> set special_regex_names. symbol_type name = None"
    by (simp add: special_regex_names_def symbol_type_def symbol_types_def)
  moreover have "symbol_type ''Backslash'' = None" "symbol_type ''Literal'' = Some TRegex"
    by (simp_all add: symbol_type_def symbol_types_def)
  ultimately show ?thesis
    using assms literal_rules(3) by (auto simp: special_productions_def production_typed_def)
qed

lemma all_productions_typed:
  "set (order special_regex_names) = set special_regex_names \<Longrightarrow> \<forall>p \<in> set (all_productions alloc order). production_typed p"
  using productions_typed special_typed by (auto simp: all_productions_def)

section \<open>The grammar that is built\<close>

text \<open>The names a production has are none that is kept for the root.\<close>

lemma productions_entries:
  "\<forall>e \<in> set schema_productions. entry_ok e"
  "\<forall>e \<in> set line_productions. entry_ok e"
  "\<forall>e \<in> set variable_productions. entry_ok e"
  "\<forall>e \<in> set regex_productions. entry_ok e"
  "\<forall>e \<in> set group_productions. entry_ok e"
  "\<forall>e \<in> set (literal_productions alloc). entry_ok e"
  "\<forall>e \<in> set shorthand_productions. entry_ok e"
  by (simp_all add: schema_productions_def line_productions_def variable_productions_def regex_productions_def
      group_productions_def literal_productions_def shorthand_productions_def entry_ok_def start_name_def)

lemma special_entries:
  assumes "set (order special_regex_names) = set special_regex_names"
  shows "\<forall>e \<in> set (special_productions order). entry_ok e"
proof -
  have "\<forall>(c, name) \<in> set special_regex_names. name \<noteq> start_name"
    by (simp add: special_regex_names_def start_name_def)
  with assms show ?thesis by (auto simp: special_productions_def entry_ok_def start_name_def)
qed

lemma lexical_rules_keep:
  "schema_add_lexical_rules order (lalr_new junk) = Inr la \<Longrightarrow> productions_ok la \<and> la_productions la = []"
proof -
  have "rfold add_token_rule rules la0 = Inr la \<Longrightarrow> productions_ok la0 \<Longrightarrow> la_productions la0 = [] \<Longrightarrow>
      productions_ok la \<and> la_productions la = []" for rules and la0 :: "'a lalr1_parser"
  proof (induction rules arbitrary: la0)
    case (Cons rule rules)
    from Cons.prems(1) obtain la1 where la1: "add_token_rule rule la0 = Inr la1" "rfold add_token_rule rules la1 = Inr la"
      by auto
    have "\<exists>name r. la1 = la_add_rule name r la0"
    proof (cases rule)
      case (ChainToken name chain)
      with la1(1) show ?thesis
        by (auto simp: add_token_rule_def la_add_token_chain_def split: list.splits)
    qed (use la1(1) in \<open>auto simp: add_token_rule_def la_add_token_def la_add_token_group_def\<close>)
    with la_add_rule_keeps Cons.prems(2,3) Cons.IH [OF la1(2)] show ?case by metis
  qed simp
  moreover assume "schema_add_lexical_rules order (lalr_new junk) = Inr la"
  ultimately show ?thesis
    using lalr_new_productions_ok [where 'a = 'a, of junk] by (simp add: schema_add_lexical_rules_def lalr_new_def)
qed

definition schema_entries ::
  "(memory \<Rightarrow> schema_symbol list \<Rightarrow> nat) \<Rightarrow> special_order \<Rightarrow> schema_production set" where
  "schema_entries alloc order = insert (start_name, [''Schema''], None) (set (all_productions alloc order))"

lemma schema_grammar:
  assumes "set (order special_regex_names) = set special_regex_names"
    and "schema_add_lexical_rules order (lalr_new junk) = Inr la"
  shows "productions_ok (schema_add_productions alloc order la) \<and>
    la_productions (schema_add_productions alloc order la) \<noteq> [] \<and>
    grammar_of (schema_entries alloc order) (schema_add_productions alloc order la)"
proof -
  obtain rest where all: "all_productions alloc order = (''Schema'', [''Comment''], Some new_schema_rule) # rest"
    by (simp add: all_productions_def schema_productions_def)
  have "\<forall>e \<in> set (all_productions alloc order). entry_ok e"
    using productions_entries special_entries [of order, OF assms(1)] by (auto simp: all_productions_def)
  with added_grammar [of "''Schema''" "[''Comment'']" "Some new_schema_rule" rest la] lexical_rules_keep [OF assms(2)]
  show ?thesis
    by (simp add: all schema_entries_def schema_add_productions_def add_productions_def)
qed

end
