(* ===== verification/Schema_Properties.thy ===== *)
theory Schema_Properties
  imports Schema_Types
begin

text \<open>
  The properties of the schema parser: what its trees are, and what the rules of the quantifiers,
  the groups and the integers make.
\<close>

section \<open>Trees of the schema grammar\<close>

text \<open>A token whose types are ids of terminals only.\<close>

definition terminal_token :: "lexer \<Rightarrow> token \<Rightarrow> bool" where
  "terminal_token lx t \<longleftrightarrow>
     (\<forall>types x name. tk_type_ids t = Some types \<longrightarrow> x \<in> set types \<longrightarrow> named lx name x \<longrightarrow> symbol_type name = None)"

lemma schema_tree_typed:
  assumes g: "grammar_of es la" "\<forall>e \<in> es. production_typed e" and s: "symbol_ids_ok (la_lexer la)"
  shows "parse_tree (la_productions la) x m \<Longrightarrow> named (la_lexer la) name x \<Longrightarrow>
    \<forall>t \<in> set (fringe m). terminal_token (la_lexer la) t \<Longrightarrow> child_ok (symbol_type name) m"
proof (induction arbitrary: name rule: parse_tree.induct)
  case (tree_token t types x)
  then have "symbol_type name = None" unfolding terminal_token_def by force
  then show ?case by (simp add: child_simps)
next
  case (tree_node p ms ast x)
  let ?p = "la_productions la ! p"
  from g(1) tree_node(1) obtain head body where h: "names_production (la_lexer la) head body ?p"
    "(head, body, pr_semantic_rule ?p) \<in> es" unfolding grammar_of_def by (meson nth_mem)
  have "named (la_lexer la) name (pr_head ?p)" "named (la_lexer la) head (pr_head ?p)"
    using tree_node.prems(1) tree_node.hyps h(1) by (simp_all add: names_production_def)
  from symbols_inj [OF s this] have head: "name = head" .
  from h(2) g(2) obtain ty where ty: "symbol_type head = Some ty"
    "case pr_semantic_rule ?p of None \<Rightarrow> ty = TNone | Some f \<Rightarrow> typed_rule (map symbol_type body) f ty"
    by (auto simp: production_typed_def)
  have "list_all2 child_ok (map symbol_type body) ms"
  proof (rule list_all2_all_nthI)
    have l: "length body = length (pr_body ?p)" "length (pr_body ?p) = length ms"
      using h(1) tree_node.IH by (auto simp: names_production_def dest: list_all2_lengthD)
    then show "length (map symbol_type body) = length ms" by simp
    show "child_ok (map symbol_type body ! i) (ms ! i)" if "i < length (map symbol_type body)" for i
    proof -
      from that l have i: "i < length (pr_body ?p)" "i < length body" "i < length ms" by auto
      from h(1) i(2) have n: "named (la_lexer la) (body ! i) (pr_body ?p ! i)"
        by (auto simp: names_production_def list_all2_conv_all_nth)
      from tree_node.prems(2) i(3) have "\<forall>t \<in> set (fringe (ms ! i)). terminal_token (la_lexer la) t"
        by (auto dest!: nth_mem)
      with n list_all2_nthD [OF tree_node.IH i(1)] i(2) show ?thesis by auto
    qed
  qed
  then have r: "typed_rule (map symbol_type body) f ty \<Longrightarrow> result_ok mem ty ms (f mem ms)" for f mem
    by (simp add: typed_rule_def)
  have "has_type ty ast"
  proof (cases "pr_semantic_rule ?p")
    case None
    with ty(2) tree_node.hyps(2) show ?thesis by (simp add: rule_result_def has_type_cases)
  next
    case (Some f)
    with tree_node.hyps(2) obtain mem where "f mem ms = Inr ast" by (auto simp: rule_result_def)
    with r [of f mem] Some ty(2) show ?thesis by (simp add: result_simps)
  qed
  with head ty(1) show ?case by (simp add: child_simps)
qed


definition no_memory :: memory where
  "no_memory = (\<lambda>_. \<lparr>st_size = 0, st_cell = \<lambda>_. CHR 0x00\<rparr>)"


section \<open>The trees of a schema\<close>

lemma lexical_rules_total: "\<exists>la. schema_add_lexical_rules order la0 = Inr la"
proof -
  have one: "\<exists>la'. add_token_rule rule la = Inr la'" if "\<forall>name chain. rule = ChainToken name chain \<longrightarrow> 1 < length chain"
    for rule and la :: "'b lalr1_parser"
  proof (cases rule)
    case (ChainToken name chain)
    with that obtain a b cs where "chain = a # b # cs" by (cases chain; cases "tl chain") auto
    with ChainToken show ?thesis by (simp add: add_token_rule_def la_add_token_chain_def)
  qed (simp_all add: add_token_rule_def)
  have all: "\<forall>rule \<in> set rules. \<forall>name chain. rule = ChainToken name chain \<longrightarrow> 1 < length chain \<Longrightarrow>
      \<exists>la. rfold add_token_rule rules la0 = Inr la" for rules and la0 :: "'b lalr1_parser"
  proof (induction rules arbitrary: la0)
    case (Cons rule rules)
    with one [of rule la0] obtain la1 where "add_token_rule rule la0 = Inr la1" by auto
    with Cons show ?case by auto
  qed simp
  show ?thesis unfolding schema_add_lexical_rules_def by (rule all) (auto simp: schema_token_rules_def)
qed

text \<open>
  C6: every derivation of the schema grammar that starts from \<^verbatim>\<open>Schema\<close> and whose
  tokens are terminals carries a schema: the cast of the root of the tree to
  \<^verbatim>\<open>SchemaAST\<close> never makes a null pointer.
\<close>

theorem schema_tree_is_schema:
  assumes "set (order special_regex_names) = set special_regex_names"
    and "schema_add_lexical_rules order (lalr_new junk) = Inr la0"
    and la: "la = schema_add_productions alloc order la0"
    and "named (la_lexer la) ''Schema'' x" "parse_tree (la_productions la) x m"
    and "\<forall>t \<in> set (fringe m). terminal_token (la_lexer la) t"
  shows "\<exists>schema. rbind (release_ast [m] 0) (\<lambda>ast. Inr (as_schema ast)) = Inr (Some schema)"
proof -
  from schema_grammar [OF assms(1,2), of alloc] have g: "productions_ok la" "grammar_of (schema_entries alloc order) la"
    unfolding la by blast+
  have "production_typed (start_name, [''Schema''], None)"
    by (simp add: production_typed_def symbol_type_def symbol_types_def start_name_def)
  with all_productions_typed [of order alloc, OF assms(1)] have t: "\<forall>e \<in> schema_entries alloc order. production_typed e"
    by (simp add: schema_entries_def)
  from g(1) have "symbol_ids_ok (la_lexer la)" by (simp add: productions_ok_def bodies_ok_def)
  from schema_tree_typed [OF g(2) t this assms(5,4,6)] have "child_ok (symbol_type ''Schema'') m" .
  moreover have "symbol_type ''Schema'' = Some TSchema" by (simp add: symbol_type_def symbol_types_def)
  ultimately show ?thesis
    by (auto simp: child_simps has_type_cases release_ast_def non_terminal_cast_def)
qed

lemma comment_entries:
  "(''Schema'', [''Comment''], rule) \<in> schema_entries alloc id \<longleftrightarrow> rule = Some new_schema_rule"
  "(''Comment'', [''ForwardSlash'', ''ForwardSlash'', ''Text''], rule) \<in> schema_entries alloc id \<longleftrightarrow> rule = None"
  "(''Text'', [''CommentCharacters''], rule) \<in> schema_entries alloc id \<longleftrightarrow> rule = None"
  by (auto simp: schema_entries_def all_productions_def schema_productions_def line_productions_def
      variable_productions_def regex_productions_def group_productions_def literal_productions_def
      special_productions_def shorthand_productions_def start_name_def)

text \<open>A schema with nothing but a comment.\<close>

theorem schema_tree_is_schema_witness:
  "\<exists>la x m. schema_add_lexical_rules id (lalr_new (\<lambda>_. CHR 0x00)) = Inr la \<and>
     parse_tree (la_productions (schema_add_productions (\<lambda>_ _. 0) id la)) x m \<and>
     (\<exists>schema. rbind (release_ast [m] 0) (\<lambda>ast. Inr (as_schema ast)) = Inr (Some schema))"
proof -
  obtain la0 :: "schema_value lalr1_parser" where la0: "schema_add_lexical_rules id (lalr_new (\<lambda>_. CHR 0x00)) = Inr la0"
    using lexical_rules_total by blast
  define la where "la = schema_add_productions (\<lambda>_ _. 0) id la0"
  let ?es = "schema_entries (\<lambda>_ _. 0) id" and ?g = "la_productions la"
  have o: "set (id special_regex_names) = set special_regex_names" by simp
  from schema_grammar [of id, OF o la0, of "\<lambda>_ _. 0"] have g: "productions_ok la" "grammar_of ?es la"
    unfolding la_def by blast+
  then have s: "symbol_ids_ok (la_lexer la)" by (simp add: productions_ok_def bodies_ok_def)
  from grammar_production [OF g(2,1), of "''Schema''" "[''Comment'']" "Some new_schema_rule"] obtain p1 where
    p1: "p1 < length ?g" "names_production (la_lexer la) ''Schema'' [''Comment''] (?g ! p1)"
      "pr_semantic_rule (?g ! p1) = Some new_schema_rule" by (auto simp: comment_entries)
  from grammar_production [OF g(2,1), of "''Comment''" "[''ForwardSlash'', ''ForwardSlash'', ''Text'']" None] obtain p2 where
    p2: "p2 < length ?g" "names_production (la_lexer la) ''Comment'' [''ForwardSlash'', ''ForwardSlash'', ''Text''] (?g ! p2)"
      "pr_semantic_rule (?g ! p2) = None" by (auto simp: comment_entries)
  from grammar_production [OF g(2,1), of "''Text''" "[''CommentCharacters'']" None] obtain p3 where
    p3: "p3 < length ?g" "names_production (la_lexer la) ''Text'' [''CommentCharacters''] (?g ! p3)"
      "pr_semantic_rule (?g ! p3) = None" by (auto simp: comment_entries)
  from p2(2) obtain fs where fs: "named (la_lexer la) ''ForwardSlash'' fs"
    "pr_body (?g ! p2) = [fs, fs, pr_head (?g ! p3)]"
    using p3(2) by (auto simp: names_production_def list_all2_Cons1)
  from p3(2) obtain cc where cc: "named (la_lexer la) ''CommentCharacters'' cc" "pr_body (?g ! p3) = [cc]"
    by (auto simp: names_production_def list_all2_Cons1)
  have b1: "pr_body (?g ! p1) = [pr_head (?g ! p2)]"
    using p1(2) p2(2) by (auto simp: names_production_def list_all2_Cons1)
  let ?tok = "\<lambda>x. token_new_plain 0 1 GivenStorage 1 0 (Some [x])"
  let ?text = "NonTerminal p3 [MatchedToken (?tok cc)] None"
  let ?comment = "NonTerminal p2 [MatchedToken (?tok fs), MatchedToken (?tok fs), ?text] None"
  let ?m = "NonTerminal p1 [?comment] (Some (SchemaValue schema_ast_new))"
  have tok: "tk_type_ids (token_new_plain p q st n line ids) = ids" for p q st n line ids
    by (simp add: token_new_plain_def token_new_def)
  have tree: "parse_tree ?g (pr_head (?g ! p1)) ?m"
    using p1 p2 p3 by (simp add: parse_tree_simps tok b1 fs cc rule_result_def new_schema_rule_def)
  have terminal: "terminal_token (la_lexer la) (?tok x)" if "named (la_lexer la) name x" "symbol_type name = None" for x name
    unfolding terminal_token_def tok
  proof (intro allI impI)
    fix types y name' assume "Some [x] = Some types" "y \<in> set types" "named (la_lexer la) name' y"
    with symbols_inj [OF s that(1), of name'] that(2) show "symbol_type name' = None" by auto
  qed
  have "terminal_token (la_lexer la) (?tok fs)" "terminal_token (la_lexer la) (?tok cc)"
    by (rule terminal [OF fs(1)] terminal [OF cc(1)]; simp add: symbol_type_def symbol_types_def)+
  then have f: "\<forall>t \<in> set (fringe ?m). terminal_token (la_lexer la) t" by simp
  have "named (la_lexer la) ''Schema'' (pr_head (?g ! p1))" using p1(2) by (simp add: names_production_def)
  from schema_tree_is_schema [OF o la0 la_def this tree f] la0 tree show ?thesis unfolding la_def by blast
qed

end
