(* ===== verification/Schema_Language.thy ===== *)
theory Schema_Language
  imports Schema_Properties Regex_Language Input_Buffer
begin

text \<open>
  What the regexes of a schema denote: the languages the quantifiers, the shorthands and the groups
  build, the numbers their digits stand for, and the text that the two readers hand to the lexer.
\<close>

section \<open>Quantifiers\<close>

text \<open>A rule makes a regex of a language.\<close>

definition makes_lang :: "schema_value option res \<Rightarrow> lang \<Rightarrow> bool" where
  "makes_lang result L \<longleftrightarrow> (\<exists>r. result = Inr (regex_value r) \<and> regex_lang r = L)"

lemma makes_lang_simps [simp]:
  "makes_lang (Inr (regex_value r)) L \<longleftrightarrow> regex_lang r = L" "\<not> makes_lang (Inl e) L" "\<not> makes_lang (Inr None) L"
  by (auto simp: makes_lang_def)

lemma regex_lang_set_negative [simp]: "regex_lang (set_negative_captures cs r) = regex_lang r"
  by (cases r) (simp_all add: set_negative_captures_def)

lemma mk_lang [simp]:
  "regex_lang mk_empty = {[]}" "regex_lang (mk_or l r) = regex_lang l \<union> regex_lang r"
  "regex_lang (mk_cat l r) = conc (regex_lang l) (regex_lang r)"
  "regex_lang (mk_mult r m n) = (\<Union>k \<in> repeat_counts m n. power_lang (regex_lang r) k)"
  "regex_lang (mk_group g) = {[c] |c. c < cSizeOfByte \<and> in_ranges c (group_effective_ranges g)}"
  by (simp_all add: mk_defs Let_def)

lemma repeat_from_one: "(\<Union>k \<in> repeat_counts 1 0. power_lang A k) = conc A (star A)"
proof -
  have "repeat_counts 1 0 = range Suc"
    by (simp add: repeat_counts_def is_infinite_def atLeast_Suc_greaterThan greaterThan_0)
  then show ?thesis by (simp add: star_power conc_UN)
qed

lemma repeat_zero_or_more: "{[]} \<union> conc A (star A) = star A"
  by (rule star_unfold [symmetric])

text \<open>
  C11: the quantifiers denote what they are written for. \<open>R*\<close>, \<open>R+\<close> and \<open>R?\<close> are the closure, the
  positive closure and the option of the language of \<open>R\<close>; \<open>R{n}\<close> is exactly \<open>n\<close> copies and
  \<open>R{m,n}\<close> between \<open>m\<close> and \<open>n\<close> copies for \<open>0 < m \<le> n\<close>, and also from no copy on when \<open>m\<close> is 0
  but \<open>n\<close> is not. The bound 0 however stands for no bound: \<open>R{0}\<close> and \<open>R{0,0}\<close> are \<open>R*\<close> and
  \<open>R{m,0}\<close> is \<open>m\<close> or more copies, and \<open>R{m,n}\<close> with \<open>n < m\<close> is exactly \<open>m\<close> copies.
\<close>

theorem quantifier_languages:
  assumes "regex_of m 0 = Inr r"
  shows "makes_lang (regex_match_zero_or_more_rule mem m) (star (regex_lang r)) \<and>
    makes_lang (regex_match_one_or_more_rule mem m) (conc (regex_lang r) (star (regex_lang r))) \<and>
    makes_lang (regex_match_zero_or_one_rule mem m) ({[]} \<union> regex_lang r) \<and>
    (\<forall>n. integer_of m 2 = Inr n \<longrightarrow> makes_lang (regex_match_exactly_rule mem m)
       (if n = 0 then star (regex_lang r) else power_lang (regex_lang r) n)) \<and>
    (\<forall>mn mx. integer_of m 2 = Inr mn \<longrightarrow> integer_of m 4 = Inr mx \<longrightarrow> makes_lang (regex_match_range_rule mem m)
       (\<Union>k \<in> (if mx = 0 then {mn..} else {mn..max mn mx}). power_lang (regex_lang r) k))"
proof -
  let ?L = "regex_lang r"
  have zero: "{[]} \<union> (\<Union>k \<in> repeat_counts 1 mx. power_lang ?L k) =
      (\<Union>k \<in> (if mx = 0 then {0..} else {0..mx}). power_lang ?L k)" for mx
  proof -
    have "(if mx = 0 then {0..} else {0..mx}) = insert 0 (repeat_counts 1 mx)"
      by (auto simp: repeat_counts_def is_infinite_def)
    then show ?thesis by simp
  qed
  have "makes_lang (regex_match_exactly_rule mem m) (if n = 0 then star ?L else power_lang ?L n)"
    if "integer_of m 2 = Inr n" for n
    using that assms by (simp add: regex_match_exactly_rule_def repeat_counts_def is_infinite_def star_power)
  moreover have "makes_lang (regex_match_range_rule mem m)
      (\<Union>k \<in> (if mx = 0 then {mn..} else {mn..max mn mx}). power_lang ?L k)"
    if "integer_of m 2 = Inr mn" "integer_of m 4 = Inr mx" for mn mx
    using that assms zero [of mx]
    by (cases "mn = 0") (simp_all add: regex_match_range_rule_def repeat_counts_def is_infinite_def)
  ultimately show ?thesis
    using assms repeat_from_one [of ?L] repeat_zero_or_more [of ?L]
    by (simp add: regex_match_zero_or_more_rule_def regex_match_one_or_more_rule_def regex_match_zero_or_one_rule_def)
qed

text \<open>\<open>a{0}\<close>: the trees of the literal, the brace, the integer and the brace.\<close>

definition repeat_symbols :: "regex_ast \<Rightarrow> nat list \<Rightarrow> schema_symbol list" where
  "repeat_symbols r ds =
     [NonTerminal 0 [] (regex_value r), NonTerminal 0 [] None, NonTerminal 0 [] (regex_value (ReInteger base_new ds)),
      NonTerminal 0 [] None]"

lemma repeat_symbols_of [simp]:
  "regex_of (repeat_symbols r ds) 0 = Inr r" "integer_of (repeat_symbols r ds) 2 = digits_loop ds 0"
  by (simp_all add: repeat_symbols_def integer_of_def regex_of_def ast_of_def non_terminal_cast_def
      get_parser_ast_def deref_def)

theorem quantifier_languages_witness:
  "makes_lang (regex_match_exactly_rule no_memory (repeat_symbols (mk_literal 97) [0])) (star {[97]}) \<and>
   makes_lang (regex_match_exactly_rule no_memory (repeat_symbols (mk_literal 97) [1, 2])) (power_lang {[97]} 12)"
proof -
  have l: "regex_lang (mk_literal 97) = {[97]}" by (simp add: mk_literal_def cSizeOfByte_def)
  note q = quantifier_languages [OF repeat_symbols_of(1) [of "mk_literal 97"], THEN conjunct2, THEN conjunct2,
      THEN conjunct2, THEN conjunct1, rule_format, unfolded l]
  from q [of "[0]" 0 no_memory] q [of "[1, 2]" 12 no_memory] show ?thesis by simp
qed

section \<open>Integers\<close>

definition decimal :: "nat list \<Rightarrow> nat" where
  "decimal ds = foldl (\<lambda>v d. 10 * v + d) 0 ds"

lemma foldl_decimal: "foldl (\<lambda>v d. 10 * v + d) n ds = n * 10 ^ length ds + decimal ds"
proof (induction ds arbitrary: n)
  case (Cons d ds)
  have "decimal (d # ds) = d * 10 ^ length ds + decimal ds" using Cons [of d] by (simp add: decimal_def)
  with Cons [of "10 * n + d"] show ?case by (simp add: algebra_simps)
qed (simp add: decimal_def)

lemma decimal_Cons: "decimal (d # ds) = d * 10 ^ length ds + decimal ds"
  using foldl_decimal [of d ds] by (simp add: decimal_def)

lemma digits_loop_value:
  "length ds \<le> 10 \<Longrightarrow> reps < 2 ^ 32 \<Longrightarrow> digits_loop ds reps = Inr ((reps + decimal ds) mod 2 ^ 32)"
proof (induction ds arbitrary: reps)
  case (Cons d ds)
  have "digits_loop (d # ds) reps = digits_loop ds (u32 (reps + u32 (d * 10 ^ length ds)))"
    using Cons.prems(1) by simp
  also have "\<dots> = Inr ((u32 (reps + u32 (d * 10 ^ length ds)) + decimal ds) mod 2 ^ 32)"
    using Cons.IH [of "u32 (reps + u32 (d * 10 ^ length ds))"] Cons.prems(1) by (simp add: u32_def)
  also have "(u32 (reps + u32 (d * 10 ^ length ds)) + decimal ds) mod 2 ^ 32 = (reps + decimal (d # ds)) mod 2 ^ 32"
    by (simp add: u32_def decimal_Cons mod_simps algebra_simps)
  finally show ?case .
qed (simp add: decimal_def)

text \<open>
  C15: the number in a repetition is the decimal value of its digits modulo \<open>2 ^ 32\<close>, so that
  \<open>a{4294967296}\<close> is \<open>a{0}\<close>, which is \<open>a*\<close>. More than ten digits are undefined behaviour.
\<close>

theorem repetition_number:
  assumes "regex_of m i = Inr (ReInteger b ds)"
  shows "integer_of m i = (if length ds \<le> 10 then Inr (decimal ds mod 2 ^ 32) else Inl UndefinedBehavior)"
proof (cases "length ds \<le> 10")
  case True
  with assms digits_loop_value [of ds 0] show ?thesis by (simp add: integer_of_def deref_def)
next
  case False
  then show ?thesis using assms by (cases ds) (simp_all add: integer_of_def deref_def)
qed

theorem repetition_number_witness:
  "integer_of (repeat_symbols (mk_literal 97) [4, 2, 9, 4, 9, 6, 7, 2, 9, 6]) 2 = Inr 0 \<and>
   integer_of (repeat_symbols (mk_literal 97) (replicate 11 1)) 2 = Inl UndefinedBehavior"
proof -
  have r: "regex_of (repeat_symbols r ds) 2 = Inr (ReInteger base_new ds)" for r ds
    by (simp add: repeat_symbols_def regex_of_def ast_of_def non_terminal_cast_def get_parser_ast_def)
  have "decimal [4, 2, 9, 4, 9, 6, 7, 2, 9, 6] = 2 ^ 32" by (simp add: decimal_def)
  then show ?thesis using repetition_number [OF r] by simp
qed

section \<open>Shorthands\<close>

definition byte_class :: "(nat \<Rightarrow> bool) \<Rightarrow> lang" where
  "byte_class P = {[c] |c. c < cSizeOfByte \<and> P c}"

definition is_digit_code :: "nat \<Rightarrow> bool" where
  "is_digit_code c \<longleftrightarrow> 48 \<le> c \<and> c \<le> 57"

definition is_space_code :: "nat \<Rightarrow> bool" where
  "is_space_code c \<longleftrightarrow> c = 32 \<or> 9 \<le> c \<and> c \<le> 13"

definition is_word_code :: "nat \<Rightarrow> bool" where
  "is_word_code c \<longleftrightarrow> 97 \<le> c \<and> c \<le> 122 \<or> 65 \<le> c \<and> c \<le> 90 \<or> 48 \<le> c \<and> c \<le> 57 \<or> c = 95"

text \<open>The characters of a group, and of the group \<^verbatim>\<open>do_negate\<close> makes of it.\<close>

lemma group_class:
  assumes "\<not> g_negate g" "ranges_wf (g_ranges g)" "g_ranges g \<noteq> []"
  shows "makes_lang (Inr (regex_value (mk_group g))) (byte_class (\<lambda>c. in_ranges c (g_ranges g)))"
  using assms effective_ranges_sound [OF assms(2,3)] by (simp add: byte_class_def)

lemma negated_group_class:
  assumes "\<not> g_negate g" "ranges_wf (g_ranges g)" "g_ranges g \<noteq> []"
    and "ranges_wf (g_ranges (group_do_negate g))" "g_ranges (group_do_negate g) \<noteq> []"
  shows "makes_lang (Inr (regex_value (mk_group (group_do_negate g)))) (byte_class (\<lambda>c. \<not> in_ranges c (g_ranges g)))"
proof -
  have m: "in_ranges c (group_merge (sort (g_ranges g))) = in_ranges c (g_ranges g)"
    "ranges_wf (group_merge (sort (g_ranges g)))" "separated (group_merge (sort (g_ranges g)))"
    "group_merge (sort (g_ranges g)) \<noteq> []" for c
    using group_merge_sound [of "sort (g_ranges g)"] assms by simp_all
  have "\<not> g_negate (group_do_negate g)" using assms(1) by (simp add: group_do_negate_def)
  from group_class [OF this assms(4,5)] show ?thesis
    using group_complement_sound [OF m(3,2,4)] m(1)
    by (auto simp: byte_class_def group_do_negate_def cSizeOfByte_def cUnicodeMax_def)
qed

lemma make_groups:
  "make_digit_group = \<lparr>g_is_wildcard = False, g_negate = False, g_ranges = [(48, 57)]\<rparr>"
  "make_white_space_group = \<lparr>g_is_wildcard = False, g_negate = False,
     g_ranges = [(32, 32), (9, 9), (10, 10), (13, 13), (12, 12), (11, 11)]\<rparr>"
  "make_word_group = \<lparr>g_is_wildcard = False, g_negate = False,
     g_ranges = [(97, 122), (65, 90), (48, 57), (95, 95)]\<rparr>"
  by (simp_all add: make_digit_group_def make_white_space_group_def make_word_group_def group_min_max_def
      group_of_literals_def group_add_range_def group_push_literal_def control_white_space_chars_def)

lemma group_codes:
  "in_ranges c (g_ranges make_digit_group) \<longleftrightarrow> is_digit_code c"
  "in_ranges c (g_ranges make_white_space_group) \<longleftrightarrow> is_space_code c"
  "in_ranges c (g_ranges make_word_group) \<longleftrightarrow> is_word_code c"
  by (auto simp: make_groups is_digit_code_def is_space_code_def is_word_code_def)

lemma groups_wf:
  "g \<in> {make_digit_group, make_white_space_group, make_word_group} \<Longrightarrow>
   \<not> g_negate g \<and> ranges_wf (g_ranges g) \<and> g_ranges g \<noteq> [] \<and>
   ranges_wf (g_ranges (group_do_negate g)) \<and> g_ranges (group_do_negate g) \<noteq> []"
  by (auto simp: make_groups group_do_negate_def group_complement_def cUnicodeMax_def u32_def less_eq_prod_def)


section \<open>The readers\<close>

text \<open>The reader of a schema file keeps the contract of a reader.\<close>

interpretation schema_file: char_reader schema_file_read fr_ready fr_remaining
proof
  fix r :: file_reader and n :: nat
  assume r: "fr_ready r" "0 < n"
  show "\<exists>r'. schema_file_read r n = (Success, take n (fr_remaining r), r') \<and> fr_ready r' \<and> fr_remaining r' = drop n (fr_remaining r)"
    if "fr_remaining r \<noteq> []"
    using file_source.read_bytes [OF r that] r(2) that by (auto simp: schema_file_read_def)
  show "\<exists>r'. schema_file_read r n = (EndOfFile, [], r') \<and> fr_ready r' \<and> fr_remaining r' = []"
    if "fr_remaining r = []"
    using file_source.read_end [OF r that] by (auto simp: schema_file_read_def)
qed

text \<open>What the cells of the buffer hold, from a position on.\<close>

definition cells_hold :: "input_buffer \<Rightarrow> nat \<Rightarrow> string \<Rightarrow> bool" where
  "cells_hold b i str \<longleftrightarrow> (\<forall>k < length str. st_cell (bf_active (ib_storage b)) (i + k) = str ! k)"

lemma reset_active: "bf_active (bf_reset s) = bf_static_storage s"
  by (simp add: bf_active_def bf_reset_def bf_storage_def)

lemma read_half:
  assumes b: "bf_ok (ib_storage b)" "ib_size b = 48000" "ib_pos_last_read_char b \<le> 24000"
    and s: "0 < length s"
  shows "\<exists>b'. ib_read (schema_string_read s) b () = Inr (Success, b', ()) \<and> bf_ok (ib_storage b') \<and> ib_size b' = 48000 \<and>
    ib_last_read_first_half b' = (\<not> ib_last_read_first_half b) \<and>
    ib_pos_last_read_char b' = ib_pos_last_read_char b + min 24000 (length s) \<and>
    (ib_finished_reading_input b' \<longleftrightarrow> length s < 24000 \<or> ib_finished_reading_input b) \<and>
    cells_hold b' (if ib_last_read_first_half b then 24000 else 0) (take 24000 s) \<and>
    (\<forall>i. (i < 24000 \<longleftrightarrow> ib_last_read_first_half b) \<longrightarrow>
       st_cell (bf_active (ib_storage b')) i = st_cell (bf_active (ib_storage b)) i)"
proof -
  let ?st = "bf_active (ib_storage b)" and ?o = "if ib_last_read_first_half b then 24000 else (0 :: nat)"
  let ?xs = "take 24000 s"
  let ?st' = "?st\<lparr>st_cell := \<lambda>j. if ?o \<le> j \<and> j < ?o + length ?xs then ?xs ! (j - ?o) else st_cell ?st j\<rparr>"
  have "schema_string_read s () 24000 = (Success, ?xs, ())"
    using s by (auto simp: schema_string_read_def Let_def)
  moreover have "st_write ?st ?o ?xs = Inr ?st'"
    using b by (simp add: st_write_def bf_ok_def min_le_iff_disj)
  ultimately have r: "bf_read (schema_string_read s) (ib_storage b) () ?o 24000 =
      Inr (Success, length ?xs, bf_set_active ?st' (ib_storage b), ())"
    by (simp add: bf_read_def)
  have a: "bf_active (bf_set_active ?st' (ib_storage b)) = ?st'" "bf_ok (bf_set_active ?st' (ib_storage b))"
    using b(1) bf_ok_set [OF b(1), of ?st'] by (simp_all add: bf_ok_def)
  have u: "u32 (ib_pos_last_read_char b + length ?xs) = ib_pos_last_read_char b + min 24000 (length s)"
    "ib_pos_last_read_char b + min 24000 (length s) \<le> 48000" using b(3) by (simp_all add: min.commute)
  let ?b' = "b\<lparr>ib_storage := bf_set_active ?st' (ib_storage b), ib_last_read_first_half := \<not> ib_last_read_first_half b,
    ib_finished_reading_input := (if length ?xs < 24000 then True else ib_finished_reading_input b),
    ib_pos_last_read_char := ib_pos_last_read_char b + min 24000 (length s)\<rparr>"
  have h: "48000 div 2 = (24000 :: nat)" by simp
  from u(2) have "ib_read (schema_string_read s) b () = Inr (Success, ?b', ())"
    unfolding ib_read_def b(2) h r Let_def by (simp add: u(1) del: length_take)
  moreover have "cells_hold ?b' ?o ?xs" using a(1) by (auto simp: cells_hold_def)
  moreover have "st_cell (bf_active (ib_storage ?b')) i = st_cell ?st i" if "i < 24000 \<longleftrightarrow> ib_last_read_first_half b" for i
    using that a(1) by auto
  ultimately show ?thesis using a(2) b(2) by (intro exI [of _ ?b'] conjI) auto
qed

text \<open>
  C13: the reader of a schema string hands over a string of less than half the buffer completely and
  then stops. Of a longer one it hands over the beginning again with every read, because the position
  it has reached is a local variable of the call: after two reads both halves of the buffer hold the
  first 24000 characters, and the rest of the schema is never read.
\<close>

theorem schema_string_source:
  assumes "st_size (bf_static_storage (ib_storage b0)) = cStaticByteBuffSize" "s \<noteq> []"
  shows "\<exists>b1. ib_read (schema_string_read s) (ib_reset b0) () = Inr (Success, b1, ()) \<and> cells_hold b1 0 (take 24000 s) \<and>
    (if length s < 24000 then ib_finished_reading_input b1 \<and> ib_pos_last_read_char b1 = length s
     else \<exists>b2. ib_read (schema_string_read s) b1 () = Inr (Success, b2, ()) \<and> \<not> ib_finished_reading_input b2 \<and>
       ib_pos_last_read_char b2 = 48000 \<and> cells_hold b2 0 (take 24000 s) \<and> cells_hold b2 24000 (take 24000 s))"
proof -
  have s: "0 < length s" using assms(2) by simp
  have st: "ib_storage (ib_reset b0) = bf_reset (ib_storage b0)" "\<not> ib_last_read_first_half (ib_reset b0)"
    "ib_pos_last_read_char (ib_reset b0) = 0" "\<not> ib_finished_reading_input (ib_reset b0)"
    by (simp_all add: ib_reset_def Let_def)
  have ok: "bf_ok (ib_storage (ib_reset b0))" "ib_size (ib_reset b0) = 48000"
    using assms(1) unfolding st bf_ok_def reset_active
    by (simp_all add: ptr_valid_def bf_reset_def cStaticByteBuffSize_def)
  from read_half [OF ok _ s] obtain b1 where b1: "ib_read (schema_string_read s) (ib_reset b0) () = Inr (Success, b1, ())"
    "bf_ok (ib_storage b1)" "ib_size b1 = 48000" "ib_last_read_first_half b1"
    "ib_pos_last_read_char b1 = min 24000 (length s)" "ib_finished_reading_input b1 \<longleftrightarrow> length s < 24000"
    "cells_hold b1 0 (take 24000 s)"
    using st by (auto simp del: ib_reset_def)
  show ?thesis
  proof (cases "length s < 24000")
    case True
    with b1 show ?thesis by auto
  next
    case False
    with b1(5) have p: "ib_pos_last_read_char b1 = 24000" by simp
    from read_half [OF b1(2,3) _ s] p obtain b2 where b2: "ib_read (schema_string_read s) b1 () = Inr (Success, b2, ())"
      "ib_pos_last_read_char b2 = 48000" "\<not> ib_finished_reading_input b2" "cells_hold b2 24000 (take 24000 s)"
      "\<forall>i < 24000. st_cell (bf_active (ib_storage b2)) i = st_cell (bf_active (ib_storage b1)) i"
      using b1(4,6) False by auto
    from b2(5) b1(7) have "cells_hold b2 0 (take 24000 s)" by (simp add: cells_hold_def)
    with False b1(1,7) b2 show ?thesis by auto
  qed
qed

theorem schema_string_source_witness:
  "\<exists>b1 b2. let s = replicate 24000 (CHR ''a'') @ replicate 24000 (CHR ''b'') in
     ib_read (schema_string_read s) (ib_reset (ib_new (\<lambda>_. CHR 0x00))) () = Inr (Success, b1, ()) \<and>
     ib_read (schema_string_read s) b1 () = Inr (Success, b2, ()) \<and>
     cells_hold b2 24000 (replicate 24000 (CHR ''a''))"
proof -
  let ?s = "replicate 24000 (CHR ''a'') @ replicate 24000 (CHR ''b'')"
  have s: "?s \<noteq> []" "\<not> length ?s < 24000" "take 24000 ?s = replicate 24000 (CHR ''a'')" by simp_all
  have "st_size (bf_static_storage (ib_storage (ib_new (\<lambda>_. CHR 0x00)))) = cStaticByteBuffSize"
    by (simp add: ib_new_def bf_new_def)
  from schema_string_source [OF this s(1)] show ?thesis unfolding if_not_P [OF s(2)] s(3) Let_def by blast
qed

end
