(* ===== verification/Schema_Api.thy ===== *)
theory Schema_Api
  imports Schema_Language Log_Parser
begin

text \<open>
  The users of the schema parser: the constructors that take the name of a schema file, and the
  methods of \<^verbatim>\<open>Schema\<close>, which parse every string they are given as a schema of its own.
\<close>

section \<open>Parsers that are made from a schema file\<close>

text \<open>The pointer to the schema is followed; the syntax error of a schema is a \<^verbatim>\<open>runtime_error\<close>.\<close>

definition schema_of :: "(string + schema_ast option) res option \<Rightarrow> schema_ast res option" where
  "schema_of result =
     cbind result (\<lambda>r. case r of Inl msg \<Rightarrow> Some (Inl RuntimeError) | Inr ast \<Rightarrow> Some (deref ast))"

definition schema_from_file ::
  "(string \<Rightarrow> fopen_result) \<Rightarrow> schema_value lalr1_parser res option \<Rightarrow> string \<Rightarrow> schema_ast res option" where
  "schema_from_file fopen schema_parser schema_file_path = schema_of (try_schema_file fopen schema_parser schema_file_path)"

definition log_parser_from_file ::
  "((nat \<times> nat) list \<Rightarrow> (nat \<times> nat) list) \<Rightarrow> (nat \<Rightarrow> char) \<Rightarrow> (string \<Rightarrow> fopen_result) \<Rightarrow>
     schema_value lalr1_parser res option \<Rightarrow> string \<Rightarrow> log_parser res option" where
  "log_parser_from_file ord junk fopen schema_parser schema_file_path =
     cbind (schema_of (try_schema_file fopen schema_parser schema_file_path)) (log_parser_new ord junk)"

definition buffer_parser_new :: "log_parser \<Rightarrow> buffer_parser" where
  "buffer_parser_new p = \<lparr>bp_log_parser = p, bp_done = False\<rparr>"

definition buffer_parser_from_file ::
  "((nat \<times> nat) list \<Rightarrow> (nat \<times> nat) list) \<Rightarrow> (nat \<Rightarrow> char) \<Rightarrow> (string \<Rightarrow> fopen_result) \<Rightarrow>
     schema_value lalr1_parser res option \<Rightarrow> string \<Rightarrow> buffer_parser res option" where
  "buffer_parser_from_file ord junk fopen schema_parser schema_file_path =
     cbind (log_parser_from_file ord junk fopen schema_parser schema_file_path) (\<lambda>p. Some (Inr (buffer_parser_new p)))"

text \<open>The reader that is there before one is set is an argument.\<close>

definition reader_parser_new :: "'r \<Rightarrow> log_parser \<Rightarrow> 'r reader_parser" where
  "reader_parser_new reader p = \<lparr>rp_reader = reader, rp_log_parser = p, rp_done = False\<rparr>"

definition reader_parser_from_file ::
  "'r \<Rightarrow> ((nat \<times> nat) list \<Rightarrow> (nat \<times> nat) list) \<Rightarrow> (nat \<Rightarrow> char) \<Rightarrow> (string \<Rightarrow> fopen_result) \<Rightarrow>
     schema_value lalr1_parser res option \<Rightarrow> string \<Rightarrow> 'r reader_parser res option" where
  "reader_parser_from_file reader ord junk fopen schema_parser schema_file_path =
     cbind (log_parser_from_file ord junk fopen schema_parser schema_file_path) (\<lambda>p. Some (Inr (reader_parser_new reader p)))"

section \<open>Schemas that are put together from strings\<close>

definition schema_add_variable_string ::
  "schema_value lalr1_parser res option \<Rightarrow> string \<Rightarrow> int \<Rightarrow> schema_ast \<Rightarrow> schema_ast res option" where
  "schema_add_variable_string schema_parser var_schema inverse_priority schema =
     cbind (schema_of (try_schema_string schema_parser var_schema)) (\<lambda>ast.
       Some (schema_add_variable (\<lambda>_. Inr ast) var_schema inverse_priority schema))"

definition schema_add_delimiters_string ::
  "schema_value lalr1_parser res option \<Rightarrow> string \<Rightarrow> schema_ast \<Rightarrow> schema_ast res option" where
  "schema_add_delimiters_string schema_parser delimiters_schema schema =
     cbind (schema_of (try_schema_string schema_parser delimiters_schema)) (\<lambda>ast.
       Some (schema_add_delimiters (\<lambda>_. Inr ast) delimiters_schema schema))"

lemma schema_of_file_missing:
  "fopen path = NoSuchFile \<or> fopen path = OpenFailed \<Longrightarrow> schema_from_file fopen sp path = Some (Inl RuntimeError)"
  by (auto simp: schema_from_file_def schema_of_def try_schema_file_def fr_try_open_def Let_def)

end
