(* ===== verification/Spec2Isabelle.thy ===== *)
theory Spec2Isabelle
  imports Regex_Group Nfa_Tags Wildcard_Query Log_Session Schema_Api
begin

text \<open>
  log-surgeon: a model of the regular-expression core of the log parser and its correctness.

  The program (\<^verbatim>\<open>src/src/log_surgeon\<close>) turns schema rules into lexical rules with
  regular expressions, a tagged NFA for all of them and from it a tagged DFA with registers, which
  the lexer runs over log text; the positions of captures are kept in the registers as paths of a
  prefix tree.

  The theories, in the order the code builds on its parts:
  \<^item> \<open>LS_Prelude\<close>: exceptions and results, machine integers, decimal text, the locale
    \<open>op_simulation\<close> for refinements by sequences of operations.
  \<^item> \<open>Ordered_Containers\<close>: the ordered containers of the C++ library as sorted lists,
    with the locale \<open>keyed_order\<close> of comparisons that are given by a key.
  \<^item> \<open>Prefix_Tree\<close>, \<open>Register_Handler\<close>, \<open>Tag_Register_Ops\<close>: positions, registers and the
    operations on them (\<^verbatim>\<open>PrefixTree\<close>, \<^verbatim>\<open>RegisterHandler\<close>,
    \<^verbatim>\<open>TagOperation\<close>, \<^verbatim>\<open>RegisterOperation\<close>,
    \<^verbatim>\<open>Dfa::process_reg_ops\<close>).
  \<^item> \<open>Regex_Group\<close>, \<open>Regex_Ast\<close>, \<open>Regex_Language\<close>: the syntax trees of
    \<^verbatim>\<open>RegexAST.hpp\<close> and the languages they stand for.
  \<^item> \<open>Nfa\<close>, \<open>Nfa_Construction\<close>, \<open>Nfa_Tags\<close>: NFA states, \<^verbatim>\<open>add_to_nfa\<close> of
    every node, \<^verbatim>\<open>LexicalRule\<close>, and the tags of captures.
  \<^item> \<open>Determinization\<close>, \<open>Dfa\<close>, \<open>Dfa_Correct\<close>, \<open>Dfa_Intersect\<close>: configurations, the
    determinization with its register operations, what the result accepts, and
    \<^verbatim>\<open>get_intersect\<close>.

  States and nodes that the code points to are positions of lists; exceptions are values of
  \<open>exn\<close> in a sum; loops that may not end are partial functions with \<open>None\<close> for a run without
  end, and a theorem that says when they return. This theory holds the properties that span
  several parts.
\<close>

section \<open>From lexical rules to the automaton\<close>

text \<open>
  C1: the automaton of the lexer is correct end to end: for rules without captures whose regexes
  are of the exact form, the NFA is determinized without exception in a finite number of steps,
  and the DFA accepts for each variable id exactly the words that the regex of one of its rules
  matches.
\<close>

theorem rules_dfa_exact:
  assumes "nfa_of_rules rules = Inr n" "nfa_size n \<le> 2 ^ 32" "rules_captures rules = {}"
    and "\<forall>rule \<in> set rules. ast_fresh (lr_regex rule) \<and> exact_form (lr_regex rule)"
  shows "\<exists>d. dfa_generate ord n = Some (Inr d) \<and> (\<forall>w v. dfa_accepts d w v \<longleftrightarrow>
    (\<exists>rule \<in> set rules. lr_variable_id rule = v \<and> w \<in> regex_lang (lr_regex rule)))"
proof -
  have "untagged n" using capture_free_untagged assms by blast
  with untagged_determinized [OF rules_nfa_small [OF assms(1,2)]] obtain d where
    "dfa_generate ord n = Some (Inr d)" "\<And>w v. dfa_accepts d w v \<longleftrightarrow> nfa_accepts n w v" by blast
  with nfa_of_rules_language [OF assms(1)] assms(4) show ?thesis
    by (auto simp: rule_build_def build_lang_exact)
qed

text \<open>
  C7: with captures, no match is lost from the rules to the DFA: whenever determinization
  returns, it has thrown nothing and the DFA accepts every word of every rule's regex for the
  rule's variable id.
\<close>

theorem rules_dfa_complete:
  assumes "nfa_of_rules rules = Inr n" "nfa_size n \<le> 2 ^ 32" "dfa_generate ord n = Some r"
    and "rule \<in> set rules" "w \<in> regex_lang (lr_regex rule)"
  shows "\<exists>d. r = Inr d \<and> dfa_accepts d w (lr_variable_id rule)"
proof -
  have "nfa_accepts n w (lr_variable_id rule)"
    using nfa_of_rules_language [OF assms(1)] assms(4,5) regex_lang_le_build
    by (fastforce simp: rule_build_def)
  with determinized [OF assms(3) rules_nfa_small [OF assms(1,2)]] show ?thesis by metis
qed


section \<open>Witnesses\<close>

text \<open>One rule without captures: the word \<open>a\<close> for the variable 5.\<close>

definition plain_rules :: "lexical_rule list" where
  "plain_rules = [\<lparr>lr_variable_id = 5, lr_regex = mk_literal 97\<rparr>]"

definition plain_nfa :: nfa where
  "plain_nfa = (case nfa_of_rules plain_rules of Inr n \<Rightarrow> n | Inl _ \<Rightarrow> nfa_empty)"

lemma plain_nfa: "nfa_of_rules plain_rules = Inr plain_nfa"
proof -
  have "\<not> (\<exists>rule \<in> set plain_rules. has_integer (lr_regex rule))"
    by (simp add: plain_rules_def mk_defs)
  with nfa_of_rules_answers [of plain_rules] show ?thesis by (auto simp: plain_nfa_def)
qed

lemma plain_rules_ok:
  "rules_captures plain_rules = {}"
  "\<forall>rule \<in> set plain_rules. ast_fresh (lr_regex rule) \<and> exact_form (lr_regex rule)"
  by (simp_all add: plain_rules_def mk_defs get_subtree_positive_captures_def
      get_negative_captures_def ast_fresh_def rules_captures_def
      lexical_rule_get_captures_def shares_loop_def)

lemma plain_nfa_size: "nfa_size plain_nfa \<le> 2 ^ 32"
  by (simp add: plain_nfa_def plain_rules_def nfa_of_rules_def lexical_rule_add_to_nfa_def new_state_def
      new_accepting_state_def nfa_empty_def nfa_emplace_def generate_id_def nfa_size_def mk_defs
      add_to_nfa_with_negative_captures_def add_with_negative_captures_def get_negative_captures_def
      add_root_interval_def nfa_update_state_def nfa_set_root_def Let_def split: prod.splits)

lemma plain_dfa: "\<exists>d. dfa_generate ord plain_nfa = Some (Inr d)"
  using untagged_determinized [OF rules_nfa_small [OF plain_nfa plain_nfa_size]
      capture_free_untagged [OF plain_nfa]] plain_rules_ok by blast

definition plain_dfa :: dfa where
  "plain_dfa = (case dfa_generate id plain_nfa of Some (Inr d) \<Rightarrow> d | _ \<Rightarrow> dfa_empty)"

lemma plain_dfa_generated: "dfa_generate id plain_nfa = Some (Inr plain_dfa)"
  using plain_dfa [of id] by (auto simp: plain_dfa_def)

theorem rules_dfa_exact_witness:
  "\<exists>d. dfa_generate id plain_nfa = Some (Inr d) \<and> (\<forall>w v. dfa_accepts d w v \<longleftrightarrow>
    (\<exists>rule \<in> set plain_rules. lr_variable_id rule = v \<and> w \<in> regex_lang (lr_regex rule)))"
  by (rule rules_dfa_exact [OF plain_nfa plain_nfa_size plain_rules_ok])

theorem rules_dfa_complete_witness: "dfa_accepts plain_dfa [97] 5"
  using rules_dfa_complete [OF plain_nfa plain_nfa_size plain_dfa_generated, of "hd plain_rules" "[97]"]
  by (auto simp: plain_rules_def mk_defs cSizeOfByte_def)


end
